(* ===== verification/Prelude.thy ===== *)
theory Prelude
  imports Main "HOL-Library.AList"
begin

text \<open>
  Shared vocabulary of the development: the Python exceptions that the modelled code
  raises, the result type of fallible operations, Python dictionaries as association
  lists in insertion order, and the generic lemmas on them that the component theories use.
\<close>

section \<open>Exceptions and results\<close>

text \<open>
  One constructor per exception class that the modelled sources raise. The classes whose
  identity is tested by the code (\<open>isinstance\<close> in \<open>_is_spammy_exception\<close> and friends) are
  constructors of their own; the message is kept where the source builds one.
\<close>

datatype py_exc =
    ValueError string
  | KeyError
  | TypeError string
  | AssertionError string
  | RuntimeError string
  | IndexError
  | ZeroDivisionError
  | NotImplementedError
  | NodeFailurePropagationException
  | ExpectedUdfException string
  | MissingJsonPath string
  | RPCException string
  | InvalidDynamicReturnType
  | OtherException string

type_synonym 'a result = "py_exc + 'a"

definition bindR :: "'e + 'a \<Rightarrow> ('a \<Rightarrow> 'e + 'b) \<Rightarrow> 'e + 'b" where
  "bindR m f = (case m of Inl e \<Rightarrow> Inl e | Inr x \<Rightarrow> f x)"

lemma bindR_simps [simp]:
  "bindR (Inl e) f = Inl e"
  "bindR (Inr x) f = f x"
  by (simp_all add: bindR_def)

lemma bindR_Inr_conv: "bindR m f = Inr y \<longleftrightarrow> (\<exists>x. m = Inr x \<and> f x = Inr y)"
  by (cases m) simp_all

lemma bindR_Inl_conv: "bindR m f = Inl e \<longleftrightarrow> m = Inl e \<or> (\<exists>x. m = Inr x \<and> f x = Inl e)"
  by (cases m) simp_all

lemma bindR_cong [fundef_cong]:
  "m = m' \<Longrightarrow> (\<And>x. m' = Inr x \<Longrightarrow> f x = f' x) \<Longrightarrow> bindR m f = bindR m' f'"
  by (cases m') simp_all

text \<open>A list comprehension whose element expression may raise: left to right, first error wins.\<close>

fun mapR :: "('a \<Rightarrow> 'e + 'b) \<Rightarrow> 'a list \<Rightarrow> 'e + 'b list" where
  "mapR f [] = Inr []"
| "mapR f (x # xs) = bindR (f x) (\<lambda>y. bindR (mapR f xs) (\<lambda>ys. Inr (y # ys)))"

lemma mapR_cong [fundef_cong]:
  "xs = ys \<Longrightarrow> (\<And>x. x \<in> set ys \<Longrightarrow> f x = g x) \<Longrightarrow> mapR f xs = mapR g ys"
  by (induction xs arbitrary: ys) auto

lemma mapR_Inr_conv: "mapR f xs = Inr ys \<longleftrightarrow> list_all2 (\<lambda>x y. f x = Inr y) xs ys"
  by (induction xs arbitrary: ys) (auto simp: bindR_Inr_conv list_all2_Cons1)

lemma mapR_length: "mapR f xs = Inr ys \<Longrightarrow> length ys = length xs"
  by (simp add: mapR_Inr_conv list_all2_lengthD)

lemma mapR_all_Inr: "(\<And>x. x \<in> set xs \<Longrightarrow> \<exists>y. f x = Inr y) \<Longrightarrow> \<exists>ys. mapR f xs = Inr ys"
proof (induction xs)
  case (Cons x xs)
  then obtain y ys where "f x = Inr y" "mapR f xs = Inr ys" by fastforce
  then show ?case by simp
qed simp

text \<open>A loop whose body may raise; the state is what the body assigns.\<close>

fun loopR :: "('a \<Rightarrow> 's \<Rightarrow> 'e + 's) \<Rightarrow> 'a list \<Rightarrow> 's \<Rightarrow> 'e + 's" where
  "loopR f [] s = Inr s"
| "loopR f (x # xs) s = bindR (f x s) (loopR f xs)"

lemma loopR_cong [fundef_cong]:
  "xs = ys \<Longrightarrow> s = t \<Longrightarrow> (\<And>x s. x \<in> set ys \<Longrightarrow> f x s = g x s) \<Longrightarrow> loopR f xs s = loopR g ys t"
proof (induction xs arbitrary: ys s t)
  case (Cons x xs)
  have "loopR f xs s' = loopR g xs s'" for s' by (rule Cons.IH) (use Cons.prems in auto)
  with Cons.prems show ?case by (auto simp: bindR_def split: sum.splits)
qed auto

lemma loopR_append: "loopR f (xs @ ys) s = bindR (loopR f xs s) (loopR f ys)"
  by (induction xs arbitrary: s) (auto simp: bindR_def split: sum.splits)

text \<open>An invariant of the body is an invariant of the loop.\<close>

lemma loopR_invariant:
  assumes "loopR f xs s = Inr s'" and "P s"
    and "\<And>x s s'. x \<in> set xs \<Longrightarrow> P s \<Longrightarrow> f x s = Inr s' \<Longrightarrow> P s'"
  shows "P s'"
  using assms
proof (induction xs arbitrary: s)
  case (Cons x xs)
  then obtain s1 where "f x s = Inr s1" "loopR f xs s1 = Inr s'" by (auto simp: bindR_Inr_conv)
  with Cons show ?case by (metis list.set_intros)
qed simp

section \<open>Dictionaries in insertion order\<close>

text \<open>
  \<open>AList.update\<close> is Python's \<open>d[k] = v\<close>: an existing key keeps its place, a new one goes to
  the end. \<open>map_of\<close> is \<open>d.get(k)\<close>, and iteration over the dictionary is iteration over the list.
\<close>

type_synonym ('k, 'v) dict = "('k \<times> 'v) list"

abbreviation keys :: "('k, 'v) dict \<Rightarrow> 'k list" where
  "keys d \<equiv> map fst d"

abbreviation dvalues :: "('k, 'v) dict \<Rightarrow> 'v list" where
  "dvalues d \<equiv> map snd d"

named_theorems dict_simps

lemma map_of_update [dict_simps]: "map_of (AList.update k v d) = (map_of d)(k \<mapsto> v)"
  by (rule update_conv')

lemma update_fresh: "map_of d k = None \<Longrightarrow> AList.update k v d = d @ [(k, v)]"
  by (induction d) (auto split: if_splits)

lemma keys_update:
  "keys (AList.update k v d) = (if k \<in> set (keys d) then keys d else keys d @ [k])"
  by (simp add: update_keys)

lemma distinct_keys_update [dict_simps]:
  "distinct (keys d) \<Longrightarrow> distinct (keys (AList.update k v d))"
  by (rule distinct_update)

lemma set_keys_update [dict_simps]:
  "set (keys (AList.update k v d)) = insert k (set (keys d))"
  by (auto simp: update_keys)

lemma map_of_None_keys: "map_of d k = None \<longleftrightarrow> k \<notin> set (keys d)"
  by (induction d) auto

lemma map_of_Some_keys: "map_of d k = Some v \<Longrightarrow> k \<in> set (keys d)"
  by (force dest: map_of_SomeD)

lemma keys_map_of: "k \<in> set (keys d) \<Longrightarrow> \<exists>v. map_of d k = Some v"
  by (metis map_of_None_keys not_None_eq)

lemma keys_nth: "i < length d \<Longrightarrow> keys d ! i = fst (d ! i)"
  by simp

text \<open>A sum over a dictionary moves by the difference at the key that is stored.\<close>

lemma sum_list_update:
  fixes f :: "'k \<times> 'v \<Rightarrow> nat"
  assumes "distinct (keys d)" and "map_of d k = Some x"
  shows "sum_list (map f (AList.update k y d)) + f (k, x) = sum_list (map f d) + f (k, y)"
  using assms
proof (induction d)
  case (Cons p d)
  show ?case
  proof (cases "fst p = k")
    case True
    with Cons.prems have "p = (k, x)" by (cases p) simp
    with True show ?thesis by simp
  next
    case False
    with Cons show ?thesis by (cases p) (auto split: if_splits)
  qed
qed simp

lemma sum_list_map_cong_list:
  "(\<And>x. x \<in> set xs \<Longrightarrow> f x = g x) \<Longrightarrow> sum_list (map f xs) = sum_list (map g xs)"
  by (metis map_eq_conv)

lemma mapR_ex_iff: "(\<exists>ys. mapR f xs = Inr ys) \<longleftrightarrow> (\<forall>x \<in> set xs. \<exists>y. f x = Inr y)"
  by (induction xs) (auto simp: bindR_Inr_conv)

lemma list_all2_source: "list_all2 P xs ys \<Longrightarrow> y \<in> set ys \<Longrightarrow> \<exists>x \<in> set xs. P x y"
  by (induction rule: list_all2_induct) auto

lemma list_all2_target: "list_all2 P xs ys \<Longrightarrow> x \<in> set xs \<Longrightarrow> \<exists>y \<in> set ys. P x y"
  by (induction rule: list_all2_induct) auto

section \<open>Positions in a list\<close>

text \<open>\<open>before xs a b\<close>: \<open>a\<close> occurs in \<open>xs\<close> somewhere in front of an occurrence of \<open>b\<close>.\<close>

definition before :: "'a list \<Rightarrow> 'a \<Rightarrow> 'a \<Rightarrow> bool" where
  "before xs a b \<longleftrightarrow> (\<exists>us vs. xs = us @ b # vs \<and> a \<in> set us)"

lemma before_append1: "before xs a b \<Longrightarrow> before (xs @ ys) a b"
  by (force simp: before_def)

lemma before_append2: "a \<in> set xs \<Longrightarrow> b \<in> set ys \<Longrightarrow> before (xs @ ys) a b"
proof -
  assume a: "a \<in> set xs" and "b \<in> set ys"
  then obtain us vs where "ys = us @ b # vs" by (meson split_list)
  then have "xs @ ys = (xs @ us) @ b # vs" by simp
  then show ?thesis using a by (metis UnI1 before_def set_append)
qed

lemma before_snoc: "a \<in> set xs \<Longrightarrow> before (xs @ [b]) a b"
  by (rule before_append2) simp_all

lemma before_Cons: "before (x # xs) a b \<longleftrightarrow> (a = x \<and> b \<in> set xs) \<or> before xs a b"
proof
  assume "before (x # xs) a b"
  then obtain us vs where "x # xs = us @ b # vs" "a \<in> set us" by (auto simp: before_def)
  then show "(a = x \<and> b \<in> set xs) \<or> before xs a b" by (cases us) (auto simp: before_def)
next
  have "before ([x] @ xs) x b" if "b \<in> set xs" using that by (intro before_append2) simp_all
  moreover have "before (x # us @ b # vs) a b" if "a \<in> set us" for us vs
    unfolding before_def using that by (intro exI [of _ "x # us"] exI [of _ vs]) simp
  ultimately show "(a = x \<and> b \<in> set xs) \<or> before xs a b \<Longrightarrow> before (x # xs) a b"
    by (auto simp: before_def [of xs])
qed

lemma before_in_set: "before xs a b \<Longrightarrow> a \<in> set xs \<and> b \<in> set xs"
  by (auto simp: before_def)

lemma distinct_before_asym: "distinct xs \<Longrightarrow> before xs a b \<Longrightarrow> \<not> before xs b a"
  by (auto simp: before_def append_eq_append_conv2 append_eq_Cons_conv Cons_eq_append_conv)

lemma before_nth: "before xs a b \<longleftrightarrow> (\<exists>i j. i < j \<and> j < length xs \<and> xs ! i = a \<and> xs ! j = b)"
proof
  assume "before xs a b"
  then obtain us vs i where "xs = us @ b # vs" "i < length us" "us ! i = a"
    by (auto simp: before_def in_set_conv_nth)
  then show "\<exists>i j. i < j \<and> j < length xs \<and> xs ! i = a \<and> xs ! j = b"
    by (intro exI [of _ i] exI [of _ "length us"]) (simp add: nth_append)
next
  assume "\<exists>i j. i < j \<and> j < length xs \<and> xs ! i = a \<and> xs ! j = b"
  then obtain i j where ij: "i < j" "j < length xs" "xs ! i = a" "xs ! j = b" by blast
  then have "xs = take j xs @ b # drop (Suc j) xs" using id_take_nth_drop [of j xs] by simp
  moreover have "a \<in> set (take j xs)" using ij by (auto simp: in_set_conv_nth)
  ultimately show "before xs a b" unfolding before_def by blast
qed

lemma distinct_before_trans: "distinct xs \<Longrightarrow> before xs a b \<Longrightarrow> before xs b c \<Longrightarrow> before xs a c"
  unfolding before_nth by (metis distinct_conv_nth less_trans)

text \<open>A list that puts the source of every edge in front of its target contains no cycle.\<close>

lemma before_trancl:
  assumes "distinct xs" and "(a, b) \<in> R\<^sup>+" and "b \<in> set xs"
    and "\<And>u v. (u, v) \<in> R \<Longrightarrow> v \<in> set xs \<Longrightarrow> before xs u v"
  shows "before xs a b"
  using assms(2,3)
proof (induction rule: converse_trancl_induct)
  case (base y)
  then show ?case using assms(4) by blast
next
  case (step y z)
  then have "before xs z b" by blast
  with step assms(1,4) before_in_set distinct_before_trans show ?case by metis
qed

end
