(* ===== verification/Grammar.thy ===== *)
theory Grammar
  imports Prelude "HOL-Library.Word"
begin

text \<open>
  The abstract syntax of rules (\<open>ast/grammar.py\<close>) and the traversals of \<open>ast/ast_utils.py\<close>.
  Every Python class is a constructor of one datatype, because the code tells nodes apart by
  \<open>isinstance\<close>. A node carries its identity (what \<open>id\<close> returns, which validators and the executor
  use as a key) and its span; the \<open>parent\<close> pointer and the \<open>_source_annotation\<close> field of a
  \<open>Name\<close>, which are assigned after construction, are separate maps from node identities.
\<close>

section \<open>Nodes\<close>

record span =
  span_source :: string
  start_line :: int
  start_pos :: int

record meta =
  node_id :: nat
  node_span :: span

datatype ctx = Store | Load

datatype operator =
  Add | Subtract | Multiply | Divide | FloorDivide | Modulo | PowOp | LeftShift | RightShift
| BitwiseOr | BitwiseXor | BitwiseAnd

datatype unary_operator = NotOp | USub

datatype comparator =
  Equals | NotEquals | LessThan | LessThanEquals | GreaterThan | GreaterThanEquals | In | NotIn

datatype boolean_operand = And | Or

text \<open>A Python number: an unbounded integer, or the 64 bits of a float.\<close>

datatype number = IntN int | FloatN "64 word"

datatype ast_node =
  Root meta "ast_node list"
| Name meta string ctx
| StringLit meta string
| Number meta number
| Boolean meta bool
| NoneLit meta
| Assign meta ast_node ast_node "ast_node option"
| Call meta ast_node "ast_node list"
| Keyword meta string ast_node
| Operator meta operator
| BinaryOperation meta ast_node ast_node ast_node
| UnaryOperator meta unary_operator
| UnaryOperation meta ast_node ast_node
| Comparator meta comparator
| BinaryComparison meta ast_node ast_node ast_node
| BooleanOperand meta boolean_operand
| BooleanOperation meta "ast_node list" ast_node
| Attribute meta ast_node string ctx
| ListLit meta "ast_node list"
| FormatString meta string "ast_node list"
| Annotation meta string
| AnnotationWithVariants meta string "ast_node list"

fun meta_of :: "ast_node \<Rightarrow> meta" where
  "meta_of (Root m _) = m"
| "meta_of (Name m _ _) = m"
| "meta_of (StringLit m _) = m"
| "meta_of (Number m _) = m"
| "meta_of (Boolean m _) = m"
| "meta_of (NoneLit m) = m"
| "meta_of (Assign m _ _ _) = m"
| "meta_of (Call m _ _) = m"
| "meta_of (Keyword m _ _) = m"
| "meta_of (Operator m _) = m"
| "meta_of (BinaryOperation m _ _ _) = m"
| "meta_of (UnaryOperator m _) = m"
| "meta_of (UnaryOperation m _ _) = m"
| "meta_of (Comparator m _) = m"
| "meta_of (BinaryComparison m _ _ _) = m"
| "meta_of (BooleanOperand m _) = m"
| "meta_of (BooleanOperation m _ _) = m"
| "meta_of (Attribute m _ _ _) = m"
| "meta_of (ListLit m _) = m"
| "meta_of (FormatString m _ _) = m"
| "meta_of (Annotation m _) = m"
| "meta_of (AnnotationWithVariants m _ _) = m"

definition nid :: "ast_node \<Rightarrow> nat" where
  "nid n = node_id (meta_of n)"

definition span_of :: "ast_node \<Rightarrow> span" where
  "span_of n = node_span (meta_of n)"

text \<open>The abstract base classes, as the sets of constructors that inherit from them.\<close>

definition is_literal :: "ast_node \<Rightarrow> bool" where
  "is_literal n = (case n of StringLit _ _ \<Rightarrow> True | Number _ _ \<Rightarrow> True | Boolean _ _ \<Rightarrow> True
     | NoneLit _ \<Rightarrow> True | ListLit _ _ \<Rightarrow> True | _ \<Rightarrow> False)"

definition is_statement :: "ast_node \<Rightarrow> bool" where
  "is_statement n = (case n of Assign _ _ _ _ \<Rightarrow> True | Call _ _ _ \<Rightarrow> True | _ \<Rightarrow> False)"

definition is_expression :: "ast_node \<Rightarrow> bool" where
  "is_expression n \<longleftrightarrow> is_literal n \<or>
     (case n of Name _ _ _ \<Rightarrow> True | Call _ _ _ \<Rightarrow> True | BinaryOperation _ _ _ _ \<Rightarrow> True
      | UnaryOperation _ _ _ \<Rightarrow> True | BinaryComparison _ _ _ _ \<Rightarrow> True
      | BooleanOperation _ _ _ \<Rightarrow> True | Attribute _ _ _ _ \<Rightarrow> True | FormatString _ _ _ \<Rightarrow> True
      | Annotation _ _ \<Rightarrow> True | AnnotationWithVariants _ _ _ \<Rightarrow> True | _ \<Rightarrow> False)"

definition is_name :: "ast_node \<Rightarrow> bool" where
  "is_name n = (case n of Name _ _ _ \<Rightarrow> True | _ \<Rightarrow> False)"

definition is_call :: "ast_node \<Rightarrow> bool" where
  "is_call n = (case n of Call _ _ _ \<Rightarrow> True | _ \<Rightarrow> False)"

definition is_annotation :: "ast_node \<Rightarrow> bool" where
  "is_annotation n = (case n of Annotation _ _ \<Rightarrow> True | AnnotationWithVariants _ _ _ \<Rightarrow> True | _ \<Rightarrow> False)"

section \<open>Names\<close>

text \<open>\<open>Name.is_local\<close> and \<open>Name.identifier_key\<close>.\<close>

definition is_local :: "string \<Rightarrow> bool" where
  "is_local ident = (case ident of [] \<Rightarrow> False | c # _ \<Rightarrow> c = CHR ''_'')"

definition identifier_key :: "meta \<Rightarrow> string \<Rightarrow> string" where
  "identifier_key m ident =
     (if is_local ident then span_source (node_span m) @ ''/'' @ ident else ident)"

section \<open>Traversal\<close>

text \<open>
  The fields of a node in the order of \<open>iter_field_values\<close>, flattened: a node field is one
  element, a list field its elements; other fields are skipped by every caller. The annotation
  that \<open>set_source_annotation\<close> stored in a \<open>Name\<close> is a field too.
\<close>

datatype source_annotation = Unset | NoAnnotation | HasAnnotation ast_node

type_synonym annotations = "nat \<Rightarrow> source_annotation"

fun child_nodes :: "ast_node \<Rightarrow> ast_node list" where
  "child_nodes (Root _ ss) = ss"
| "child_nodes (Assign _ t v a) = t # v # (case a of None \<Rightarrow> [] | Some x \<Rightarrow> [x])"
| "child_nodes (Call _ f as) = f # as"
| "child_nodes (Keyword _ _ v) = [v]"
| "child_nodes (BinaryOperation _ l r op) = [l, r, op]"
| "child_nodes (UnaryOperation _ x op) = [x, op]"
| "child_nodes (BinaryComparison _ l r op) = [l, r, op]"
| "child_nodes (BooleanOperation _ vs op) = vs @ [op]"
| "child_nodes (Attribute _ n _ _) = [n]"
| "child_nodes (ListLit _ xs) = xs"
| "child_nodes (FormatString _ _ ns) = ns"
| "child_nodes (AnnotationWithVariants _ _ vs) = vs"
| "child_nodes _ = []"

definition annotation_field :: "annotations \<Rightarrow> ast_node \<Rightarrow> ast_node list" where
  "annotation_field ann n =
     (case n of Name m _ _ \<Rightarrow> (case ann (node_id m) of HasAnnotation a \<Rightarrow> [a] | _ \<Rightarrow> []) | _ \<Rightarrow> [])"

lemma child_size: "c \<in> set (child_nodes n) \<Longrightarrow> size c < size n"
  by (cases n) (auto split: option.splits dest!: size_list_estimation' [OF _ order_refl, of _ _ size])

text \<open>The nodes of an annotation, which contains no names.\<close>

function iter_tree :: "ast_node \<Rightarrow> ast_node list" where
  "iter_tree n = n # concat (map iter_tree (child_nodes n))"
  by pat_completeness auto
termination by (relation "measure size") (simp_all add: child_size)

declare iter_tree.simps [simp del]

text \<open>\<open>iter_nodes\<close>: pre-order, where a name is followed by its source annotation if it has one.\<close>

function iter_nodes_ast :: "annotations \<Rightarrow> ast_node \<Rightarrow> ast_node list" where
  "iter_nodes_ast ann n =
     n # concat (map iter_tree (annotation_field ann n)) @
         concat (map (iter_nodes_ast ann) (child_nodes n))"
  by pat_completeness auto
termination by (relation "measure (size \<circ> snd)") (simp_all add: child_size)

declare iter_nodes_ast.simps [simp del]

definition filter_nodes :: "annotations \<Rightarrow> ast_node \<Rightarrow> (ast_node \<Rightarrow> bool) \<Rightarrow> ast_node list" where
  "filter_nodes ann root ty = filter ty (iter_nodes_ast ann root)"

section \<open>Constants and secrets\<close>

text \<open>
  \<open>is_constant\<close> of the classes that implement \<open>IsConstant\<close>. A list accepts every item that is a
  \<open>Literal\<close> without looking into it.
\<close>

definition has_is_constant :: "ast_node \<Rightarrow> bool" where
  "has_is_constant n \<longleftrightarrow> is_literal n \<or>
     (case n of Assign _ _ _ _ \<Rightarrow> True | FormatString _ _ _ \<Rightarrow> True | _ \<Rightarrow> False)"

fun is_constant :: "ast_node \<Rightarrow> bool" where
  "is_constant (ListLit _ items) =
     list_all (\<lambda>item. is_literal item \<or> has_is_constant item \<and> is_constant item) items"
| "is_constant (Assign _ _ v _) = (has_is_constant v \<and> is_constant v)"
| "is_constant n = is_literal n"

definition Secret :: string where "Secret = ''Secret''"
definition ExtractSecret :: string where "ExtractSecret = ''ExtractSecret''"
definition ExtractLiteral :: string where "ExtractLiteral = ''ExtractLiteral''"

text \<open>\<open>not any(x.can_extract is False for x in xs)\<close>: stops at the first \<open>False\<close>.\<close>

fun none_false :: "bool result list \<Rightarrow> bool result" where
  "none_false [] = Inr True"
| "none_false (r # rs) = bindR r (\<lambda>b. if b then none_false rs else Inr False)"

fun annotation_identifier :: "ast_node \<Rightarrow> string" where
  "annotation_identifier (Annotation _ i) = i"
| "annotation_identifier (AnnotationWithVariants _ i _) = i"
| "annotation_identifier _ = []"

fun annotation_can_extract :: "ast_node \<Rightarrow> bool result" where
  "annotation_can_extract (Annotation _ _) = Inr True"
| "annotation_can_extract (AnnotationWithVariants _ i vs) =
     (if i = Secret then Inr False
      else if i = ExtractSecret then Inr True
      else none_false (map annotation_can_extract vs))"
| "annotation_can_extract _ = Inl (OtherException ''AttributeError'')"

fun can_extract :: "annotations \<Rightarrow> ast_node \<Rightarrow> bool result" where
  "can_extract ann (Name m _ _) =
     (case ann (node_id m) of
        Unset \<Rightarrow> Inl (RuntimeError ''_source_annotation accessed before being set'')
      | HasAnnotation a \<Rightarrow> annotation_can_extract a
      | NoAnnotation \<Rightarrow> Inr True)"
| "can_extract ann (StringLit _ _) = Inr True"
| "can_extract ann (Number _ _) = Inr True"
| "can_extract ann (Boolean _ _) = Inr True"
| "can_extract ann (NoneLit _) = Inr True"
| "can_extract ann (ListLit _ items) = none_false (map (can_extract ann) items)"
| "can_extract ann (Assign _ _ v a) =
     bindR (case a of None \<Rightarrow> Inr True | Some x \<Rightarrow> annotation_can_extract x) (\<lambda>b.
       if \<not> b then Inr False
       else if a \<noteq> None \<and> annotation_identifier (the a) = ExtractSecret then Inr True
       else can_extract ann v)"
| "can_extract ann (Call _ _ args) = none_false (map (can_extract ann) args)"
| "can_extract ann (Keyword _ _ v) = can_extract ann v"
| "can_extract ann (BinaryOperation _ _ _ _) = Inr True"
| "can_extract ann (UnaryOperation _ _ _) = Inr True"
| "can_extract ann (BinaryComparison _ _ _ _) = Inr True"
| "can_extract ann (BooleanOperation _ _ _) = Inr True"
| "can_extract ann (Attribute _ n _ _) = can_extract ann n"
| "can_extract ann (FormatString _ _ names) = none_false (map (can_extract ann) names)"
| "can_extract ann (Annotation m i) = annotation_can_extract (Annotation m i)"
| "can_extract ann (AnnotationWithVariants m i vs) =
     annotation_can_extract (AnnotationWithVariants m i vs)"
| "can_extract ann _ = Inl (OtherException ''AttributeError'')"

definition should_extract :: "annotations \<Rightarrow> ast_node \<Rightarrow> bool result" where
  "should_extract ann n =
     (case n of
        Assign m (Name tm target tc) v a \<Rightarrow>
          (if a \<noteq> None \<and> annotation_identifier (the a) = ExtractLiteral then Inr True
           else if is_local target \<or> is_constant n then Inr False
           else if a \<noteq> None \<and> annotation_identifier (the a) = ExtractSecret then Inr True
           else can_extract ann n)
      | _ \<Rightarrow> Inl (OtherException ''AttributeError''))"

section \<open>Well-formed trees\<close>

text \<open>What the type annotations of the classes promise of the fields.\<close>

fun wf_annotation :: "ast_node \<Rightarrow> bool" where
  "wf_annotation (Annotation _ _) = True"
| "wf_annotation (AnnotationWithVariants _ _ vs) = list_all wf_annotation vs"
| "wf_annotation _ = False"

fun wf_expr :: "ast_node \<Rightarrow> bool" where
  "wf_expr (Name _ _ _) = True"
| "wf_expr (StringLit _ _) = True"
| "wf_expr (Number _ _) = True"
| "wf_expr (Boolean _ _) = True"
| "wf_expr (NoneLit _) = True"
| "wf_expr (ListLit _ xs) = list_all wf_expr xs"
| "wf_expr (Call _ f as) =
     ((case f of Name _ _ _ \<Rightarrow> True | Attribute _ (Name _ _ _) _ _ \<Rightarrow> True | _ \<Rightarrow> False) \<and>
      list_all (\<lambda>k. case k of Keyword _ _ v \<Rightarrow> wf_expr v | _ \<Rightarrow> False) as)"
| "wf_expr (BinaryOperation _ l r op) =
     (wf_expr l \<and> wf_expr r \<and> (case op of Operator _ _ \<Rightarrow> True | _ \<Rightarrow> False))"
| "wf_expr (UnaryOperation _ x op) =
     (wf_expr x \<and> (case op of UnaryOperator _ _ \<Rightarrow> True | _ \<Rightarrow> False))"
| "wf_expr (BinaryComparison _ l r op) =
     (wf_expr l \<and> wf_expr r \<and> (case op of Comparator _ _ \<Rightarrow> True | _ \<Rightarrow> False))"
| "wf_expr (BooleanOperation _ vs op) =
     (list_all wf_expr vs \<and> (case op of BooleanOperand _ _ \<Rightarrow> True | _ \<Rightarrow> False))"
| "wf_expr (Attribute _ n _ _) = is_name n"
| "wf_expr (FormatString _ _ ns) = list_all is_name ns"
| "wf_expr _ = False"

fun wf_stmt :: "ast_node \<Rightarrow> bool" where
  "wf_stmt (Assign _ t v a) =
     (is_name t \<and> wf_expr v \<and> (case a of None \<Rightarrow> True | Some x \<Rightarrow> wf_annotation x))"
| "wf_stmt (Call m f as) = wf_expr (Call m f as)"
| "wf_stmt _ = False"

fun wf_root :: "ast_node \<Rightarrow> bool" where
  "wf_root (Root _ ss) = list_all wf_stmt ss"
| "wf_root _ = False"

section \<open>Secrets percolate\<close>

lemma none_false_total: "(\<And>r. r \<in> set rs \<Longrightarrow> \<exists>b. r = Inr b) \<Longrightarrow> none_false rs = Inr (Inr False \<notin> set rs)"
proof (induction rs)
  case (Cons r rs)
  from Cons.prems [of r] obtain b where "r = Inr b" by auto
  with Cons show ?case by auto
qed simp

lemma none_false_map:
  assumes "\<And>x. x \<in> set xs \<Longrightarrow> \<exists>b. f x = Inr b"
  shows "none_false (map f xs) = Inr (\<forall>x \<in> set xs. f x \<noteq> Inr False)"
proof -
  have "none_false (map f xs) = Inr (Inr False \<notin> set (map f xs))"
    using assms by (intro none_false_total) auto
  then show ?thesis by (auto simp: image_iff)
qed

lemma annotation_can_extract_total: "wf_annotation a \<Longrightarrow> \<exists>b. annotation_can_extract a = Inr b"
proof (induction a rule: wf_annotation.induct)
  case (2 m i vs)
  then have "\<And>x. x \<in> set vs \<Longrightarrow> \<exists>b. annotation_can_extract x = Inr b" by (auto simp: list_all_iff)
  from none_false_map [of vs annotation_can_extract, OF this] show ?case by auto
qed auto

definition name_annotated :: "annotations \<Rightarrow> ast_node \<Rightarrow> bool" where
  "name_annotated ann n =
     (case n of
        Name m _ _ \<Rightarrow> (case ann (node_id m) of Unset \<Rightarrow> False | NoAnnotation \<Rightarrow> True
                         | HasAnnotation a \<Rightarrow> wf_annotation a)
      | _ \<Rightarrow> True)"

definition names_annotated :: "annotations \<Rightarrow> ast_node \<Rightarrow> bool" where
  "names_annotated ann n \<longleftrightarrow> (\<forall>x \<in> set (iter_tree n). name_annotated ann x)"

text \<open>The fields whose \<open>can_extract\<close> decides the \<open>can_extract\<close> of the node.\<close>

fun propagates :: "ast_node \<Rightarrow> ast_node list" where
  "propagates (ListLit _ items) = items"
| "propagates (Call _ _ args) = args"
| "propagates (Keyword _ _ v) = [v]"
| "propagates (Attribute _ n _ _) = [n]"
| "propagates (FormatString _ _ names) = names"
| "propagates _ = []"

inductive reads :: "ast_node \<Rightarrow> ast_node \<Rightarrow> bool" where
  reads_self: "reads n n"
| reads_child: "c \<in> set (propagates n) \<Longrightarrow> reads c x \<Longrightarrow> reads n x"

inductive_simps reads_simps: "reads n x"

definition secret_name :: "annotations \<Rightarrow> ast_node \<Rightarrow> bool" where
  "secret_name ann n = (case n of
     Name m _ _ \<Rightarrow> (case ann (node_id m) of HasAnnotation a \<Rightarrow> annotation_can_extract a = Inr False
                      | _ \<Rightarrow> False)
   | _ \<Rightarrow> False)"

lemma propagates_child: "c \<in> set (propagates n) \<Longrightarrow> c \<in> set (child_nodes n)"
  by (cases n) auto

lemma names_annotated_child: "names_annotated ann n \<Longrightarrow> c \<in> set (child_nodes n) \<Longrightarrow> names_annotated ann c"
  unfolding names_annotated_def iter_tree.simps [of n] by auto

lemma names_annotated_self: "names_annotated ann n \<Longrightarrow> name_annotated ann n"
  unfolding names_annotated_def iter_tree.simps [of n] by simp

definition wf_arg :: "ast_node \<Rightarrow> bool" where
  "wf_arg n \<longleftrightarrow> wf_expr n \<or> (case n of Keyword _ _ v \<Rightarrow> wf_expr v | _ \<Rightarrow> False)"

lemma wf_arg_propagates: "wf_arg n \<Longrightarrow> c \<in> set (propagates n) \<Longrightarrow> wf_arg c"
proof -
  have "is_name x \<Longrightarrow> wf_expr x" for x by (cases x) (simp_all add: is_name_def)
  then show "wf_arg n \<Longrightarrow> c \<in> set (propagates n) \<Longrightarrow> wf_arg c"
    by (cases n) (auto simp: wf_arg_def list_all_iff split: ast_node.splits)
qed

text \<open>\<open>can_extract\<close> is decided: by the name itself, or by the fields that propagate.\<close>

lemma can_extract_step:
  assumes "wf_arg n" and "names_annotated ann n"
    and "\<And>c. c \<in> set (propagates n) \<Longrightarrow> \<exists>b. can_extract ann c = Inr b"
  shows "can_extract ann n =
    Inr (\<not> secret_name ann n \<and> (\<forall>c \<in> set (propagates n). can_extract ann c \<noteq> Inr False))"
proof (cases n)
  case (Name m i c)
  with names_annotated_self [OF assms(2)] show ?thesis
    by (auto simp: name_annotated_def secret_name_def split: source_annotation.splits
        dest!: annotation_can_extract_total)
next
  case (Call m f args)
  with assms(3) none_false_map [of args "can_extract ann"] show ?thesis
    by (simp add: secret_name_def)
next
  case (ListLit m xs)
  with assms(3) none_false_map [of xs "can_extract ann"] show ?thesis
    by (simp add: secret_name_def)
next
  case (FormatString m s xs)
  with assms(3) none_false_map [of xs "can_extract ann"] show ?thesis
    by (simp add: secret_name_def)
next
  case (Keyword m k v)
  with assms(3) [of v] show ?thesis by (auto simp: secret_name_def)
next
  case (Attribute m x a c)
  with assms(3) [of x] show ?thesis by (auto simp: secret_name_def)
qed (use assms(1) in \<open>simp_all add: wf_arg_def secret_name_def\<close>)

lemma can_extract_iff:
  "wf_arg n \<Longrightarrow> names_annotated ann n \<Longrightarrow>
     can_extract ann n = Inr (\<not> (\<exists>x. reads n x \<and> secret_name ann x))"
proof (induction n rule: measure_induct_rule [of size])
  case (less n)
  have IH: "can_extract ann c = Inr (\<not> (\<exists>x. reads c x \<and> secret_name ann x))"
    if "c \<in> set (propagates n)" for c
    using that less propagates_child wf_arg_propagates names_annotated_child child_size by blast
  have "can_extract ann n =
      Inr (\<not> secret_name ann n \<and> (\<forall>c \<in> set (propagates n). can_extract ann c \<noteq> Inr False))"
    using can_extract_step [OF less.prems] IH by blast
  moreover have "(\<exists>x. reads n x \<and> secret_name ann x) \<longleftrightarrow>
      secret_name ann n \<or> (\<exists>c \<in> set (propagates n). \<exists>x. reads c x \<and> secret_name ann x)"
    by (subst reads_simps) auto
  ultimately show ?case using IH by auto
qed

lemma last_separator:
  "p @ c # i = q @ c # j \<Longrightarrow> c \<notin> set i \<Longrightarrow> c \<notin> set j \<Longrightarrow> p = q \<and> i = j"
  by (auto simp: append_eq_append_conv2 append_eq_Cons_conv Cons_eq_append_conv)

section \<open>Properties\<close>

text \<open>
  On a well-formed assignment whose names were annotated, \<open>should_extract\<close> never raises.
  Without an overriding annotation it extracts a global, non-constant feature exactly when the
  value reads no secret name directly, as an argument, list item, attribute or interpolated
  name, at any depth.
\<close>

theorem should_extract_decides:
  assumes "wf_expr v" and "names_annotated ann v" and "\<not> is_local target"
    and "\<not> is_constant v"
  shows "should_extract ann (Assign m (Name tm target tc) v None) =
    Inr (\<not> (\<exists>x. reads v x \<and> secret_name ann x))"
proof -
  have "\<not> is_constant (Assign m (Name tm target tc) v None)" using assms(4) by simp
  moreover have "can_extract ann v = Inr (\<not> (\<exists>x. reads v x \<and> secret_name ann x))"
    using can_extract_iff [OF _ assms(2)] assms(1) by (simp add: wf_arg_def)
  ultimately show ?thesis using assms(3) by (auto simp: should_extract_def)
qed

text \<open>
  Operators do not propagate secrets: the result of an operation or a comparison on secret
  names is extracted even though everything that depends on secret information should not be.
\<close>

theorem operation_reveals_secret:
  assumes "\<not> is_local target"
  shows "should_extract ann (Assign m (Name tm target tc) (BinaryOperation bm l r op) None) = Inr True"
  using assms by (simp add: should_extract_def has_is_constant_def is_literal_def)

text \<open>
  \<open>is_constant\<close> looks only one level into a list: a list of lists counts as constant
  whatever the inner lists contain, so a feature that collects values that way is not extracted.
\<close>

theorem nested_list_constant:
  assumes "\<not> is_local target" and "\<And>item. item \<in> set items \<Longrightarrow> is_literal item"
  shows "should_extract ann (Assign m (Name tm target tc) (ListLit lm items) None) = Inr False"
  using assms by (simp add: should_extract_def has_is_constant_def is_literal_def list_all_iff)

text \<open>
  \<open>identifier_key\<close> is unique across sources: two names have the same key only if they
  have the same identifier and, when that is local, come from the same source.
\<close>

theorem identifier_key_unique:
  assumes "CHR ''/'' \<notin> set i" and "CHR ''/'' \<notin> set j"
    and "identifier_key m i = identifier_key n j"
  shows "i = j \<and> (is_local i \<longrightarrow> span_source (node_span m) = span_source (node_span n))"
proof (cases "is_local i")
  case True
  then have k: "identifier_key m i = span_source (node_span m) @ ''/'' @ i"
    by (simp add: identifier_key_def)
  show ?thesis
  proof (cases "is_local j")
    case True
    then have "identifier_key n j = span_source (node_span n) @ ''/'' @ j"
      by (simp add: identifier_key_def)
    with k assms last_separator show ?thesis by (metis append_Cons append_Nil)
  next
    case False
    then have "identifier_key n j = j" by (simp add: identifier_key_def)
    with k assms show ?thesis by auto
  qed
next
  case False
  then have k: "identifier_key m i = i" by (simp add: identifier_key_def)
  show ?thesis
  proof (cases "is_local j")
    case True
    then have "identifier_key n j = span_source (node_span n) @ ''/'' @ j"
      by (simp add: identifier_key_def)
    with k assms show ?thesis by auto
  next
    case False
    then show ?thesis using k assms \<open>\<not> is_local i\<close> by (simp add: identifier_key_def)
  qed
qed

section \<open>Concrete inputs\<close>

definition demo_meta :: "nat \<Rightarrow> meta" where
  "demo_meta k = \<lparr>node_id = k, node_span = \<lparr>span_source = ''main.sml'', start_line = 1, start_pos = 0\<rparr>\<rparr>"

definition demo_secret_name :: ast_node where
  "demo_secret_name = Name (demo_meta 7) ''Token'' Load"

definition demo_annotations :: annotations where
  "demo_annotations k =
     (if k = 7 then HasAnnotation (AnnotationWithVariants (demo_meta 8) ''Secret'' [Annotation (demo_meta 9) ''str''])
      else NoAnnotation)"

definition demo_format :: ast_node where
  "demo_format = FormatString (demo_meta 5) ''x{Token}'' [demo_secret_name]"

lemma demo_reads: "reads demo_format demo_secret_name"
  by (rule reads_child [OF _ reads_self]) (simp add: demo_format_def)

lemma demo_secret: "secret_name demo_annotations demo_secret_name" by code_simp

theorem should_extract_decides_witness:
  "should_extract demo_annotations (Assign (demo_meta 1) (Name (demo_meta 2) ''Text'' Store) demo_format None) = Inr False"
proof -
  have "wf_expr demo_format" "\<not> is_local ''Text''" "\<not> is_constant demo_format" by code_simp+
  moreover have "names_annotated demo_annotations demo_format"
    by (simp add: names_annotated_def iter_tree.simps demo_format_def demo_secret_name_def
        name_annotated_def demo_annotations_def demo_meta_def)
  ultimately show ?thesis
    using should_extract_decides [of demo_format demo_annotations "''Text''"] demo_reads demo_secret by auto
qed

theorem operation_reveals_secret_witness:
  "secret_name demo_annotations demo_secret_name \<and>
   should_extract demo_annotations (Assign (demo_meta 1) (Name (demo_meta 2) ''Text'' Store)
     (BinaryOperation (demo_meta 3) demo_secret_name (StringLit (demo_meta 4) []) (Operator (demo_meta 5) Add)) None)
   = Inr True"
proof -
  have "\<not> is_local ''Text''" by code_simp
  from operation_reveals_secret [OF this] demo_secret show ?thesis by blast
qed

theorem nested_list_constant_witness:
  "should_extract (\<lambda>_. NoAnnotation) (Assign (demo_meta 1) (Name (demo_meta 2) ''Values'' Store)
     (ListLit (demo_meta 3) [ListLit (demo_meta 4) [Name (demo_meta 5) ''UserId'' Load]]) None) = Inr False"
proof -
  have "\<not> is_local ''Values''" by code_simp
  then show ?thesis by (rule nested_list_constant) (auto simp: is_literal_def)
qed

theorem identifier_key_unique_witness:
  "identifier_key (demo_meta 1) ''_x'' = identifier_key (demo_meta 2) ''_x'' \<and> is_local ''_x'' \<and>
     span_source (node_span (demo_meta 1)) = span_source (node_span (demo_meta 2))"
proof -
  have "identifier_key (demo_meta 1) ''_x'' = identifier_key (demo_meta 2) ''_x''" "is_local ''_x''"
    by code_simp+
  moreover have "CHR ''/'' \<notin> set ''_x''" by simp
  ultimately show ?thesis using identifier_key_unique by blast
qed

end
