(* ===== verification/Py_Ast.thy ===== *)
theory Py_Ast
  imports Grammar "HOL-Library.Multiset"
begin

text \<open>
  The transformer from the Python syntax tree to the rule syntax tree (\<open>ast/py_ast.py\<close>). The
  input type has a constructor for every class of Python's \<open>ast\<close> module that the transformer
  mentions, and \<open>OtherNode\<close> for the rest. New nodes get fresh identities from a counter. Error
  values carry the span and the message; the hint texts are left out.
\<close>

section \<open>Python syntax trees\<close>

record py_pos =
  lineno :: int
  col_offset :: int

datatype py_const = PStr string | PBool bool | PNum number | PNone | POther string

datatype py_ctx = PStore | PLoad | PDel

datatype py_operator =
  PAdd | PSub | PMult | PDiv | PFloorDiv | PMod | PPow | PLShift | PRShift | PBitOr | PBitXor
| PBitAnd | PMatMult

datatype py_unaryop = PNot | PUSub | PUAdd | PInvert

datatype py_cmpop = PEq | PNotEq | PLt | PLtE | PGt | PGtE | PIn | PNotIn | PIs | PIsNot

datatype py_boolop = PAnd | POr

datatype py_ast =
  PyModule "py_ast list"
| PyAssign py_pos "py_ast list" py_ast
| PyAnnAssign py_pos py_ast py_ast "py_ast option" int
| PyExpr py_pos py_ast
| PyName py_pos string py_ctx
| PyConstant py_pos py_const
| PyCall py_pos py_ast "py_ast list" "(string option \<times> py_ast) list"
| PyBinOp py_pos py_ast py_operator py_ast
| PyUnaryOp py_pos py_unaryop py_ast
| PyCompare py_pos py_ast "py_cmpop list" "py_ast list"
| PyBoolOp py_pos py_boolop "py_ast list"
| PyAttribute py_pos py_ast string py_ctx
| PyList py_pos "py_ast list" py_ctx
| PyJoinedStr py_pos "py_ast list"
| PyFormattedValue py_pos py_ast int "py_ast option"
| PySubscript py_pos py_ast py_ast
| PyTuple py_pos "py_ast list"
| OtherNode py_pos string

fun py_class :: "py_ast \<Rightarrow> string" where
  "py_class (PyModule _) = ''Module''"
| "py_class (PyAssign _ _ _) = ''Assign''"
| "py_class (PyAnnAssign _ _ _ _ _) = ''AnnAssign''"
| "py_class (PyExpr _ _) = ''Expr''"
| "py_class (PyName _ _ _) = ''Name''"
| "py_class (PyConstant _ _) = ''Constant''"
| "py_class (PyCall _ _ _ _) = ''Call''"
| "py_class (PyBinOp _ _ _ _) = ''BinOp''"
| "py_class (PyUnaryOp _ _ _) = ''UnaryOp''"
| "py_class (PyCompare _ _ _ _) = ''Compare''"
| "py_class (PyBoolOp _ _ _) = ''BoolOp''"
| "py_class (PyAttribute _ _ _ _) = ''Attribute''"
| "py_class (PyList _ _ _) = ''List''"
| "py_class (PyJoinedStr _ _) = ''JoinedStr''"
| "py_class (PyFormattedValue _ _ _ _) = ''FormattedValue''"
| "py_class (PySubscript _ _ _) = ''Subscript''"
| "py_class (PyTuple _ _) = ''Tuple''"
| "py_class (OtherNode _ c) = c"

text \<open>A module has no position: \<open>span_for\<close> fails its assertion there.\<close>

fun py_pos_of :: "py_ast \<Rightarrow> py_pos option" where
  "py_pos_of (PyModule _) = None"
| "py_pos_of (PyAssign p _ _) = Some p"
| "py_pos_of (PyAnnAssign p _ _ _ _) = Some p"
| "py_pos_of (PyExpr p _) = Some p"
| "py_pos_of (PyName p _ _) = Some p"
| "py_pos_of (PyConstant p _) = Some p"
| "py_pos_of (PyCall p _ _ _) = Some p"
| "py_pos_of (PyBinOp p _ _ _) = Some p"
| "py_pos_of (PyUnaryOp p _ _) = Some p"
| "py_pos_of (PyCompare p _ _ _) = Some p"
| "py_pos_of (PyBoolOp p _ _) = Some p"
| "py_pos_of (PyAttribute p _ _ _) = Some p"
| "py_pos_of (PyList p _ _) = Some p"
| "py_pos_of (PyJoinedStr p _) = Some p"
| "py_pos_of (PyFormattedValue p _ _ _) = Some p"
| "py_pos_of (PySubscript p _ _) = Some p"
| "py_pos_of (PyTuple p _) = Some p"
| "py_pos_of (OtherNode p _) = Some p"

section \<open>Transformers that may fail\<close>

datatype parse_error =
  OspreySyntaxError span string
| ParseAssertion string

text \<open>A computation with the counter of node identities that returns a value or raises.\<close>

type_synonym 'a tr = "nat \<Rightarrow> parse_error + 'a \<times> nat"

definition retT :: "'a \<Rightarrow> 'a tr" where
  "retT x = (\<lambda>c. Inr (x, c))"

definition failT :: "parse_error \<Rightarrow> 'a tr" where
  "failT e = (\<lambda>c. Inl e)"

definition bindT :: "'a tr \<Rightarrow> ('a \<Rightarrow> 'b tr) \<Rightarrow> 'b tr" where
  "bindT m f = (\<lambda>c. case m c of Inl e \<Rightarrow> Inl e | Inr (x, c1) \<Rightarrow> f x c1)"

fun mapT :: "('a \<Rightarrow> 'b tr) \<Rightarrow> 'a list \<Rightarrow> 'b list tr" where
  "mapT f [] = retT []"
| "mapT f (x # xs) = bindT (f x) (\<lambda>y. bindT (mapT f xs) (\<lambda>ys. retT (y # ys)))"

lemma mapT_cong [fundef_cong]:
  "xs = ys \<Longrightarrow> (\<And>x. x \<in> set ys \<Longrightarrow> f x = g x) \<Longrightarrow> mapT f xs = mapT g ys"
  by (induction xs arbitrary: ys) auto

lemma bindT_cong [fundef_cong]:
  "m = m' \<Longrightarrow> (\<And>x. f x = f' x) \<Longrightarrow> bindT m f = bindT m' f'"
  by (simp add: bindT_def fun_eq_iff split: sum.splits)

lemma retT_Inr [simp]: "retT x c = Inr (y, c') \<longleftrightarrow> y = x \<and> c' = c"
  by (auto simp: retT_def)

lemma failT_Inr [simp]: "failT e c = Inr r \<longleftrightarrow> False"
  by (simp add: failT_def)

lemma bindT_Inr: "bindT m f c = Inr (y, c') \<longleftrightarrow> (\<exists>x c1. m c = Inr (x, c1) \<and> f x c1 = Inr (y, c'))"
  by (auto simp: bindT_def split: sum.splits)

definition freshT :: "span \<Rightarrow> meta tr" where
  "freshT sp = (\<lambda>c. Inr (\<lparr>node_id = c, node_span = sp\<rparr>, Suc c))"

definition mk_span :: "string \<Rightarrow> py_pos \<Rightarrow> int \<Rightarrow> span" where
  "mk_span src p off = \<lparr>span_source = src, start_line = lineno p, start_pos = col_offset p + off\<rparr>"

definition span_for :: "string \<Rightarrow> py_ast \<Rightarrow> int \<Rightarrow> span tr" where
  "span_for src n off =
     (case py_pos_of n of
        None \<Rightarrow> failT (ParseAssertion ''Every AST node should have a span'')
      | Some p \<Rightarrow> retT (mk_span src p off))"

text \<open>
  \<open>make_syntax_error\<close> reports the node that is being transformed (\<open>current_node\<close>), shifted by
  \<open>offset_by\<close>.
\<close>

definition syntax_error :: "string \<Rightarrow> py_ast \<Rightarrow> string \<Rightarrow> int \<Rightarrow> 'a tr" where
  "syntax_error src cur msg off =
     bindT (span_for src cur off) (\<lambda>sp. failT (OspreySyntaxError sp msg))"

definition invariantT :: "string \<Rightarrow> py_ast \<Rightarrow> bool \<Rightarrow> string \<Rightarrow> int \<Rightarrow> unit tr" where
  "invariantT src cur cond msg off = (if cond then retT () else syntax_error src cur msg off)"

definition node_class :: "ast_node \<Rightarrow> string" where
  "node_class n = (case n of
     Root _ _ \<Rightarrow> ''Root'' | Name _ _ _ \<Rightarrow> ''Name'' | StringLit _ _ \<Rightarrow> ''String''
   | Number _ _ \<Rightarrow> ''Number'' | Boolean _ _ \<Rightarrow> ''Boolean'' | NoneLit _ \<Rightarrow> ''None_''
   | Assign _ _ _ _ \<Rightarrow> ''Assign'' | Call _ _ _ \<Rightarrow> ''Call'' | Keyword _ _ _ \<Rightarrow> ''Keyword''
   | Operator _ _ \<Rightarrow> ''Operator'' | BinaryOperation _ _ _ _ \<Rightarrow> ''BinaryOperation''
   | UnaryOperator _ _ \<Rightarrow> ''UnaryOperator'' | UnaryOperation _ _ _ \<Rightarrow> ''UnaryOperation''
   | Comparator _ _ \<Rightarrow> ''Comparator'' | BinaryComparison _ _ _ _ \<Rightarrow> ''BinaryComparison''
   | BooleanOperand _ _ \<Rightarrow> ''BooleanOperand'' | BooleanOperation _ _ _ \<Rightarrow> ''BooleanOperation''
   | Attribute _ _ _ _ \<Rightarrow> ''Attribute'' | ListLit _ _ \<Rightarrow> ''List''
   | FormatString _ _ _ \<Rightarrow> ''FormatString'' | Annotation _ _ \<Rightarrow> ''Annotation''
   | AnnotationWithVariants _ _ _ \<Rightarrow> ''AnnotationWithVariants'')"

definition expected_got :: "string \<Rightarrow> string \<Rightarrow> string" where
  "expected_got ty got = ''expected `'' @ ty @ ''`, got `'' @ got @ ''`''"

definition expect :: "string \<Rightarrow> (ast_node \<Rightarrow> bool) \<Rightarrow> ast_node \<Rightarrow> ast_node tr" where
  "expect ty is_ty n =
     (if is_ty n then retT n
      else failT (OspreySyntaxError (span_of n) (expected_got ty (node_class n))))"

definition expect_union :: "string \<Rightarrow> (ast_node \<Rightarrow> bool) \<Rightarrow> string \<Rightarrow> (ast_node \<Rightarrow> bool) \<Rightarrow>
    ast_node \<Rightarrow> ast_node tr" where
  "expect_union ty is_ty ty2 is_ty2 n =
     (if is_ty n \<or> is_ty2 n then retT n
      else failT (OspreySyntaxError (span_of n)
             (''expected `'' @ ty @ ''` or `'' @ ty2 @ ''`, got `'' @ node_class n @ ''`'')))"

definition expect_py_name :: "string \<Rightarrow> py_ast \<Rightarrow> string tr" where
  "expect_py_name src e =
     (case e of
        PyName _ i _ \<Rightarrow> retT i
      | _ \<Rightarrow> bindT (span_for src e 0) (\<lambda>sp.
               failT (OspreySyntaxError sp (expected_got ''Name'' (py_class e)))))"

section \<open>Operators and contexts\<close>

fun op_to_osprey :: "py_operator \<Rightarrow> operator option" where
  "op_to_osprey PAdd = Some Add"
| "op_to_osprey PSub = Some Subtract"
| "op_to_osprey PMult = Some Multiply"
| "op_to_osprey PDiv = Some Divide"
| "op_to_osprey PFloorDiv = Some FloorDivide"
| "op_to_osprey PMod = Some Modulo"
| "op_to_osprey PPow = Some PowOp"
| "op_to_osprey PLShift = Some LeftShift"
| "op_to_osprey PRShift = Some RightShift"
| "op_to_osprey PBitOr = Some BitwiseOr"
| "op_to_osprey PBitXor = Some BitwiseXor"
| "op_to_osprey PBitAnd = Some BitwiseAnd"
| "op_to_osprey PMatMult = None"

fun unaryop_to_osprey :: "py_unaryop \<Rightarrow> unary_operator option" where
  "unaryop_to_osprey PNot = Some NotOp"
| "unaryop_to_osprey PUSub = Some USub"
| "unaryop_to_osprey _ = None"

fun cmp_to_osprey :: "py_cmpop \<Rightarrow> comparator option" where
  "cmp_to_osprey PEq = Some Equals"
| "cmp_to_osprey PNotEq = Some NotEquals"
| "cmp_to_osprey PLt = Some LessThan"
| "cmp_to_osprey PLtE = Some LessThanEquals"
| "cmp_to_osprey PGt = Some GreaterThan"
| "cmp_to_osprey PGtE = Some GreaterThanEquals"
| "cmp_to_osprey PIn = Some In"
| "cmp_to_osprey PNotIn = Some NotIn"
| "cmp_to_osprey PIs = None"
| "cmp_to_osprey PIsNot = None"

fun ctx_to_osprey :: "py_ctx \<Rightarrow> ctx option" where
  "ctx_to_osprey PStore = Some Store"
| "ctx_to_osprey PLoad = Some Load"
| "ctx_to_osprey PDel = None"

definition someT :: "string \<Rightarrow> py_ast \<Rightarrow> string \<Rightarrow> 'a option \<Rightarrow> 'a tr" where
  "someT src cur msg x = (case x of None \<Rightarrow> syntax_error src cur msg 0 | Some y \<Rightarrow> retT y)"

section \<open>Annotations\<close>

text \<open>The two shapes of a subscript that are handled in place: a name, or a tuple of names.\<close>

definition slice_names :: "string \<Rightarrow> py_ast \<Rightarrow> ast_node list tr option" where
  "slice_names src slc =
     (case slc of
        PyName q j c \<Rightarrow> Some (bindT (freshT (mk_span src q 0)) (\<lambda>m. retT [Annotation m j]))
      | PyTuple q els \<Rightarrow>
          Some (mapT (\<lambda>el. bindT (expect_py_name src el) (\<lambda>j.
                  bindT (span_for src el 0) (\<lambda>sp.
                  bindT (freshT sp) (\<lambda>m. retT (Annotation m j))))) els)
      | _ \<Rightarrow> None)"

fun transform_annotation :: "string \<Rightarrow> py_ast \<Rightarrow> py_ast \<Rightarrow> ast_node tr" where
  "transform_annotation src cur (PyName p i c) =
     bindT (freshT (mk_span src p 0)) (\<lambda>m. retT (Annotation m i))"
| "transform_annotation src cur (PyConstant p PNone) =
     bindT (freshT (mk_span src p 0)) (\<lambda>m. retT (Annotation m ''None''))"
| "transform_annotation src cur (PySubscript p value slc) =
     bindT (expect_py_name src value) (\<lambda>i.
     bindT (case slice_names src slc of
              Some names \<Rightarrow> names
            | None \<Rightarrow> bindT (transform_annotation src cur slc) (\<lambda>a. retT [a])) (\<lambda>vs.
     bindT (freshT (mk_span src p 0)) (\<lambda>m. retT (AnnotationWithVariants m i vs))))"
| "transform_annotation src cur a =
     syntax_error src cur (''unexpected node: `'' @ py_class a @ ''`'') 0"

section \<open>Expressions and statements\<close>

definition transform_name :: "string \<Rightarrow> py_ast \<Rightarrow> py_pos \<Rightarrow> string \<Rightarrow> py_ctx \<Rightarrow> ast_node tr" where
  "transform_name src cur p i c =
     bindT (someT src cur ''unexpected context `Del`!'' (ctx_to_osprey c)) (\<lambda>x.
     bindT (freshT (mk_span src p 0)) (\<lambda>m. retT (Name m i x)))"

definition transform_constant :: "string \<Rightarrow> py_ast \<Rightarrow> py_pos \<Rightarrow> py_const \<Rightarrow> ast_node tr" where
  "transform_constant src cur p k =
     (case k of
        POther r \<Rightarrow> syntax_error src cur (''unexpected constant `'' @ r @ ''`'') 0
      | PStr s \<Rightarrow> bindT (freshT (mk_span src p 0)) (\<lambda>m. retT (StringLit m s))
      | PBool b \<Rightarrow> bindT (freshT (mk_span src p 0)) (\<lambda>m. retT (Boolean m b))
      | PNum n \<Rightarrow> bindT (freshT (mk_span src p 0)) (\<lambda>m. retT (Number m n))
      | PNone \<Rightarrow> bindT (freshT (mk_span src p 0)) (\<lambda>m. retT (NoneLit m)))"

text \<open>
  The loop of \<open>transform_JoinedStr\<close>: the parts so far, and the names. A value that is neither a
  string nor a formatted value is skipped.
\<close>

fun joined_parts :: "string \<Rightarrow> py_ast \<Rightarrow> py_ast list \<Rightarrow> string list \<Rightarrow> ast_node list \<Rightarrow>
    (string list \<times> ast_node list) tr" where
  "joined_parts src cur [] parts names = retT (parts, names)"
| "joined_parts src cur (v # vs) parts names =
     (case v of
        PyConstant _ (PStr s) \<Rightarrow> joined_parts src cur vs (parts @ [s]) names
      | PyFormattedValue _ value conversion format_spec \<Rightarrow>
          bindT (invariantT src cur (format_spec = None \<and> conversion = -1)
                   ''a format string cannot have a format spec''
                   (int (sum_list (map length parts)) + 3)) (\<lambda>_.
          (case value of
             PyName p i c \<Rightarrow>
               bindT (transform_name src value p i c) (\<lambda>name.
               bindT (invariantT src cur (case name of Name _ _ Load \<Rightarrow> True | _ \<Rightarrow> False)
                        ''BUG: Somehow, a name is being used in Store context within a format string'' 0) (\<lambda>_.
               joined_parts src cur vs (parts @ [''{'' @ i @ ''}'']) (names @ [name])))
           | _ \<Rightarrow> syntax_error src cur ''a format string can only interpolate a `Name`''
                    (int (sum_list (map length parts)) + 3)))
      | _ \<Rightarrow> joined_parts src cur vs parts names)"

definition unexpected_node :: "string \<Rightarrow> py_ast \<Rightarrow> ast_node tr" where
  "unexpected_node src n = syntax_error src n (''unexpected node type `'' @ py_class n @ ''`'') 0"

abbreviation "expectE \<equiv> expect ''Expression'' is_expression"

fun transform :: "string \<Rightarrow> py_ast \<Rightarrow> ast_node tr" where
  "transform src (PyModule body) =
     bindT (mapT (\<lambda>n. bindT (transform src n) (expect ''Statement'' is_statement)) body) (\<lambda>ss.
     bindT (freshT \<lparr>span_source = src, start_line = 1, start_pos = 0\<rparr>) (\<lambda>m. retT (Root m ss)))"
| "transform src (PyAssign p targets value) =
     bindT (invariantT src (PyAssign p targets value) (length targets = 1)
              ''an assignment can only have a single target'' 0) (\<lambda>_.
     bindT (mapT (transform src) targets) (\<lambda>ts.
     bindT (expect ''Name'' is_name (hd ts)) (\<lambda>t.
     bindT (bindT (transform src value) expectE) (\<lambda>v.
     bindT (freshT (mk_span src p 0)) (\<lambda>m. retT (Assign m t v None))))))"
| "transform src (PyAnnAssign p target annotation value simple) =
     bindT (invariantT src (PyAnnAssign p target annotation value simple) (simple = 1)
              ''expected simple Annotated Assignment'' 0) (\<lambda>_.
     bindT (bindT (transform src target) (expect ''Name'' is_name)) (\<lambda>t.
     (case value of
        None \<Rightarrow> syntax_error src (PyAnnAssign p target annotation value simple)
                  ''assignment must have a value'' 0
      | Some w \<Rightarrow>
          bindT (bindT (transform src w) expectE) (\<lambda>v.
          bindT (transform_annotation src (PyAnnAssign p target annotation value simple) annotation) (\<lambda>a.
          bindT (if annotation_identifier a = ExtractLiteral
                 then expect_union ''Literal'' is_literal ''FormatString''
                        (\<lambda>n. case n of FormatString _ _ _ \<Rightarrow> True | _ \<Rightarrow> False) v
                 else retT v) (\<lambda>_.
          bindT (freshT (mk_span src p 0)) (\<lambda>m. retT (Assign m t v (Some a)))))))))"
| "transform src (PyName p i c) = transform_name src (PyName p i c) p i c"
| "transform src (PyConstant p k) = transform_constant src (PyConstant p k) p k"
| "transform src (PyCall p f args keywords) =
     bindT (invariantT src (PyCall p f args keywords) (args = [])
              ''functions with non-keyword arguments are not supported'' 0) (\<lambda>_.
     bindT (bindT (transform src f) (expect_union ''Attribute''
              (\<lambda>n. case n of Attribute _ _ _ _ \<Rightarrow> True | _ \<Rightarrow> False) ''Name'' is_name)) (\<lambda>g.
     bindT (mapT (\<lambda>k. bindT (bindT (transform src (snd k)) expectE) (\<lambda>v.
                      bindT (span_for src (snd k) 0) (\<lambda>sp.
                      bindT (freshT sp) (\<lambda>m. retT (Keyword m (the (fst k)) v)))))
              (filter (\<lambda>k. fst k \<noteq> None \<and> fst k \<noteq> Some []) keywords)) (\<lambda>ks.
     bindT (freshT (mk_span src p 0)) (\<lambda>m. retT (Call m g ks)))))"
| "transform src (PyBinOp p l op r) =
     bindT (bindT (transform src l) expectE) (\<lambda>x.
     bindT (bindT (transform src r) expectE) (\<lambda>y.
     bindT (someT src (PyBinOp p l op r) ''unsupported operator `MatMult` encountered''
              (op_to_osprey op)) (\<lambda>k.
     bindT (freshT (mk_span src p 0)) (\<lambda>om.
     bindT (freshT (mk_span src p 0)) (\<lambda>m. retT (BinaryOperation m x y (Operator om k)))))))"
| "transform src (PyUnaryOp p op x) =
     bindT (bindT (transform src x) expectE) (\<lambda>y.
     bindT (someT src (PyUnaryOp p op x) ''unsupported unary operator encountered''
              (unaryop_to_osprey op)) (\<lambda>k.
     bindT (freshT (mk_span src p 0)) (\<lambda>om.
     bindT (freshT (mk_span src p 0)) (\<lambda>m. retT (UnaryOperation m y (UnaryOperator om k))))))"
| "transform src (PyCompare p l ops comparators) =
     bindT (invariantT src (PyCompare p l ops comparators) (length ops = 1 \<and> length comparators = 1)
              ''only binary comparisons are supported'' 0) (\<lambda>_.
     bindT (bindT (transform src l) expectE) (\<lambda>x.
     bindT (mapT (\<lambda>r. bindT (transform src r) expectE) comparators) (\<lambda>ys.
     bindT (someT src (PyCompare p l ops comparators) ''unsupported comparator encountered''
              (cmp_to_osprey (hd ops))) (\<lambda>k.
     bindT (freshT (mk_span src p 0)) (\<lambda>om.
     bindT (freshT (mk_span src p 0)) (\<lambda>m. retT (BinaryComparison m x (hd ys) (Comparator om k))))))))"
| "transform src (PyBoolOp p op values) =
     bindT (freshT (mk_span src p 0)) (\<lambda>om.
     bindT (mapT (\<lambda>v. bindT (transform src v) expectE) values) (\<lambda>vs.
     bindT (freshT (mk_span src p 0)) (\<lambda>m.
       retT (BooleanOperation m vs
               (BooleanOperand om (case op of POr \<Rightarrow> Or | PAnd \<Rightarrow> And))))))"
| "transform src (PyExpr p value) =
     bindT (invariantT src (PyExpr p value) (case value of PyCall _ _ _ _ \<Rightarrow> True | _ \<Rightarrow> False)
              ''a bare expression is not allowed, unless it is a function call'' 0) (\<lambda>_.
     bindT (transform src value) (\<lambda>n.
       if is_expression n then retT n else failT (ParseAssertion ''Transform did not return expression.'')))"
| "transform src (PyAttribute p value attr c) =
     bindT (bindT (transform src value) (expect ''Name'' is_name)) (\<lambda>n.
     bindT (someT src (PyAttribute p value attr c) ''unexpected context `Del`!'' (ctx_to_osprey c)) (\<lambda>x.
     bindT (freshT (mk_span src p 0)) (\<lambda>m. retT (Attribute m n attr x))))"
| "transform src (PyList p elts c) =
     bindT (invariantT src (PyList p elts c) (c = PLoad)
              ''a list can only be in the load context'' 0) (\<lambda>_.
     bindT (mapT (\<lambda>v. bindT (transform src v) expectE) elts) (\<lambda>vs.
     bindT (freshT (mk_span src p 0)) (\<lambda>m. retT (ListLit m vs))))"
| "transform src (PyJoinedStr p values) =
     bindT (joined_parts src (PyJoinedStr p values) values [] []) (\<lambda>pn.
     bindT (freshT (mk_span src p 0)) (\<lambda>m. retT (FormatString m (concat (fst pn)) (snd pn))))"
| "transform src n = unexpected_node src n"

section \<open>Every tree is well-formed and its nodes have different identities\<close>

named_theorems tr_simps

declare bindT_Inr [tr_simps]

lemma expect_Inr [tr_simps]: "expect ty P n c = Inr (x, c') \<longleftrightarrow> P n \<and> x = n \<and> c' = c"
  by (auto simp: expect_def)

lemma expect_union_Inr [tr_simps]:
  "expect_union ty P ty2 Q n c = Inr (x, c') \<longleftrightarrow> (P n \<or> Q n) \<and> x = n \<and> c' = c"
  by (auto simp: expect_union_def)

lemma syntax_error_Inr [tr_simps]: "syntax_error src cur msg off c = Inr r \<longleftrightarrow> False"
  by (auto simp: syntax_error_def span_for_def bindT_def failT_def retT_def split: option.splits)

lemma invariantT_Inr [tr_simps]:
  "invariantT src cur b msg off c = Inr (x, c') \<longleftrightarrow> b \<and> c' = c"
  by (auto simp: invariantT_def tr_simps)

lemma someT_Inr [tr_simps]: "someT src cur msg z c = Inr (x, c') \<longleftrightarrow> z = Some x \<and> c' = c"
  by (auto simp: someT_def tr_simps split: option.splits)

lemma span_for_Inr [tr_simps]:
  "span_for src n off c = Inr (x, c') \<longleftrightarrow> (\<exists>p. py_pos_of n = Some p \<and> x = mk_span src p off) \<and> c' = c"
  by (auto simp: span_for_def split: option.splits)

lemma freshT_Inr [tr_simps]:
  "freshT sp c = Inr (m, c') \<longleftrightarrow> m = \<lparr>node_id = c, node_span = sp\<rparr> \<and> c' = Suc c"
  by (auto simp: freshT_def)

lemma expect_py_name_Inr [tr_simps]:
  "expect_py_name src e c = Inr (i, c') \<longleftrightarrow> (\<exists>p k. e = PyName p i k) \<and> c' = c"
  by (cases e) (auto simp: expect_py_name_def tr_simps)

lemma mapT_all:
  assumes "mapT f xs c = Inr (ys, c')"
    and "\<And>x c y c'. x \<in> set xs \<Longrightarrow> f x c = Inr (y, c') \<Longrightarrow> P y"
  shows "(\<forall>y \<in> set ys. P y) \<and> length ys = length xs"
  using assms
proof (induction xs arbitrary: c ys c')
  case (Cons x xs)
  from Cons.prems(1) obtain y c1 zs where "f x c = Inr (y, c1)" "mapT f xs c1 = Inr (zs, c')" "ys = y # zs"
    by (auto simp: tr_simps)
  moreover from this have "P y" using Cons.prems(2) [of x] by simp
  moreover have "(\<forall>y \<in> set zs. P y) \<and> length zs = length xs"
    using Cons.IH [OF \<open>mapT f xs c1 = Inr (zs, c')\<close>] Cons.prems(2) by (meson list.set_intros(2))
  ultimately show ?case by simp
qed simp

text \<open>The identities of a tree, as a multiset, and the interval of identities handed out.\<close>

definition idm :: "ast_node \<Rightarrow> nat multiset" where
  "idm n = mset (map nid (iter_tree n))"

definition uses_ids :: "nat \<Rightarrow> nat \<Rightarrow> nat multiset \<Rightarrow> bool" where
  "uses_ids c c' M \<longleftrightarrow> c \<le> c' \<and> M = mset [c..<c']"

lemma idm_children: "idm n = add_mset (nid n) (sum_list (map idm (child_nodes n)))"
proof -
  have "mset (concat (map f xs)) = sum_list (map (\<lambda>x. mset (f x)) xs)" for f :: "ast_node \<Rightarrow> nat list" and xs
    by (induction xs) simp_all
  moreover have "idm = (\<lambda>x. mset (map nid (iter_tree x)))" by (simp add: fun_eq_iff idm_def)
  ultimately show ?thesis
    unfolding idm_def [of n] iter_tree.simps [of n] by (simp add: map_concat comp_def)
qed

lemma idm_simps [simp]:
  "idm (Root m ss) = add_mset (node_id m) (sum_list (map idm ss))"
  "idm (Name m i x) = {#node_id m#}"
  "idm (StringLit m s) = {#node_id m#}"
  "idm (Number m n) = {#node_id m#}"
  "idm (Boolean m b) = {#node_id m#}"
  "idm (NoneLit m) = {#node_id m#}"
  "idm (Assign m t v None) = add_mset (node_id m) (idm t + idm v)"
  "idm (Assign m t v (Some a)) = add_mset (node_id m) (idm t + (idm v + idm a))"
  "idm (Call m f ks) = add_mset (node_id m) (idm f + sum_list (map idm ks))"
  "idm (Keyword m k v) = add_mset (node_id m) (idm v)"
  "idm (Operator m op) = {#node_id m#}"
  "idm (BinaryOperation m l r op') = add_mset (node_id m) (idm l + (idm r + idm op'))"
  "idm (UnaryOperator m uo) = {#node_id m#}"
  "idm (UnaryOperation m l op') = add_mset (node_id m) (idm l + idm op')"
  "idm (Comparator m co) = {#node_id m#}"
  "idm (BinaryComparison m l r op') = add_mset (node_id m) (idm l + (idm r + idm op'))"
  "idm (BooleanOperand m bo) = {#node_id m#}"
  "idm (BooleanOperation m vs op') = add_mset (node_id m) (sum_list (map idm vs) + idm op')"
  "idm (Attribute m l at x) = add_mset (node_id m) (idm l)"
  "idm (ListLit m vs) = add_mset (node_id m) (sum_list (map idm vs))"
  "idm (FormatString m s vs) = add_mset (node_id m) (sum_list (map idm vs))"
  "idm (Annotation m i) = {#node_id m#}"
  "idm (AnnotationWithVariants m i vs) = add_mset (node_id m) (sum_list (map idm vs))"
  by (subst idm_children, simp add: nid_def)+

lemma uses_ids_self [simp]: "uses_ids c c {#}"
  by (simp add: uses_ids_def)

lemma uses_ids_Suc: "uses_ids c c' M \<Longrightarrow> uses_ids c (Suc c') (add_mset c' M)"
  by (simp add: uses_ids_def)

lemma uses_ids_append: "uses_ids c c1 M \<Longrightarrow> uses_ids c1 c2 N \<Longrightarrow> uses_ids c c2 (M + N)"
  unfolding uses_ids_def by (metis le_add_diff_inverse mset_append order_trans upt_add_eq_append)

lemma mapT_ids:
  assumes "mapT f xs c = Inr (ys, c')"
    and "\<And>x c y c'. x \<in> set xs \<Longrightarrow> f x c = Inr (y, c') \<Longrightarrow> uses_ids c c' (idm y)"
  shows "uses_ids c c' (sum_list (map idm ys))"
  using assms
proof (induction xs arbitrary: c ys)
  case (Cons x xs)
  from Cons.prems(1) obtain y c1 zs where y: "f x c = Inr (y, c1)" "mapT f xs c1 = Inr (zs, c')" "ys = y # zs"
    by (auto simp: tr_simps)
  have "uses_ids c c1 (idm y)" using Cons.prems(2) [OF _ y(1)] by simp
  moreover have "uses_ids c1 c' (sum_list (map idm zs))"
    using Cons.IH [OF y(2)] Cons.prems(2) by (meson list.set_intros(2))
  ultimately show ?case using y(3) by (simp add: uses_ids_append)
qed simp

lemma annotation_leaf:
  assumes "bindT (freshT sp) (\<lambda>m. retT (Annotation m j)) c = Inr (y, c')"
  shows "wf_annotation y \<and> uses_ids c c' (idm y)"
  using assms uses_ids_Suc [OF uses_ids_self] by (auto simp: tr_simps)

lemma slice_names_ok:
  assumes "slice_names src slc = Some t" and "t c = Inr (vs, c')"
  shows "list_all wf_annotation vs \<and> uses_ids c c' (sum_list (map idm vs))"
proof (cases "\<exists>q els. slc = PyTuple q els")
  case True
  then obtain q els where s: "slc = PyTuple q els" by blast
  have m: "mapT (\<lambda>el. bindT (expect_py_name src el) (\<lambda>j. bindT (span_for src el 0) (\<lambda>sp.
      bindT (freshT sp) (\<lambda>m. retT (Annotation m j))))) els c = Inr (vs, c')"
    using assms by (simp add: slice_names_def s)
  have leaf: "wf_annotation y \<and> uses_ids d d' (idm y)"
    if "bindT (expect_py_name src x) (\<lambda>j. bindT (span_for src x 0) (\<lambda>sp.
          bindT (freshT sp) (\<lambda>m. retT (Annotation m j)))) d = Inr (y, d')" for x d y d'
    using that annotation_leaf unfolding bindT_Inr [of "expect_py_name src x"]
      bindT_Inr [of "span_for src x 0"] expect_py_name_Inr span_for_Inr by blast
  have "\<forall>y \<in> set vs. wf_annotation y" using mapT_all [OF m, of wf_annotation] leaf by blast
  moreover have "uses_ids c c' (sum_list (map idm vs))" using mapT_ids [OF m] leaf by blast
  ultimately show ?thesis by (simp add: list_all_iff)
next
  case False
  then show ?thesis using assms
    by (cases slc) (auto simp: slice_names_def tr_simps uses_ids_Suc)
qed

lemma transform_annotation_ok:
  "transform_annotation src cur a c = Inr (r, c') \<Longrightarrow> wf_annotation r \<and> uses_ids c c' (idm r)"
proof (induction src cur a arbitrary: c r c' rule: transform_annotation.induct)
  case (3 src cur p v slc)
  from "3.prems" obtain i vs c1 where
    vs: "(case slice_names src slc of Some names \<Rightarrow> names
          | None \<Rightarrow> bindT (transform_annotation src cur slc) (\<lambda>a. retT [a])) c = Inr (vs, c1)"
    and r: "r = AnnotationWithVariants \<lparr>node_id = c1, node_span = mk_span src p 0\<rparr> i vs" "c' = Suc c1"
    by (auto simp: tr_simps)
  have "list_all wf_annotation vs \<and> uses_ids c c1 (sum_list (map idm vs))"
  proof (cases "slice_names src slc")
    case None
    with vs "3.IH" show ?thesis by (auto simp: tr_simps)
  next
    case (Some t)
    with vs slice_names_ok [OF Some] show ?thesis by simp
  qed
  with r show ?case using uses_ids_Suc by auto
qed (auto simp: tr_simps uses_ids_Suc)

lemma transform_name_ok:
  "transform_name src cur p i k c = Inr (r, c') \<Longrightarrow> is_name r \<and> uses_ids c c' (idm r)"
  by (auto simp: transform_name_def tr_simps is_name_def uses_ids_Suc)

lemma joined_parts_ok:
  assumes "joined_parts src cur vs parts names c = Inr ((ps, ns), c')" and "list_all is_name names"
    and "uses_ids b c (sum_list (map idm names))"
  shows "list_all is_name ns \<and> uses_ids b c' (sum_list (map idm ns))"
  using assms
proof (induction vs arbitrary: parts names c)
  case (Cons v vs)
  show ?case
  proof (cases "\<exists>q w conv spec. v = PyFormattedValue q w conv spec")
    case True
    then obtain q w conv spec where v: "v = PyFormattedValue q w conv spec" by blast
    from Cons.prems(1) v obtain p i k where w: "w = PyName p i k"
      by (cases w) (auto simp: tr_simps)
    with Cons.prems(1) v obtain name c1 where n: "transform_name src w p i k c = Inr (name, c1)"
      "joined_parts src cur vs (parts @ [''{'' @ i @ ''}'']) (names @ [name]) c1 = Inr ((ps, ns), c')"
      by (auto simp: tr_simps)
    from transform_name_ok [OF n(1)] Cons.prems(2,3) Cons.IH [OF n(2)] uses_ids_append show ?thesis
      by auto
  next
    case False
    then have "\<exists>parts'. joined_parts src cur vs parts' names c = Inr ((ps, ns), c')"
      using Cons.prems(1) by (auto split: py_ast.splits py_const.splits)
    then show ?thesis using Cons.IH Cons.prems(2,3) by blast
  qed
qed (auto simp: tr_simps)

definition wf_any :: "ast_node \<Rightarrow> bool" where
  "wf_any r \<longleftrightarrow> wf_expr r \<or> wf_stmt r \<or> wf_root r"

lemma wf_any_expr: "wf_any r \<Longrightarrow> is_expression r \<Longrightarrow> wf_expr r"
  by (cases r) (auto simp: wf_any_def is_expression_def is_literal_def)

lemma wf_any_stmt: "wf_any r \<Longrightarrow> is_statement r \<Longrightarrow> wf_stmt r"
  by (cases r) (auto simp: wf_any_def is_statement_def)

text \<open>What one transformed node contributes; \<open>okT\<close> is the statement proved by induction.\<close>

definition okT :: "(ast_node \<Rightarrow> bool) \<Rightarrow> ast_node tr \<Rightarrow> bool" where
  "okT P t \<longleftrightarrow> (\<forall>c r c'. t c = Inr (r, c') \<longrightarrow> P r \<and> uses_ids c c' (idm r))"

lemma okT_D: "okT P t \<Longrightarrow> t c = Inr (r, c') \<Longrightarrow> P r \<and> uses_ids c c' (idm r)"
  by (simp add: okT_def)

lemma okT_expect: "okT wf_any t \<Longrightarrow> (\<And>r. wf_any r \<Longrightarrow> Q r \<Longrightarrow> P r) \<Longrightarrow> okT P (bindT t (expect ty Q))"
  by (auto simp: okT_def tr_simps)

lemma okT_expectE: "okT wf_any t \<Longrightarrow> okT wf_expr (bindT t expectE)"
  using okT_expect wf_any_expr by blast

lemma mapT_okT:
  assumes "mapT f xs c = Inr (ys, c')" and "\<And>x. x \<in> set xs \<Longrightarrow> okT P (f x)"
  shows "list_all P ys \<and> length ys = length xs \<and> uses_ids c c' (sum_list (map idm ys))"
proof -
  have "(\<forall>y \<in> set ys. P y) \<and> length ys = length xs"
    using assms(2) by (intro mapT_all [OF assms(1)]) (auto simp: okT_def)
  moreover have "uses_ids c c' (sum_list (map idm ys))"
    using assms(2) by (intro mapT_ids [OF assms(1)]) (auto simp: okT_def)
  ultimately show ?thesis by (simp add: list_all_iff)
qed

lemma okT_wf_any: "okT wf_expr t \<Longrightarrow> okT wf_any t" "okT wf_stmt t \<Longrightarrow> okT wf_any t" "okT wf_root t \<Longrightarrow> okT wf_any t"
  by (simp_all add: okT_def wf_any_def)

lemma uses_ids_add: "uses_ids c c1 M \<Longrightarrow> N = add_mset c1 M \<Longrightarrow> uses_ids c (Suc c1) N"
  by (simp add: uses_ids_Suc)

lemma okT_module:
  assumes "\<And>n. n \<in> set body \<Longrightarrow> okT wf_any (transform src n)"
  shows "okT wf_root (transform src (PyModule body))"
  unfolding okT_def
proof (intro allI impI)
  fix c r c' assume "transform src (PyModule body) c = Inr (r, c')"
  then obtain ss c1 where ss: "mapT (\<lambda>n. bindT (transform src n) (expect ''Statement'' is_statement)) body c = Inr (ss, c1)"
    and r: "r = Root \<lparr>node_id = c1, node_span = \<lparr>span_source = src, start_line = 1, start_pos = 0\<rparr>\<rparr> ss" "c' = Suc c1"
    by (auto simp: tr_simps)
  have "okT wf_stmt (bindT (transform src n) (expect ''Statement'' is_statement))" if "n \<in> set body" for n
    using okT_expect [OF assms [OF that]] wf_any_stmt by blast
  from mapT_okT [OF ss, of wf_stmt] this r show "wf_root r \<and> uses_ids c c' (idm r)"
    by (auto intro: uses_ids_Suc)
qed

lemma okT_assign:
  assumes "\<And>n. n \<in> set targets \<Longrightarrow> okT wf_any (transform src n)" and "okT wf_any (transform src v)"
  shows "okT wf_stmt (transform src (PyAssign p targets v))"
  unfolding okT_def
proof (intro allI impI)
  fix c r c' assume "transform src (PyAssign p targets v) c = Inr (r, c')"
  then obtain ts c1 w c2 where len: "length targets = 1"
    and ts: "mapT (transform src) targets c = Inr (ts, c1)" "is_name (hd ts)"
    and w: "bindT (transform src v) expectE c1 = Inr (w, c2)"
    and r: "r = Assign \<lparr>node_id = c2, node_span = mk_span src p 0\<rparr> (hd ts) w None" "c' = Suc c2"
    unfolding transform.simps by (auto simp: bindT_Inr [of "invariantT _ _ _ _ _"] bindT_Inr [of "mapT _ _"]
        bindT_Inr [of "expect _ _ _"] bindT_Inr [of "freshT _"] bindT_Inr [of "bindT _ _"]
        invariantT_Inr expect_Inr freshT_Inr)
  from mapT_okT [OF ts(1) assms(1)] len obtain t where "ts = [t]" "uses_ids c c1 (idm t)"
    by (cases ts) auto
  moreover have "wf_expr w \<and> uses_ids c1 c2 (idm w)"
    by (rule okT_D [OF okT_expectE [OF assms(2)] w])
  ultimately show "wf_stmt r \<and> uses_ids c c' (idm r)"
    using ts(2) r uses_ids_Suc [OF uses_ids_append] by auto
qed

lemmas step_simps = bindT_Inr [of "invariantT _ _ _ _ _"] bindT_Inr [of "mapT _ _"]
  bindT_Inr [of "expect _ _ _"] bindT_Inr [of "expect_union _ _ _ _ _"] bindT_Inr [of "freshT _"]
  bindT_Inr [of "bindT _ _"] bindT_Inr [of "someT _ _ _ _"] bindT_Inr [of "transform_annotation _ _ _"]
  bindT_Inr [of "joined_parts _ _ _ _ _"] bindT_Inr [of "span_for _ _ _"] bindT_Inr [of "retT _"]
  invariantT_Inr expect_Inr expect_union_Inr freshT_Inr someT_Inr span_for_Inr

lemma okT_annassign:
  assumes "okT wf_any (transform src target)" and "\<And>w. v = Some w \<Longrightarrow> okT wf_any (transform src w)"
  shows "okT wf_stmt (transform src (PyAnnAssign p target annotation v simple))"
  unfolding okT_def
proof (intro allI impI)
  fix c r c' assume tr: "transform src (PyAnnAssign p target annotation v simple) c = Inr (r, c')"
  then obtain w where v: "v = Some w" by (cases v) (auto simp: tr_simps)
  let ?cur = "PyAnnAssign p target annotation v simple"
  from tr v obtain t c1 x c2 a c3 where
    t: "bindT (transform src target) (expect ''Name'' is_name) c = Inr (t, c1)"
    and x: "bindT (transform src w) expectE c1 = Inr (x, c2)"
    and a: "transform_annotation src ?cur annotation c2 = Inr (a, c3)"
    and r: "r = Assign \<lparr>node_id = c3, node_span = mk_span src p 0\<rparr> t x (Some a)" "c' = Suc c3"
    by (auto simp: step_simps split: if_splits)
  have "is_name t \<and> uses_ids c c1 (idm t)"
    using okT_D [OF okT_expect [OF assms(1), where P = is_name] t] by simp
  moreover have "wf_expr x \<and> uses_ids c1 c2 (idm x)"
    by (rule okT_D [OF okT_expectE [OF assms(2) [OF v]] x])
  moreover have "wf_annotation a \<and> uses_ids c2 c3 (idm a)" by (rule transform_annotation_ok [OF a])
  ultimately show "wf_stmt r \<and> uses_ids c c' (idm r)"
    using r uses_ids_Suc [OF uses_ids_append [OF _ uses_ids_append]] by auto
qed

lemma okT_keyword:
  assumes "okT wf_any (transform src v)"
  shows "okT (\<lambda>k. case k of Keyword _ _ x \<Rightarrow> wf_expr x | _ \<Rightarrow> False)
    (bindT (bindT (transform src v) expectE) (\<lambda>x. bindT (span_for src v 0) (\<lambda>sp.
       bindT (freshT sp) (\<lambda>m. retT (Keyword m nm x)))))"
  unfolding okT_def
proof (intro allI impI)
  fix c r c' assume "bindT (bindT (transform src v) expectE) (\<lambda>x. bindT (span_for src v 0) (\<lambda>sp.
       bindT (freshT sp) (\<lambda>m. retT (Keyword m nm x)))) c = Inr (r, c')"
  then obtain x c1 sp where x: "bindT (transform src v) expectE c = Inr (x, c1)"
    and r: "r = Keyword \<lparr>node_id = c1, node_span = sp\<rparr> nm x" "c' = Suc c1"
    by (auto simp: step_simps)
  with okT_D [OF okT_expectE [OF assms] x] show
    "(case r of Keyword _ _ x \<Rightarrow> wf_expr x | _ \<Rightarrow> False) \<and> uses_ids c c' (idm r)"
    by (auto intro: uses_ids_Suc)
qed

lemma okT_call:
  assumes "okT wf_any (transform src f)"
    and "\<And>k. k \<in> set (filter (\<lambda>k. fst k \<noteq> None \<and> fst k \<noteq> Some []) keywords) \<Longrightarrow>
      okT wf_any (transform src (snd k))"
  shows "okT wf_expr (transform src (PyCall p f args keywords))"
  unfolding okT_def
proof (intro allI impI)
  fix c r c' assume "transform src (PyCall p f args keywords) c = Inr (r, c')"
  then obtain g c1 ks c2 where
    g: "transform src f c = Inr (g, c1)"
      "(case g of Attribute _ _ _ _ \<Rightarrow> True | _ \<Rightarrow> False) \<or> is_name g"
    and ks: "mapT (\<lambda>k. bindT (bindT (transform src (snd k)) expectE) (\<lambda>v.
                bindT (span_for src (snd k) 0) (\<lambda>sp.
                bindT (freshT sp) (\<lambda>m. retT (Keyword m (the (fst k)) v)))))
        (filter (\<lambda>k. fst k \<noteq> None \<and> fst k \<noteq> Some []) keywords) c1 = Inr (ks, c2)"
    and r: "r = Call \<lparr>node_id = c2, node_span = mk_span src p 0\<rparr> g ks" "c' = Suc c2"
    unfolding transform.simps bindT_Inr [of "transform src f"] step_simps by auto
  have "wf_any g \<and> uses_ids c c1 (idm g)" by (rule okT_D [OF assms(1) g(1)])
  then have "(case g of Name _ _ _ \<Rightarrow> True | Attribute _ (Name _ _ _) _ _ \<Rightarrow> True | _ \<Rightarrow> False)"
    using g(2) by (cases g) (auto simp: wf_any_def is_name_def split: ast_node.splits)
  moreover have "list_all (\<lambda>k. case k of Keyword _ _ x \<Rightarrow> wf_expr x | _ \<Rightarrow> False) ks \<and>
      length ks = length (filter (\<lambda>k. fst k \<noteq> None \<and> fst k \<noteq> Some []) keywords) \<and>
      uses_ids c1 c2 (sum_list (map idm ks))"
    by (rule mapT_okT [OF ks]) (rule okT_keyword [OF assms(2)])
  ultimately show "wf_expr r \<and> uses_ids c c' (idm r)"
    using r \<open>wf_any g \<and> uses_ids c c1 (idm g)\<close> uses_ids_Suc [OF uses_ids_append] by auto
qed

lemma okT_binop:
  assumes "okT wf_any (transform src l)" and "okT wf_any (transform src r)"
  shows "okT wf_expr (transform src (PyBinOp p l op r))"
  unfolding okT_def
proof (intro allI impI)
  fix c n c' assume "transform src (PyBinOp p l op r) c = Inr (n, c')"
  then obtain x c1 y c2 k where x: "bindT (transform src l) expectE c = Inr (x, c1)"
    and y: "bindT (transform src r) expectE c1 = Inr (y, c2)"
    and n: "n = BinaryOperation \<lparr>node_id = Suc c2, node_span = mk_span src p 0\<rparr> x y
      (Operator \<lparr>node_id = c2, node_span = mk_span src p 0\<rparr> k)" "c' = Suc (Suc c2)"
    by (auto simp: step_simps)
  note x = okT_D [OF okT_expectE [OF assms(1)] x] and y = okT_D [OF okT_expectE [OF assms(2)] y]
  then show "wf_expr n \<and> uses_ids c c' (idm n)"
    using n uses_ids_Suc [OF uses_ids_Suc [OF uses_ids_append]] by auto
qed

lemma okT_unaryop:
  assumes "okT wf_any (transform src l)"
  shows "okT wf_expr (transform src (PyUnaryOp p op l))"
  unfolding okT_def
proof (intro allI impI)
  fix c n c' assume "transform src (PyUnaryOp p op l) c = Inr (n, c')"
  then obtain x c1 k where x: "bindT (transform src l) expectE c = Inr (x, c1)"
    and n: "n = UnaryOperation \<lparr>node_id = Suc c1, node_span = mk_span src p 0\<rparr> x
      (UnaryOperator \<lparr>node_id = c1, node_span = mk_span src p 0\<rparr> k)" "c' = Suc (Suc c1)"
    by (auto simp: step_simps)
  from okT_D [OF okT_expectE [OF assms] x] show "wf_expr n \<and> uses_ids c c' (idm n)"
    using n uses_ids_Suc [OF uses_ids_Suc] by auto
qed

lemma okT_compare:
  assumes "okT wf_any (transform src l)" and "\<And>r. r \<in> set comparators \<Longrightarrow> okT wf_any (transform src r)"
  shows "okT wf_expr (transform src (PyCompare p l ops comparators))"
  unfolding okT_def
proof (intro allI impI)
  fix c n c' assume "transform src (PyCompare p l ops comparators) c = Inr (n, c')"
  then obtain x c1 ys c2 k where len: "length comparators = 1"
    and x: "bindT (transform src l) expectE c = Inr (x, c1)"
    and ys: "mapT (\<lambda>r. bindT (transform src r) expectE) comparators c1 = Inr (ys, c2)"
    and n: "n = BinaryComparison \<lparr>node_id = Suc c2, node_span = mk_span src p 0\<rparr> x (hd ys)
      (Comparator \<lparr>node_id = c2, node_span = mk_span src p 0\<rparr> k)" "c' = Suc (Suc c2)"
    by (auto simp: step_simps)
  have "list_all wf_expr ys \<and> length ys = length comparators \<and> uses_ids c1 c2 (sum_list (map idm ys))"
    using assms(2) okT_expectE by (intro mapT_okT [OF ys]) blast
  then obtain y where "ys = [y]" "wf_expr y" "uses_ids c1 c2 (idm y)"
    using len by (cases ys) auto
  then show "wf_expr n \<and> uses_ids c c' (idm n)"
    using n okT_D [OF okT_expectE [OF assms(1)] x] uses_ids_Suc [OF uses_ids_Suc [OF uses_ids_append]]
    by auto
qed

lemma okT_boolop:
  assumes "\<And>v. v \<in> set vals \<Longrightarrow> okT wf_any (transform src v)"
  shows "okT wf_expr (transform src (PyBoolOp p op vals))"
  unfolding okT_def
proof (intro allI impI)
  fix c n c' assume "transform src (PyBoolOp p op vals) c = Inr (n, c')"
  then obtain vs c1 k where vs: "mapT (\<lambda>r. bindT (transform src r) expectE) vals (Suc c) = Inr (vs, c1)"
    and n: "n = BooleanOperation \<lparr>node_id = c1, node_span = mk_span src p 0\<rparr> vs
      (BooleanOperand \<lparr>node_id = c, node_span = mk_span src p 0\<rparr> k)" "c' = Suc c1"
    by (auto simp: step_simps)
  have "list_all wf_expr vs \<and> length vs = length vals \<and> uses_ids (Suc c) c1 (sum_list (map idm vs))"
    using assms okT_expectE by (intro mapT_okT [OF vs]) blast
  moreover have "uses_ids c (Suc c) {#c#}" by (simp add: uses_ids_def)
  ultimately show "wf_expr n \<and> uses_ids c c' (idm n)"
    using n uses_ids_Suc [OF uses_ids_append, of c "Suc c" "{#c#}" c1] by auto
qed

lemma okT_list:
  assumes "\<And>v. v \<in> set elts \<Longrightarrow> okT wf_any (transform src v)"
  shows "okT wf_expr (transform src (PyList p elts k))"
  unfolding okT_def
proof (intro allI impI)
  fix c n c' assume "transform src (PyList p elts k) c = Inr (n, c')"
  then obtain vs c1 where vs: "mapT (\<lambda>r. bindT (transform src r) expectE) elts c = Inr (vs, c1)"
    and n: "n = ListLit \<lparr>node_id = c1, node_span = mk_span src p 0\<rparr> vs" "c' = Suc c1"
    by (auto simp: step_simps)
  have "list_all wf_expr vs \<and> length vs = length elts \<and> uses_ids c c1 (sum_list (map idm vs))"
    using assms okT_expectE by (intro mapT_okT [OF vs]) blast
  then show "wf_expr n \<and> uses_ids c c' (idm n)" using n uses_ids_Suc by auto
qed

lemma okT_attribute:
  assumes "okT wf_any (transform src v)"
  shows "okT wf_expr (transform src (PyAttribute p v at k))"
  unfolding okT_def
proof (intro allI impI)
  fix c n c' assume "transform src (PyAttribute p v at k) c = Inr (n, c')"
  then obtain x c1 y where x: "bindT (transform src v) (expect ''Name'' is_name) c = Inr (x, c1)"
    and n: "n = Attribute \<lparr>node_id = c1, node_span = mk_span src p 0\<rparr> x at y" "c' = Suc c1"
    by (auto simp: step_simps)
  have "is_name x \<and> uses_ids c c1 (idm x)"
    using okT_D [OF okT_expect [OF assms, where P = is_name] x] by simp
  then show "wf_expr n \<and> uses_ids c c' (idm n)" using n uses_ids_Suc by auto
qed

lemma okT_joined: "okT wf_expr (transform src (PyJoinedStr p vs))"
  unfolding okT_def
proof (intro allI impI)
  fix c n c' assume "transform src (PyJoinedStr p vs) c = Inr (n, c')"
  then obtain ps ns c1 where j: "joined_parts src (PyJoinedStr p vs) vs [] [] c = Inr ((ps, ns), c1)"
    and n: "n = FormatString \<lparr>node_id = c1, node_span = mk_span src p 0\<rparr> (concat ps) ns" "c' = Suc c1"
    by (auto simp: step_simps)
  from joined_parts_ok [OF j, of c] n show "wf_expr n \<and> uses_ids c c' (idm n)"
    using uses_ids_Suc by auto
qed

lemma okT_leaves:
  "okT wf_expr (transform src (PyName p i k))" "okT wf_expr (transform src (PyConstant p kn))"
proof -
  have "is_name r \<Longrightarrow> wf_expr r" for r by (cases r) (simp_all add: is_name_def)
  then show "okT wf_expr (transform src (PyName p i k))"
    using transform_name_ok by (auto simp: okT_def)
  show "okT wf_expr (transform src (PyConstant p kn))"
    by (cases kn) (auto simp: okT_def transform_constant_def tr_simps uses_ids_Suc)
qed

lemma okT_expr:
  assumes "okT wf_any (transform src v)"
  shows "okT wf_any (transform src (PyExpr p v))"
  using assms by (auto simp: okT_def tr_simps split: if_splits)

lemmas okT_cases = okT_module okT_assign okT_annassign okT_call okT_binop okT_unaryop okT_compare
  okT_boolop okT_list okT_attribute okT_joined okT_leaves

lemma okT_unexpected: "okT wf_any (unexpected_node src n)"
  by (simp add: okT_def unexpected_node_def tr_simps)

lemma transform_ok: "okT wf_any (transform src n)"
proof (induction src n rule: transform.induct)
  case (1 src body)
  then show ?case using okT_module by (intro okT_wf_any(3)) blast
next
  case (2 src p targets v)
  then show ?case using okT_assign by (intro okT_wf_any(2)) blast
next
  case (3 src p target annotation v simple)
  then show ?case using okT_annassign by (intro okT_wf_any(2)) blast
next
  case (6 src p f args kws)
  then show ?case using okT_call by (intro okT_wf_any(1)) blast
next
  case (9 src p l ops comparators)
  then show ?case using okT_compare by (intro okT_wf_any(1)) blast
next
  case (10 src p op vals)
  then show ?case using okT_boolop by (intro okT_wf_any(1)) blast
next
  case (11 src p v)
  then show ?case by (rule okT_expr)
next
  case (13 src p elts k)
  then show ?case using okT_list by (intro okT_wf_any(1)) blast
qed (simp_all add: okT_unexpected okT_wf_any okT_cases del: transform.simps(4-14))

section \<open>Parents\<close>

text \<open>
  \<open>fixup_parents\<close>: the assignments \<open>current_node.parent = parent_node\<close> in the order they are made,
  and the \<open>parent\<close> fields afterwards. At that point no name has a source annotation yet.
\<close>

function parent_assignments :: "nat option \<Rightarrow> ast_node \<Rightarrow> (nat \<times> nat option) list" where
  "parent_assignments par n =
     (nid n, par) # concat (map (parent_assignments (Some (nid n))) (child_nodes n))"
  by pat_completeness auto
termination by (relation "measure (size \<circ> snd)") (simp_all add: child_size)

declare parent_assignments.simps [simp del]

definition fixup_parents :: "ast_node \<Rightarrow> nat \<Rightarrow> nat option" where
  "fixup_parents root = foldl (\<lambda>par (k, p). par(k := p)) (\<lambda>_. None) (parent_assignments None root)"

lemma parent_assignments_keys: "map fst (parent_assignments par n) = map nid (iter_tree n)"
proof (induction par n rule: parent_assignments.induct)
  case (1 par n)
  then show ?case
    by (subst parent_assignments.simps, subst iter_tree.simps) (simp add: map_concat comp_def cong: map_cong)
qed

lemma parent_assignments_child:
  "x \<in> set (iter_tree n) \<Longrightarrow> c \<in> set (child_nodes x) \<Longrightarrow> (nid c, Some (nid x)) \<in> set (parent_assignments par n)"
proof (induction par n rule: parent_assignments.induct)
  case (1 par n)
  have self: "(nid c, Some (nid n)) \<in> set (parent_assignments (Some (nid n)) c)"
    by (subst parent_assignments.simps) simp
  from "1.prems"(1) consider "x = n" | d where "d \<in> set (child_nodes n)" "x \<in> set (iter_tree d)"
    by (subst (asm) iter_tree.simps) auto
  then show ?case
    by cases (subst parent_assignments.simps, use self 1 in auto)+
qed

lemma foldl_assign:
  assumes "distinct (map fst kvs)" and "(k, p) \<in> set kvs"
  shows "foldl (\<lambda>f (k, p). f(k := p)) f kvs k = p"
  using assms
proof (induction kvs arbitrary: f)
  case (Cons kv kvs)
  have other: "foldl (\<lambda>f (k, p). f(k := p)) g ys k = g k" if "k \<notin> fst ` set ys" for g and ys :: "(_ \<times> _) list"
    using that by (induction ys arbitrary: g) (auto simp: image_iff)
  show ?case
  proof (cases "kv = (k, p)")
    case True
    with Cons.prems other [of kvs "f(k := p)"] show ?thesis by (simp del: fun_upd_apply add: fun_upd_same)
  next
    case False
    with Cons show ?thesis by auto
  qed
qed simp

section \<open>Properties\<close>

text \<open>
  (C40) Whatever the transformer accepts is a well-formed rule tree: assignment targets are names,
  call arguments are keywords holding expressions, format strings interpolate names, operators
  stand in operator positions; and no two nodes of it share an identity.
\<close>

theorem transform_sound:
  assumes "transform src (PyModule body) c = Inr (root, c')"
  shows "wf_root root \<and> distinct (map nid (iter_tree root))"
proof -
  have "wf_root root \<and> uses_ids c c' (idm root)"
    by (rule okT_D [OF okT_module [OF transform_ok] assms])
  then show ?thesis by (metis distinct_upt idm_def mset_eq_imp_distinct_iff uses_ids_def)
qed

text \<open>
  After \<open>fixup_parents\<close> the \<open>parent\<close> field of every node of the tree is the node it is a field
  of, and the root has no parent.
\<close>

theorem fixup_parents_correct:
  assumes "distinct (map nid (iter_tree root))" and "n \<in> set (iter_tree root)"
  shows "fixup_parents root (nid root) = None \<and>
    (\<forall>c \<in> set (child_nodes n). fixup_parents root (nid c) = Some (nid n))"
proof -
  have d: "distinct (map fst (parent_assignments None root))"
    using assms(1) parent_assignments_keys [of None root] by simp
  have "(nid root, None) \<in> set (parent_assignments None root)"
    by (subst parent_assignments.simps) simp
  with d parent_assignments_child [OF assms(2)] show ?thesis
    unfolding fixup_parents_def by (blast intro: foldl_assign)
qed

section \<open>Concrete inputs\<close>

definition demo_pos :: py_pos where "demo_pos = \<lparr>lineno = 1, col_offset = 0\<rparr>"

definition demo_module :: py_ast where
  "demo_module = PyModule [PyAssign demo_pos [PyName demo_pos ''X'' PStore]
     (PyBinOp demo_pos (PyConstant demo_pos (PNum (IntN 1))) PAdd (PyName demo_pos ''Y'' PLoad))]"

definition demo_root :: ast_node where
  "demo_root = (case transform ''main.sml'' demo_module 0 of Inr r \<Rightarrow> fst r | Inl _ \<Rightarrow> NoneLit (demo_meta 0))"

lemma demo_root_eval: "transform ''main.sml'' demo_module 0 = Inr (demo_root, 7)"
  by code_simp

theorem transform_sound_witness: "wf_root demo_root \<and> distinct (map nid (iter_tree demo_root))"
  using transform_sound [of "''main.sml''"] demo_root_eval unfolding demo_module_def by blast

theorem fixup_parents_correct_witness:
  "fixup_parents demo_root (nid demo_root) = None \<and> fixup_parents demo_root 5 = Some 6"
proof -
  have d: "distinct (map nid (iter_tree demo_root))" "demo_root \<in> set (iter_tree demo_root)" by code_simp+
  have "nid demo_root = 6" "5 \<in> set (map nid (child_nodes demo_root))" by code_simp+
  with fixup_parents_correct [OF d] show ?thesis by (auto simp: image_iff)
qed

end
