(* ===== verification/Datetime.thy ===== *)
theory Datetime
  imports Prelude
begin

text \<open>
  What the sources use of Python's \<open>datetime\<close>: a date and time of the proleptic Gregorian calendar
  with an optional offset from UTC in minutes, comparison of aware values, addition of seconds with its
  overflow, \<open>isoformat\<close>, and the inverse the label store relies on.
\<close>

section \<open>Values\<close>

record datetime =
  year :: nat
  month :: nat
  day :: nat
  hour :: nat
  minute :: nat
  second :: nat
  microsecond :: nat
  tz_offset :: "int option"

definition is_leap :: "nat \<Rightarrow> bool" where
  "is_leap y \<longleftrightarrow> y mod 4 = 0 \<and> (y mod 100 \<noteq> 0 \<or> y mod 400 = 0)"

definition days_in_month :: "nat \<Rightarrow> nat \<Rightarrow> nat" where
  "days_in_month y m =
     (if m = 2 then (if is_leap y then 29 else 28) else if m \<in> {4, 6, 9, 11} then 30 else 31)"

definition wf_datetime :: "datetime \<Rightarrow> bool" where
  "wf_datetime d \<longleftrightarrow> 1 \<le> year d \<and> year d \<le> 9999 \<and> 1 \<le> month d \<and> month d \<le> 12 \<and>
     1 \<le> day d \<and> day d \<le> days_in_month (year d) (month d) \<and> hour d < 24 \<and> minute d < 60 \<and>
     second d < 60 \<and> microsecond d < 1000000 \<and>
     (case tz_offset d of None \<Rightarrow> True | Some k \<Rightarrow> \<bar>k\<bar> < 1440)"

text \<open>\<open>datetime.toordinal\<close>.\<close>

definition to_ordinal :: "datetime \<Rightarrow> nat" where
  "to_ordinal d =
     (let y = year d - 1 in
      y * 365 + y div 4 - y div 100 + y div 400 +
      sum_list (map (days_in_month (year d)) [1..<month d]) + day d)"

definition local_us :: "datetime \<Rightarrow> int" where
  "local_us d =
     ((int (to_ordinal d) * 24 + int (hour d)) * 60 + int (minute d)) * 60000000 +
     int (second d) * 1000000 + int (microsecond d)"

text \<open>The instant an aware value denotes, in microseconds of UTC.\<close>

definition instant :: "datetime \<Rightarrow> int" where
  "instant d = local_us d - (case tz_offset d of None \<Rightarrow> 0 | Some k \<Rightarrow> k * 60000000)"

definition datetime_min_utc :: datetime where
  "datetime_min_utc = \<lparr>year = 1, month = 1, day = 1, hour = 0, minute = 0, second = 0, microsecond = 0,
     tz_offset = Some 0\<rparr>"

definition datetime_max :: datetime where
  "datetime_max = \<lparr>year = 9999, month = 12, day = 31, hour = 23, minute = 59, second = 59,
     microsecond = 999999, tz_offset = None\<rparr>"

text \<open>\<open>d + timedelta(seconds=k)\<close>, as the instant of the sum: the sum must not pass \<open>datetime.max\<close>.\<close>

definition plus_seconds :: "datetime \<Rightarrow> int \<Rightarrow> int result" where
  "plus_seconds d k =
     (if local_us d + k * 1000000 > local_us datetime_max then Inl (OtherException ''OverflowError'')
      else Inr (instant d + k * 1000000))"

section \<open>Decimal fields\<close>

fun pad_digits :: "nat \<Rightarrow> nat \<Rightarrow> string" where
  "pad_digits 0 n = []"
| "pad_digits (Suc k) n = pad_digits k (n div 10) @ [char_of (48 + n mod 10)]"

definition read_digits :: "string \<Rightarrow> nat option" where
  "read_digits s =
     (if list_all (\<lambda>c. 48 \<le> (of_char c :: nat) \<and> (of_char c :: nat) \<le> 57) s \<and> s \<noteq> []
      then Some (foldl (\<lambda>acc c. acc * 10 + (of_char c - 48)) 0 s) else None)"

lemma length_pad_digits [simp]: "length (pad_digits k n) = k"
  by (induction k n rule: pad_digits.induct) simp_all

lemma of_char_digit [simp]: "(of_char (char_of (48 + n mod 10 :: nat)) :: nat) = 48 + n mod 10"
  by (simp add: of_char_of)

lemma foldl_pad_digits:
  "n < 10 ^ k \<Longrightarrow> foldl (\<lambda>acc c. acc * 10 + (of_char c - 48)) 0 (pad_digits k n) = n"
proof (induction k n rule: pad_digits.induct)
  case (2 k n)
  then have "n div 10 < 10 ^ k" by (simp add: less_mult_imp_div_less)
  with "2.IH" show ?case by simp
qed simp

lemma digits_pad_digits:
  "list_all (\<lambda>c. 48 \<le> (of_char c :: nat) \<and> (of_char c :: nat) \<le> 57) (pad_digits k n)"
  by (induction k n rule: pad_digits.induct) (simp_all add: of_char_digit)

lemma read_pad_digits: "n < 10 ^ k \<Longrightarrow> 0 < k \<Longrightarrow> read_digits (pad_digits k n) = Some n"
proof -
  assume "n < 10 ^ k" and "0 < k"
  moreover from this have "pad_digits k n \<noteq> []" by (cases k) simp_all
  ultimately show ?thesis by (simp add: read_digits_def digits_pad_digits foldl_pad_digits)
qed

section \<open>ISO 8601\<close>

definition offset_string :: "int \<Rightarrow> string" where
  "offset_string k =
     (if k < 0 then ''-'' else ''+'') @ pad_digits 2 (nat \<bar>k\<bar> div 60) @ '':'' @ pad_digits 2 (nat \<bar>k\<bar> mod 60)"

definition isoformat :: "datetime \<Rightarrow> string" where
  "isoformat d =
     pad_digits 4 (year d) @ ''-'' @ pad_digits 2 (month d) @ ''-'' @ pad_digits 2 (day d) @ ''T'' @
     pad_digits 2 (hour d) @ '':'' @ pad_digits 2 (minute d) @ '':'' @ pad_digits 2 (second d) @
     (if microsecond d = 0 then [] else ''.'' @ pad_digits 6 (microsecond d)) @
     (case tz_offset d of None \<Rightarrow> [] | Some k \<Rightarrow> offset_string k)"

text \<open>
  A reader for exactly what \<open>isoformat\<close> writes. Python's \<open>fromisoformat\<close> accepts more; what the label
  store needs of it is the law of the locale.
\<close>

definition read_offset :: "string \<Rightarrow> int option option" where
  "read_offset s =
     (if s = [] then Some None
      else if length s = 6 \<and> s ! 0 \<in> {CHR ''+'', CHR ''-''} then
        (case (read_digits (take 2 (drop 1 s)), read_digits (drop 4 s)) of
           (Some h, Some m) \<Rightarrow>
             Some (Some ((if s ! 0 = CHR ''-'' then -1 else 1) * (int h * 60 + int m)))
         | _ \<Rightarrow> None)
      else None)"

definition read_fraction :: "string \<Rightarrow> nat option \<times> string" where
  "read_fraction s = (if s \<noteq> [] \<and> hd s = CHR ''.'' then (read_digits (take 6 (drop 1 s)), drop 7 s) else (Some 0, s))"

definition read_isoformat :: "string \<Rightarrow> datetime result" where
  "read_isoformat s =
     (let field = (\<lambda>i n. read_digits (take n (drop i s))); (us, rest) = read_fraction (drop 19 s) in
      case (field 0 4, field 5 2, field 8 2, field 11 2, field 14 2, field 17 2, us, read_offset rest) of
        (Some y, Some mo, Some d, Some h, Some mi, Some sec, Some u, Some off) \<Rightarrow>
          Inr \<lparr>year = y, month = mo, day = d, hour = h, minute = mi, second = sec, microsecond = u, tz_offset = off\<rparr>
      | _ \<Rightarrow> Inl (ValueError ''Invalid isoformat string''))"

locale iso_codec =
  fixes valid :: "'d \<Rightarrow> bool"
    and to_iso :: "'d \<Rightarrow> string"
    and from_iso :: "string \<Rightarrow> 'd result"
  assumes from_to: "valid d \<Longrightarrow> from_iso (to_iso d) = Inr d"
    and to_iso_nonempty: "to_iso d \<noteq> []"
begin

text \<open>The encoding of an optional value as a nullable string.\<close>

lemma decode_option:
  assumes "case x of None \<Rightarrow> True | Some d \<Rightarrow> valid d"
  shows "(case map_option to_iso x of None \<Rightarrow> Inr None
     | Some s \<Rightarrow> if s = [] then Inr None else bindR (from_iso s) (\<lambda>d. Inr (Some d))) = Inr x"
  using assms by (cases x) (simp_all add: from_to to_iso_nonempty)

lemma to_iso_inj: "valid a \<Longrightarrow> valid b \<Longrightarrow> to_iso a = to_iso b \<Longrightarrow> a = b"
  using from_to by (metis sum.inject(2))

end

lemma read_offset_string: "\<bar>k\<bar> < 1440 \<Longrightarrow> read_offset (offset_string k) = Some (Some k)"
proof -
  assume k: "\<bar>k\<bar> < 1440"
  let ?n = "nat \<bar>k\<bar>"
  have "?n div 60 < 100" "?n mod 60 < 100" using k by simp_all
  then have d: "read_digits (pad_digits 2 (?n div 60)) = Some (?n div 60)"
    "read_digits (pad_digits 2 (?n mod 60)) = Some (?n mod 60)" by (simp_all add: read_pad_digits)
  have s: "length (offset_string k) = 6" "offset_string k \<noteq> []"
    "offset_string k ! 0 = (if k < 0 then CHR ''-'' else CHR ''+'')"
    "take 2 (drop 1 (offset_string k)) = pad_digits 2 (?n div 60)" "drop 4 (offset_string k) = pad_digits 2 (?n mod 60)"
    by (simp_all add: offset_string_def)
  have "int (?n div 60) * 60 + int (?n mod 60) = \<bar>k\<bar>"
    by (simp add: of_nat_div of_nat_mod)
  then show ?thesis unfolding read_offset_def using s d by (auto split: if_splits)
qed

lemma read_fraction_iso:
  assumes "us < 1000000" and "\<And>k. tz = Some k \<Longrightarrow> \<bar>k\<bar> < 1440"
  defines "off \<equiv> (case tz of None \<Rightarrow> [] | Some k \<Rightarrow> offset_string k)"
  shows "read_fraction ((if us = 0 then [] else ''.'' @ pad_digits 6 us) @ off) = (Some us, off)"
proof -
  have "off \<noteq> [] \<Longrightarrow> hd off \<noteq> CHR ''.''" by (auto simp: off_def offset_string_def split: option.splits if_splits)
  moreover have "read_digits (pad_digits 6 us) = Some us" using assms(1) by (simp add: read_pad_digits)
  ultimately show ?thesis by (auto simp: read_fraction_def)
qed

lemma read_isoformat_isoformat:
  assumes "wf_datetime d"
  shows "read_isoformat (isoformat d) = Inr d"
proof -
  define off where "off = (case tz_offset d of None \<Rightarrow> [] | Some k \<Rightarrow> offset_string k)"
  define frac where "frac = (if microsecond d = 0 then [] else ''.'' @ pad_digits 6 (microsecond d))"
  have w: "year d < 10 ^ 4" "month d < 10 ^ 2" "day d < 10 ^ 2" "hour d < 10 ^ 2" "minute d < 10 ^ 2"
    "second d < 10 ^ 2" "microsecond d < 1000000"
    using assms by (auto simp: wf_datetime_def days_in_month_def split: if_splits)
  have tz: "\<bar>k\<bar> < 1440" if "tz_offset d = Some k" for k using assms that by (simp add: wf_datetime_def)
  have fr: "read_fraction (frac @ off) = (Some (microsecond d), off)"
    unfolding frac_def off_def by (rule read_fraction_iso [OF w(7) tz])
  have off: "read_offset off = Some (tz_offset d)"
    using tz by (cases "tz_offset d") (simp_all add: off_def read_offset_string, simp add: read_offset_def)
  have iso: "isoformat d = pad_digits 4 (year d) @ ''-'' @ pad_digits 2 (month d) @ ''-'' @ pad_digits 2 (day d) @
      ''T'' @ pad_digits 2 (hour d) @ '':'' @ pad_digits 2 (minute d) @ '':'' @ pad_digits 2 (second d) @ frac @ off"
    by (simp add: isoformat_def frac_def off_def)
  have "read_isoformat (isoformat d) = Inr \<lparr>year = year d, month = month d, day = day d, hour = hour d,
      minute = minute d, second = second d, microsecond = microsecond d, tz_offset = tz_offset d\<rparr>"
    unfolding iso read_isoformat_def using w fr off by (simp add: Let_def read_pad_digits)
  then show ?thesis by simp
qed

interpretation iso: iso_codec wf_datetime isoformat read_isoformat
proof
  show "read_isoformat (isoformat d) = Inr d" if "wf_datetime d" for d
    using that by (rule read_isoformat_isoformat)
  show "isoformat d \<noteq> []" for d by (simp add: isoformat_def)
qed

end
