(* ===== verification/Labels.thy ===== *)
theory Labels
  imports Datetime "HOL-Library.Multiset"
begin

text \<open>
  Entity labels: the label states with their reasons and history
  (\<open>worker/lib/osprey_shared/labels.py\<close>) and how a batch of mutations changes them
  (\<open>worker/lib/storage/labels.py\<close>). Fields that Python stores unchecked (\<open>pending\<close>, \<open>description\<close>,
  \<open>features\<close>) are JSON values. The readings of the clock are arguments: \<open>created m\<close> when the reason of
  the mutation \<open>m\<close> is built, \<open>checked l\<close> when the state of the label \<open>l\<close> is tested for expiry.
\<close>

section \<open>Data\<close>

datatype json = JNull | JBool bool | JInt int | JStr string | JList "json list" | JObj "(string \<times> json) list"

datatype MutationDropReason =
  CONFLICTING_MUTATION | CANNOT_OVERRIDE_MANUAL | INVALID_LABEL_NAME | INVALID_ENTITY_ID

datatype LabelStatus = REMOVED | ADDED | MANUALLY_REMOVED | MANUALLY_ADDED

fun status_value :: "LabelStatus \<Rightarrow> nat" where
  "status_value REMOVED = 0"
| "status_value ADDED = 1"
| "status_value MANUALLY_REMOVED = 2"
| "status_value MANUALLY_ADDED = 3"

fun effective_label_status :: "LabelStatus \<Rightarrow> LabelStatus" where
  "effective_label_status ADDED = ADDED"
| "effective_label_status MANUALLY_ADDED = ADDED"
| "effective_label_status REMOVED = REMOVED"
| "effective_label_status MANUALLY_REMOVED = REMOVED"

definition is_manual :: "LabelStatus \<Rightarrow> bool" where
  "is_manual s \<longleftrightarrow> s \<in> {MANUALLY_ADDED, MANUALLY_REMOVED}"

definition is_automatic :: "LabelStatus \<Rightarrow> bool" where
  "is_automatic s \<longleftrightarrow> \<not> is_manual s"

record LabelReason =
  pending :: json
  description :: json
  features :: json
  created_at :: "datetime option"
  expires_at :: "datetime option"

definition guarantee_utc_timezone_awareness :: "datetime option \<Rightarrow> datetime option" where
  "guarantee_utc_timezone_awareness dt =
     (case dt of None \<Rightarrow> None
      | Some d \<Rightarrow> Some (if tz_offset d = None then d\<lparr>tz_offset := Some 0\<rparr> else d))"

text \<open>\<open>__post_init__\<close>, which every construction of a reason runs.\<close>

definition post_init :: "LabelReason \<Rightarrow> LabelReason" where
  "post_init r = r\<lparr>created_at := guarantee_utc_timezone_awareness (created_at r),
     expires_at := guarantee_utc_timezone_awareness (expires_at r)\<rparr>"

type_synonym LabelReasons = "(string, LabelReason) dict"

record LabelStateInner =
  inner_status :: LabelStatus
  inner_reasons :: LabelReasons

record LabelState =
  status :: LabelStatus
  reasons :: LabelReasons
  previous_states :: "LabelStateInner list"

type_synonym EntityLabels = "(string, LabelState) dict"

record EntityLabelMutation =
  label_name :: string
  reason_name :: string
  mut_status :: LabelStatus
  mut_pending :: json
  mut_description :: json
  mut_features :: json
  mut_expires_at :: "datetime option"

record DroppedEntityLabelMutation =
  mutation :: EntityLabelMutation
  drop_reason :: MutationDropReason

record EntityLabelMutationsResult =
  new_entity_labels :: EntityLabels
  old_entity_labels :: EntityLabels
  labels_added :: "string list"
  labels_removed :: "string list"
  labels_updated :: "string list"
  dropped_mutations :: "DroppedEntityLabelMutation list"

section \<open>Label states\<close>

definition insert_or_update :: "LabelReasons \<Rightarrow> string \<Rightarrow> LabelReason \<Rightarrow> (bool \<times> LabelReasons) result" where
  "insert_or_update rs name r =
     (case map_of rs name of
        None \<Rightarrow> Inr (True, AList.update name r rs)
      | Some cur \<Rightarrow>
          (case (created_at cur, created_at r) of
             (Some c, Some n) \<Rightarrow>
               bindR (plus_seconds n 5) (\<lambda>bound.
                 if instant c > bound then Inr (False, rs)
                 else Inr (True, AList.update name (post_init (r\<lparr>created_at := Some c\<rparr>)) rs))
           | _ \<Rightarrow> Inl (AssertionError ''missing created_at'')))"

text \<open>\<open>LabelState.expires_at\<close>: the loop over the reasons; Python's \<open>max\<close> keeps its first argument on ties.\<close>

fun latest_expiry :: "LabelReason list \<Rightarrow> datetime \<Rightarrow> datetime option" where
  "latest_expiry [] e = Some e"
| "latest_expiry (r # rs) e =
     (case expires_at r of
        None \<Rightarrow> None
      | Some x \<Rightarrow> latest_expiry rs (if instant e > instant x then e else x))"

definition state_expires_at :: "LabelReasons \<Rightarrow> datetime option result" where
  "state_expires_at rs =
     (if rs = [] then Inl (AssertionError ''the label state did not have any associated reasons'')
      else Inr (latest_expiry (dvalues rs) datetime_min_utc))"

definition is_expired :: "datetime \<Rightarrow> LabelState \<Rightarrow> bool result" where
  "is_expired now st =
     bindR (state_expires_at (reasons st)) (\<lambda>e.
       case e of None \<Rightarrow> Inr False
       | Some x \<Rightarrow> bindR (plus_seconds x 5) (\<lambda>bound. Inr (bound < instant now)))"

definition reason_is_expired :: "datetime \<Rightarrow> LabelReason \<Rightarrow> bool result" where
  "reason_is_expired now r =
     (case expires_at r of None \<Rightarrow> Inr False
      | Some x \<Rightarrow> bindR (plus_seconds x 5) (\<lambda>bound. Inr (bound < instant now)))"

definition shift_current_state_to_previous_state :: "LabelState \<Rightarrow> LabelState" where
  "shift_current_state_to_previous_state st =
     (if reasons st = [] then st
      else st\<lparr>previous_states := \<lparr>inner_status = status st, inner_reasons = reasons st\<rparr> # previous_states st,
              reasons := []\<rparr>)"

fun merge_reasons :: "(string \<times> LabelReason) list \<Rightarrow> LabelReasons \<Rightarrow> LabelReasons result" where
  "merge_reasons [] rs = Inr rs"
| "merge_reasons ((name, r) # new) rs =
     bindR (insert_or_update rs name r) (\<lambda>p. merge_reasons new (snd p))"

definition try_apply_desired_state ::
    "datetime \<Rightarrow> LabelStateInner \<Rightarrow> LabelState \<Rightarrow> (MutationDropReason option \<times> LabelState) result" where
  "try_apply_desired_state now desired st =
     bindR (is_expired now st) (\<lambda>expired.
       if expired then
         Inr (None, (shift_current_state_to_previous_state st)
                      \<lparr>status := inner_status desired, reasons := inner_reasons desired\<rparr>)
       else if is_manual (status st) \<and> is_automatic (inner_status desired) then
         Inr (Some CANNOT_OVERRIDE_MANUAL, st)
       else
         let st1 = (if status st \<noteq> inner_status desired
                    then (shift_current_state_to_previous_state st)\<lparr>status := inner_status desired\<rparr> else st)
         in bindR (merge_reasons (inner_reasons desired) (reasons st1)) (\<lambda>rs.
              Inr (None, st1\<lparr>reasons := rs\<rparr>)))"

definition from_inner :: "LabelStateInner \<Rightarrow> LabelState" where
  "from_inner i = \<lparr>status = inner_status i, reasons = inner_reasons i, previous_states = []\<rparr>"

section \<open>Mutations\<close>

definition mutation_reason :: "(EntityLabelMutation \<Rightarrow> datetime) \<Rightarrow> EntityLabelMutation \<Rightarrow> LabelReason" where
  "mutation_reason created m =
     post_init \<lparr>pending = mut_pending m, description = mut_description m, features = mut_features m,
       created_at = Some (created m), expires_at = mut_expires_at m\<rparr>"

definition desired_state :: "(EntityLabelMutation \<Rightarrow> datetime) \<Rightarrow> EntityLabelMutation \<Rightarrow> LabelStateInner" where
  "desired_state created m =
     \<lparr>inner_status = mut_status m, inner_reasons = [(reason_name m, mutation_reason created m)]\<rparr>"

definition drop_mutation :: "MutationDropReason \<Rightarrow> EntityLabelMutation \<Rightarrow> DroppedEntityLabelMutation" where
  "drop_mutation r m = \<lparr>mutation = m, drop_reason = r\<rparr>"

type_synonym mutations_by_label = "(string, EntityLabelMutation list) dict"

text \<open>The body of the loop of \<open>_get_mutations_by_label_name_and_drop_conflicts\<close>.\<close>

definition collect_mutation ::
    "mutations_by_label \<times> DroppedEntityLabelMutation list \<Rightarrow> EntityLabelMutation \<Rightarrow>
     mutations_by_label \<times> DroppedEntityLabelMutation list" where
  "collect_mutation = (\<lambda>(by_name, dropped) m.
     if label_name m = '''' then (by_name, dropped @ [drop_mutation INVALID_LABEL_NAME m])
     else case map_of by_name (label_name m) of
       None \<Rightarrow> (AList.update (label_name m) [m] by_name, dropped)
     | Some ms \<Rightarrow>
         let other = hd ms in
         if status_value (mut_status m) > status_value (mut_status other) then
           (AList.update (label_name m) [m] by_name, dropped @ map (drop_mutation CONFLICTING_MUTATION) ms)
         else if status_value (mut_status m) < status_value (mut_status other) then
           (by_name, dropped @ [drop_mutation CONFLICTING_MUTATION m])
         else (AList.update (label_name m) (ms @ [m]) by_name, dropped))"

definition get_mutations_by_label_name_and_drop_conflicts ::
    "EntityLabelMutation list \<Rightarrow> mutations_by_label \<times> DroppedEntityLabelMutation list" where
  "get_mutations_by_label_name_and_drop_conflicts ms = foldl collect_mutation ([], []) ms"

definition merged_desired_state ::
    "(EntityLabelMutation \<Rightarrow> datetime) \<Rightarrow> EntityLabelMutation list \<Rightarrow> LabelStateInner result" where
  "merged_desired_state created ms =
     (case ms of
        [] \<Rightarrow> Inl (AssertionError ''mutations by label name should not be empty'')
      | m # rest \<Rightarrow>
          if \<not> list_all (\<lambda>x. mut_status x = mut_status m) rest then
            Inl (AssertionError ''more than one unique label status AFTER dropping conflicts'')
          else let d = desired_state created m in
               bindR (merge_reasons (map (\<lambda>x. (reason_name x, mutation_reason created x)) rest) (inner_reasons d))
                 (\<lambda>rs. Inr (d\<lparr>inner_reasons := rs\<rparr>)))"

fun get_desired_states_by_label_name ::
    "(EntityLabelMutation \<Rightarrow> datetime) \<Rightarrow> mutations_by_label \<Rightarrow> (string \<times> LabelStateInner) list result" where
  "get_desired_states_by_label_name created [] = Inr []"
| "get_desired_states_by_label_name created ((l, ms) # rest) =
     bindR (merged_desired_state created ms) (\<lambda>d.
     bindR (get_desired_states_by_label_name created rest) (\<lambda>ds. Inr ((l, d) # ds)))"

definition append_result :: "string \<Rightarrow> LabelStatus \<Rightarrow> EntityLabelMutationsResult \<Rightarrow> EntityLabelMutationsResult" where
  "append_result l s res =
     (case effective_label_status s of
        ADDED \<Rightarrow> res\<lparr>labels_added := labels_added res @ [l]\<rparr>
      | REMOVED \<Rightarrow> res\<lparr>labels_removed := labels_removed res @ [l]\<rparr>
      | _ \<Rightarrow> res)"

text \<open>One round of the loop over the desired states.\<close>

definition apply_label ::
    "(string \<Rightarrow> datetime) \<Rightarrow> mutations_by_label \<Rightarrow> string \<times> LabelStateInner \<Rightarrow> EntityLabelMutationsResult \<Rightarrow>
     EntityLabelMutationsResult result" where
  "apply_label checked by_name p res =
     (let (l, desired) = p in
      case map_of (new_entity_labels res) l of
        None \<Rightarrow>
          Inr (append_result l (inner_status desired)
                (res\<lparr>new_entity_labels := AList.update l (from_inner desired) (new_entity_labels res)\<rparr>))
      | Some cur \<Rightarrow>
          bindR (try_apply_desired_state (checked l) desired cur) (\<lambda>(drop, st).
            let res1 = res\<lparr>new_entity_labels := AList.update l st (new_entity_labels res)\<rparr> in
            case drop of
              Some r \<Rightarrow>
                Inr (res1\<lparr>dropped_mutations := dropped_mutations res1 @
                           map (drop_mutation r) (case map_of by_name l of None \<Rightarrow> [] | Some ms \<Rightarrow> ms)\<rparr>)
            | None \<Rightarrow>
                if status cur = status st then Inr (res1\<lparr>labels_updated := labels_updated res1 @ [l]\<rparr>)
                else Inr (append_result l (status st) res1)))"

fun apply_labels ::
    "(string \<Rightarrow> datetime) \<Rightarrow> mutations_by_label \<Rightarrow> (string \<times> LabelStateInner) list \<Rightarrow>
     EntityLabelMutationsResult \<Rightarrow> EntityLabelMutationsResult result" where
  "apply_labels checked by_name [] res = Inr res"
| "apply_labels checked by_name (p # ps) res =
     bindR (apply_label checked by_name p res) (apply_labels checked by_name ps)"

definition compute_new_labels_from_mutations ::
    "(EntityLabelMutation \<Rightarrow> datetime) \<Rightarrow> (string \<Rightarrow> datetime) \<Rightarrow> EntityLabels \<Rightarrow> EntityLabelMutation list \<Rightarrow>
     EntityLabelMutationsResult result" where
  "compute_new_labels_from_mutations created checked labels ms =
     (let (by_name, dropped) = get_mutations_by_label_name_and_drop_conflicts ms in
      bindR (get_desired_states_by_label_name created by_name) (\<lambda>desired.
        apply_labels checked by_name desired
          \<lparr>new_entity_labels = labels, old_entity_labels = labels, labels_added = [], labels_removed = [],
           labels_updated = [], dropped_mutations = dropped\<rparr>))"

text \<open>
  \<open>apply_entity_label_mutations\<close>: the labels service is a store that is read and, when the computation
  does not raise, written under the lock of the entity. The entity is its identifier as a string.
\<close>

definition apply_entity_label_mutations ::
    "(EntityLabelMutation \<Rightarrow> datetime) \<Rightarrow> (string \<Rightarrow> datetime) \<Rightarrow> string \<Rightarrow> EntityLabelMutation list \<Rightarrow>
     (string \<Rightarrow> EntityLabels) \<Rightarrow> EntityLabelMutationsResult result \<times> (string \<Rightarrow> EntityLabels)" where
  "apply_entity_label_mutations created checked entity ms store =
     (if entity = '''' then
        (Inr \<lparr>new_entity_labels = [], old_entity_labels = [], labels_added = [], labels_removed = [],
              labels_updated = [], dropped_mutations = map (drop_mutation INVALID_ENTITY_ID) ms\<rparr>, store)
      else case compute_new_labels_from_mutations created checked (store entity) ms of
             Inl e \<Rightarrow> (Inl e, store)
           | Inr res \<Rightarrow> (Inr res, store(entity := new_entity_labels res)))"

text \<open>\<open>batch_read_labels\<close>: one read after the other, an exception becomes the result of its entity.\<close>

fun batch_read_labels :: "('e \<Rightarrow> EntityLabels result) \<Rightarrow> 'e list \<Rightarrow> EntityLabels result list" where
  "batch_read_labels read_labels [] = []"
| "batch_read_labels read_labels (e # es) = read_labels e # batch_read_labels read_labels es"

section \<open>Conflicting mutations\<close>

definition for_label :: "string \<Rightarrow> EntityLabelMutation list \<Rightarrow> EntityLabelMutation list" where
  "for_label l ms = filter (\<lambda>m. label_name m = l) ms"

definition weight :: "EntityLabelMutation \<Rightarrow> nat" where
  "weight m = status_value (mut_status m)"

definition top_weight :: "EntityLabelMutation list \<Rightarrow> nat" where
  "top_weight ms = Max (weight ` set ms)"

text \<open>The mutations of a label that win: all those of the highest status, in their order.\<close>

definition winners :: "string \<Rightarrow> EntityLabelMutation list \<Rightarrow> EntityLabelMutation list" where
  "winners l ms = filter (\<lambda>m. weight m = top_weight (for_label l ms)) (for_label l ms)"

definition dropped_ok :: "EntityLabelMutation list \<Rightarrow> DroppedEntityLabelMutation \<Rightarrow> bool" where
  "dropped_ok ms d \<longleftrightarrow>
     (if label_name (mutation d) = '''' then drop_reason d = INVALID_LABEL_NAME
      else drop_reason d = CONFLICTING_MUTATION \<and>
        (\<exists>m \<in> set ms. label_name m = label_name (mutation d) \<and> weight m > weight (mutation d)))"

definition collected_ok :: "EntityLabelMutation list \<Rightarrow> mutations_by_label \<times> DroppedEntityLabelMutation list \<Rightarrow> bool" where
  "collected_ok ms st \<longleftrightarrow>
     distinct (keys (fst st)) \<and>
     (\<forall>l. map_of (fst st) l = (if l = '''' \<or> for_label l ms = [] then None else Some (winners l ms))) \<and>
     mset (concat (dvalues (fst st))) + mset (map mutation (snd st)) = mset ms \<and>
     (\<forall>d \<in> set (snd st). dropped_ok ms d)"

lemma status_value_inj: "status_value a = status_value b \<longleftrightarrow> a = b"
  by (cases a; cases b) simp_all

lemma winners_snoc_other: "label_name m \<noteq> l \<Longrightarrow> winners l (ms @ [m]) = winners l ms"
  by (simp add: winners_def for_label_def)

lemma for_label_snoc: "for_label l (ms @ [m]) = for_label l ms @ (if label_name m = l then [m] else [])"
  by (simp add: for_label_def)

lemma top_weight_snoc: "ms \<noteq> [] \<Longrightarrow> top_weight (ms @ [m]) = max (weight m) (top_weight ms)"
  by (simp add: top_weight_def)

lemma weight_le_top: "m \<in> set ms \<Longrightarrow> weight m \<le> top_weight ms"
  by (simp add: top_weight_def)

lemma winners_nonempty: "for_label l ms \<noteq> [] \<Longrightarrow> winners l ms \<noteq> []"
proof -
  assume "for_label l ms \<noteq> []"
  then have "top_weight (for_label l ms) \<in> weight ` set (for_label l ms)"
    unfolding top_weight_def by (intro Max_in) simp_all
  then show ?thesis by (auto simp: winners_def filter_empty_conv)
qed

lemma winners_weight: "m \<in> set (winners l ms) \<Longrightarrow> weight m = top_weight (for_label l ms) \<and> label_name m = l"
  by (auto simp: winners_def for_label_def)

lemma winners_snoc:
  assumes "label_name m = l" and "for_label l ms \<noteq> []"
  shows "winners l (ms @ [m]) =
    (if weight m > top_weight (for_label l ms) then [m]
     else if weight m < top_weight (for_label l ms) then winners l ms else winners l ms @ [m])"
proof -
  have "weight x \<noteq> weight m" if "x \<in> set (for_label l ms)" "weight m > top_weight (for_label l ms)" for x
    using weight_le_top [OF that(1)] that(2) by simp
  then show ?thesis using assms
    by (auto simp: winners_def for_label_snoc top_weight_snoc max_def filter_empty_conv)
qed

lemma mset_update_values:
  assumes "distinct (keys d)" and "map_of d k = Some v"
  shows "mset (concat (dvalues (AList.update k v' d))) + mset v = mset (concat (dvalues d)) + mset v'"
  using assms
proof (induction d)
  case (Cons p d)
  obtain k1 v1 where p: "p = (k1, v1)" by (cases p)
  show ?case
  proof (cases "k1 = k")
    case True
    then show ?thesis using Cons.prems p by (simp add: union_ac)
  next
    case False
    then have "map_of d k = Some v" using Cons.prems p by simp
    with Cons.IH Cons.prems(1) have "mset (concat (dvalues (AList.update k v' d))) + mset v =
        mset (concat (dvalues d)) + mset v'" by simp
    then show ?thesis using False p by (simp add: union_assoc)
  qed
qed simp

lemma mset_shift:
  assumes "A + W = C + M" and "C + D = S"
  shows "A + (D + W) = S + (M :: 'a multiset)"
proof -
  have "A + (D + W) = (A + W) + D" by (simp add: ac_simps)
  also have "\<dots> = (C + D) + M" unfolding assms(1) by (simp add: ac_simps)
  finally show ?thesis by (simp add: assms(2))
qed

lemma dropped_ok_mono: "dropped_ok ms d \<Longrightarrow> dropped_ok (ms @ [m]) d"
  by (auto simp: dropped_ok_def split: if_splits)

lemma collect_mutation_ok:
  assumes "collected_ok ms st"
  shows "collected_ok (ms @ [m]) (collect_mutation st m)"
proof -
  obtain by_name dropped where st: "st = (by_name, dropped)" by (cases st)
  let ?l = "label_name m"
  have d: "distinct (keys by_name)"
    and lk: "\<And>l. map_of by_name l = (if l = '''' \<or> for_label l ms = [] then None else Some (winners l ms))"
    and ms: "mset (concat (dvalues by_name)) + mset (map mutation dropped) = mset ms"
    and dr: "\<forall>x \<in> set dropped. dropped_ok ms x"
    using assms st by (auto simp: collected_ok_def)
  have dr': "\<forall>x \<in> set dropped. dropped_ok (ms @ [m]) x" using dr dropped_ok_mono by blast
  consider (invalid) "?l = ''''" | (new) "?l \<noteq> ''''" "for_label ?l ms = []" | (old) "?l \<noteq> ''''" "for_label ?l ms \<noteq> []" by blast
  then show ?thesis
  proof cases
    case invalid
    have "map_of by_name l = (if l = '''' \<or> for_label l (ms @ [m]) = [] then None else Some (winners l (ms @ [m])))" for l
      using lk [of l] invalid by (cases "l = ''''") (simp_all add: for_label_snoc winners_snoc_other)
    then show ?thesis using invalid st d ms dr'
      by (auto simp: collected_ok_def collect_mutation_def drop_mutation_def dropped_ok_def [of _ "\<lparr>mutation = m, drop_reason = INVALID_LABEL_NAME\<rparr>"])
  next
    case new
    have w: "winners ?l (ms @ [m]) = [m]" using new by (simp add: winners_def for_label_snoc top_weight_def)
    have None: "map_of by_name ?l = None" using lk new by simp
    have col: "collect_mutation st m = (AList.update ?l [m] by_name, dropped)"
      using None new(1) by (simp add: st collect_mutation_def)
    have "mset (concat (dvalues (AList.update ?l [m] by_name))) = mset (concat (dvalues by_name)) + {#m#}"
      by (simp add: update_fresh [OF None])
    moreover have "map_of (AList.update ?l [m] by_name) l =
        (if l = '''' \<or> for_label l (ms @ [m]) = [] then None else Some (winners l (ms @ [m])))" for l
      using lk [of l] new w by (cases "l = ?l") (simp_all add: map_of_update for_label_snoc winners_snoc_other)
    ultimately show ?thesis using d ms dr' by (simp add: col collected_ok_def dict_simps)
  next
    case old
    define ws where "ws = winners ?l ms"
    have ws: "map_of by_name ?l = Some ws" using lk old by (simp add: ws_def)
    have hd: "weight (hd ws) = top_weight (for_label ?l ms)"
      using winners_weight [of "hd ws" ?l ms] winners_nonempty [OF old(2)] by (simp add: ws_def)
    note upd = mset_update_values [OF d ws]
    note wsn = winners_snoc [OF refl old(2), folded ws_def hd]
    have in_ms: "x \<in> set ms \<and> label_name x = ?l \<and> weight x = weight (hd ws)" if "x \<in> set ws" for x
    proof -
      have "set ws \<subseteq> set ms" by (auto simp: ws_def winners_def for_label_def)
      then show ?thesis using that hd winners_weight [of x ?l ms] by (auto simp flip: ws_def)
    qed
    have ne: "hd ws \<in> set ws" using winners_nonempty [OF old(2)] by (simp add: ws_def)
    have lk': "(if l = ?l then Some (winners ?l (ms @ [m])) else map_of by_name l) =
        (if l = '''' \<or> for_label l (ms @ [m]) = [] then None else Some (winners l (ms @ [m])))" for l
      using lk [of l] old by (auto simp: for_label_snoc winners_snoc_other)
    have col: "collect_mutation st m =
        (if weight m > weight (hd ws) then
           (AList.update ?l [m] by_name, dropped @ map (drop_mutation CONFLICTING_MUTATION) ws)
         else if weight m < weight (hd ws) then (by_name, dropped @ [drop_mutation CONFLICTING_MUTATION m])
         else (AList.update ?l (ws @ [m]) by_name, dropped))"
      using old(1) ws by (simp add: st collect_mutation_def weight_def Let_def)
    have upd_lk: "map_of (AList.update ?l (winners ?l (ms @ [m])) by_name) l =
        (if l = '''' \<or> for_label l (ms @ [m]) = [] then None else Some (winners l (ms @ [m])))" for l
      unfolding lk' [symmetric] by (simp add: map_of_update)
    have map_mutation: "map mutation (map (drop_mutation r) xs) = xs" for r xs
      by (simp add: drop_mutation_def comp_def)
    show ?thesis
    proof (cases "weight m" "weight (hd ws)" rule: linorder_cases)
      case less
      have "map_of by_name l = (if l = '''' \<or> for_label l (ms @ [m]) = [] then None else Some (winners l (ms @ [m])))" for l
        using lk' [of l] wsn less ws by (auto split: if_splits)
      moreover have "dropped_ok (ms @ [m]) (drop_mutation CONFLICTING_MUTATION m)"
        using in_ms [OF ne] less old(1) by (auto simp: dropped_ok_def drop_mutation_def)
      ultimately show ?thesis using less col d ms dr' by (simp add: collected_ok_def drop_mutation_def)
    next
      case equal
      then have w: "winners ?l (ms @ [m]) = ws @ [m]" using wsn by simp
      have "mset (concat (dvalues (AList.update ?l (ws @ [m]) by_name))) + mset (map mutation dropped) = mset (ms @ [m])"
        using upd [of "ws @ [m]"] ms by (simp add: union_ac)
      moreover have "collect_mutation st m = (AList.update ?l (ws @ [m]) by_name, dropped)" using col equal by simp
      ultimately show ?thesis using d dr' upd_lk [unfolded w]
        by (simp add: collected_ok_def distinct_keys_update del: mset_map)
    next
      case greater
      have "dropped_ok (ms @ [m]) (drop_mutation CONFLICTING_MUTATION x)" if "x \<in> set ws" for x
        using in_ms [OF that] greater old(1) by (auto simp: dropped_ok_def drop_mutation_def)
      moreover have "mset (concat (dvalues (AList.update ?l [m] by_name))) +
          mset (map mutation (dropped @ map (drop_mutation CONFLICTING_MUTATION) ws)) = mset (ms @ [m])"
        unfolding map_append map_mutation using mset_shift [OF upd [of "[m]"] ms] by (simp del: mset_map)
      moreover have "winners ?l (ms @ [m]) = [m]" using wsn greater by simp
      moreover have "collect_mutation st m =
          (AList.update ?l [m] by_name, dropped @ map (drop_mutation CONFLICTING_MUTATION) ws)"
        using col greater by simp
      ultimately show ?thesis using d dr' upd_lk
        by (auto simp: collected_ok_def distinct_keys_update simp del: mset_map map_append)
    qed
  qed
qed

lemma collected: "collected_ok ms (get_mutations_by_label_name_and_drop_conflicts ms)"
proof (induction ms rule: rev_induct)
  case Nil
  show ?case by (simp add: get_mutations_by_label_name_and_drop_conflicts_def collected_ok_def for_label_def)
next
  case (snoc m ms)
  from collect_mutation_ok [OF this] show ?case
    by (simp add: get_mutations_by_label_name_and_drop_conflicts_def)
qed

section \<open>Well-formed label states\<close>

text \<open>
  A stored reason has a creation time, and no time is within five seconds of \<open>datetime.max\<close>; a stored
  state has a reason.
\<close>

definition soon_enough :: "datetime \<Rightarrow> bool" where
  "soon_enough d \<longleftrightarrow> local_us d + 5000000 \<le> local_us datetime_max"

definition reason_ok :: "LabelReason \<Rightarrow> bool" where
  "reason_ok r \<longleftrightarrow> (\<exists>c. created_at r = Some c \<and> soon_enough c \<and> tz_offset c \<noteq> None) \<and>
     (\<forall>e. expires_at r = Some e \<longrightarrow> soon_enough e \<and> tz_offset e \<noteq> None)"

definition reasons_ok :: "LabelReasons \<Rightarrow> bool" where
  "reasons_ok rs \<longleftrightarrow> rs \<noteq> [] \<and> (\<forall>r \<in> set (dvalues rs). reason_ok r)"

definition state_ok :: "LabelState \<Rightarrow> bool" where
  "state_ok st \<longleftrightarrow> reasons_ok (reasons st) \<and> (\<forall>p \<in> set (previous_states st). reasons_ok (inner_reasons p))"

definition labels_ok :: "EntityLabels \<Rightarrow> bool" where
  "labels_ok ls \<longleftrightarrow> (\<forall>st \<in> set (dvalues ls). state_ok st)"

definition mutation_ok :: "(EntityLabelMutation \<Rightarrow> datetime) \<Rightarrow> EntityLabelMutation \<Rightarrow> bool" where
  "mutation_ok created m \<longleftrightarrow> soon_enough (created m) \<and> (\<forall>e. mut_expires_at m = Some e \<longrightarrow> soon_enough e)"

lemma dvalues_update: "set (dvalues (AList.update k v d)) \<subseteq> insert v (set (dvalues d))"
  by (induction d) auto

lemma soon_enough_tz [simp]: "soon_enough (d\<lparr>tz_offset := z\<rparr>) = soon_enough d"
  by (simp add: soon_enough_def local_us_def to_ordinal_def Let_def)

lemma plus_five: "soon_enough d \<Longrightarrow> plus_seconds d 5 = Inr (instant d + 5000000)"
  by (simp add: plus_seconds_def soon_enough_def)

lemma awareness_ok:
  "guarantee_utc_timezone_awareness x = Some d \<Longrightarrow>
     tz_offset d \<noteq> None \<and> (\<forall>y. x = Some y \<longrightarrow> soon_enough d = soon_enough y)"
  by (auto simp: guarantee_utc_timezone_awareness_def split: option.splits if_splits)

lemma post_init_ok:
  assumes "created_at r = Some c" and "soon_enough c" and "\<And>e. expires_at r = Some e \<Longrightarrow> soon_enough e"
  shows "reason_ok (post_init r)"
proof -
  have "\<exists>c'. guarantee_utc_timezone_awareness (Some c) = Some c'"
    by (simp add: guarantee_utc_timezone_awareness_def)
  then obtain c' where "guarantee_utc_timezone_awareness (Some c) = Some c'" by blast
  moreover have "soon_enough e" if "guarantee_utc_timezone_awareness (expires_at r) = Some e" for e
    using awareness_ok [OF that] that assms(3)
    by (cases "expires_at r") (auto simp: guarantee_utc_timezone_awareness_def)
  ultimately show ?thesis using assms(1,2) awareness_ok by (fastforce simp: reason_ok_def post_init_def)
qed

lemma mutation_reason_ok: "mutation_ok created m \<Longrightarrow> reason_ok (mutation_reason created m)"
  unfolding mutation_reason_def by (rule post_init_ok) (auto simp: mutation_ok_def)

lemma insert_or_update_ok:
  assumes "\<forall>x \<in> set (dvalues rs). reason_ok x" and "reason_ok r"
  shows "\<exists>b rs'. insert_or_update rs name r = Inr (b, rs') \<and> reasons_ok rs' \<and>
    set (keys rs') = insert name (set (keys rs))"
proof (cases "map_of rs name")
  case None
  then have "rs' = AList.update name r rs \<Longrightarrow> rs' \<noteq> []" for rs' by (simp add: update_fresh)
  with None assms dvalues_update [of name r rs] show ?thesis
    by (auto simp: insert_or_update_def reasons_ok_def dict_simps simp del: set_map)
next
  case (Some cur)
  then have "cur \<in> set (dvalues rs)" using map_of_SomeD [OF Some] by force
  with assms(1) obtain c where c: "created_at cur = Some c" "soon_enough c" by (auto simp: reason_ok_def)
  from assms(2) obtain n where n: "created_at r = Some n" "soon_enough n" by (auto simp: reason_ok_def)
  have key: "name \<in> set (keys rs)" and ne: "rs \<noteq> []" using map_of_Some_keys [OF Some] Some by auto
  let ?r = "post_init (r\<lparr>created_at := Some c\<rparr>)"
  have "reason_ok ?r" using c assms(2) by (intro post_init_ok) (auto simp: reason_ok_def)
  moreover have "AList.update name ?r rs \<noteq> []" using ne by (cases rs) auto
  ultimately have "reasons_ok (AList.update name ?r rs)"
    using assms(1) dvalues_update [of name ?r rs] by (auto simp: reasons_ok_def simp del: set_map)
  then show ?thesis using Some c n ne assms(1) key plus_five [OF n(2)]
    by (auto simp: insert_or_update_def reasons_ok_def dict_simps insert_absorb simp del: set_map)
qed

lemma merge_reasons_ok:
  assumes "\<forall>x \<in> set (dvalues rs). reason_ok x" and "\<forall>x \<in> set (dvalues new). reason_ok x"
    and "rs \<noteq> [] \<or> new \<noteq> []"
  shows "\<exists>rs'. merge_reasons new rs = Inr rs' \<and> reasons_ok rs' \<and> set (keys rs') = set (keys rs) \<union> set (keys new)"
  using assms
proof (induction new arbitrary: rs)
  case Nil
  then show ?case by (simp add: reasons_ok_def)
next
  case (Cons p new)
  obtain name r where p: "p = (name, r)" by (cases p)
  from insert_or_update_ok [OF Cons.prems(1), of r name] Cons.prems(2) p obtain b rs1 where
    rs1: "insert_or_update rs name r = Inr (b, rs1)" "reasons_ok rs1" "set (keys rs1) = insert name (set (keys rs))"
    by auto
  from Cons.IH [of rs1] rs1(2) Cons.prems(2) obtain rs' where
    "merge_reasons new rs1 = Inr rs'" "reasons_ok rs'" "set (keys rs') = set (keys rs1) \<union> set (keys new)"
    by (auto simp: reasons_ok_def)
  with rs1 p show ?case by auto
qed

section \<open>Applying a desired state\<close>

text \<open>A state is expired when every reason expires and did so more than five seconds ago.\<close>

definition expired :: "datetime \<Rightarrow> LabelReasons \<Rightarrow> bool" where
  "expired now rs \<longleftrightarrow> (\<forall>r \<in> set (dvalues rs). \<exists>x. expires_at r = Some x \<and> instant x + 5000000 < instant now)"

definition after_min :: "datetime \<Rightarrow> bool" where
  "after_min now \<longleftrightarrow> instant datetime_min_utc + 5000000 < instant now"

lemma latest_expiry_cases:
  "(case latest_expiry rs e of None \<Rightarrow> False | Some x \<Rightarrow> instant x + 5000000 < n) \<longleftrightarrow>
     instant e + 5000000 < n \<and> (\<forall>r \<in> set rs. \<exists>x. expires_at r = Some x \<and> instant x + 5000000 < n)"
  by (induction rs e rule: latest_expiry.induct) (auto split: option.splits)

lemma latest_expiry_soon:
  assumes "soon_enough e" and "\<forall>r \<in> set rs. reason_ok r" and "latest_expiry rs e = Some x"
  shows "soon_enough x"
  using assms
proof (induction rs arbitrary: e)
  case (Cons r rs)
  from Cons.prems(3) obtain y where y: "expires_at r = Some y"
    "latest_expiry rs (if instant e > instant y then e else y) = Some x" by (auto split: option.splits)
  have "soon_enough y" using Cons.prems(2) y(1) by (simp add: reason_ok_def)
  then have "soon_enough (if instant e > instant y then e else y)" using Cons.prems(1) by simp
  from Cons.IH [OF this _ y(2)] Cons.prems(2) show ?case by simp
qed simp

lemma soon_enough_min: "soon_enough datetime_min_utc"
  by (simp add: soon_enough_def local_us_def to_ordinal_def datetime_max_def datetime_min_utc_def
      days_in_month_def is_leap_def upt_rec)

lemma is_expired_ok:
  assumes "reasons_ok (reasons st)" and "after_min now"
  shows "is_expired now st = Inr (expired now (reasons st))"
proof -
  let ?e = "latest_expiry (dvalues (reasons st)) datetime_min_utc"
  have "soon_enough x" if "?e = Some x" for x
    using latest_expiry_soon [OF soon_enough_min _ that] assms(1) by (simp add: reasons_ok_def)
  then have "is_expired now st =
      Inr (case ?e of None \<Rightarrow> False | Some x \<Rightarrow> instant x + 5000000 < instant now)"
    using assms(1) by (auto simp: is_expired_def state_expires_at_def reasons_ok_def plus_five split: option.splits)
  also have "\<dots> = Inr (expired now (reasons st))"
    using assms(2) by (simp add: latest_expiry_cases expired_def after_min_def)
  finally show ?thesis .
qed

definition blocked :: "datetime \<Rightarrow> LabelState \<Rightarrow> LabelStatus \<Rightarrow> bool" where
  "blocked now st s \<longleftrightarrow> \<not> expired now (reasons st) \<and> is_manual (status st) \<and> is_automatic s"

text \<open>What the desired state does to the current one.\<close>

definition applied :: "datetime \<Rightarrow> LabelStateInner \<Rightarrow> LabelState \<Rightarrow> LabelState \<Rightarrow> bool" where
  "applied now d st st' \<longleftrightarrow> status st' = inner_status d \<and>
     (if expired now (reasons st) then reasons st' = inner_reasons d
      else set (keys (reasons st')) =
        set (keys (inner_reasons d)) \<union> (if status st = inner_status d then set (keys (reasons st)) else {})) \<and>
     previous_states st' =
       (if expired now (reasons st) \<or> status st \<noteq> inner_status d
        then \<lparr>inner_status = status st, inner_reasons = reasons st\<rparr> # previous_states st else previous_states st)"

lemma try_apply_ok:
  assumes "state_ok st" and "reasons_ok (inner_reasons d)" and "after_min now"
  shows "if blocked now st (inner_status d)
    then try_apply_desired_state now d st = Inr (Some CANNOT_OVERRIDE_MANUAL, st)
    else \<exists>st'. try_apply_desired_state now d st = Inr (None, st') \<and> state_ok st' \<and> applied now d st st'"
proof -
  have rs: "reasons_ok (reasons st)" and ne: "reasons st \<noteq> []" and ne': "inner_reasons d \<noteq> []"
    using assms(1,2) by (auto simp: state_ok_def reasons_ok_def)
  note ex = is_expired_ok [OF rs assms(3)]
  define base where "base = (if status st = inner_status d then reasons st else [])"
  have base: "\<forall>x \<in> set (dvalues base). reason_ok x" using rs by (simp add: base_def reasons_ok_def)
  from merge_reasons_ok [OF base, of "inner_reasons d"] assms(2) ne' obtain merged where
    m: "merge_reasons (inner_reasons d) base = Inr merged" "reasons_ok merged"
    "set (keys merged) = set (keys base) \<union> set (keys (inner_reasons d))" by (auto simp: reasons_ok_def)
  consider (exp) "expired now (reasons st)" | (blk) "blocked now st (inner_status d)" "\<not> expired now (reasons st)"
    | (go) "\<not> blocked now st (inner_status d)" "\<not> expired now (reasons st)" by blast
  then show ?thesis
  proof cases
    case exp
    then show ?thesis using ex ne assms(1,2)
      by (simp add: try_apply_desired_state_def shift_current_state_to_previous_state_def blocked_def applied_def state_ok_def)
  next
    case blk
    then show ?thesis using ex by (simp add: try_apply_desired_state_def blocked_def)
  next
    case go
    define st1 where "st1 = (if status st \<noteq> inner_status d
      then (shift_current_state_to_previous_state st)\<lparr>status := inner_status d\<rparr> else st)"
    have st1: "reasons st1 = base" "status st1 = inner_status d"
      "previous_states st1 = (if status st \<noteq> inner_status d
         then \<lparr>inner_status = status st, inner_reasons = reasons st\<rparr> # previous_states st else previous_states st)"
      using ne by (simp_all add: st1_def base_def shift_current_state_to_previous_state_def)
    have "try_apply_desired_state now d st = Inr (None, st1\<lparr>reasons := merged\<rparr>)"
      using go ex m(1) st1(1) by (simp add: try_apply_desired_state_def blocked_def Let_def flip: st1_def)
    moreover have "state_ok (st1\<lparr>reasons := merged\<rparr>)" using assms(1) m(2) st1(3) by (simp add: state_ok_def)
    moreover have "applied now d st (st1\<lparr>reasons := merged\<rparr>)"
      using go(2) st1(2,3) m(3) by (auto simp: applied_def base_def)
    ultimately show ?thesis using go(1) by auto
  qed
qed

section \<open>Applying all of them\<close>

definition label_outcome :: "datetime \<Rightarrow> LabelStateInner \<Rightarrow> LabelState option \<Rightarrow> LabelState option \<Rightarrow> bool" where
  "label_outcome now d old new \<longleftrightarrow>
     (case old of
        None \<Rightarrow> new = Some (from_inner d)
      | Some cur \<Rightarrow>
          if blocked now cur (inner_status d) then new = Some cur
          else \<exists>st. new = Some st \<and> applied now d cur st)"

definition is_blocked :: "(string \<Rightarrow> datetime) \<Rightarrow> EntityLabels \<Rightarrow> string \<times> LabelStateInner \<Rightarrow> bool" where
  "is_blocked checked labels p \<longleftrightarrow>
     (case map_of labels (fst p) of None \<Rightarrow> False | Some cur \<Rightarrow> blocked (checked (fst p)) cur (inner_status (snd p)))"

definition reported :: "EntityLabelMutationsResult \<Rightarrow> string list" where
  "reported res = labels_added res @ labels_removed res @ labels_updated res"

lemma append_result_simps [simp]:
  "new_entity_labels (append_result l s res) = new_entity_labels res"
  "old_entity_labels (append_result l s res) = old_entity_labels res"
  "dropped_mutations (append_result l s res) = dropped_mutations res"
  "mset (reported (append_result l s res)) = add_mset l (mset (reported res))"
  by (cases s; simp add: append_result_def reported_def)+

lemma apply_label_ok:
  assumes "labels_ok (new_entity_labels res)" and "reasons_ok (inner_reasons d)" and "after_min (checked l)"
  shows "\<exists>res'. apply_label checked by_name (l, d) res = Inr res' \<and> labels_ok (new_entity_labels res') \<and>
    old_entity_labels res' = old_entity_labels res \<and>
    (\<forall>k. k \<noteq> l \<longrightarrow> map_of (new_entity_labels res') k = map_of (new_entity_labels res) k) \<and>
    label_outcome (checked l) d (map_of (new_entity_labels res) l) (map_of (new_entity_labels res') l) \<and>
    (if is_blocked checked (new_entity_labels res) (l, d)
     then reported res' = reported res \<and> dropped_mutations res' = dropped_mutations res @
        map (drop_mutation CANNOT_OVERRIDE_MANUAL) (case map_of by_name l of None \<Rightarrow> [] | Some ms \<Rightarrow> ms)
     else mset (reported res') = add_mset l (mset (reported res)) \<and> dropped_mutations res' = dropped_mutations res)"
proof (cases "map_of (new_entity_labels res) l")
  case None
  have "state_ok (from_inner d)" using assms(2) by (simp add: state_ok_def from_inner_def)
  then have "labels_ok (AList.update l (from_inner d) (new_entity_labels res))"
    using assms(1) dvalues_update [of l "from_inner d" "new_entity_labels res"] by (auto simp: labels_ok_def simp del: set_map)
  then show ?thesis using None
    by (simp add: apply_label_def label_outcome_def is_blocked_def map_of_update)
      (simp add: reported_def)
next
  case (Some cur)
  have cur: "state_ok cur" using assms(1) map_of_SomeD [OF Some] by (force simp: labels_ok_def)
  note tr = try_apply_ok [OF cur assms(2,3)]
  have upd: "labels_ok (AList.update l st (new_entity_labels res))" if "state_ok st" for st
    using that assms(1) dvalues_update [of l st "new_entity_labels res"] by (auto simp: labels_ok_def simp del: set_map)
  show ?thesis
  proof (cases "blocked (checked l) cur (inner_status d)")
    case True
    with tr have t: "try_apply_desired_state (checked l) d cur = Inr (Some CANNOT_OVERRIDE_MANUAL, cur)" by simp
    then show ?thesis using Some True upd [OF cur]
      by (simp add: apply_label_def label_outcome_def is_blocked_def map_of_update reported_def Let_def)
  next
    case False
    with tr obtain st where t: "try_apply_desired_state (checked l) d cur = Inr (None, st)" "state_ok st"
      "applied (checked l) d cur st" by auto
    then show ?thesis using Some False upd [OF t(2)]
      by (simp add: apply_label_def label_outcome_def is_blocked_def map_of_update Let_def)
        (simp add: reported_def)
  qed
qed

lemma is_blocked_cong:
  "map_of labels' (fst p) = map_of labels (fst p) \<Longrightarrow> is_blocked checked labels' p = is_blocked checked labels p"
  by (simp add: is_blocked_def)

definition dropped_for :: "mutations_by_label \<Rightarrow> string \<times> LabelStateInner \<Rightarrow> DroppedEntityLabelMutation list" where
  "dropped_for by_name p =
     map (drop_mutation CANNOT_OVERRIDE_MANUAL) (case map_of by_name (fst p) of None \<Rightarrow> [] | Some ms \<Rightarrow> ms)"

text \<open>The effect of the whole loop on the result, from the labels it starts with.\<close>

definition loop_post ::
    "(string \<Rightarrow> datetime) \<Rightarrow> mutations_by_label \<Rightarrow> (string \<times> LabelStateInner) list \<Rightarrow>
     EntityLabelMutationsResult \<Rightarrow> EntityLabelMutationsResult \<Rightarrow> bool" where
  "loop_post checked by_name ps res res' \<longleftrightarrow>
     labels_ok (new_entity_labels res') \<and> old_entity_labels res' = old_entity_labels res \<and>
     (\<forall>k. k \<notin> set (keys ps) \<longrightarrow> map_of (new_entity_labels res') k = map_of (new_entity_labels res) k) \<and>
     (\<forall>(l, d) \<in> set ps. label_outcome (checked l) d (map_of (new_entity_labels res) l) (map_of (new_entity_labels res') l)) \<and>
     mset (reported res') = mset (reported res) +
       mset (keys (filter (\<lambda>p. \<not> is_blocked checked (new_entity_labels res) p) ps)) \<and>
     dropped_mutations res' = dropped_mutations res @
       concat (map (dropped_for by_name) (filter (is_blocked checked (new_entity_labels res)) ps))"

lemma apply_labels_ok:
  assumes "labels_ok (new_entity_labels res)" and "distinct (keys ps)"
    and "\<forall>(l, d) \<in> set ps. reasons_ok (inner_reasons d)" and "\<forall>l. after_min (checked l)"
  shows "\<exists>res'. apply_labels checked by_name ps res = Inr res' \<and> loop_post checked by_name ps res res'"
  using assms(1-3)
proof (induction ps arbitrary: res)
  case Nil
  then show ?case by (simp add: loop_post_def)
next
  case (Cons p ps)
  obtain l d where p: "p = (l, d)" by (cases p)
  let ?old = "new_entity_labels res"
  from apply_label_ok [OF Cons.prems(1), of d checked l by_name] Cons.prems(3) assms(4) p obtain res1 where
    r1: "apply_label checked by_name (l, d) res = Inr res1" "labels_ok (new_entity_labels res1)"
    "old_entity_labels res1 = old_entity_labels res"
    and frame: "\<And>k. k \<noteq> l \<Longrightarrow> map_of (new_entity_labels res1) k = map_of ?old k"
    and out: "label_outcome (checked l) d (map_of ?old l) (map_of (new_entity_labels res1) l)"
    and rep: "if is_blocked checked ?old (l, d)
      then reported res1 = reported res \<and> dropped_mutations res1 = dropped_mutations res @ dropped_for by_name (l, d)
      else mset (reported res1) = add_mset l (mset (reported res)) \<and> dropped_mutations res1 = dropped_mutations res"
    by (auto simp: dropped_for_def)
  from Cons.IH [OF r1(2)] Cons.prems(2,3) obtain res' where
    r': "apply_labels checked by_name ps res1 = Inr res'" "loop_post checked by_name ps res1 res'" by auto
  have fresh: "l \<notin> set (keys ps)" using Cons.prems(2) p by simp
  have same: "map_of (new_entity_labels res1) k = map_of ?old k" if "k \<in> set (keys ps)" for k
    using frame [of k] fresh that by blast
  have blk: "is_blocked checked (new_entity_labels res1) q = is_blocked checked ?old q" if "q \<in> set ps" for q
    using that same by (intro is_blocked_cong) auto
  have filt: "filter (is_blocked checked (new_entity_labels res1)) ps = filter (is_blocked checked ?old) ps"
    "filter (\<lambda>q. \<not> is_blocked checked (new_entity_labels res1) q) ps = filter (\<lambda>q. \<not> is_blocked checked ?old q) ps"
    using blk by (auto intro: filter_cong)
  have l': "map_of (new_entity_labels res') l = map_of (new_entity_labels res1) l"
    using r'(2) fresh by (simp add: loop_post_def)
  have outs: "\<forall>(k, e) \<in> set ps. label_outcome (checked k) e (map_of ?old k) (map_of (new_entity_labels res') k)"
    using r'(2) same by (force simp: loop_post_def)
  have "loop_post checked by_name (p # ps) res res'"
    unfolding loop_post_def
  proof (intro conjI)
    show "labels_ok (new_entity_labels res')" "old_entity_labels res' = old_entity_labels res"
      using r'(2) r1(3) by (simp_all add: loop_post_def)
    show "\<forall>k. k \<notin> set (keys (p # ps)) \<longrightarrow> map_of (new_entity_labels res') k = map_of ?old k"
      using r'(2) frame p by (simp add: loop_post_def)
    show "\<forall>(k, e) \<in> set (p # ps). label_outcome (checked k) e (map_of ?old k) (map_of (new_entity_labels res') k)"
      using outs out l' p by simp
    show "mset (reported res') = mset (reported res) + mset (keys (filter (\<lambda>p. \<not> is_blocked checked ?old p) (p # ps)))"
      using r'(2) rep filt(2) p by (auto simp: loop_post_def split: if_splits)
    show "dropped_mutations res' = dropped_mutations res @
        concat (map (dropped_for by_name) (filter (is_blocked checked ?old) (p # ps)))"
      using r'(2) rep filt(1) p by (auto simp: loop_post_def split: if_splits)
  qed
  then show ?case using r1(1) r'(1) p by auto
qed

text \<open>The desired states, one per label, with the status of the winners and a reason for each of them.\<close>

definition uniform :: "EntityLabelMutation list \<Rightarrow> bool" where
  "uniform ms \<longleftrightarrow> (\<forall>m \<in> set ms. mut_status m = mut_status (hd ms))"

lemma merged_desired_ok:
  assumes "ms \<noteq> []" and "uniform ms" and "\<forall>m \<in> set ms. mutation_ok created m"
  shows "\<exists>d. merged_desired_state created ms = Inr d \<and> inner_status d = mut_status (hd ms) \<and>
    reasons_ok (inner_reasons d) \<and> set (keys (inner_reasons d)) = reason_name ` set ms"
proof -
  obtain m rest where ms: "ms = m # rest" using assms(1) by (cases ms) auto
  let ?new = "map (\<lambda>x. (reason_name x, mutation_reason created x)) rest"
  have "\<forall>x \<in> set (dvalues ?new). reason_ok x" "\<forall>x \<in> set (dvalues (inner_reasons (desired_state created m))). reason_ok x"
    using assms(3) ms by (auto simp: desired_state_def intro: mutation_reason_ok)
  from merge_reasons_ok [OF this(2,1)] obtain rs where
    rs: "merge_reasons ?new (inner_reasons (desired_state created m)) = Inr rs" "reasons_ok rs"
    "set (keys rs) = set (keys (inner_reasons (desired_state created m))) \<union> set (keys ?new)"
    by (auto simp: desired_state_def)
  have "list_all (\<lambda>x. mut_status x = mut_status m) rest" using assms(2) ms by (simp add: list_all_iff uniform_def)
  with rs show ?thesis by (auto simp: merged_desired_state_def ms Let_def desired_state_def image_image)
qed

definition desired_for :: "mutations_by_label \<Rightarrow> string \<times> LabelStateInner \<Rightarrow> bool" where
  "desired_for by_name p \<longleftrightarrow> reasons_ok (inner_reasons (snd p)) \<and>
     (\<exists>ms. (fst p, ms) \<in> set by_name \<and> inner_status (snd p) = mut_status (hd ms) \<and>
        set (keys (inner_reasons (snd p))) = reason_name ` set ms)"

lemma desired_for_Cons: "desired_for rest p \<Longrightarrow> desired_for (q # rest) p"
  by (auto simp: desired_for_def)

lemma desired_states_ok:
  assumes "\<forall>(l, ms) \<in> set by_name. ms \<noteq> [] \<and> uniform ms \<and> (\<forall>m \<in> set ms. mutation_ok created m)"
  shows "\<exists>ds. get_desired_states_by_label_name created by_name = Inr ds \<and> keys ds = keys by_name \<and>
    (\<forall>p \<in> set ds. desired_for by_name p)"
  using assms
proof (induction by_name)
  case (Cons q rest)
  obtain l ms where q: "q = (l, ms)" by (cases q)
  have "ms \<noteq> []" "uniform ms" "\<forall>m \<in> set ms. mutation_ok created m"
    using Cons.prems q by simp_all
  from merged_desired_ok [OF this] obtain d where
    d: "merged_desired_state created ms = Inr d" "inner_status d = mut_status (hd ms)"
    "reasons_ok (inner_reasons d)" "set (keys (inner_reasons d)) = reason_name ` set ms" by blast
  have "\<forall>(l, ms) \<in> set rest. ms \<noteq> [] \<and> uniform ms \<and> (\<forall>m \<in> set ms. mutation_ok created m)"
    using Cons.prems by simp
  from Cons.IH [OF this] obtain ds where ds: "get_desired_states_by_label_name created rest = Inr ds"
    "keys ds = keys rest" "\<forall>p \<in> set ds. desired_for rest p" by blast
  have "desired_for (q # rest) (l, d)" using d q by (auto simp: desired_for_def)
  with ds(3) have "\<forall>p \<in> set ((l, d) # ds). desired_for (q # rest) p" using desired_for_Cons by simp
  then show ?case using d(1) ds(1,2) q by simp
qed simp

lemma winners_uniform: "uniform (winners l ms)"
proof (cases "for_label l ms = []")
  case True
  then show ?thesis by (simp add: uniform_def winners_def)
next
  case False
  then have h: "hd (winners l ms) \<in> set (winners l ms)" using winners_nonempty by simp
  show ?thesis
    unfolding uniform_def
  proof
    fix m assume "m \<in> set (winners l ms)"
    with h have "weight m = weight (hd (winners l ms))" using winners_weight by metis
    then show "mut_status m = mut_status (hd (winners l ms))" by (simp add: weight_def status_value_inj)
  qed
qed

definition start_result :: "EntityLabels \<Rightarrow> EntityLabelMutation list \<Rightarrow> EntityLabelMutationsResult" where
  "start_result labels ms = \<lparr>new_entity_labels = labels, old_entity_labels = labels, labels_added = [],
     labels_removed = [], labels_updated = [],
     dropped_mutations = snd (get_mutations_by_label_name_and_drop_conflicts ms)\<rparr>"

lemma compute_new_labels_ok:
  assumes "labels_ok labels" and "\<forall>m \<in> set ms. mutation_ok created m" and "\<forall>l. after_min (checked l)"
  shows "\<exists>ds res. compute_new_labels_from_mutations created checked labels ms = Inr res \<and>
    loop_post checked (fst (get_mutations_by_label_name_and_drop_conflicts ms)) ds (start_result labels ms) res \<and>
    distinct (keys ds) \<and> set (keys ds) = {l. l \<noteq> '''' \<and> for_label l ms \<noteq> []} \<and>
    (\<forall>(l, d) \<in> set ds. inner_status d = mut_status (hd (winners l ms)) \<and>
       set (keys (inner_reasons d)) = reason_name ` set (winners l ms))"
proof -
  define by_name where "by_name = fst (get_mutations_by_label_name_and_drop_conflicts ms)"
  define dropped where "dropped = snd (get_mutations_by_label_name_and_drop_conflicts ms)"
  have dist: "distinct (keys by_name)"
    and lk: "\<And>l. map_of by_name l = (if l = '''' \<or> for_label l ms = [] then None else Some (winners l ms))"
    using collected [of ms] by (simp_all add: collected_ok_def by_name_def)
  have mem: "ws = winners l ms \<and> l \<noteq> '''' \<and> for_label l ms \<noteq> []" if "(l, ws) \<in> set by_name" for l ws
    using lk [of l] map_of_is_SomeI [OF dist that] by (auto split: if_splits)
  have sub: "set (winners l ms) \<subseteq> set ms" for l by (auto simp: winners_def for_label_def)
  have "\<forall>(l, ws) \<in> set by_name. ws \<noteq> [] \<and> uniform ws \<and> (\<forall>m \<in> set ws. mutation_ok created m)"
    using winners_nonempty winners_uniform subsetD [OF sub] assms(2) by (auto dest!: mem)
  from desired_states_ok [OF this] obtain ds where
    ds: "get_desired_states_by_label_name created by_name = Inr ds" "keys ds = keys by_name"
    "\<forall>p \<in> set ds. desired_for by_name p" by blast
  have "\<forall>(l, d) \<in> set ds. reasons_ok (inner_reasons d)" using ds(3) by (auto simp: desired_for_def)
  moreover have "labels_ok (new_entity_labels (start_result labels ms))" using assms(1) by (simp add: start_result_def)
  ultimately obtain res where res: "apply_labels checked by_name ds (start_result labels ms) = Inr res"
    "loop_post checked by_name ds (start_result labels ms) res"
    using apply_labels_ok [of "start_result labels ms" ds checked by_name] dist ds(2) assms(3) by auto
  have "compute_new_labels_from_mutations created checked labels ms = Inr res"
    using ds(1) res(1)
    by (simp add: compute_new_labels_from_mutations_def split_beta start_result_def by_name_def)
  moreover have "set (keys ds) = {l. l \<noteq> '''' \<and> for_label l ms \<noteq> []}"
  proof -
    have "l \<in> set (keys by_name) \<longleftrightarrow> map_of by_name l \<noteq> None" for l by (simp add: map_of_None_keys del: set_map)
    then show ?thesis unfolding ds(2) using lk by (auto simp del: set_map split: if_splits)
  qed
  moreover have "\<forall>(l, d) \<in> set ds. inner_status d = mut_status (hd (winners l ms)) \<and>
       set (keys (inner_reasons d)) = reason_name ` set (winners l ms)"
  proof (rule ballI, clarify)
    fix l d assume "(l, d) \<in> set ds"
    with ds(3) have "desired_for by_name (l, d)" by blast
    then obtain ws where "(l, ws) \<in> set by_name" "inner_status d = mut_status (hd ws)"
      "set (keys (inner_reasons d)) = reason_name ` set ws" by (auto simp: desired_for_def)
    with mem show "inner_status d = mut_status (hd (winners l ms)) \<and>
       set (keys (inner_reasons d)) = reason_name ` set (winners l ms)" by blast
  qed
  moreover have "distinct (keys ds)" using dist ds(2) by simp
  ultimately show ?thesis using res(2) unfolding by_name_def by blast
qed

lemma request_applied:
  assumes "labels_ok labels" and "\<forall>m \<in> set ms. mutation_ok created m" and "\<forall>l. after_min (checked l)"
  shows "\<exists>res. compute_new_labels_from_mutations created checked labels ms = Inr res \<and>
    labels_ok (new_entity_labels res) \<and> old_entity_labels res = labels \<and>
    (\<forall>l. if l = '''' \<or> for_label l ms = [] then map_of (new_entity_labels res) l = map_of labels l
      else \<exists>d. inner_status d = mut_status (hd (winners l ms)) \<and>
        set (keys (inner_reasons d)) = reason_name ` set (winners l ms) \<and>
        label_outcome (checked l) d (map_of labels l) (map_of (new_entity_labels res) l))"
proof -
  from compute_new_labels_ok [OF assms] obtain ds res where
    c: "compute_new_labels_from_mutations created checked labels ms = Inr res"
    and post: "loop_post checked (fst (get_mutations_by_label_name_and_drop_conflicts ms)) ds (start_result labels ms) res"
    and ks: "set (keys ds) = {l. l \<noteq> '''' \<and> for_label l ms \<noteq> []}"
    and des: "\<forall>(l, d) \<in> set ds. inner_status d = mut_status (hd (winners l ms)) \<and>
       set (keys (inner_reasons d)) = reason_name ` set (winners l ms)" by blast
  have "if l = '''' \<or> for_label l ms = [] then map_of (new_entity_labels res) l = map_of labels l
      else \<exists>d. inner_status d = mut_status (hd (winners l ms)) \<and>
        set (keys (inner_reasons d)) = reason_name ` set (winners l ms) \<and>
        label_outcome (checked l) d (map_of labels l) (map_of (new_entity_labels res) l)" for l
  proof (cases "l \<in> set (keys ds)")
    case True
    then obtain d where "(l, d) \<in> set ds" by auto
    moreover from this have "inner_status d = mut_status (hd (winners l ms)) \<and>
        set (keys (inner_reasons d)) = reason_name ` set (winners l ms)" using des by blast
    moreover have "label_outcome (checked l) d (map_of labels l) (map_of (new_entity_labels res) l)"
      using calculation(1) post by (auto simp: loop_post_def start_result_def)
    ultimately show ?thesis using ks True by auto
  next
    case False
    with post ks show ?thesis by (auto simp: loop_post_def start_result_def)
  qed
  moreover have "labels_ok (new_entity_labels res)" "old_entity_labels res = labels"
    using post by (simp_all add: loop_post_def start_result_def)
  ultimately show ?thesis using c by blast
qed

section \<open>Properties\<close>

text \<open>
  (C8) Conflicting mutations are resolved by status weight, whatever their order: for each label exactly
  the mutations of the highest status remain, in request order; every mutation is either kept or dropped,
  and one is dropped only for an empty name or because a heavier one for the same label is in the request.
\<close>

theorem conflicts_resolved:
  "(\<forall>l. map_of (fst (get_mutations_by_label_name_and_drop_conflicts ms)) l =
      (if l = '''' \<or> for_label l ms = [] then None else Some (winners l ms))) \<and>
   mset (concat (dvalues (fst (get_mutations_by_label_name_and_drop_conflicts ms)))) +
     mset (map mutation (snd (get_mutations_by_label_name_and_drop_conflicts ms))) = mset ms \<and>
   list_all (dropped_ok ms) (snd (get_mutations_by_label_name_and_drop_conflicts ms))"
  using collected [of ms] unfolding collected_ok_def list_all_iff by blast



text \<open>
  (C18) Every mutation of a request is accounted for: it is reported as dropped, or its label is
  reported, exactly once, as added, removed or updated.
\<close>

theorem mutations_accounted:
  assumes "labels_ok labels" and "\<forall>m \<in> set ms. mutation_ok created m" and "\<forall>l. after_min (checked l)"
    and "compute_new_labels_from_mutations created checked labels ms = Inr res"
  shows "distinct (reported res) \<and>
    (\<forall>m \<in> set ms. m \<in> mutation ` set (dropped_mutations res) \<or> label_name m \<in> set (reported res))"
proof -
  define by_name where "by_name = fst (get_mutations_by_label_name_and_drop_conflicts ms)"
  define dropped where "dropped = snd (get_mutations_by_label_name_and_drop_conflicts ms)"
  from compute_new_labels_ok [OF assms(1-3)] assms(4) obtain ds where
    post: "loop_post checked by_name ds (start_result labels ms) res" and dist: "distinct (keys ds)"
    and ks: "set (keys ds) = {l. l \<noteq> '''' \<and> for_label l ms \<noteq> []}" by (auto simp: by_name_def)
  have rep: "mset (reported res) = mset (keys (filter (\<lambda>p. \<not> is_blocked checked labels p) ds))"
    and dr: "dropped_mutations res = dropped @ concat (map (dropped_for by_name) (filter (is_blocked checked labels) ds))"
    using post by (simp_all add: loop_post_def start_result_def reported_def dropped_def)
  have lk: "\<And>l. map_of by_name l = (if l = '''' \<or> for_label l ms = [] then None else Some (winners l ms))"
    and part: "mset (concat (dvalues by_name)) + mset (map mutation dropped) = mset ms"
    and d: "distinct (keys by_name)"
    using collected [of ms] by (simp_all add: collected_ok_def by_name_def dropped_def)
  have "m \<in> mutation ` set (dropped_mutations res) \<or> label_name m \<in> set (reported res)" if "m \<in> set ms" for m
  proof (cases "m \<in> mutation ` set dropped")
    case False
    have "set ms = set (concat (dvalues by_name)) \<union> set (map mutation dropped)"
      using arg_cong [OF part, of set_mset] by (simp del: set_map set_concat mset_map)
    with that False obtain l ws where ws: "(l, ws) \<in> set by_name" "m \<in> set ws" by auto
    from lk [of l] map_of_is_SomeI [OF d ws(1)] have l: "l \<noteq> ''''" "for_label l ms \<noteq> []" "ws = winners l ms"
      by (auto split: if_splits)
    then have lm: "label_name m = l" using ws(2) winners_weight by blast
    have "l \<in> set (keys ds)" using ks l by blast
    then obtain e where e: "(l, e) \<in> set ds" by auto
    show ?thesis
    proof (cases "is_blocked checked labels (l, e)")
      case True
      have "drop_mutation CANNOT_OVERRIDE_MANUAL m \<in> set (dropped_for by_name (l, e))"
        using ws(2) l lk [of l] by (simp add: dropped_for_def)
      with e True dr have "drop_mutation CANNOT_OVERRIDE_MANUAL m \<in> set (dropped_mutations res)" by auto
      then show ?thesis by (force simp: drop_mutation_def)
    next
      case False
      with e have "l \<in> set (keys (filter (\<lambda>p. \<not> is_blocked checked labels p) ds))" by force
      then show ?thesis using mset_eq_setD [OF rep] lm by simp
    qed
  qed (simp add: dr image_Un)
  moreover have "distinct (reported res)"
    using mset_eq_imp_distinct_iff [OF rep] dist by (simp add: distinct_map_filter)
  ultimately show ?thesis by blast
qed

text \<open>
  Within the automatic statuses, and within the manual ones, the weights play no role: an unexpired
  state of higher weight is replaced by a desired state of lower weight. The documentation of
  \<open>LabelState.expires_at\<close> says that the higher weight takes precedence and the lower one is dropped.
\<close>

theorem lower_weight_replaces:
  assumes "state_ok st" and "reasons_ok (inner_reasons d)" and "after_min now" and "\<not> expired now (reasons st)"
    and "is_manual (status st) = is_manual (inner_status d)"
    and "status_value (inner_status d) < status_value (status st)"
  shows "\<exists>st'. try_apply_desired_state now d st = Inr (None, st') \<and> status st' = inner_status d \<and>
    previous_states st' = \<lparr>inner_status = status st, inner_reasons = reasons st\<rparr> # previous_states st"
  using try_apply_ok [OF assms(1-3)] assms(4-6)
  by (auto simp: blocked_def is_automatic_def applied_def split: if_splits)

section \<open>Concrete labels\<close>

definition demo_time :: "nat \<Rightarrow> datetime" where
  "demo_time y = \<lparr>year = y, month = 6, day = 1, hour = 12, minute = 0, second = 0, microsecond = 0, tz_offset = Some 0\<rparr>"

definition demo_reason :: LabelReason where
  "demo_reason = \<lparr>pending = JBool False, description = JStr ''spam'', features = JObj [],
     created_at = Some (demo_time 2024), expires_at = None\<rparr>"

definition demo_state :: "LabelStatus \<Rightarrow> LabelState" where
  "demo_state s = \<lparr>status = s, reasons = [(''SpamRule'', demo_reason)], previous_states = []\<rparr>"

definition demo_mutation :: "LabelStatus \<Rightarrow> EntityLabelMutation" where
  "demo_mutation s = \<lparr>label_name = ''spammer'', reason_name = ''SpamRule'', mut_status = s, mut_pending = JBool False,
     mut_description = JStr ''spam'', mut_features = JObj [], mut_expires_at = None\<rparr>"

lemma demo_time_local:
  "local_us (demo_time 2024) = 63852926400000000" "local_us (demo_time 2025) = 63884462400000000"
  by (simp_all add: local_us_def to_ordinal_def demo_time_def days_in_month_def is_leap_def upt_rec)

lemma datetime_max_local: "local_us datetime_max = 315537983999999999"
  by (simp add: local_us_def to_ordinal_def datetime_max_def days_in_month_def is_leap_def upt_rec)

lemma demo_soon: "soon_enough (demo_time 2024)" "soon_enough (demo_time 2025)"
  by (simp_all add: soon_enough_def demo_time_local datetime_max_local)

lemma demo_after_min: "after_min (demo_time 2025)"
proof -
  have "instant (demo_time 2025) = local_us (demo_time 2025)" by (simp add: instant_def demo_time_def)
  moreover have "instant datetime_min_utc = 86400000000"
    by (simp add: instant_def local_us_def to_ordinal_def datetime_min_utc_def)
  ultimately show ?thesis by (simp add: after_min_def demo_time_local)
qed

lemma demo_reasons_ok: "reasons_ok [(''SpamRule'', demo_reason)]"
  using demo_soon by (simp add: reasons_ok_def reason_ok_def demo_reason_def) (simp add: demo_time_def)

lemma demo_state_ok: "state_ok (demo_state s)"
  using demo_reasons_ok by (simp add: state_ok_def demo_state_def)

lemma demo_labels_ok: "labels_ok [(''spammer'', demo_state s)]"
  using demo_state_ok by (simp add: labels_ok_def)

lemma demo_mutations_ok: "\<forall>m \<in> set [demo_mutation s]. mutation_ok (\<lambda>_. demo_time 2025) m"
  using demo_soon by (simp add: mutation_ok_def demo_mutation_def)

lemma demo_not_expired: "\<not> expired now (reasons (demo_state s))"
  by (simp add: expired_def demo_state_def demo_reason_def)



theorem mutations_accounted_witness:
  "\<exists>res. compute_new_labels_from_mutations (\<lambda>_. demo_time 2025) (\<lambda>_. demo_time 2025)
     [(''spammer'', demo_state ADDED)] [demo_mutation REMOVED] = Inr res \<and> distinct (reported res)"
proof -
  have t: "\<forall>l. after_min ((\<lambda>_. demo_time 2025) (l :: string))" using demo_after_min by simp
  from compute_new_labels_ok [OF demo_labels_ok [of ADDED] demo_mutations_ok [of REMOVED] t] obtain res where
    r: "compute_new_labels_from_mutations (\<lambda>_. demo_time 2025) (\<lambda>_. demo_time 2025)
      [(''spammer'', demo_state ADDED)] [demo_mutation REMOVED] = Inr res" by blast
  from mutations_accounted [OF demo_labels_ok [of ADDED] demo_mutations_ok [of REMOVED] t r] r show ?thesis by blast
qed

theorem lower_weight_replaces_witness:
  "\<exists>st'. try_apply_desired_state (demo_time 2025)
     \<lparr>inner_status = REMOVED, inner_reasons = [(''SpamRule'', demo_reason)]\<rparr> (demo_state ADDED) = Inr (None, st') \<and>
     status st' = REMOVED"
  using lower_weight_replaces [OF demo_state_ok [of ADDED], of
      "\<lparr>inner_status = REMOVED, inner_reasons = [(''SpamRule'', demo_reason)]\<rparr>" "demo_time 2025"]
    demo_reasons_ok demo_after_min demo_not_expired [of _ ADDED]
  by (auto simp: is_manual_def demo_state_def)

end
