(* ===== verification/Label_Codec.thy ===== *)
theory Label_Codec
  imports Labels
begin

text \<open>
  The JSON form of labels: \<open>serialize\<close> and \<open>deserialize\<close> of
  \<open>worker/lib/osprey_shared/labels.py\<close>. A JSON object is a Python dict: its keys are distinct and keep
  their order. \<open>from_iso\<close> stands for \<open>datetime.fromisoformat\<close>.
\<close>

section \<open>Reading objects\<close>

definition attribute_error :: "'a result" where
  "attribute_error = Inl (OtherException ''AttributeError'')"

text \<open>\<open>d.get(k, default)\<close>, \<open>d[k]\<close> and \<open>d.items()\<close>.\<close>

definition json_get :: "json \<Rightarrow> string \<Rightarrow> json \<Rightarrow> json result" where
  "json_get j k dflt =
     (case j of JObj d \<Rightarrow> Inr (case map_of d k of None \<Rightarrow> dflt | Some v \<Rightarrow> v) | _ \<Rightarrow> attribute_error)"

definition json_index :: "json \<Rightarrow> string \<Rightarrow> json result" where
  "json_index j k =
     (case j of
        JObj d \<Rightarrow> (case map_of d k of None \<Rightarrow> Inl KeyError | Some v \<Rightarrow> Inr v)
      | _ \<Rightarrow> Inl (TypeError ''not a mapping''))"

definition json_items :: "json \<Rightarrow> (string \<times> json) list result" where
  "json_items j = (case j of JObj d \<Rightarrow> Inr d | _ \<Rightarrow> attribute_error)"

fun json_truthy :: "json \<Rightarrow> bool" where
  "json_truthy JNull = False"
| "json_truthy (JBool b) = b"
| "json_truthy (JInt i) = (i \<noteq> 0)"
| "json_truthy (JStr s) = (s \<noteq> [])"
| "json_truthy (JList xs) = (xs \<noteq> [])"
| "json_truthy (JObj d) = (d \<noteq> [])"

text \<open>\<open>except Exception as e: raise TypeError(...)\<close>\<close>

definition as_type_error :: "string \<Rightarrow> 'a result \<Rightarrow> 'a result" where
  "as_type_error msg r = (case r of Inl _ \<Rightarrow> Inl (TypeError msg) | Inr x \<Rightarrow> Inr x)"

lemma as_type_error_Inr [simp]: "as_type_error msg (Inr x) = Inr x"
  by (simp add: as_type_error_def)

section \<open>LabelReason and LabelReasons\<close>

definition time_json :: "datetime option \<Rightarrow> json" where
  "time_json t = (case t of None \<Rightarrow> JNull | Some d \<Rightarrow> JStr (isoformat d))"

definition reason_serialize :: "LabelReason \<Rightarrow> json" where
  "reason_serialize r = JObj
     [(''pending'', pending r), (''description'', description r), (''features'', features r),
      (''created_at'', time_json (created_at r)), (''expires_at'', time_json (expires_at r))]"

definition read_time :: "(string \<Rightarrow> datetime result) \<Rightarrow> json \<Rightarrow> string \<Rightarrow> datetime option result" where
  "read_time from_iso j k =
     bindR (json_get j k JNull) (\<lambda>v.
       if \<not> json_truthy v then Inr None
       else case v of JStr s \<Rightarrow> bindR (from_iso s) (\<lambda>d. Inr (Some d))
            | _ \<Rightarrow> Inl (TypeError ''fromisoformat: argument must be str''))"

definition reason_deserialize :: "(string \<Rightarrow> datetime result) \<Rightarrow> json \<Rightarrow> LabelReason result" where
  "reason_deserialize from_iso j =
     bindR (read_time from_iso j ''created_at'') (\<lambda>c.
     bindR (read_time from_iso j ''expires_at'') (\<lambda>e.
     bindR (json_get j ''pending'' (JBool False)) (\<lambda>p.
     bindR (json_get j ''description'' (JStr '''')) (\<lambda>d.
     bindR (json_get j ''features'' (JObj [])) (\<lambda>f.
       Inr (post_init \<lparr>pending = p, description = d, features = f, created_at = c, expires_at = e\<rparr>))))))"

definition reasons_serialize :: "LabelReasons \<Rightarrow> json" where
  "reasons_serialize rs = JObj (map (\<lambda>(k, r). (k, reason_serialize r)) rs)"

definition reasons_deserialize :: "(string \<Rightarrow> datetime result) \<Rightarrow> json \<Rightarrow> LabelReasons result" where
  "reasons_deserialize from_iso j =
     bindR (json_items j) (mapR (\<lambda>(k, v).
       bindR (as_type_error ''could not create LabelReasons from dict'' (reason_deserialize from_iso v))
         (\<lambda>r. Inr (k, r))))"

section \<open>States\<close>

text \<open>\<open>LabelStatus(v)\<close>: the enum lookup by value; \<open>True\<close> and \<open>False\<close> are the integers 1 and 0.\<close>

definition status_of_json :: "json \<Rightarrow> LabelStatus result" where
  "status_of_json j =
     (case j of
        JInt i \<Rightarrow> (if i = 0 then Inr REMOVED else if i = 1 then Inr ADDED else if i = 2 then Inr MANUALLY_REMOVED
                   else if i = 3 then Inr MANUALLY_ADDED else Inl (ValueError ''not a valid LabelStatus''))
      | JBool b \<Rightarrow> Inr (if b then ADDED else REMOVED)
      | _ \<Rightarrow> Inl (ValueError ''not a valid LabelStatus''))"

definition inner_serialize :: "LabelStateInner \<Rightarrow> json" where
  "inner_serialize i = JObj [(''status'', JInt (int (status_value (inner_status i)))),
     (''reasons'', reasons_serialize (inner_reasons i))]"

definition inner_deserialize :: "(string \<Rightarrow> datetime result) \<Rightarrow> json \<Rightarrow> LabelStateInner result" where
  "inner_deserialize from_iso j =
     as_type_error ''could not create LabelStateInner from dict''
       (bindR (bindR (json_index j ''status'') status_of_json) (\<lambda>s.
        bindR (bindR (json_index j ''reasons'') (reasons_deserialize from_iso)) (\<lambda>rs.
          Inr \<lparr>inner_status = s, inner_reasons = rs\<rparr>)))"

definition state_serialize :: "LabelState \<Rightarrow> json" where
  "state_serialize st = JObj [(''status'', JInt (int (status_value (status st)))),
     (''reasons'', reasons_serialize (reasons st)),
     (''previous_states'', JList (map inner_serialize (previous_states st)))]"

definition json_iter :: "json \<Rightarrow> json list result" where
  "json_iter j =
     (case j of JList xs \<Rightarrow> Inr xs | JObj d \<Rightarrow> Inr (map (JStr \<circ> fst) d) | JStr s \<Rightarrow> Inr (map (\<lambda>c. JStr [c]) s)
      | _ \<Rightarrow> Inl (TypeError ''not iterable''))"

definition state_deserialize :: "(string \<Rightarrow> datetime result) \<Rightarrow> json \<Rightarrow> LabelState result" where
  "state_deserialize from_iso j =
     as_type_error ''could not create LabelState from dict''
       (bindR (bindR (json_index j ''status'') status_of_json) (\<lambda>s.
        bindR (bindR (json_index j ''reasons'') (reasons_deserialize from_iso)) (\<lambda>rs.
        bindR (bindR (json_get j ''previous_states'' (JList [])) json_iter) (\<lambda>ps.
        bindR (mapR (inner_deserialize from_iso) ps) (\<lambda>prev.
          Inr \<lparr>status = s, reasons = rs, previous_states = prev\<rparr>)))))"

definition labels_serialize :: "EntityLabels \<Rightarrow> json" where
  "labels_serialize ls = JObj [(''labels'', JObj (map (\<lambda>(k, st). (k, state_serialize st)) ls))]"

definition labels_deserialize :: "(string \<Rightarrow> datetime result) \<Rightarrow> (string \<times> json) list \<Rightarrow> EntityLabels result" where
  "labels_deserialize from_iso d =
     (let j = (case map_of d ''labels'' of Some v \<Rightarrow> v | None \<Rightarrow> JObj d) in
      as_type_error ''could not create EntityLabels from dict''
        (bindR (json_items j) (mapR (\<lambda>(k, v). bindR (state_deserialize from_iso v) (\<lambda>st. Inr (k, st))))))"

text \<open>Mutations are only written, for the outputs: the status and the drop reason as their integers.\<close>

definition mutation_serialize :: "EntityLabelMutation \<Rightarrow> json" where
  "mutation_serialize m = JObj
     [(''label_name'', JStr (label_name m)), (''reason_name'', JStr (reason_name m)),
      (''status'', JInt (int (status_value (mut_status m)))), (''pending'', mut_pending m),
      (''description'', mut_description m), (''features'', mut_features m),
      (''expires_at'', time_json (guarantee_utc_timezone_awareness (mut_expires_at m)))]"

fun drop_reason_value :: "MutationDropReason \<Rightarrow> int" where
  "drop_reason_value CONFLICTING_MUTATION = 0"
| "drop_reason_value CANNOT_OVERRIDE_MANUAL = 1"
| "drop_reason_value INVALID_LABEL_NAME = 2"
| "drop_reason_value INVALID_ENTITY_ID = 3"

definition dropped_serialize :: "DroppedEntityLabelMutation \<Rightarrow> json" where
  "dropped_serialize d = JObj [(''mutation'', mutation_serialize (mutation d)), (''reason'', JInt (drop_reason_value (drop_reason d)))]"

section \<open>Reading back what was written\<close>

definition storable_time :: "datetime option \<Rightarrow> bool" where
  "storable_time t \<longleftrightarrow> (case t of None \<Rightarrow> True | Some d \<Rightarrow> wf_datetime d \<and> tz_offset d \<noteq> None)"

definition storable_reasons :: "LabelReasons \<Rightarrow> bool" where
  "storable_reasons rs \<longleftrightarrow> (\<forall>r \<in> set (dvalues rs). storable_time (created_at r) \<and> storable_time (expires_at r))"

definition storable_state :: "LabelState \<Rightarrow> bool" where
  "storable_state st \<longleftrightarrow> storable_reasons (reasons st) \<and>
     (\<forall>p \<in> set (previous_states st). storable_reasons (inner_reasons p))"

lemma mapR_map_inverse:
  assumes "\<And>x. x \<in> set xs \<Longrightarrow> f (g x) = Inr x"
  shows "mapR f (map g xs) = Inr xs"
  using assms by (induction xs) simp_all

lemma status_roundtrip: "status_of_json (JInt (int (status_value s))) = Inr s"
  by (cases s) (simp_all add: status_of_json_def)

lemma awareness_id: "storable_time t \<Longrightarrow> guarantee_utc_timezone_awareness t = t"
  by (auto simp: storable_time_def guarantee_utc_timezone_awareness_def split: option.splits)

context iso_codec
begin

lemma law: "valid d \<Longrightarrow> from_iso (to_iso d) = Inr d \<and> to_iso d \<noteq> []"
  using from_to to_iso_nonempty by blast

end

lemma read_time_roundtrip:
  assumes "iso_codec wf_datetime isoformat from_iso" and "storable_time t" and "map_of d k = Some (time_json t)"
  shows "read_time from_iso (JObj d) k = Inr t"
  using assms(2,3) iso_codec.law [OF assms(1)]
  by (cases t) (simp_all add: read_time_def json_get_def time_json_def storable_time_def)

lemma reason_roundtrip:
  assumes "iso_codec wf_datetime isoformat from_iso" and "storable_time (created_at r)" and "storable_time (expires_at r)"
  shows "reason_deserialize from_iso (reason_serialize r) = Inr r"
proof -
  have "read_time from_iso (reason_serialize r) ''created_at'' = Inr (created_at r)"
    "read_time from_iso (reason_serialize r) ''expires_at'' = Inr (expires_at r)"
    unfolding reason_serialize_def by (rule read_time_roundtrip [OF assms(1)]; simp add: assms)+
  then show ?thesis using assms(2,3)
    by (simp add: reason_deserialize_def) (simp add: reason_serialize_def json_get_def post_init_def awareness_id)
qed

lemma reasons_roundtrip:
  assumes "iso_codec wf_datetime isoformat from_iso" and "storable_reasons rs"
  shows "reasons_deserialize from_iso (reasons_serialize rs) = Inr rs"
proof -
  have "reason_deserialize from_iso (reason_serialize r) = Inr r" if "(k, r) \<in> set rs" for k r
    using that assms(2) by (intro reason_roundtrip [OF assms(1)]) (force simp: storable_reasons_def)+
  then show ?thesis
    unfolding reasons_deserialize_def reasons_serialize_def json_items_def
    by (simp, intro mapR_map_inverse) auto
qed

lemma inner_roundtrip:
  assumes "iso_codec wf_datetime isoformat from_iso" and "storable_reasons (inner_reasons i)"
  shows "inner_deserialize from_iso (inner_serialize i) = Inr i"
  using reasons_roundtrip [OF assms]
  by (simp add: inner_deserialize_def inner_serialize_def json_index_def status_roundtrip)

lemma state_roundtrip:
  assumes "iso_codec wf_datetime isoformat from_iso" and "storable_state st"
  shows "state_deserialize from_iso (state_serialize st) = Inr st"
proof -
  have "mapR (inner_deserialize from_iso) (map inner_serialize (previous_states st)) = Inr (previous_states st)"
    using assms(2) by (intro mapR_map_inverse inner_roundtrip [OF assms(1)]) (simp add: storable_state_def)
  with reasons_roundtrip [OF assms(1), of "reasons st"] assms(2) show ?thesis
    by (simp add: state_deserialize_def state_serialize_def json_index_def json_get_def json_iter_def
        status_roundtrip storable_state_def)
qed

section \<open>Properties\<close>

text \<open>
  (C10) Labels survive storage: reading the JSON form of an entity's labels back gives the same labels,
  with every reason, time and earlier state, for any \<open>fromisoformat\<close> that inverts \<open>isoformat\<close>.
\<close>

theorem labels_roundtrip:
  assumes "iso_codec wf_datetime isoformat from_iso" and "\<forall>st \<in> set (dvalues ls). storable_state st"
  shows "\<exists>d. labels_serialize ls = JObj d \<and> labels_deserialize from_iso d = Inr ls"
proof -
  have "state_deserialize from_iso (state_serialize st) = Inr st" if "(k, st) \<in> set ls" for k st
    using that assms(2) by (intro state_roundtrip [OF assms(1)]) force
  then have "mapR (\<lambda>(k, v). bindR (state_deserialize from_iso v) (\<lambda>st. Inr (k, st)))
      (map (\<lambda>(k, st). (k, state_serialize st)) ls) = Inr ls"
    by (intro mapR_map_inverse) auto
  then show ?thesis by (simp add: labels_serialize_def labels_deserialize_def json_items_def)
qed

theorem labels_roundtrip_witness:
  "\<exists>d. labels_serialize [(''spammer'', demo_state ADDED)] = JObj d \<and>
     labels_deserialize read_isoformat d = Inr [(''spammer'', demo_state ADDED)]"
  by (rule labels_roundtrip [OF iso.iso_codec_axioms])
    (simp add: storable_state_def storable_reasons_def storable_time_def demo_state_def demo_reason_def demo_time_def
      wf_datetime_def days_in_month_def)

end
