(* ===== verification/Validation.thy ===== *)
theory Validation
  imports Grammar "HOL-Library.Multiset"
begin

text \<open>
  The runner of the AST validators (\<open>ast_validator/validation_context.py\<close>, with the interface of
  \<open>base_validator.py\<close> and the registry of \<open>validator_registry.py\<close>). A validator is a program over
  the operations the context offers to it: it emits errors and warnings, asks for the result of
  another validator, or declares dependencies; the context runs what it asks for first. The
  results of the programs are a type parameter. The top of \<open>_validator_stack\<close> is the head here.
\<close>

section \<open>Messages and state\<close>

datatype span_ref = PlainSpan span | SpanWithHint span string

record 'v message =
  message :: string
  hint :: string
  msg_span :: span
  additional_spans_message :: string
  additional_spans :: "span_ref list"
  validator_class :: "'v option"

text \<open>The call \<open>add_error\<close> with its defaults; \<open>validator_class\<close> starts as \<open>None\<close>.\<close>

definition validation_message :: "string \<Rightarrow> span \<Rightarrow> string \<Rightarrow> string \<Rightarrow> span list \<Rightarrow> 'v message" where
  "validation_message msg sp h am asp = \<lparr>message = msg, hint = h, msg_span = sp,
     additional_spans_message = am, additional_spans = map PlainSpan asp, validator_class = None\<rparr>"

text \<open>
  What \<open>_validation_results\<close> holds for a validator: the \<open>ValidatorFailed\<close> exception that ended it,
  with the class it names, or its result (\<open>None\<close> for a validator without \<open>HasResult\<close>).
\<close>

type_synonym ('v, 'r) stored = "'v + 'r option"

record ('v, 'r) vcontext =
  validation_results :: "('v, ('v, 'r) stored) dict"
  errors :: "'v message list"
  warnings :: "'v message list"
  validator_stack :: "'v list"

datatype 'v vexc =
  ValidatorFailed 'v
| ValidationCycleError 'v "'v list"
| NotRegistered 'v
| Crash py_exc
| OutOfFuel

definition current_validator :: "('v, 'r) vcontext \<Rightarrow> 'v option" where
  "current_validator st = (case validator_stack st of [] \<Rightarrow> None | v # _ \<Rightarrow> Some v)"

definition add_error :: "'v message \<Rightarrow> ('v, 'r) vcontext \<Rightarrow> ('v, 'r) vcontext" where
  "add_error m st = st\<lparr>errors := errors st @ [m\<lparr>validator_class := current_validator st\<rparr>]\<rparr>"

definition add_warning :: "'v message \<Rightarrow> ('v, 'r) vcontext \<Rightarrow> ('v, 'r) vcontext" where
  "add_warning m st = st\<lparr>warnings := warnings st @ [m\<lparr>validator_class := current_validator st\<rparr>]\<rparr>"

definition has_errors_for :: "'v \<Rightarrow> ('v, 'r) vcontext \<Rightarrow> bool" where
  "has_errors_for v st \<longleftrightarrow> list_ex (\<lambda>e. validator_class e = Some v) (errors st)"

section \<open>Validators as programs\<close>

datatype ('v, 'r) prog =
  Return "'r option"
| AddError "'v message" "('v, 'r) prog"
| AddWarning "'v message" "('v, 'r) prog"
| GetValidatorResult 'v "'r option \<Rightarrow> ('v, 'r) prog"
| ValidatorDependsOn "'v list" "('v, 'r) prog"
| Raise py_exc

record ('v, 'r) vconfig =
  registered :: "'v list"
  body :: "'v \<Rightarrow> ('v, 'r) prog"
  has_result :: "'v \<Rightarrow> bool"
  warning_as_error :: bool

type_synonym ('v, 'r) runner = "'v \<Rightarrow> ('v, 'r) vcontext \<Rightarrow> ('v vexc + unit) \<times> ('v, 'r) vcontext"

text \<open>The stored outcome of a validator: a failure is raised again.\<close>

definition fetch :: "'v \<Rightarrow> ('v, 'r) vcontext \<Rightarrow> 'v vexc + 'r option" where
  "fetch v st = (case map_of (validation_results st) v of
       None \<Rightarrow> Inl (Crash KeyError)
     | Some (Inl w) \<Rightarrow> Inl (ValidatorFailed w)
     | Some (Inr r) \<Rightarrow> Inr r)"

fun run_each :: "('v, 'r) runner \<Rightarrow> 'v list \<Rightarrow> ('v, 'r) vcontext \<Rightarrow>
    ('v vexc + unit) \<times> ('v, 'r) vcontext" where
  "run_each rv [] st = (Inr (), st)"
| "run_each rv (v # vs) st =
     (case rv v st of (Inl e, st1) \<Rightarrow> (Inl e, st1) | (Inr _, st1) \<Rightarrow> run_each rv vs st1)"

fun fetch_each :: "'v list \<Rightarrow> ('v, 'r) vcontext \<Rightarrow> 'v vexc + unit" where
  "fetch_each [] st = Inr ()"
| "fetch_each (v # vs) st = bindR (fetch v st) (\<lambda>_. fetch_each vs st)"

primrec exec_prog :: "('v, 'r) runner \<Rightarrow> ('v, 'r) prog \<Rightarrow> ('v, 'r) vcontext \<Rightarrow>
    ('v vexc + 'r option) \<times> ('v, 'r) vcontext" where
  "exec_prog rv (Return r) = (\<lambda>st. (Inr r, st))"
| "exec_prog rv (AddError m p) = (\<lambda>st. exec_prog rv p (add_error m st))"
| "exec_prog rv (AddWarning m p) = (\<lambda>st. exec_prog rv p (add_warning m st))"
| "exec_prog rv (GetValidatorResult v k) = (\<lambda>st.
     (case rv v st of
        (Inl e, st1) \<Rightarrow> (Inl e, st1)
      | (Inr _, st1) \<Rightarrow>
          (case fetch v st1 of Inl e \<Rightarrow> (Inl e, st1) | Inr r \<Rightarrow> exec_prog rv (k r) st1)))"
| "exec_prog rv (ValidatorDependsOn vs p) = (\<lambda>st.
     (case run_each rv vs st of
        (Inl e, st1) \<Rightarrow> (Inl e, st1)
      | (Inr _, st1) \<Rightarrow>
          (case fetch_each vs st1 of Inl e \<Rightarrow> (Inl e, st1) | Inr _ \<Rightarrow> exec_prog rv p st1)))"
| "exec_prog rv (Raise e) = (\<lambda>st. (Inl (Crash e), st))"

section \<open>The runner\<close>

definition push :: "'v \<Rightarrow> ('v, 'r) vcontext \<Rightarrow> ('v, 'r) vcontext" where
  "push v st = st\<lparr>validator_stack := v # validator_stack st\<rparr>"

text \<open>Storing the outcome, and the assertion on the popped class.\<close>

definition finish :: "'v \<Rightarrow> ('v, 'r) stored \<Rightarrow> ('v, 'r) vcontext \<Rightarrow> ('v vexc + unit) \<times> ('v, 'r) vcontext" where
  "finish v s st =
     (let st1 = st\<lparr>validation_results := AList.update v s (validation_results st)\<rparr> in
      case validator_stack st1 of
        [] \<Rightarrow> (Inl (Crash IndexError), st1)
      | cur # rest \<Rightarrow>
          if cur = v then (Inr (), st1\<lparr>validator_stack := rest\<rparr>)
          else (Inl (Crash (AssertionError [])), st1\<lparr>validator_stack := rest\<rparr>))"

text \<open>
  \<open>run_validator\<close>. The fuel bounds the depth of nested calls. An exception other than
  \<open>ValidatorFailed\<close> leaves the stack as it is.
\<close>

fun run_validator :: "('v, 'r) vconfig \<Rightarrow> nat \<Rightarrow> ('v, 'r) runner" where
  "run_validator cfg 0 v st = (Inl OutOfFuel, st)"
| "run_validator cfg (Suc n) v st =
     (if v \<in> set (keys (validation_results st)) then (Inr (), st)
      else if v \<notin> set (registered cfg) then (Inl (NotRegistered v), st)
      else if v \<in> set (validator_stack st) then (Inl (ValidationCycleError v (validator_stack st)), st)
      else (case exec_prog (run_validator cfg n) (body cfg v) (push v st) of
          (Inr r, st1) \<Rightarrow> if has_errors_for v st1 then finish v (Inl v) st1 else finish v (Inr r) st1
        | (Inl (ValidatorFailed w), st1) \<Rightarrow> finish v (Inl w) st1
        | (Inl e, st1) \<Rightarrow> (Inl e, st1)))"

text \<open>The loop of \<open>run\<close> over the registered classes; \<open>ValidatorFailed\<close> is swallowed there.\<close>

fun run_validators :: "('v, 'r) vconfig \<Rightarrow> nat \<Rightarrow> 'v list \<Rightarrow> ('v, 'r) vcontext \<Rightarrow>
    ('v vexc + unit) \<times> ('v, 'r) vcontext" where
  "run_validators cfg n [] st = (Inr (), st)"
| "run_validators cfg n (v # vs) st =
     (case run_validator cfg n v st of
        (Inr _, st1) \<Rightarrow> run_validators cfg n vs st1
      | (Inl (ValidatorFailed _), st1) \<Rightarrow> run_validators cfg n vs st1
      | (Inl e, st1) \<Rightarrow> (Inl e, st1))"

definition fresh_context :: "('v, 'r) vcontext" where
  "fresh_context = \<lparr>validation_results = [], errors = [], warnings = [], validator_stack = []\<rparr>"

text \<open>\<open>_parse_sources\<close>: one message for every source that does not parse.\<close>

definition parse_sources :: "'v message list \<Rightarrow> ('v, 'r) vcontext \<Rightarrow> ('v, 'r) vcontext" where
  "parse_sources ms st = fold add_error ms st"

datatype ('v, 'r) run_outcome =
  Raised "'v vexc"
| ValidationFailed "'v message list" "'v message list"
| ValidatedSources "('v, ('v, 'r) stored) dict" "'v message list"

definition conclude :: "('v, 'r) vconfig \<Rightarrow> ('v, 'r) vcontext \<Rightarrow> ('v, 'r) run_outcome" where
  "conclude cfg st =
     (if errors st \<noteq> [] \<or> warning_as_error cfg \<and> warnings st \<noteq> []
      then ValidationFailed (errors st) (warnings st)
      else ValidatedSources (filter (\<lambda>p. has_result cfg (fst p)) (validation_results st)) (warnings st))"

text \<open>
  \<open>ValidationContext.run\<close>: \<open>order\<close> is the order in which the set of registered classes is
  iterated, \<open>parse\<close> the messages of the sources that do not parse.
\<close>

definition run_context :: "('v, 'r) vconfig \<Rightarrow> nat \<Rightarrow> 'v list \<Rightarrow> 'v message list \<Rightarrow> ('v, 'r) run_outcome" where
  "run_context cfg n order parse =
     (let st = parse_sources parse fresh_context in
      if errors st \<noteq> [] then conclude cfg st
      else (case run_validators cfg n order st of
              (Inl e, _) \<Rightarrow> Raised e
            | (Inr _, st1) \<Rightarrow> conclude cfg st1))"

text \<open>\<open>ValidatedSources.get_validator_result\<close>.\<close>

definition validated_result :: "('v, ('v, 'r) stored) dict \<Rightarrow> 'v \<Rightarrow> ('v, 'r) stored result" where
  "validated_result rs v = (case map_of rs v of None \<Rightarrow> Inl KeyError | Some s \<Rightarrow> Inr s)"

section \<open>What a validator means\<close>

text \<open>
  The meaning of a program without a context: the errors and warnings it emits itself and how it
  ends, given the meaning of the validators it asks for. Nothing here depends on what ran before.
\<close>

definition first_failure :: "('v \<Rightarrow> ('v, 'r) stored) \<Rightarrow> 'v list \<Rightarrow> 'v option" where
  "first_failure f vs = (case filter (\<lambda>v. isl (f v)) vs of [] \<Rightarrow> None | v # _ \<Rightarrow> Some (projl (f v)))"

inductive prog_means :: "('v, 'r) vconfig \<Rightarrow> ('v, 'r) prog \<Rightarrow> 'v message list \<Rightarrow> 'v message list \<Rightarrow>
      ('v, 'r) stored \<Rightarrow> bool"
  and means :: "('v, 'r) vconfig \<Rightarrow> 'v \<Rightarrow> 'v message list \<Rightarrow> 'v message list \<Rightarrow> ('v, 'r) stored \<Rightarrow> bool"
  for cfg :: "('v, 'r) vconfig" where
  p_Return: "prog_means cfg (Return r) [] [] (Inr r)"
| p_Error: "prog_means cfg p es ws s \<Longrightarrow> prog_means cfg (AddError m p) (m # es) ws s"
| p_Warning: "prog_means cfg p es ws s \<Longrightarrow> prog_means cfg (AddWarning m p) es (m # ws) s"
| p_GetFailed: "means cfg v es' ws' (Inl w) \<Longrightarrow> prog_means cfg (GetValidatorResult v k) [] [] (Inl w)"
| p_Get: "means cfg v es' ws' (Inr r) \<Longrightarrow> prog_means cfg (k r) es ws s \<Longrightarrow>
    prog_means cfg (GetValidatorResult v k) es ws s"
| p_DependsFailed: "(\<forall>v \<in> set vs. \<exists>es ws. means cfg v es ws (f v)) \<Longrightarrow> first_failure f vs = Some w \<Longrightarrow>
    prog_means cfg (ValidatorDependsOn vs p) [] [] (Inl w)"
| p_Depends: "(\<forall>v \<in> set vs. \<exists>es ws. means cfg v es ws (f v)) \<Longrightarrow> first_failure f vs = None \<Longrightarrow>
    prog_means cfg p es ws s \<Longrightarrow> prog_means cfg (ValidatorDependsOn vs p) es ws s"
| v_Failed: "v \<in> set (registered cfg) \<Longrightarrow> prog_means cfg (body cfg v) es ws (Inl w) \<Longrightarrow> means cfg v es ws (Inl w)"
| v_Errors: "v \<in> set (registered cfg) \<Longrightarrow> prog_means cfg (body cfg v) es ws (Inr r) \<Longrightarrow> es \<noteq> [] \<Longrightarrow>
    means cfg v es ws (Inl v)"
| v_Ok: "v \<in> set (registered cfg) \<Longrightarrow> prog_means cfg (body cfg v) [] ws (Inr r) \<Longrightarrow> means cfg v [] ws (Inr r)"

inductive_cases prog_means_ReturnE: "prog_means cfg (Return r) es ws s"
inductive_cases prog_means_ErrorE: "prog_means cfg (AddError m p) es ws s"
inductive_cases prog_means_WarningE: "prog_means cfg (AddWarning m p) es ws s"
inductive_cases prog_means_GetE: "prog_means cfg (GetValidatorResult v k) es ws s"
inductive_cases prog_means_DependsE: "prog_means cfg (ValidatorDependsOn vs p) es ws s"
inductive_cases meansE: "means cfg v es ws s"

lemma first_failure_cong: "(\<And>v. v \<in> set vs \<Longrightarrow> f v = g v) \<Longrightarrow> first_failure f vs = first_failure g vs"
  by (induction vs) (auto simp: first_failure_def)

lemma prog_means_depends:
  assumes "prog_means cfg (ValidatorDependsOn vs p) es ws s"
  obtains f where "\<forall>v \<in> set vs. \<exists>es ws. means cfg v es ws (f v)"
    and "case first_failure f vs of Some w \<Rightarrow> es = [] \<and> ws = [] \<and> s = Inl w | None \<Rightarrow> prog_means cfg p es ws s"
  using assms by (rule prog_means_DependsE) (rule that, assumption, simp)+

lemma means_deterministic:
  "prog_means cfg p es ws s \<Longrightarrow> (\<forall>es' ws' s'. prog_means cfg p es' ws' s' \<longrightarrow> es' = es \<and> ws' = ws \<and> s' = s)"
  "means cfg v es ws s \<Longrightarrow> (\<forall>es' ws' s'. means cfg v es' ws' s' \<longrightarrow> es' = es \<and> ws' = ws \<and> s' = s)"
proof (induction rule: prog_means_means.inducts)
  case (p_DependsFailed vs f w p)
  show ?case
  proof (intro allI impI)
    fix es' ws' s'
    assume "prog_means cfg (ValidatorDependsOn vs p) es' ws' s'"
    then obtain g where g: "\<forall>v \<in> set vs. \<exists>es ws. means cfg v es ws (g v)"
        "case first_failure g vs of Some w \<Rightarrow> es' = [] \<and> ws' = [] \<and> s' = Inl w
         | None \<Rightarrow> prog_means cfg p es' ws' s'"
      by (rule prog_means_depends)
    have "first_failure g vs = first_failure f vs"
      using p_DependsFailed(1) g(1) by (intro first_failure_cong) metis
    with g(2) p_DependsFailed(2) show "es' = [] \<and> ws' = [] \<and> s' = Inl w" by simp
  qed
next
  case (p_Depends vs f p es ws s)
  show ?case
  proof (intro allI impI)
    fix es' ws' s'
    assume "prog_means cfg (ValidatorDependsOn vs p) es' ws' s'"
    then obtain g where g: "\<forall>v \<in> set vs. \<exists>es ws. means cfg v es ws (g v)"
        "case first_failure g vs of Some w \<Rightarrow> es' = [] \<and> ws' = [] \<and> s' = Inl w
         | None \<Rightarrow> prog_means cfg p es' ws' s'"
      by (rule prog_means_depends)
    have "first_failure g vs = first_failure f vs"
      using p_Depends(1) g(1) by (intro first_failure_cong) metis
    with g(2) have "prog_means cfg p es' ws' s'" by (simp add: p_Depends.hyps)
    with p_Depends show "es' = es \<and> ws' = ws \<and> s' = s" by blast
  qed
next
  case (v_Failed v es ws w)
  show ?case
    by (intro allI impI, erule meansE) (auto dest!: v_Failed.IH(3) [rule_format])
next
  case (v_Errors v es ws r)
  show ?case
    by (intro allI impI, erule meansE) (auto dest!: v_Errors.IH(3) [rule_format] simp: v_Errors.hyps)
next
  case (v_Ok v ws r)
  show ?case
    by (intro allI impI, erule meansE) (auto dest!: v_Ok.IH(3) [rule_format])
next
  case (p_Error p es ws s m)
  show ?case
    by (intro allI impI, erule prog_means_ErrorE) (auto dest!: p_Error.IH(2) [rule_format])
next
  case (p_Warning p es ws s m)
  show ?case
    by (intro allI impI, erule prog_means_WarningE) (auto dest!: p_Warning.IH(2) [rule_format])
next
  case (p_GetFailed v es' ws' w k)
  show ?case
    by (intro allI impI, erule prog_means_GetE) (auto dest!: p_GetFailed.IH(2) [rule_format])
next
  case (p_Get v es' ws' r k es ws s)
  show ?case
  proof (intro allI impI)
    fix es1 ws1 s1
    assume "prog_means cfg (GetValidatorResult v k) es1 ws1 s1"
    then have "prog_means cfg (k r) es1 ws1 s1"
      by (rule prog_means_GetE) (auto dest!: p_Get.IH(2) [rule_format])
    then show "es1 = es \<and> ws1 = ws \<and> s1 = s" by (rule p_Get.IH(4) [rule_format])
  qed
qed (auto elim!: prog_means_ReturnE)

section \<open>The runner computes the meaning\<close>

definition tag :: "'v \<Rightarrow> 'v message \<Rightarrow> 'v message" where
  "tag v m = m\<lparr>validator_class := Some v\<rparr>"

definition own_errors :: "('v, 'r) vconfig \<Rightarrow> 'v \<Rightarrow> 'v message multiset" where
  "own_errors cfg v = (THE ms. \<exists>es ws s. means cfg v es ws s \<and> ms = mset (map (tag v) es))"

definition own_warnings :: "('v, 'r) vconfig \<Rightarrow> 'v \<Rightarrow> 'v message multiset" where
  "own_warnings cfg v = (THE ms. \<exists>es ws s. means cfg v es ws s \<and> ms = mset (map (tag v) ws))"

lemma own_messages:
  assumes "means cfg v es ws s"
  shows "own_errors cfg v = mset (map (tag v) es)" and "own_warnings cfg v = mset (map (tag v) ws)"
  using assms means_deterministic(2) [OF assms] unfolding own_errors_def own_warnings_def
  by (blast intro!: the_equality)+

lemma tag_class [simp]: "validator_class (tag v m) = Some v"
  by (simp add: tag_def)

text \<open>
  The bookkeeping of a context between two steps: every stored outcome is the meaning of its
  validator, and the messages are those of the stored validators plus \<open>B\<close> and \<open>W\<close>, which the
  running ones have emitted so far.
\<close>

abbreviation stored_map :: "('v, 'r) vcontext \<Rightarrow> 'v \<Rightarrow> ('v, 'r) stored option" where
  "stored_map st \<equiv> map_of (validation_results st)"

definition stored_ok :: "('v, 'r) vconfig \<Rightarrow> ('v, 'r) vcontext \<Rightarrow> bool" where
  "stored_ok cfg st \<longleftrightarrow> dom (stored_map st) \<subseteq> set (registered cfg) \<and>
     (\<forall>v s. stored_map st v = Some s \<longrightarrow> (\<exists>es ws. means cfg v es ws s))"

definition books :: "('v, 'r) vconfig \<Rightarrow> 'v message multiset \<Rightarrow> 'v message multiset \<Rightarrow> ('v, 'r) vcontext \<Rightarrow> bool" where
  "books cfg B W st \<longleftrightarrow> stored_ok cfg st \<and>
     set (validator_stack st) \<inter> dom (stored_map st) = {} \<and>
     mset (errors st) = B + (\<Sum>v \<in> dom (stored_map st). own_errors cfg v) \<and>
     mset (warnings st) = W + (\<Sum>v \<in> dom (stored_map st). own_warnings cfg v) \<and>
     (\<forall>m \<in># B. \<exists>u \<in> set (validator_stack st). validator_class m = Some u)"

definition grown :: "('v, 'r) vcontext \<Rightarrow> ('v, 'r) vcontext \<Rightarrow> bool" where
  "grown st st' \<longleftrightarrow> validator_stack st' = validator_stack st \<and> stored_map st \<subseteq>\<^sub>m stored_map st'"

lemma grown_refl [simp]: "grown st st"
  by (simp add: grown_def)

lemma grown_trans: "grown a b \<Longrightarrow> grown b c \<Longrightarrow> grown a c"
  by (auto simp: grown_def intro: map_le_trans)

lemma grown_stored: "grown st st' \<Longrightarrow> v \<in> dom (stored_map st) \<Longrightarrow> v \<in> dom (stored_map st')"
  by (auto simp: grown_def map_le_def dom_def)

lemma books_add_error:
  assumes "books cfg B W st" and "validator_stack st = v # S"
  shows "books cfg (add_mset (tag v m) B) W (add_error m st)"
  using assms by (auto simp: books_def stored_ok_def add_error_def current_validator_def tag_def)

lemma books_add_warning:
  assumes "books cfg B W st" and "validator_stack st = v # S"
  shows "books cfg B (add_mset (tag v m) W) (add_warning m st)"
  using assms by (auto simp: books_def stored_ok_def add_warning_def current_validator_def tag_def)

lemma add_message_simps [simp]:
  "validator_stack (add_error m st) = validator_stack st"
  "validation_results (add_error m st) = validation_results st"
  "validator_stack (add_warning m st) = validator_stack st"
  "validation_results (add_warning m st) = validation_results st"
  by (simp_all add: add_error_def add_warning_def)

lemma fetch_each_first:
  "set vs \<subseteq> dom (stored_map st) \<Longrightarrow> fetch_each vs st =
     (case first_failure (\<lambda>v. the (stored_map st v)) vs of None \<Rightarrow> Inr () | Some w \<Rightarrow> Inl (ValidatorFailed w))"
  by (induction vs) (auto simp: first_failure_def fetch_def split: sum.splits)

text \<open>What a nested call leaves behind when it returns.\<close>

definition runs_well :: "('v, 'r) vconfig \<Rightarrow> ('v, 'r) runner \<Rightarrow> bool" where
  "runs_well cfg rv \<longleftrightarrow> (\<forall>u B W st st'. books cfg B W st \<longrightarrow> rv u st = (Inr (), st') \<longrightarrow>
       books cfg B W st' \<and> grown st st' \<and> u \<in> dom (stored_map st')) \<and>
     (\<forall>u st st' w. rv u st \<noteq> (Inl (ValidatorFailed w), st'))"

lemma runs_wellD:
  assumes "runs_well cfg rv" and "books cfg B W st" and "rv u st = (Inr x, st')"
  shows "books cfg B W st' \<and> grown st st' \<and> u \<in> dom (stored_map st')"
  using assms unfolding runs_well_def by (metis unit.exhaust)

lemma run_each_well:
  assumes "runs_well cfg rv" and "books cfg B W st" and "run_each rv vs st = (Inr x, st')"
  shows "books cfg B W st' \<and> grown st st' \<and> set vs \<subseteq> dom (stored_map st')"
  using assms(2,3)
proof (induction vs arbitrary: st)
  case (Cons v vs)
  then obtain y st1 where v: "rv v st = (Inr y, st1)" and vs: "run_each rv vs st1 = (Inr x, st')"
    by (auto split: prod.splits sum.splits)
  from runs_wellD [OF assms(1) Cons.prems(1) v]
  have st1: "books cfg B W st1" "grown st st1" "v \<in> dom (stored_map st1)" by blast+
  with Cons.IH [OF _ vs] show ?case by (auto dest: grown_stored intro: grown_trans)
qed simp

lemma run_each_not_failed: "runs_well cfg rv \<Longrightarrow> run_each rv vs st \<noteq> (Inl (ValidatorFailed w), st')"
  by (induction vs arbitrary: st) (auto simp: runs_well_def split: prod.splits sum.splits)

fun ended :: "'v vexc + 'r option \<Rightarrow> ('v, 'r) stored option" where
  "ended (Inr r) = Some (Inr r)"
| "ended (Inl (ValidatorFailed w)) = Some (Inl w)"
| "ended _ = None"

lemma ended_conv:
  "ended x = Some s \<longleftrightarrow> (\<exists>r. x = Inr r \<and> s = Inr r) \<or> (\<exists>w. x = Inl (ValidatorFailed w) \<and> s = Inl w)"
  by (cases x rule: ended.cases) auto

lemma stored_means: "books cfg B W st \<Longrightarrow> stored_map st v = Some s \<Longrightarrow> \<exists>es ws. means cfg v es ws s"
  by (auto simp: books_def stored_ok_def)

definition exec_post :: "('v, 'r) vconfig \<Rightarrow> 'v \<Rightarrow> 'v message multiset \<Rightarrow> 'v message multiset \<Rightarrow>
    ('v, 'r) prog \<Rightarrow> ('v, 'r) stored \<Rightarrow> ('v, 'r) vcontext \<Rightarrow> ('v, 'r) vcontext \<Rightarrow> bool" where
  "exec_post cfg v B W p s st st' \<longleftrightarrow> (\<exists>es ws. prog_means cfg p es ws s \<and>
     books cfg (B + mset (map (tag v) es)) (W + mset (map (tag v) ws)) st' \<and> grown st st')"

lemma exec_post_stop:
  assumes "prog_means cfg p [] [] s" and "books cfg B W st'" and "grown st st'"
  shows "exec_post cfg v B W p s st st'"
  unfolding exec_post_def using assms by (intro exI [of _ "[]"]) simp

lemma exec_post_continue:
  assumes "exec_post cfg v B W q s st1 st'" and "grown st st1"
    and "\<And>es ws. prog_means cfg q es ws s \<Longrightarrow> prog_means cfg p es ws s"
  shows "exec_post cfg v B W p s st st'"
  using assms unfolding exec_post_def by (blast intro: grown_trans)

lemma exec_prog_means:
  assumes rv: "runs_well cfg rv"
  shows "exec_prog rv p st = (x, st') \<Longrightarrow> ended x = Some s \<Longrightarrow> books cfg B W st \<Longrightarrow>
    validator_stack st = v # S \<Longrightarrow> exec_post cfg v B W p s st st'"
proof (induction p arbitrary: st B W)
  case (Return r)
  then show ?case by (auto intro!: exec_post_stop p_Return)
next
  case (AddError m p)
  then have "exec_post cfg v (add_mset (tag v m) B) W p s (add_error m st) st'"
    by (simp add: books_add_error)
  then obtain es ws where "prog_means cfg p es ws s" "grown (add_error m st) st'"
      "books cfg (B + mset (map (tag v) (m # es))) (W + mset (map (tag v) ws)) st'"
    by (auto simp: exec_post_def)
  then show ?case unfolding exec_post_def by (force simp: grown_def intro: p_Error)
next
  case (AddWarning m p)
  then have "exec_post cfg v B (add_mset (tag v m) W) p s (add_warning m st) st'"
    by (simp add: books_add_warning)
  then obtain es ws where "prog_means cfg p es ws s" "grown (add_warning m st) st'"
      "books cfg (B + mset (map (tag v) es)) (W + mset (map (tag v) (m # ws))) st'"
    by (auto simp: exec_post_def)
  then show ?case unfolding exec_post_def by (force simp: grown_def intro: p_Warning)
next
  case (GetValidatorResult u k)
  from GetValidatorResult.prems(1,2) rv obtain y st1 where u: "rv u st = (Inr y, st1)"
    by (auto simp: runs_well_def ended_conv split: prod.splits sum.splits)
  from runs_wellD [OF rv GetValidatorResult.prems(3) u] obtain t
    where st1: "books cfg B W st1" "grown st st1" "stored_map st1 u = Some t" by blast
  then obtain es1 ws1 where t: "means cfg u es1 ws1 t" using stored_means by metis
  show ?case
  proof (cases t)
    case (Inl w)
    with GetValidatorResult.prems(1,2) u st1 t show ?thesis
      by (auto simp: fetch_def intro!: exec_post_stop p_GetFailed)
  next
    case (Inr r)
    with GetValidatorResult.prems(1) u st1(3) have "exec_prog rv (k r) st1 = (x, st')"
      by (simp add: fetch_def)
    then have "exec_post cfg v B W (k r) s st1 st'"
      using GetValidatorResult st1 by (intro GetValidatorResult.IH) (auto simp: grown_def)
    then show ?thesis using st1(2) t Inr by (auto elim!: exec_post_continue intro: p_Get)
  qed
next
  case (ValidatorDependsOn vs p)
  from ValidatorDependsOn.prems(1,2) run_each_not_failed [OF rv]
  obtain y st1 where vs: "run_each rv vs st = (Inr y, st1)"
    by (auto simp: ended_conv split: prod.splits sum.splits)
  from run_each_well [OF rv ValidatorDependsOn.prems(3) vs]
  have st1: "books cfg B W st1" "grown st st1" "set vs \<subseteq> dom (stored_map st1)" by blast+
  define f where "f = (\<lambda>u. the (stored_map st1 u))"
  have f: "\<forall>u \<in> set vs. \<exists>es ws. means cfg u es ws (f u)"
    using st1(1,3) stored_means by (fastforce simp: f_def)
  have fe: "fetch_each vs st1 =
      (case first_failure f vs of None \<Rightarrow> Inr () | Some w \<Rightarrow> Inl (ValidatorFailed w))"
    using fetch_each_first [OF st1(3)] by (simp add: f_def)
  show ?case
  proof (cases "first_failure f vs")
    case (Some w)
    with fe ValidatorDependsOn.prems(1,2) vs st1 show ?thesis
      by (auto intro!: exec_post_stop p_DependsFailed [OF f])
  next
    case None
    with fe ValidatorDependsOn.prems(1) vs have "exec_prog rv p st1 = (x, st')" by simp
    then have "exec_post cfg v B W p s st1 st'"
      using ValidatorDependsOn.prems st1 by (intro ValidatorDependsOn.IH) (auto simp: grown_def)
    then show ?thesis using st1(2) by (auto elim!: exec_post_continue intro: p_Depends [OF f None])
  qed
qed auto

lemma books_push:
  assumes "books cfg B W st" and "v \<notin> dom (stored_map st)"
  shows "books cfg B W (push v st)"
  using assms by (auto simp: books_def stored_ok_def push_def)

lemma has_errors_own:
  assumes st: "books cfg (B + mset (map (tag v) es)) W st" and stack: "validator_stack st = v # S"
    and B: "\<forall>m \<in># B. \<exists>u \<in> set S. validator_class m = Some u" and "v \<notin> set S"
  shows "has_errors_for v st \<longleftrightarrow> es \<noteq> []"
proof -
  have other: "validator_class m \<noteq> Some v"
    if u: "u \<in> dom (stored_map st)" and m: "m \<in># own_errors cfg u" for u m
  proof -
    obtain es' ws' s' where "means cfg u es' ws' s'" using u stored_means [OF st] by blast
    with m have "validator_class m = Some u" by (auto simp: own_messages)
    moreover have "u \<noteq> v" using u st stack by (auto simp: books_def)
    ultimately show ?thesis by simp
  qed
  have notB: "\<forall>m \<in># B. validator_class m \<noteq> Some v" using B \<open>v \<notin> set S\<close> by force
  have notSum: "\<forall>m \<in># (\<Sum>u \<in> dom (stored_map st). own_errors cfg u). validator_class m \<noteq> Some v"
    using other by (simp add: set_mset_sum finite_dom_map_of)
  have "set (errors st) = set_mset (B + mset (map (tag v) es) + (\<Sum>u \<in> dom (stored_map st). own_errors cfg u))"
    using st by (metis books_def set_mset_mset)
  then have "has_errors_for v st \<longleftrightarrow> (\<exists>m \<in># B + mset (map (tag v) es) +
      (\<Sum>u \<in> dom (stored_map st). own_errors cfg u). validator_class m = Some v)"
    by (auto simp: has_errors_for_def list_ex_iff)
  also have "\<dots> \<longleftrightarrow> (\<exists>m \<in># mset (map (tag v) es). validator_class m = Some v)"
    unfolding set_mset_union using notB notSum by blast
  finally show ?thesis by (cases es) auto
qed

lemma finish_well:
  assumes st: "books cfg (B + mset (map (tag v) es)) (W + mset (map (tag v) ws)) st"
    and stack: "validator_stack st = v # S" and means: "means cfg v es ws s"
    and B: "\<forall>m \<in># B. \<exists>u \<in> set S. validator_class m = Some u"
    and v: "v \<in> set (registered cfg)" "v \<notin> set S"
  shows "\<exists>st'. finish v s st = (Inr (), st') \<and> books cfg B W st' \<and> validator_stack st' = S \<and>
    stored_map st \<subseteq>\<^sub>m stored_map st' \<and> stored_map st' v = Some s"
proof -
  have fresh: "v \<notin> dom (stored_map st)" using st stack by (auto simp: books_def)
  define st' where "st' = st\<lparr>validation_results := AList.update v s (validation_results st), validator_stack := S\<rparr>"
  have map: "stored_map st' = (stored_map st)(v \<mapsto> s)" by (simp add: st'_def update_conv')
  have "stored_ok cfg st'" using st means v map by (auto simp: books_def stored_ok_def)
  moreover have "mset (errors st') = B + (\<Sum>u \<in> dom (stored_map st'). own_errors cfg u)"
      "mset (warnings st') = W + (\<Sum>u \<in> dom (stored_map st'). own_warnings cfg u)"
    using st fresh means unfolding map
    by (simp_all add: books_def st'_def own_messages finite_dom_map_of ac_simps)
  moreover have "set S \<inter> dom (stored_map st') = {}"
    using st stack v unfolding map by (auto simp: books_def)
  ultimately have "books cfg B W st'" using B by (simp add: books_def st'_def)
  moreover have "stored_map st \<subseteq>\<^sub>m stored_map st'" using fresh unfolding map by (auto simp: map_le_def)
  ultimately show ?thesis
    using stack map by (intro exI [of _ st']) (simp add: finish_def st'_def)
qed

lemma finish_not_failed: "finish v s st \<noteq> (Inl (ValidatorFailed w), st')"
  by (auto simp: finish_def Let_def split: list.splits if_splits)

lemma finish_stack: "finish v s st = (Inr x, st') \<Longrightarrow> validator_stack st = v # S \<Longrightarrow> validator_stack st' = S"
  by (auto simp: finish_def Let_def)

text \<open>A run of a validator that has not been stored: its body runs to an end, and that end is stored.\<close>

lemma run_validator_cases:
  assumes "run_validator cfg (Suc n) v st = (Inr x, st')" and "v \<notin> set (keys (validation_results st))"
  obtains y st1 s where "v \<in> set (registered cfg)" and "v \<notin> set (validator_stack st)"
    and "exec_prog (run_validator cfg n) (body cfg v) (push v st) = (y, st1)" and "ended y = Some s"
    and "finish v (if isl s then s else if has_errors_for v st1 then Inl v else s) st1 = (Inr x, st')"
proof -
  obtain y st1 where e: "exec_prog (run_validator cfg n) (body cfg v) (push v st) = (y, st1)" by fastforce
  from assms e have "v \<in> set (registered cfg)" "v \<notin> set (validator_stack st)"
    by (auto split: if_splits)
  moreover from assms e this have "\<exists>s. ended y = Some s \<and>
      finish v (if isl s then s else if has_errors_for v st1 then Inl v else s) st1 = (Inr x, st')"
    by (cases y rule: ended.cases) (auto split: if_splits)
  ultimately show ?thesis using that e by blast
qed

lemma run_validator_not_failed: "run_validator cfg n v st \<noteq> (Inl (ValidatorFailed w), st')"
  by (cases n) (auto simp: finish_not_failed split: prod.splits sum.splits vexc.splits)

lemma run_validator_well: "runs_well cfg (run_validator cfg n)"
proof (induction n)
  case 0
  show ?case by (simp add: runs_well_def)
next
  case (Suc n)
  have "books cfg B W st' \<and> grown st st' \<and> v \<in> dom (stored_map st')"
    if st: "books cfg B W st" and run: "run_validator cfg (Suc n) v st = (Inr (), st')" for v B W st st'
  proof (cases "v \<in> set (keys (validation_results st))")
    case True
    then have "v \<in> dom (stored_map st)" by (simp add: dom_map_of_conv_image_fst)
    with True run st show ?thesis by simp
  next
    case False
    from run False obtain y st1 s where v: "v \<in> set (registered cfg)" "v \<notin> set (validator_stack st)"
      and e: "exec_prog (run_validator cfg n) (body cfg v) (push v st) = (y, st1)" "ended y = Some s"
      and f: "finish v (if isl s then s else if has_errors_for v st1 then Inl v else s) st1 = (Inr (), st')"
      by (rule run_validator_cases)
    have B: "\<forall>m \<in># B. \<exists>u \<in> set (validator_stack st). validator_class m = Some u"
      using st by (simp add: books_def)
    have "books cfg B W (push v st)"
      using st False by (intro books_push) (auto simp: dom_map_of_conv_image_fst)
    then have "exec_post cfg v B W (body cfg v) s (push v st) st1"
      using Suc.IH e by (intro exec_prog_means [where S = "validator_stack st"]) (auto simp: push_def)
    then obtain es ws where p: "prog_means cfg (body cfg v) es ws s"
      and b: "books cfg (B + mset (map (tag v) es)) (W + mset (map (tag v) ws)) st1"
      and g: "grown (push v st) st1"
      by (auto simp: exec_post_def)
    have stack: "validator_stack st1 = v # validator_stack st" using g by (simp add: grown_def push_def)
    have "has_errors_for v st1 \<longleftrightarrow> es \<noteq> []" using has_errors_own [OF b stack B v(2)] .
    then have "means cfg v es ws (if isl s then s else if has_errors_for v st1 then Inl v else s)"
      using p v(1) by (cases s) (auto intro: v_Failed v_Errors v_Ok)
    from finish_well [OF b stack this B v] f
    have st': "books cfg B W st'" "validator_stack st' = validator_stack st"
        "stored_map st1 \<subseteq>\<^sub>m stored_map st'" "v \<in> dom (stored_map st')" by auto
    have "stored_map st \<subseteq>\<^sub>m stored_map st1" using g by (simp add: grown_def push_def)
    with st' show ?thesis by (auto simp: grown_def intro: map_le_trans)
  qed
  then show ?case unfolding runs_well_def using run_validator_not_failed [of cfg "Suc n"] by blast
qed

lemma run_validators_well:
  assumes "run_validators cfg n vs st = (Inr x, st')" and "books cfg B W st"
  shows "books cfg B W st' \<and> grown st st' \<and> set vs \<subseteq> dom (stored_map st')"
  using assms
proof (induction vs arbitrary: st)
  case (Cons v vs)
  from Cons.prems(1) run_validator_not_failed [of cfg n v st]
  obtain y st1 where v: "run_validator cfg n v st = (Inr y, st1)" and vs: "run_validators cfg n vs st1 = (Inr x, st')"
    by (auto split: prod.splits sum.splits vexc.splits)
  from runs_wellD [OF run_validator_well Cons.prems(2) v]
  have st1: "books cfg B W st1" "grown st st1" "v \<in> dom (stored_map st1)" by blast+
  with Cons.IH [OF vs] show ?case by (auto dest: grown_stored intro: grown_trans)
qed simp

lemma fresh_books: "books cfg {#} {#} fresh_context"
  by (simp add: books_def stored_ok_def fresh_context_def)

lemma final_books:
  assumes "run_validators cfg n order fresh_context = (Inr x, st)" and "set order = set (registered cfg)"
  shows "books cfg {#} {#} st" and "dom (stored_map st) = set (registered cfg)"
proof -
  from run_validators_well [OF assms(1) fresh_books]
  show b: "books cfg {#} {#} st" and "dom (stored_map st) = set (registered cfg)"
    using assms(2) by (auto simp: books_def stored_ok_def)
qed

section \<open>The depth of nested calls\<close>

definition keeps_stack :: "('v, 'r) runner \<Rightarrow> bool" where
  "keeps_stack rv \<longleftrightarrow> (\<forall>u st x st'. rv u st = (Inr x, st') \<longrightarrow> validator_stack st' = validator_stack st) \<and>
     (\<forall>u st w st'. rv u st \<noteq> (Inl (ValidatorFailed w), st'))"

lemma run_each_stack:
  assumes "keeps_stack rv" and "run_each rv vs st = (Inr x, st')"
  shows "validator_stack st' = validator_stack st"
  using assms(2)
proof (induction vs arbitrary: st)
  case (Cons v vs)
  then obtain y st1 where "rv v st = (Inr y, st1)" "run_each rv vs st1 = (Inr x, st')"
    by (auto split: prod.splits sum.splits)
  with Cons.IH assms(1) show ?case by (metis keeps_stack_def)
qed simp

lemma run_each_not_failed': "keeps_stack rv \<Longrightarrow> run_each rv vs st \<noteq> (Inl (ValidatorFailed w), st')"
  by (induction vs arbitrary: st) (auto simp: keeps_stack_def split: prod.splits sum.splits)

lemma exec_prog_stack:
  assumes rv: "keeps_stack rv"
  shows "exec_prog rv p st = (x, st') \<Longrightarrow> ended x = Some s \<Longrightarrow> validator_stack st' = validator_stack st"
proof (induction p arbitrary: st)
  case (GetValidatorResult u k)
  from GetValidatorResult.prems rv obtain y st1 where u: "rv u st = (Inr y, st1)"
    by (auto simp: keeps_stack_def ended_conv split: prod.splits sum.splits)
  then have "validator_stack st1 = validator_stack st" using rv by (metis keeps_stack_def)
  with u GetValidatorResult.prems show ?case
    by (auto split: sum.splits dest: GetValidatorResult.IH [OF rangeI])
next
  case (ValidatorDependsOn vs p)
  from ValidatorDependsOn.prems run_each_not_failed' [OF rv]
  obtain y st1 where vs: "run_each rv vs st = (Inr y, st1)"
    by (auto simp: ended_conv split: prod.splits sum.splits)
  then have "validator_stack st1 = validator_stack st" using rv by (metis run_each_stack)
  with vs ValidatorDependsOn.prems show ?case
    by (auto split: sum.splits dest: ValidatorDependsOn.IH)
qed auto

lemma run_validator_stack: "keeps_stack (run_validator cfg n)"
proof (induction n)
  case (Suc n)
  have "validator_stack st' = validator_stack st"
    if run: "run_validator cfg (Suc n) v st = (Inr x, st')" for v st x st'
  proof (cases "v \<in> set (keys (validation_results st))")
    case False
    from run False obtain y st1 s where
      e: "exec_prog (run_validator cfg n) (body cfg v) (push v st) = (y, st1)" "ended y = Some s"
      and f: "finish v (if isl s then s else if has_errors_for v st1 then Inl v else s) st1 = (Inr x, st')"
      by (rule run_validator_cases)
    from exec_prog_stack [OF Suc.IH e] have "validator_stack st1 = v # validator_stack st"
      by (simp add: push_def)
    with f show ?thesis by (rule finish_stack)
  qed (use run in simp)
  then show ?case unfolding keeps_stack_def using run_validator_not_failed [of cfg "Suc n"] by blast
qed (simp add: keeps_stack_def)

definition fuelled :: "('v, 'r) runner \<Rightarrow> 'v list \<Rightarrow> bool" where
  "fuelled rv T \<longleftrightarrow> (\<forall>u st. validator_stack st = T \<longrightarrow> fst (rv u st) \<noteq> Inl OutOfFuel)"

lemma run_each_fuelled:
  assumes "keeps_stack rv" and "fuelled rv (validator_stack st)"
  shows "fst (run_each rv vs st) \<noteq> Inl OutOfFuel"
  using assms(2)
proof (induction vs arbitrary: st)
  case (Cons v vs)
  have "fst (rv v st) \<noteq> Inl OutOfFuel" using Cons.prems by (simp add: fuelled_def)
  moreover have "validator_stack st1 = validator_stack st" if "rv v st = (Inr x, st1)" for x st1
    using assms(1) that by (metis keeps_stack_def)
  ultimately show ?case using Cons by (auto split: prod.splits sum.splits)
qed simp

lemma fetch_no_fuel: "fetch v st \<noteq> Inl OutOfFuel" "fetch_each vs st \<noteq> Inl OutOfFuel"
proof -
  show one: "fetch v st \<noteq> Inl OutOfFuel" for v
    by (auto simp: fetch_def split: option.splits sum.splits)
  show "fetch_each vs st \<noteq> Inl OutOfFuel" using one by (induction vs) (auto simp: bindR_Inl_conv)
qed

lemma exec_prog_fuelled:
  assumes rv: "keeps_stack rv"
  shows "fuelled rv (validator_stack st) \<Longrightarrow> fst (exec_prog rv p st) \<noteq> Inl OutOfFuel"
proof (induction p arbitrary: st)
  case (GetValidatorResult u k)
  obtain y st1 where u: "rv u st = (y, st1)" by fastforce
  show ?case
  proof (cases y)
    case (Inl e)
    have "fst (rv u st) \<noteq> Inl OutOfFuel" using GetValidatorResult.prems by (simp add: fuelled_def)
    with u Inl show ?thesis by simp
  next
    case (Inr x)
    with u rv have "validator_stack st1 = validator_stack st" by (metis keeps_stack_def)
    with u Inr GetValidatorResult show ?thesis by (auto simp: fetch_no_fuel split: sum.splits)
  qed
next
  case (ValidatorDependsOn vs p)
  obtain y st1 where vs: "run_each rv vs st = (y, st1)" by fastforce
  show ?case
  proof (cases y)
    case (Inl e)
    with vs run_each_fuelled [OF rv ValidatorDependsOn.prems, of vs] show ?thesis by auto
  next
    case (Inr x)
    with vs rv have "validator_stack st1 = validator_stack st" by (metis run_each_stack)
    with vs Inr ValidatorDependsOn show ?thesis by (auto simp: fetch_no_fuel split: sum.splits)
  qed
qed auto

lemma run_validator_fuelled:
  "card (set (registered cfg) - set T) < n \<Longrightarrow> fuelled (run_validator cfg n) T"
proof (induction n arbitrary: T)
  case (Suc n)
  have "fst (run_validator cfg (Suc n) v st) \<noteq> Inl OutOfFuel"
    if T: "validator_stack st = T" and v: "v \<in> set (registered cfg)" "v \<notin> set T" for v st
  proof -
    have "set (registered cfg) - set (v # T) \<subset> set (registered cfg) - set T" using v by auto
    then have "card (set (registered cfg) - set (v # T)) < n"
      using Suc.prems by (metis finite_Diff finite_set less_Suc_eq_le order_less_le_trans psubset_card_mono)
    then have "fst (exec_prog (run_validator cfg n) (body cfg v) (push v st)) \<noteq> Inl OutOfFuel"
      using Suc.IH T by (intro exec_prog_fuelled run_validator_stack) (simp add: push_def)
    then show ?thesis
      by (auto simp: finish_def Let_def split: prod.splits sum.splits vexc.splits list.splits)
  qed
  then show ?case by (force simp: fuelled_def)
qed simp

lemma run_validators_fuelled:
  assumes "card (set (registered cfg)) < n"
  shows "validator_stack st = [] \<Longrightarrow> fst (run_validators cfg n vs st) \<noteq> Inl OutOfFuel"
proof (induction vs arbitrary: st)
  case (Cons v vs)
  obtain y st1 where v: "run_validator cfg n v st = (y, st1)" by fastforce
  have y: "y \<noteq> Inl OutOfFuel" using run_validator_fuelled [of cfg "[]" n] assms Cons.prems v
    by (auto simp: fuelled_def) (metis fst_conv)
  show ?case
  proof (cases y)
    case (Inl e)
    with v y run_validator_not_failed [of cfg n v st] show ?thesis by (auto split: vexc.splits)
  next
    case (Inr x)
    with v Cons.prems have "validator_stack st1 = []"
      using run_validator_stack by (metis keeps_stack_def)
    with v Inr Cons.IH show ?thesis by simp
  qed
qed simp

lemma parse_sources_stack: "validator_stack (parse_sources ms st) = validator_stack st"
  unfolding parse_sources_def by (induction ms arbitrary: st) simp_all

section \<open>Acceptance\<close>

lemma first_failure_SomeD: "first_failure f vs = Some w \<Longrightarrow> \<exists>v \<in> set vs. f v = Inl w"
proof (induction vs)
  case (Cons v vs)
  then show ?case by (cases "f v") (auto simp: first_failure_def)
qed (simp add: first_failure_def)

lemma map_of_filter_key: "map_of (filter (\<lambda>p. P (fst p)) d) k = (if P k then map_of d k else None)"
  by (induction d) auto

text \<open>A failure names a registered validator that emitted an error itself.\<close>

lemma failure_origin:
  "prog_means cfg p es ws s \<Longrightarrow> (\<forall>w. s = Inl w \<longrightarrow>
     w \<in> set (registered cfg) \<and> (\<exists>es' ws' t. means cfg w es' ws' t \<and> es' \<noteq> []))"
  "means cfg v es ws s \<Longrightarrow> (\<forall>w. s = Inl w \<longrightarrow>
     w \<in> set (registered cfg) \<and> (\<exists>es' ws' t. means cfg w es' ws' t \<and> es' \<noteq> []))"
proof (induction rule: prog_means_means.inducts)
  case (p_DependsFailed vs f w p)
  then obtain v where "v \<in> set vs" "f v = Inl w" by (metis first_failure_SomeD)
  with p_DependsFailed show ?case by blast
next
  case (v_Errors v es ws r)
  then have "means cfg v es ws (Inl v)" by (blast intro: prog_means_means.v_Errors)
  with v_Errors show ?case by blast
qed auto

lemma own_errors_final:
  assumes "books cfg {#} {#} st" and "errors st = []" and "v \<in> dom (stored_map st)"
  shows "own_errors cfg v = {#}"
proof -
  have "(\<Sum>v \<in> dom (stored_map st). own_errors cfg v) = {#}" using assms(1,2) by (simp add: books_def)
  then show ?thesis using assms(3) by (simp add: sum.remove [of _ v] finite_dom_map_of)
qed

lemma clean_stored:
  assumes st: "books cfg {#} {#} st" and dom: "dom (stored_map st) = set (registered cfg)"
    and clean: "errors st = []" and v: "v \<in> set (registered cfg)"
  shows "\<exists>ws r. prog_means cfg (body cfg v) [] ws (Inr r) \<and> stored_map st v = Some (Inr r)"
proof -
  obtain s where s: "stored_map st v = Some s" using v dom by blast
  then obtain es ws where m: "means cfg v es ws s" using stored_means [OF st] by blast
  have no_errors: "es' = []" if "means cfg u es' ws' t" "u \<in> set (registered cfg)" for u es' ws' t
    using own_errors_final [OF st clean] that dom own_messages(1) [OF that(1)] by simp
  have "s \<noteq> Inl w" for w using failure_origin(2) [OF m] no_errors by blast
  then obtain r where "s = Inr r" by (cases s) auto
  with m s show ?thesis by (auto elim: meansE)
qed

lemma parse_sources_none: "parse_sources [] st = st"
  by (simp add: parse_sources_def)

lemma parse_sources_errors: "errors (parse_sources ms fresh_context) = [] \<longleftrightarrow> ms = []"
proof -
  have "length (errors (parse_sources ms st)) = length (errors st) + length ms" for st :: "('a, 'b) vcontext"
    unfolding parse_sources_def by (induction ms arbitrary: st) (simp_all add: add_error_def)
  from this [of fresh_context] show ?thesis by (auto simp: fresh_context_def)
qed

lemma run_context_end:
  assumes "run_context cfg n order parse = out" and "\<And>e. out \<noteq> Raised e" and "parse = []"
  obtains x st where "run_validators cfg n order fresh_context = (Inr x, st)" and "out = conclude cfg st"
  using assms by (auto simp: run_context_def parse_sources_none fresh_context_def split: prod.splits sum.splits)

section \<open>Properties\<close>


text \<open>
  (C37) Accepted sources really passed: when \<open>run\<close> returns \<open>ValidatedSources\<close>, no source failed to
  parse, the program of every registered validator ran to its end without emitting an error and
  without failing through another validator, and the result it returned is the one that
  \<open>get_validator_result\<close> finds.
\<close>

theorem validated_sound:
  assumes "run_context cfg n order parse = ValidatedSources rs ws" and "set order = set (registered cfg)"
    and "v \<in> set (registered cfg)"
  shows "parse = [] \<and> (\<exists>ws' r. prog_means cfg (body cfg v) [] ws' (Inr r) \<and>
    (has_result cfg v \<longrightarrow> validated_result rs v = Inr (Inr r)))"
proof -
  have parse: "parse = []"
    using assms(1) parse_sources_errors [of parse]
    by (auto simp: run_context_def conclude_def Let_def split: if_splits)
  from assms(1) parse obtain x st where run: "run_validators cfg n order fresh_context = (Inr x, st)"
    and out: "ValidatedSources rs ws = conclude cfg st"
    by (auto elim: run_context_end)
  from out have clean: "errors st = []" and rs: "rs = filter (\<lambda>p. has_result cfg (fst p)) (validation_results st)"
    by (auto simp: conclude_def split: if_splits)
  from clean_stored [OF final_books [OF run assms(2)] clean assms(3)]
  obtain ws' r where r: "prog_means cfg (body cfg v) [] ws' (Inr r)" "stored_map st v = Some (Inr r)" by blast
  with rs parse show ?thesis by (auto simp: validated_result_def map_of_filter_key)
qed

text \<open>The same outcome up to the order of messages and results.\<close>

fun same_outcome :: "('v, 'r) run_outcome \<Rightarrow> ('v, 'r) run_outcome \<Rightarrow> bool" where
  "same_outcome (ValidationFailed es ws) (ValidationFailed es' ws') \<longleftrightarrow>
     mset es = mset es' \<and> mset ws = mset ws'"
| "same_outcome (ValidatedSources rs ws) (ValidatedSources rs' ws') \<longleftrightarrow>
     map_of rs = map_of rs' \<and> mset ws = mset ws'"
| "same_outcome _ _ \<longleftrightarrow> False"


section \<open>Witnesses\<close>

text \<open>
  Validator 2 depends on 1, which reads the result of 0; in the second configuration 1 emits an error,
  in the third 0 and 1 ask for each other.
\<close>

definition demo_message :: "nat message" where
  "demo_message = validation_message ''unknown identifier'' \<lparr>span_source = ''main.sml'', start_line = 1, start_pos = 4\<rparr>
     ''this identifier not found'' [] []"

definition demo_validators :: "(nat \<Rightarrow> (nat, int) prog) \<Rightarrow> (nat, int) vconfig" where
  "demo_validators b = \<lparr>registered = [0, 1, 2], body = b, has_result = (\<lambda>v. v \<noteq> 2), warning_as_error = False\<rparr>"

definition demo_clean :: "(nat, int) vconfig" where
  "demo_clean = demo_validators (\<lambda>v. if v = 0 then Return (Some 7)
     else if v = 1 then GetValidatorResult 0 (\<lambda>r. AddWarning demo_message (Return r))
     else ValidatorDependsOn [0, 1] (Return None))"

definition demo_failing :: "(nat, int) vconfig" where
  "demo_failing = demo_validators (\<lambda>v. if v = 0 then AddWarning demo_message (Return (Some 7))
     else if v = 1 then GetValidatorResult 0 (\<lambda>r. AddError demo_message (Return r))
     else ValidatorDependsOn [0, 1] (AddError demo_message (Return None)))"

definition demo_circular :: "(nat, int) vconfig" where
  "demo_circular = demo_validators (\<lambda>v. if v = 0 then GetValidatorResult 1 Return
     else if v = 1 then GetValidatorResult 0 Return else Return None)"


theorem validated_sound_witness:
  "\<exists>ws' r. prog_means demo_clean (body demo_clean 1) [] ws' (Inr r) \<and>
    validated_result [(0, Inr (Some 7)), (1, Inr (Some 7))] 1 = (Inr (Inr r) :: (nat, int) stored result)"
proof -
  have "run_context demo_clean 4 [1, 0, 2] [] =
      ValidatedSources [(0, Inr (Some 7)), (1, Inr (Some 7))] [demo_message\<lparr>validator_class := Some 1\<rparr>]"
    by code_simp
  from validated_sound [OF this, of 1] show ?thesis
    by (simp add: demo_clean_def demo_validators_def validated_result_def insert_commute)
qed


end
