(* ===== verification/Scheduler.thy ===== *)
theory Scheduler
  imports Prelude
begin

text \<open>
  The interface between the execution context and its scheduler. The context
  (\<open>executor/execution_context.py\<close>) adds nodes whose dependencies it has added before, prepares the
  scheduler, asks for the nodes that are ready and reports nodes as done. The locale states what a
  scheduler promises to such a client; \<open>Topo_Sorter\<close> interprets it on the operations of
  \<open>executor/topological_sorter.py\<close> and \<open>Executor\<close> uses the interpreted facts.

  \<open>deps v\<close> are the dependencies the client adds \<open>v\<close> with, \<open>h\<close> is the list of nodes handed out so
  far. A node of the scheduler is waiting, running (handed out) or finished.
\<close>

definition dep_rel :: "('n \<Rightarrow> 'n list) \<Rightarrow> 'n set \<Rightarrow> ('n \<times> 'n) set" where
  "dep_rel deps A = {(p, v). v \<in> A \<and> p \<in> set (deps v)}"

lemma dep_rel_insert: "dep_rel deps (insert v A) = dep_rel deps A \<union> set (deps v) \<times> {v}"
  by (auto simp: dep_rel_def)

locale scheduler =
  fixes ok :: "('n \<Rightarrow> 'n list) \<Rightarrow> 'n list \<Rightarrow> 's \<Rightarrow> bool"
    and prepared :: "'s \<Rightarrow> bool"
    and nodes :: "'s \<Rightarrow> 'n set"
    and running :: "'s \<Rightarrow> 'n set"
    and finished :: "'s \<Rightarrow> 'n set"
    and add_node :: "'s \<Rightarrow> 'n \<Rightarrow> 'n list \<Rightarrow> 's result"
    and prepare_all :: "'s \<Rightarrow> 's"
    and next_ready :: "'s \<Rightarrow> ('n list \<times> 's) result"
    and mark_done :: "'s \<Rightarrow> 'n list \<Rightarrow> 's result"
  assumes finite_nodes: "finite (nodes s)"
    and handed_set: "ok deps h s \<Longrightarrow> set h = running s \<union> finished s \<and> distinct h \<and>
          running s \<inter> finished s = {} \<and> set h \<subseteq> nodes s"
    and handed_deps: "ok deps h s \<Longrightarrow> v \<in> set h \<Longrightarrow> set (deps v) \<subseteq> finished s"
    and handed_before: "ok deps h s \<Longrightarrow> v \<in> set h \<Longrightarrow> p \<in> set (deps v) \<Longrightarrow> before h p v"
    and acyclic_deps: "ok deps h s \<Longrightarrow> acyclic (dep_rel deps (nodes s))"
    and closed_deps: "ok deps h s \<Longrightarrow> v \<in> nodes s \<Longrightarrow> set (deps v) \<subseteq> nodes s"
    and add_law: "ok deps h s \<Longrightarrow> v \<notin> nodes s \<Longrightarrow> set (deps v) \<subseteq> nodes s \<Longrightarrow>
          \<exists>s'. add_node s v (deps v) = Inr s' \<and> ok deps h s' \<and> nodes s' = insert v (nodes s) \<and>
            running s' = running s \<and> finished s' = finished s"
    and prepare_law: "ok deps h s \<Longrightarrow> ok deps h (prepare_all s) \<and> prepared (prepare_all s) \<and>
          nodes (prepare_all s) = nodes s \<and> running (prepare_all s) = running s \<and>
          finished (prepare_all s) = finished s"
    and ready_law: "ok deps h s \<Longrightarrow> prepared s \<Longrightarrow>
          \<exists>vs s'. next_ready s = Inr (vs, s') \<and> ok deps (h @ vs) s' \<and> prepared s' \<and>
            set vs = {v \<in> nodes s - set h. set (deps v) \<subseteq> finished s} \<and> nodes s' = nodes s \<and>
            running s' = running s \<union> set vs \<and> finished s' = finished s"
    and done_law: "ok deps h s \<Longrightarrow> prepared s \<Longrightarrow> v \<in> running s \<Longrightarrow>
          \<exists>s'. mark_done s [v] = Inr s' \<and> ok deps h s' \<and> prepared s' \<and> nodes s' = nodes s \<and>
            running s' = running s - {v} \<and> finished s' = insert v (finished s)"
begin

text \<open>As long as something is unfinished, something is running or ready.\<close>

lemma not_stuck:
  assumes "ok deps h s" and "running s = {}"
    and "{v \<in> nodes s - set h. set (deps v) \<subseteq> finished s} = {}"
  shows "finished s = nodes s"
proof (rule ccontr)
  assume "finished s \<noteq> nodes s"
  moreover have h: "set h = finished s" "finished s \<subseteq> nodes s"
    using handed_set [OF assms(1)] assms(2) by auto
  ultimately obtain v where v: "v \<in> nodes s - finished s" by blast
  define R where "R = dep_rel deps (nodes s) \<inter> (nodes s \<times> nodes s)"
  have "finite R" unfolding R_def using finite_nodes by blast
  moreover have "acyclic R" using acyclic_deps [OF assms(1)] by (rule acyclic_subset) (simp add: R_def)
  ultimately have "wf R" by (rule finite_acyclic_wf)
  with v obtain z where z: "z \<in> nodes s - finished s" "\<And>y. (y, z) \<in> R \<Longrightarrow> y \<notin> nodes s - finished s"
    using wfE_min by metis
  have "set (deps z) \<subseteq> finished s"
  proof
    fix p assume "p \<in> set (deps z)"
    with z(1) closed_deps [OF assms(1), of z] have "(p, z) \<in> R" "p \<in> nodes s"
      by (auto simp: R_def dep_rel_def)
    with z(2) show "p \<in> finished s" by blast
  qed
  with z(1) assms(3) h(1) show False by blast
qed

text \<open>What a client can count on when it asks for the next nodes: they are new, their dependencies
  are finished, and when there are none and nothing runs, everything is finished.\<close>

lemma next_ready_client:
  assumes "ok deps h s" and "prepared s"
  shows "\<exists>vs s'. next_ready s = Inr (vs, s') \<and> ok deps (h @ vs) s' \<and> prepared s' \<and>
    nodes s' = nodes s \<and> running s' = running s \<union> set vs \<and> finished s' = finished s \<and>
    distinct vs \<and> set vs \<inter> set h = {} \<and> set vs \<subseteq> nodes s \<and> (\<forall>v \<in> set vs. set (deps v) \<subseteq> finished s) \<and>
    (vs = [] \<and> running s = {} \<longrightarrow> finished s = nodes s)"
proof -
  from ready_law [OF assms] obtain vs s' where r: "next_ready s = Inr (vs, s')" "ok deps (h @ vs) s'"
    "prepared s'" "set vs = {v \<in> nodes s - set h. set (deps v) \<subseteq> finished s}" "nodes s' = nodes s"
    "running s' = running s \<union> set vs" "finished s' = finished s" by blast
  then have "distinct vs" using handed_set [OF r(2)] by simp
  moreover have "vs = [] \<and> running s = {} \<longrightarrow> finished s = nodes s"
    using not_stuck [OF assms(1), folded r(4)] by simp
  ultimately show ?thesis using r by auto
qed

text \<open>The number of unfinished nodes goes down with every node that is reported as done.\<close>

lemma unfinished_done:
  assumes "ok deps h s" and "prepared s" and "v \<in> running s" and "mark_done s [v] = Inr s'"
  shows "card (nodes s' - finished s') < card (nodes s - finished s)"
proof -
  from done_law [OF assms(1-3)] assms(4) have s': "nodes s' = nodes s" "finished s' = insert v (finished s)"
    by auto
  have "v \<in> nodes s" "v \<notin> finished s" using handed_set [OF assms(1)] assms(3) by auto
  then have "nodes s' - finished s' \<subset> nodes s - finished s" using s' by auto
  then show ?thesis using finite_nodes by (simp add: psubset_card_mono)
qed

end

end
