(* ===== verification/Topo_Sorter.thy ===== *)
theory Topo_Sorter
  imports Scheduler
begin

text \<open>
  The incremental topological sorter of \<open>executor/topological_sorter.py\<close>, the scheduler of the
  rule executor: nodes are added with their predecessors, \<open>prepare\<close> recomputes the ready list,
  \<open>get_ready\<close> hands ready nodes out and \<open>done\<close> releases the successors of finished nodes. Unlike
  \<open>graphlib\<close>, nodes may be added after execution has started.
\<close>

section \<open>State\<close>

definition NODE_OUT :: int where "NODE_OUT = -1"
definition NODE_DONE :: int where "NODE_DONE = -2"

record 'n node_info =
  npredecessors :: int
  successors :: "'n list"

record 'n sorter =
  node2info :: "('n, 'n node_info) dict"
  ready_nodes :: "'n list"
  npassedout :: int
  nfinished :: int
  needs_prepare :: bool

definition new_node_info :: "'n node_info" where
  "new_node_info = \<lparr>npredecessors = 0, successors = []\<rparr>"

definition empty_sorter :: "'n sorter" where
  "empty_sorter = \<lparr>node2info = [], ready_nodes = [], npassedout = 0, nfinished = 0,
     needs_prepare = True\<rparr>"

section \<open>Operations\<close>

definition set_info :: "'n \<Rightarrow> 'n node_info \<Rightarrow> 'n sorter \<Rightarrow> 'n sorter" where
  "set_info v i ts = ts\<lparr>node2info := AList.update v i (node2info ts)\<rparr>"

definition get_nodeinfo :: "'n sorter \<Rightarrow> 'n \<Rightarrow> 'n node_info \<times> 'n sorter" where
  "get_nodeinfo ts v =
     (case map_of (node2info ts) v of
        None \<Rightarrow> (new_node_info, set_info v new_node_info ts)
      | Some i \<Rightarrow> (i, ts))"

definition already_added :: "'n sorter \<Rightarrow> 'n \<Rightarrow> bool" where
  "already_added ts v \<longleftrightarrow> v \<in> set (keys (node2info ts))"

text \<open>The loop of \<open>add\<close> over the predecessors; the last argument is \<open>num_new_predecessors\<close>.\<close>

fun add_edges :: "'n sorter \<Rightarrow> 'n \<Rightarrow> 'n list \<Rightarrow> int \<Rightarrow> 'n sorter \<times> int" where
  "add_edges ts v [] n = (ts, n)"
| "add_edges ts v (p # ps) n =
     (let (pi, ts1) = get_nodeinfo ts p in
      if npredecessors pi = NODE_DONE then add_edges ts1 v ps n
      else add_edges (set_info p (pi\<lparr>successors := successors pi @ [v]\<rparr>) ts1) v ps (n + 1))"

definition add :: "'n sorter \<Rightarrow> 'n \<Rightarrow> 'n list \<Rightarrow> 'n sorter result" where
  "add ts v ps =
     (if already_added ts v then Inl (ValueError ''Cannot add the same node more than once'')
      else let (_, ts1) = get_nodeinfo ts v;
               (ts2, n) = add_edges ts1 v ps 0;
               (vi, ts3) = get_nodeinfo ts2 v
           in Inr ((set_info v (vi\<lparr>npredecessors := npredecessors vi + n\<rparr>) ts3)
                     \<lparr>needs_prepare := True\<rparr>))"

definition prepare :: "'n sorter \<Rightarrow> 'n sorter" where
  "prepare ts =
     (if \<not> needs_prepare ts then ts
      else ts\<lparr>ready_nodes := [v. (v, i) \<leftarrow> node2info ts, npredecessors i = 0],
              needs_prepare := False\<rparr>)"

fun mark_out :: "'n sorter \<Rightarrow> 'n list \<Rightarrow> 'n sorter result" where
  "mark_out ts [] = Inr ts"
| "mark_out ts (v # vs) =
     (case map_of (node2info ts) v of
        None \<Rightarrow> Inl KeyError
      | Some i \<Rightarrow> mark_out (set_info v (i\<lparr>npredecessors := NODE_OUT\<rparr>) ts) vs)"

definition get_ready :: "'n sorter \<Rightarrow> ('n list \<times> 'n sorter) result" where
  "get_ready ts =
     (if needs_prepare ts then Inl (ValueError ''prepare() must be called first'')
      else bindR (mark_out ts (ready_nodes ts)) (\<lambda>ts1.
        Inr (ready_nodes ts, ts1\<lparr>ready_nodes := [],
               npassedout := npassedout ts1 + int (length (ready_nodes ts))\<rparr>)))"

definition is_active :: "'n sorter \<Rightarrow> bool result" where
  "is_active ts =
     (if needs_prepare ts then Inl (ValueError ''prepare() must be called first'')
      else Inr (nfinished ts < npassedout ts \<or> ready_nodes ts \<noteq> []))"

fun release :: "'n sorter \<Rightarrow> 'n list \<Rightarrow> 'n sorter result" where
  "release ts [] = Inr ts"
| "release ts (s # ss) =
     (case map_of (node2info ts) s of
        None \<Rightarrow> Inl KeyError
      | Some i \<Rightarrow>
          let n = npredecessors i - 1;
              ts1 = set_info s (i\<lparr>npredecessors := n\<rparr>) ts
          in release (if n = 0 then ts1\<lparr>ready_nodes := ready_nodes ts1 @ [s]\<rparr> else ts1) ss)"

definition done_one :: "'n sorter \<Rightarrow> 'n \<Rightarrow> 'n sorter result" where
  "done_one ts v =
     (case map_of (node2info ts) v of
        None \<Rightarrow> Inl (ValueError ''node was not added using add()'')
      | Some i \<Rightarrow>
          (if npredecessors i \<noteq> NODE_OUT then
             (if npredecessors i \<ge> 0 then
                Inl (ValueError ''node was not passed out (still not ready)'')
              else if npredecessors i = NODE_DONE then
                Inl (ValueError ''node was already marked done'')
              else Inl (AssertionError ''unknown status''))
           else bindR (release (set_info v (i\<lparr>npredecessors := NODE_DONE\<rparr>) ts) (successors i))
                  (\<lambda>ts1. Inr (ts1\<lparr>nfinished := nfinished ts1 + 1\<rparr>))))"

fun done_loop :: "'n sorter \<Rightarrow> 'n list \<Rightarrow> 'n sorter result" where
  "done_loop ts [] = Inr ts"
| "done_loop ts (v # vs) = bindR (done_one ts v) (\<lambda>ts1. done_loop ts1 vs)"

definition done_nodes :: "'n sorter \<Rightarrow> 'n list \<Rightarrow> 'n sorter result" where
  "done_nodes ts vs =
     (if needs_prepare ts then Inl (ValueError ''prepare() must be called first'')
      else done_loop ts vs)"

text \<open>
  \<open>static_order\<close> is a generator that loops while the sorter is active; a sorter with nodes
  that were passed out but not finished would loop forever, so not returning is \<open>None\<close>.
\<close>

partial_function (option) static_order_loop ::
    "'n sorter \<Rightarrow> 'n list \<Rightarrow> 'n list result option" where
  "static_order_loop ts acc =
     (case is_active ts of
        Inl e \<Rightarrow> Some (Inl e)
      | Inr b \<Rightarrow>
          if \<not> b then Some (Inr acc)
          else (case get_ready ts of
                  Inl e \<Rightarrow> Some (Inl e)
                | Inr r \<Rightarrow>
                    (case done_nodes (snd r) (fst r) of
                       Inl e \<Rightarrow> Some (Inl e)
                     | Inr ts2 \<Rightarrow> static_order_loop ts2 (acc @ fst r))))"

definition static_order :: "'n sorter \<Rightarrow> 'n list result option" where
  "static_order ts = static_order_loop (prepare ts) []"

text \<open>The constructor: a graph given as a dictionary from node to predecessors.\<close>

fun add_graph :: "'n sorter \<Rightarrow> ('n, 'n list) dict \<Rightarrow> 'n sorter result" where
  "add_graph ts [] = Inr ts"
| "add_graph ts ((v, ps) # g) = bindR (add ts v ps) (\<lambda>ts1. add_graph ts1 g)"

definition init_sorter :: "('n, 'n list) dict option \<Rightarrow> 'n sorter result" where
  "init_sorter graph =
     (case graph of None \<Rightarrow> Inr empty_sorter | Some g \<Rightarrow> add_graph empty_sorter g)"


section \<open>Invariant\<close>

text \<open>
  What a node still waits for is the number of edges from unfinished nodes to it. The
  invariant says that \<open>npredecessors\<close> is exactly that number for a node that was not handed out
  yet, and that a node that was handed out (or finished) waits for nothing.
\<close>

definition status :: "'n sorter \<Rightarrow> 'n \<Rightarrow> int option" where
  "status ts v = map_option npredecessors (map_of (node2info ts) v)"

definition succs :: "'n sorter \<Rightarrow> 'n \<Rightarrow> 'n list" where
  "succs ts v = (case map_of (node2info ts) v of None \<Rightarrow> [] | Some i \<Rightarrow> successors i)"

definition edge_weight :: "'n \<Rightarrow> 'n \<times> 'n node_info \<Rightarrow> nat" where
  "edge_weight v p =
     (if npredecessors (snd p) = NODE_DONE then 0 else count_list (successors (snd p)) v)"

definition pending :: "'n sorter \<Rightarrow> 'n \<Rightarrow> nat" where
  "pending ts v = sum_list (map (edge_weight v) (node2info ts))"

definition status_weight :: "int \<Rightarrow> 'n \<times> 'n node_info \<Rightarrow> nat" where
  "status_weight k p = (if npredecessors (snd p) = k then 1 else 0)"

definition count_status :: "'n sorter \<Rightarrow> int \<Rightarrow> nat" where
  "count_status ts k = sum_list (map (status_weight k) (node2info ts))"

definition waits_for :: "int \<Rightarrow> nat \<Rightarrow> bool" where
  "waits_for st n \<longleftrightarrow> st = int n \<or> st \<in> {NODE_OUT, NODE_DONE} \<and> n = 0"

definition wf_nodes :: "('n \<Rightarrow> int \<Rightarrow> nat \<Rightarrow> bool) \<Rightarrow> 'n sorter \<Rightarrow> bool" where
  "wf_nodes P ts \<longleftrightarrow>
     distinct (keys (node2info ts)) \<and>
     (\<forall>v i. map_of (node2info ts) v = Some i \<longrightarrow>
        set (successors i) \<subseteq> set (keys (node2info ts)) \<and>
        P v (npredecessors i) (pending ts v))"

text \<open>\<open>extra\<close> counts the decrements of \<open>done\<close> that are still to come; outside \<open>done\<close> it is empty.\<close>

definition wf_core :: "'n list \<Rightarrow> 'n sorter \<Rightarrow> bool" where
  "wf_core extra ts = wf_nodes (\<lambda>v st n. waits_for st (n + count_list extra v)) ts"

definition counters_ok :: "'n sorter \<Rightarrow> bool" where
  "counters_ok ts \<longleftrightarrow> nfinished ts = int (count_status ts NODE_DONE) \<and>
     npassedout ts = int (count_status ts NODE_OUT + count_status ts NODE_DONE)"

definition ready_ok :: "'n sorter \<Rightarrow> bool" where
  "ready_ok ts \<longleftrightarrow>
     distinct (ready_nodes ts) \<and> set (ready_nodes ts) = {v. status ts v = Some 0}"

definition wf_sorter :: "'n sorter \<Rightarrow> bool" where
  "wf_sorter ts \<longleftrightarrow>
     wf_core [] ts \<and> counters_ok ts \<and> (\<not> needs_prepare ts \<longrightarrow> ready_ok ts)"

named_theorems sorter_simps

declare dict_simps [sorter_simps]

lemma NODE_consts [simp]:
  "NODE_OUT \<noteq> NODE_DONE" "NODE_DONE \<noteq> NODE_OUT" "NODE_OUT \<noteq> 0" "NODE_DONE \<noteq> 0"
  "NODE_OUT \<noteq> int n" "NODE_DONE \<noteq> int n" "int n \<noteq> NODE_OUT" "int n \<noteq> NODE_DONE"
  by (auto simp: NODE_OUT_def NODE_DONE_def)

lemma set_info_simps [sorter_simps]:
  "node2info (set_info v i ts) = AList.update v i (node2info ts)"
  "ready_nodes (set_info v i ts) = ready_nodes ts"
  "npassedout (set_info v i ts) = npassedout ts"
  "nfinished (set_info v i ts) = nfinished ts"
  "needs_prepare (set_info v i ts) = needs_prepare ts"
  by (simp_all add: set_info_def)

lemma views_cong:
  assumes "node2info ts' = node2info ts"
  shows "status ts' v = status ts v" "succs ts' v = succs ts v"
    "pending ts' v = pending ts v" "count_status ts' k = count_status ts k"
    "wf_core ex ts' = wf_core ex ts"
  using assms by (simp_all add: status_def succs_def pending_def count_status_def
      wf_core_def wf_nodes_def)

lemma status_set_info [sorter_simps]:
  "status (set_info v i ts) w = (if w = v then Some (npredecessors i) else status ts w)"
  by (simp add: status_def sorter_simps)

lemma succs_set_info [sorter_simps]:
  "succs (set_info v i ts) w = (if w = v then successors i else succs ts w)"
  by (simp add: succs_def sorter_simps)

lemma pending_set_info:
  assumes "distinct (keys (node2info ts))" and "map_of (node2info ts) u = Some i"
  shows "pending (set_info u j ts) v + edge_weight v (u, i) = pending ts v + edge_weight v (u, j)"
  using sum_list_update [OF assms] by (simp add: pending_def sorter_simps)

lemma count_status_set_info:
  assumes "distinct (keys (node2info ts))" and "map_of (node2info ts) u = Some i"
  shows "count_status (set_info u j ts) k + status_weight k (u, i) =
    count_status ts k + status_weight k (u, j)"
  using sum_list_update [OF assms] by (simp add: count_status_def sorter_simps)

lemma fresh_set_info:
  assumes "map_of (node2info ts) u = None"
  shows "pending (set_info u j ts) v = pending ts v + edge_weight v (u, j)"
    "count_status (set_info u j ts) k = count_status ts k + status_weight k (u, j)"
  using assms by (simp_all add: pending_def count_status_def set_info_def update_fresh)

lemma pending_zero_iff:
  assumes "distinct (keys (node2info ts))"
  shows "pending ts v = 0 \<longleftrightarrow> (\<forall>u. v \<in> set (succs ts u) \<longrightarrow> status ts u = Some NODE_DONE)"
proof -
  have "pending ts v = 0 \<longleftrightarrow> (\<forall>(u, i) \<in> set (node2info ts). edge_weight v (u, i) = 0)"
    by (auto simp: pending_def)
  also have "\<dots> \<longleftrightarrow> (\<forall>u i. map_of (node2info ts) u = Some i \<longrightarrow> edge_weight v (u, i) = 0)"
    using assms by auto
  also have "\<dots> \<longleftrightarrow> (\<forall>u. v \<in> set (succs ts u) \<longrightarrow> status ts u = Some NODE_DONE)"
  proof (rule all_cong1)
    fix u
    show "(\<forall>i. map_of (node2info ts) u = Some i \<longrightarrow> edge_weight v (u, i) = 0) \<longleftrightarrow>
        (v \<in> set (succs ts u) \<longrightarrow> status ts u = Some NODE_DONE)"
      by (cases "map_of (node2info ts) u")
        (auto simp: edge_weight_def status_def succs_def count_list_0_iff)
  qed
  finally show ?thesis .
qed

lemma count_status_zero_iff:
  assumes "distinct (keys (node2info ts))"
  shows "count_status ts k = 0 \<longleftrightarrow> (\<forall>v. status ts v \<noteq> Some k)"
proof -
  have "count_status ts k = 0 \<longleftrightarrow> (\<forall>(u, i) \<in> set (node2info ts). status_weight k (u, i) = 0)"
    by (auto simp: count_status_def)
  also have "\<dots> \<longleftrightarrow> (\<forall>u i. map_of (node2info ts) u = Some i \<longrightarrow> status_weight k (u, i) = 0)"
    using assms by auto
  also have "\<dots> \<longleftrightarrow> (\<forall>v. status ts v \<noteq> Some k)"
    by (auto simp: status_weight_def status_def split: if_splits)
  finally show ?thesis .
qed

lemma wf_nodesD:
  assumes "wf_nodes P ts"
  shows "distinct (keys (node2info ts))"
    "map_of (node2info ts) v = Some i \<Longrightarrow> set (successors i) \<subseteq> set (keys (node2info ts))"
    "map_of (node2info ts) v = Some i \<Longrightarrow> P v (npredecessors i) (pending ts v)"
  using assms by (auto simp: wf_nodes_def simp del: set_map)

lemma wf_core_distinct: "wf_core ex ts \<Longrightarrow> distinct (keys (node2info ts))"
  by (simp add: wf_core_def wf_nodes_def)

lemma wf_core_waits:
  "wf_core ex ts \<Longrightarrow> map_of (node2info ts) v = Some i \<Longrightarrow>
     waits_for (npredecessors i) (pending ts v + count_list ex v)"
  by (simp add: wf_core_def wf_nodes_def)

lemma wf_core_succs:
  "wf_core ex ts \<Longrightarrow> map_of (node2info ts) v = Some i \<Longrightarrow>
     set (successors i) \<subseteq> set (keys (node2info ts))"
  by (simp add: wf_core_def wf_nodes_def)

section \<open>Every operation keeps the invariant\<close>

lemma waits_for_pos: "waits_for st (Suc n) \<Longrightarrow> st = int (Suc n)"
  by (simp add: waits_for_def)

lemma waits_for_zero: "waits_for 0 n \<Longrightarrow> n = 0"
  by (auto simp: waits_for_def NODE_OUT_def NODE_DONE_def)

lemma wf_empty_sorter: "wf_sorter empty_sorter"
  by (simp add: wf_sorter_def wf_core_def wf_nodes_def counters_ok_def empty_sorter_def
      count_status_def)

lemma wf_nodes_set_info:
  assumes "wf_nodes P ts" and "map_of (node2info ts) v = Some i"
    and "set (successors j) \<subseteq> set (keys (node2info ts))"
    and "Q v (npredecessors j) (pending (set_info v j ts) v)"
    and "\<And>u k. u \<noteq> v \<Longrightarrow> map_of (node2info ts) u = Some k \<Longrightarrow>
      Q u (npredecessors k) (pending (set_info v j ts) u)"
  shows "wf_nodes Q (set_info v j ts)"
proof -
  have "set (keys (node2info (set_info v j ts))) = set (keys (node2info ts))"
    using map_of_Some_keys [OF assms(2)] by (auto simp: sorter_simps simp del: set_map)
  moreover have "distinct (keys (node2info (set_info v j ts)))"
    using wf_nodesD(1) [OF assms(1)] by (simp add: sorter_simps)
  ultimately show ?thesis
    using assms wf_nodesD(2) [OF assms(1)]
    by (auto simp: wf_nodes_def sorter_simps simp del: set_map split: if_splits)
qed

lemmas wf_core_set_info = wf_nodes_set_info
  [where P = "\<lambda>v st n. waits_for st (n + count_list ex v)"
     and Q = "\<lambda>v st n. waits_for st (n + count_list ex' v)" for ex ex', folded wf_core_def]

lemma keys_set_info_old:
  "map_of (node2info ts) v = Some i \<Longrightarrow>
     set (keys (node2info (set_info v j ts))) = set (keys (node2info ts))"
  using map_of_Some_keys [of "node2info ts" v i] by (auto simp: sorter_simps simp del: set_map)

lemma succs_set_info_same:
  "map_of (node2info ts) v = Some i \<Longrightarrow> successors j = successors i \<Longrightarrow>
     succs (set_info v j ts) u = succs ts u"
  by (simp add: succs_set_info) (simp add: succs_def)

subsection \<open>prepare\<close>

lemma ready_list_ok:
  assumes "distinct (keys d)"
  shows "distinct [v. (v, i) \<leftarrow> d, npredecessors i = 0]"
    "set [v. (v, i) \<leftarrow> d, npredecessors i = 0] =
       {v. map_option npredecessors (map_of d v) = Some 0}"
proof -
  have "distinct [v. (v, i) \<leftarrow> d, npredecessors i = 0] \<and>
      set [v. (v, i) \<leftarrow> d, npredecessors i = 0] =
        {v. map_option npredecessors (map_of d v) = Some 0}"
    using assms
  proof (induction d)
    case (Cons p d)
    obtain v i where p: "p = (v, i)" by (cases p)
    with Cons.prems have "map_of d v = None"
      by (simp add: map_of_None_keys del: map_of_eq_None_iff)
    with Cons p show ?case by auto
  qed simp
  then show "distinct [v. (v, i) \<leftarrow> d, npredecessors i = 0]"
    "set [v. (v, i) \<leftarrow> d, npredecessors i = 0] =
       {v. map_option npredecessors (map_of d v) = Some 0}"
    by blast+
qed

lemma node2info_prepare [simp]: "node2info (prepare ts) = node2info ts"
  by (simp add: prepare_def)

lemma needs_prepare_prepare [simp]: "\<not> needs_prepare (prepare ts)"
  by (simp add: prepare_def)

lemma wf_prepare: "wf_sorter ts \<Longrightarrow> wf_sorter (prepare ts)"
  using ready_list_ok [of "node2info ts"]
  by (auto simp: wf_sorter_def counters_ok_def ready_ok_def prepare_def wf_core_def
      wf_nodes_def status_def pending_def count_status_def)

subsection \<open>get_ready\<close>

lemma mark_out_ok:
  assumes "wf_core [] ts" and "distinct vs" and "\<And>v. v \<in> set vs \<Longrightarrow> status ts v = Some 0"
  shows "\<exists>ts'. mark_out ts vs = Inr ts' \<and> wf_core [] ts' \<and>
    ready_nodes ts' = ready_nodes ts \<and> npassedout ts' = npassedout ts \<and>
    nfinished ts' = nfinished ts \<and> needs_prepare ts' = needs_prepare ts \<and>
    set (keys (node2info ts')) = set (keys (node2info ts)) \<and>
    (\<forall>u. succs ts' u = succs ts u) \<and>
    (\<forall>u. status ts' u = (if u \<in> set vs then Some NODE_OUT else status ts u)) \<and>
    count_status ts' NODE_OUT = count_status ts NODE_OUT + length vs \<and>
    count_status ts' NODE_DONE = count_status ts NODE_DONE"
  using assms
proof (induction vs arbitrary: ts)
  case (Cons v vs)
  from Cons.prems(3) [of v] obtain i where i: "map_of (node2info ts) v = Some i" "npredecessors i = 0"
    by (auto simp: status_def)
  define j where "j = i\<lparr>npredecessors := NODE_OUT\<rparr>"
  let ?ts = "set_info v j ts"
  have j: "npredecessors j = NODE_OUT" "successors j = successors i" by (simp_all add: j_def)
  note d = wf_core_distinct [OF Cons.prems(1)]
  have pend: "pending ?ts u = pending ts u" for u
    using pending_set_info [OF d i(1), of j u] i(2) by (simp add: edge_weight_def j)
  have cnt: "count_status ?ts NODE_OUT = count_status ts NODE_OUT + 1"
    "count_status ?ts NODE_DONE = count_status ts NODE_DONE"
    using count_status_set_info [OF d i(1), of j NODE_OUT]
      count_status_set_info [OF d i(1), of j NODE_DONE] i(2)
    by (simp_all add: status_weight_def j)
  have "pending ts v = 0"
    using wf_core_waits [OF Cons.prems(1) i(1)] i(2) by (simp add: waits_for_zero)
  then have wf: "wf_core [] ?ts"
    using wf_core_succs [OF Cons.prems(1) i(1)] wf_core_waits [OF Cons.prems(1)]
    by (intro wf_core_set_info [OF Cons.prems(1) i(1)]) (auto simp: pend j waits_for_def)
  have "\<And>w. w \<in> set vs \<Longrightarrow> status ?ts w = Some 0"
    using Cons.prems by (auto simp: sorter_simps)
  from Cons.IH [OF wf _ this] Cons.prems(2) obtain ts' where
    ts': "mark_out ?ts vs = Inr ts'" and props: "wf_core [] ts' \<and>
    ready_nodes ts' = ready_nodes ?ts \<and> npassedout ts' = npassedout ?ts \<and>
    nfinished ts' = nfinished ?ts \<and> needs_prepare ts' = needs_prepare ?ts \<and>
    set (keys (node2info ts')) = set (keys (node2info ?ts)) \<and>
    (\<forall>u. succs ts' u = succs ?ts u) \<and>
    (\<forall>u. status ts' u = (if u \<in> set vs then Some NODE_OUT else status ?ts u)) \<and>
    count_status ts' NODE_OUT = count_status ?ts NODE_OUT + length vs \<and>
    count_status ts' NODE_DONE = count_status ?ts NODE_DONE" by auto
  have "mark_out ts (v # vs) = Inr ts'" using ts' i(1) by (simp add: j_def)
  then show ?case
    using props cnt keys_set_info_old [OF i(1)] succs_set_info_same [OF i(1) j(2)]
    by (auto simp: set_info_simps(2-) status_set_info j)
qed simp

lemma get_ready_ok:
  assumes "wf_sorter ts" and "\<not> needs_prepare ts"
  shows "\<exists>ts'. get_ready ts = Inr (ready_nodes ts, ts') \<and> wf_sorter ts' \<and>
    \<not> needs_prepare ts' \<and> ready_nodes ts' = [] \<and>
    set (keys (node2info ts')) = set (keys (node2info ts)) \<and> (\<forall>u. succs ts' u = succs ts u) \<and>
    (\<forall>u. status ts' u = (if status ts u = Some 0 then Some NODE_OUT else status ts u))"
proof -
  from assms have ready: "distinct (ready_nodes ts)" "set (ready_nodes ts) = {v. status ts v = Some 0}"
    and core: "wf_core [] ts" by (auto simp: wf_sorter_def ready_ok_def)
  from mark_out_ok [OF core ready(1)] ready(2) obtain ts1 where
    ts1: "mark_out ts (ready_nodes ts) = Inr ts1" and props: "wf_core [] ts1 \<and>
    ready_nodes ts1 = ready_nodes ts \<and> npassedout ts1 = npassedout ts \<and>
    nfinished ts1 = nfinished ts \<and> needs_prepare ts1 = needs_prepare ts \<and>
    set (keys (node2info ts1)) = set (keys (node2info ts)) \<and>
    (\<forall>u. succs ts1 u = succs ts u) \<and>
    (\<forall>u. status ts1 u = (if u \<in> set (ready_nodes ts) then Some NODE_OUT else status ts u)) \<and>
    count_status ts1 NODE_OUT = count_status ts NODE_OUT + length (ready_nodes ts) \<and>
    count_status ts1 NODE_DONE = count_status ts NODE_DONE" by auto
  define ts2 where "ts2 = ts1\<lparr>ready_nodes := [],
    npassedout := npassedout ts1 + int (length (ready_nodes ts))\<rparr>"
  have n2i: "node2info ts2 = node2info ts1" by (simp add: ts2_def)
  note cong = views_cong [OF n2i]
  have "get_ready ts = Inr (ready_nodes ts, ts2)"
    using assms(2) ts1 by (simp add: get_ready_def ts2_def)
  moreover have "wf_sorter ts2"
    using props assms ready(2)
    by (auto simp: wf_sorter_def counters_ok_def ready_ok_def cong) (auto simp: ts2_def)
  ultimately show ?thesis
    using props assms ready(2) n2i by (auto simp: cong) (auto simp: ts2_def)
qed

subsection \<open>done\<close>

text \<open>
  \<open>release\<close> applies one decrement per outgoing edge; the edges still to be applied are the
  \<open>extra\<close> argument of the invariant.
\<close>

lemma release_ok:
  assumes "wf_core ss ts" and "ready_ok ts" and "set ss \<subseteq> set (keys (node2info ts))"
  shows "\<exists>ts'. release ts ss = Inr ts' \<and> wf_core [] ts' \<and> ready_ok ts' \<and>
    npassedout ts' = npassedout ts \<and> nfinished ts' = nfinished ts \<and>
    needs_prepare ts' = needs_prepare ts \<and>
    set (keys (node2info ts')) = set (keys (node2info ts)) \<and>
    (\<forall>u. succs ts' u = succs ts u) \<and>
    (\<forall>u k. k < 0 \<longrightarrow> status ts' u = Some k \<longleftrightarrow> status ts u = Some k) \<and>
    (\<forall>k. k < 0 \<longrightarrow> count_status ts' k = count_status ts k)"
  using assms
proof (induction ss arbitrary: ts)
  case (Cons s ss)
  from Cons.prems(3) obtain i where i: "map_of (node2info ts) s = Some i"
    using keys_map_of [of s "node2info ts"] by auto
  define n where "n = npredecessors i - 1"
  define j where "j = i\<lparr>npredecessors := n\<rparr>"
  define ts1 where "ts1 = set_info s j ts"
  define ts2 where "ts2 = (if n = 0 then ts1\<lparr>ready_nodes := ready_nodes ts1 @ [s]\<rparr> else ts1)"
  have j: "npredecessors j = n" "successors j = successors i" by (simp_all add: j_def)
  note d = wf_core_distinct [OF Cons.prems(1)]
  have old: "npredecessors i = int (Suc (pending ts s + count_list ss s))"
    using wf_core_waits [OF Cons.prems(1) i] by (intro waits_for_pos) simp
  then have n: "n = int (pending ts s + count_list ss s)" by (simp add: n_def)
  have notdone: "npredecessors i \<noteq> NODE_DONE" "npredecessors i \<noteq> 0" "n \<noteq> NODE_DONE"
    unfolding old n by (simp_all del: of_nat_Suc of_nat_add)
  have pend: "pending ts1 u = pending ts u" for u
    using pending_set_info [OF d i, of j u] notdone
    by (simp add: edge_weight_def j ts1_def)
  have cnt: "count_status ts1 k = count_status ts k" if "k < 0" for k
    using count_status_set_info [OF d i, of j k] that n old
    by (simp add: status_weight_def j ts1_def split: if_splits)
  have others: "waits_for (npredecessors k) (pending ts1 u + count_list ss u)"
    if "u \<noteq> s" "map_of (node2info ts) u = Some k" for u k
    using wf_core_waits [OF Cons.prems(1) that(2)] that(1) by (simp add: pend)
  have "waits_for n (pending ts1 s + count_list ss s)" by (simp add: waits_for_def pend n)
  then have "wf_core ss ts1"
    unfolding ts1_def using wf_core_succs [OF Cons.prems(1) i] others
    by (intro wf_core_set_info [OF Cons.prems(1) i]) (simp_all add: j ts1_def)
  have n2i: "node2info ts2 = node2info ts1" by (simp add: ts2_def)
  note cong = views_cong [OF n2i]
  have keys1: "set (keys (node2info ts1)) = set (keys (node2info ts))"
    using keys_set_info_old [OF i] by (simp add: ts1_def)
  have st: "status ts s = Some (npredecessors i)" using i by (simp add: status_def)
  have st2: "status ts2 u = (if u = s then Some n else status ts u)" for u
    by (simp add: cong ts1_def status_set_info j)
  have rn2: "ready_nodes ts2 = ready_nodes ts @ (if n = 0 then [s] else [])"
    by (simp add: ts2_def ts1_def set_info_simps)
  have ready: "distinct (ready_nodes ts)" "set (ready_nodes ts) = {v. status ts v = Some 0}"
    using Cons.prems(2) by (simp_all add: ready_ok_def)
  have "s \<notin> set (ready_nodes ts)" using ready(2) st notdone(2) by simp
  then have "ready_ok ts2" using ready by (auto simp: ready_ok_def rn2 st2)
  moreover have "wf_core ss ts2" using \<open>wf_core ss ts1\<close> by (simp add: cong)
  ultimately obtain ts' where ts': "release ts2 ss = Inr ts'" "wf_core [] ts' \<and> ready_ok ts' \<and>
    npassedout ts' = npassedout ts2 \<and> nfinished ts' = nfinished ts2 \<and>
    needs_prepare ts' = needs_prepare ts2 \<and>
    set (keys (node2info ts')) = set (keys (node2info ts2)) \<and>
    (\<forall>u. succs ts' u = succs ts2 u) \<and>
    (\<forall>u k. k < 0 \<longrightarrow> status ts' u = Some k \<longleftrightarrow> status ts2 u = Some k) \<and>
    (\<forall>k. k < 0 \<longrightarrow> count_status ts' k = count_status ts2 k)"
    using Cons.IH [of ts2] Cons.prems(3) keys1 n2i by auto
  have "release ts (s # ss) = release ts2 ss"
    by (simp only: release.simps i option.case Let_def ts2_def ts1_def j_def n_def)
  then have "release ts (s # ss) = Inr ts'" using ts'(1) by simp
  moreover have "npassedout ts2 = npassedout ts" "nfinished ts2 = nfinished ts"
    "needs_prepare ts2 = needs_prepare ts"
    by (simp_all add: ts2_def ts1_def set_info_simps)
  moreover have "succs ts1 u = succs ts u" for u
    using succs_set_info_same [OF i(1) j(2)] by (simp add: ts1_def)
  moreover have "(status ts1 u = Some k) = (status ts u = Some k)" if "k < 0" for u k
    using that st n old by (auto simp: ts1_def status_set_info j)
  ultimately show ?case
    using ts'(2) keys1 cnt n2i by (auto simp: cong)
qed simp

lemma done_one_ok:
  assumes "wf_sorter ts" and "\<not> needs_prepare ts" and "status ts v = Some NODE_OUT"
  shows "\<exists>ts'. done_one ts v = Inr ts' \<and> wf_sorter ts' \<and> \<not> needs_prepare ts' \<and>
    set (keys (node2info ts')) = set (keys (node2info ts)) \<and>
    (\<forall>u. succs ts' u = succs ts u) \<and>
    (\<forall>u. status ts' u = Some NODE_DONE \<longleftrightarrow> status ts u = Some NODE_DONE \<or> u = v) \<and>
    (\<forall>u. status ts' u = Some NODE_OUT \<longleftrightarrow> status ts u = Some NODE_OUT \<and> u \<noteq> v)"
proof -
  from assms have core: "wf_core [] ts" and ready: "ready_ok ts" and cok: "counters_ok ts"
    by (auto simp: wf_sorter_def)
  from assms(3) obtain i where i: "map_of (node2info ts) v = Some i" "npredecessors i = NODE_OUT"
    by (auto simp: status_def)
  define j where "j = i\<lparr>npredecessors := NODE_DONE\<rparr>"
  have j: "npredecessors j = NODE_DONE" "successors j = successors i" by (simp_all add: j_def)
  define ts1 where "ts1 = set_info v j ts"
  note d = wf_core_distinct [OF core]
  have pend: "pending ts1 u + count_list (successors i) u = pending ts u" for u
    using pending_set_info [OF d i(1), of j u] i(2) by (simp add: edge_weight_def j ts1_def)
  have cnt: "count_status ts1 NODE_DONE = count_status ts NODE_DONE + 1"
    "count_status ts1 NODE_OUT + 1 = count_status ts NODE_OUT"
    using count_status_set_info [OF d i(1), of j NODE_OUT]
      count_status_set_info [OF d i(1), of j NODE_DONE] i(2)
    by (simp_all add: status_weight_def j ts1_def)
  have "pending ts v = 0"
    using wf_core_waits [OF core i(1)] i(2) by (auto simp: waits_for_def)
  then have "wf_core (successors i) ts1"
    unfolding ts1_def
    using wf_core_succs [OF core i(1)] wf_core_waits [OF core] pend [of v, unfolded ts1_def]
    by (intro wf_core_set_info [OF core i(1)])
      (auto simp: pend [unfolded ts1_def] j waits_for_def)
  moreover have "ready_ok ts1"
    using ready assms(3) by (auto simp: ready_ok_def ts1_def status_set_info set_info_simps j)
  moreover have keys1: "set (keys (node2info ts1)) = set (keys (node2info ts))"
    using keys_set_info_old [OF i(1)] by (simp add: ts1_def)
  moreover have "set (successors i) \<subseteq> set (keys (node2info ts1))"
    using wf_core_succs [OF core i(1)] keys1 by simp
  ultimately obtain ts2 where ts2: "release ts1 (successors i) = Inr ts2" "wf_core [] ts2"
    "ready_ok ts2" "npassedout ts2 = npassedout ts1" "nfinished ts2 = nfinished ts1"
    "needs_prepare ts2 = needs_prepare ts1"
    "set (keys (node2info ts2)) = set (keys (node2info ts1))" "\<forall>u. succs ts2 u = succs ts1 u"
    "\<forall>u k. k < 0 \<longrightarrow> (status ts2 u = Some k \<longleftrightarrow> status ts1 u = Some k)"
    "\<forall>k. k < 0 \<longrightarrow> count_status ts2 k = count_status ts1 k"
    using release_ok [of "successors i" ts1] by blast
  define ts3 where "ts3 = ts2\<lparr>nfinished := nfinished ts2 + 1\<rparr>"
  have n2i: "node2info ts3 = node2info ts2" by (simp add: ts3_def)
  note cong = views_cong [OF n2i]
  have neg: "NODE_DONE < 0" "NODE_OUT < 0" by (simp_all add: NODE_DONE_def NODE_OUT_def)
  have "done_one ts v = Inr ts3"
    using i ts2(1) by (simp add: done_one_def ts3_def ts1_def j_def)
  moreover have "wf_sorter ts3"
    using ts2 cnt cok neg
    by (auto simp: wf_sorter_def counters_ok_def ready_ok_def cong)
      (auto simp: ts3_def ts1_def set_info_simps)
  moreover have "\<not> needs_prepare ts3" using ts2 assms(2) by (simp add: ts3_def ts1_def set_info_simps)
  moreover have "succs ts1 u = succs ts u" for u
    using succs_set_info_same [OF i(1) j(2)] by (simp add: ts1_def)
  ultimately show ?thesis
    using ts2(7-9) keys1 neg assms(3) n2i
    by (auto simp: cong ts1_def status_set_info j split: if_splits)
qed

lemma done_loop_ok:
  assumes "wf_sorter ts" and "\<not> needs_prepare ts" and "distinct vs"
    and "\<And>v. v \<in> set vs \<Longrightarrow> status ts v = Some NODE_OUT"
  shows "\<exists>ts'. done_loop ts vs = Inr ts' \<and> wf_sorter ts' \<and> \<not> needs_prepare ts' \<and>
    set (keys (node2info ts')) = set (keys (node2info ts)) \<and>
    (\<forall>u. succs ts' u = succs ts u) \<and>
    (\<forall>u. status ts' u = Some NODE_DONE \<longleftrightarrow> status ts u = Some NODE_DONE \<or> u \<in> set vs) \<and>
    (\<forall>u. status ts' u = Some NODE_OUT \<longleftrightarrow> status ts u = Some NODE_OUT \<and> u \<notin> set vs)"
  using assms
proof (induction vs arbitrary: ts)
  case (Cons v vs)
  from done_one_ok [OF Cons.prems(1,2)] Cons.prems(4) obtain ts1 where
    ts1: "done_one ts v = Inr ts1" "wf_sorter ts1" "\<not> needs_prepare ts1" and
    eff: "set (keys (node2info ts1)) = set (keys (node2info ts))" "\<forall>u. succs ts1 u = succs ts u"
    "\<forall>u. status ts1 u = Some NODE_DONE \<longleftrightarrow> status ts u = Some NODE_DONE \<or> u = v"
    "\<forall>u. status ts1 u = Some NODE_OUT \<longleftrightarrow> status ts u = Some NODE_OUT \<and> u \<noteq> v"
    by force
  have "status ts1 w = Some NODE_OUT" if "w \<in> set vs" for w
    using that Cons.prems(3,4) eff(4) by auto
  from Cons.IH [OF ts1(2,3) _ this] Cons.prems(3) ts1(1) eff show ?case by auto
qed simp

subsection \<open>add\<close>

text \<open>
  While the edges of a new node \<open>v\<close> are being recorded its counter is still 0; the number of
  edges recorded so far is the loop's \<open>num_new_predecessors\<close>.
\<close>

definition adding_ok :: "'n \<Rightarrow> int \<Rightarrow> 'n \<Rightarrow> int \<Rightarrow> nat \<Rightarrow> bool" where
  "adding_ok v n u st k \<longleftrightarrow> (if u = v then st = 0 \<and> n = int k else waits_for st k)"

definition wf_adding :: "'n \<Rightarrow> int \<Rightarrow> 'n sorter \<Rightarrow> bool" where
  "wf_adding v n ts \<longleftrightarrow> v \<in> set (keys (node2info ts)) \<and> wf_nodes (adding_ok v n) ts"

definition same_counters :: "'n sorter \<Rightarrow> 'n sorter \<Rightarrow> bool" where
  "same_counters ts ts' \<longleftrightarrow> nfinished ts' = nfinished ts \<and> npassedout ts' = npassedout ts \<and>
     (\<forall>k < 0. count_status ts' k = count_status ts k)"

lemma pending_unknown:
  assumes "wf_nodes P ts" and "map_of (node2info ts) p = None"
  shows "pending ts p = 0"
  unfolding pending_zero_iff [OF wf_nodesD(1) [OF assms(1)]]
proof (intro allI impI)
  fix u assume "p \<in> set (succs ts u)"
  then obtain i where "map_of (node2info ts) u = Some i" "p \<in> set (successors i)"
    by (cases "map_of (node2info ts) u") (simp_all add: succs_def)
  with wf_nodesD(2) [OF assms(1)] have "p \<in> set (keys (node2info ts))" by blast
  with assms(2) show "status ts u = Some NODE_DONE"
    by (simp add: map_of_None_keys del: set_map)
qed

lemma new_info_weight [simp]:
  "edge_weight w (p, new_node_info) = 0"
  "k < 0 \<Longrightarrow> status_weight k (p, new_node_info) = 0"
  by (simp_all add: edge_weight_def new_node_info_def status_weight_def)

lemma get_nodeinfo_fresh:
  assumes "map_of (node2info ts) p = None"
  shows "get_nodeinfo ts p = (new_node_info, set_info p new_node_info ts)"
    "pending (set_info p new_node_info ts) w = pending ts w"
    "same_counters ts (set_info p new_node_info ts)"
  using assms
  by (simp_all add: get_nodeinfo_def same_counters_def fresh_set_info set_info_simps)

lemma wf_nodes_fresh:
  assumes "wf_nodes P ts" and "map_of (node2info ts) p = None" and "P p 0 0"
  shows "wf_nodes P (set_info p new_node_info ts)"
  using assms(1,3) pending_unknown [OF assms(1,2)] get_nodeinfo_fresh(2) [OF assms(2)]
    wf_nodesD(2) [OF assms(1)]
  by (auto simp: wf_nodes_def sorter_simps simp del: set_map split: if_splits)
    (auto simp: new_node_info_def)

lemma wf_nodes_mono:
  assumes "wf_nodes P ts"
    and "\<And>u i. map_of (node2info ts) u = Some i \<Longrightarrow> P u (npredecessors i) (pending ts u) \<Longrightarrow>
      Q u (npredecessors i) (pending ts u)"
  shows "wf_nodes Q ts"
  using assms by (simp add: wf_nodes_def)

lemma get_nodeinfo_adding:
  assumes "wf_adding v n ts" and "get_nodeinfo ts p = (i, ts1)"
  shows "map_of (node2info ts1) p = Some i \<and> wf_adding v n ts1 \<and> same_counters ts ts1 \<and>
    set (keys (node2info ts1)) = insert p (set (keys (node2info ts))) \<and>
    (\<forall>u. succs ts1 u = succs ts u) \<and>
    (\<forall>u. status ts1 u = (if u = p \<and> status ts u = None then Some 0 else status ts u))"
proof (cases "map_of (node2info ts) p")
  case None
  note fresh = get_nodeinfo_fresh [OF None]
  have [simp]: "i = new_node_info" "ts1 = set_info p new_node_info ts"
    using assms(2) fresh(1) by simp_all
  have v: "v \<in> set (keys (node2info ts))" "wf_nodes (adding_ok v n) ts"
    using assms(1) by (simp_all add: wf_adding_def)
  then have "adding_ok v n p 0 0"
    using None by (auto simp: adding_ok_def waits_for_def map_of_None_keys simp del: set_map)
  then have "wf_adding v n ts1"
    using wf_nodes_fresh [OF v(2) None] v(1) by (simp add: wf_adding_def sorter_simps del: set_map)
  then show ?thesis
    using None fresh(3) set_keys_update [of p new_node_info "node2info ts"]
    by (auto simp: set_info_simps map_of_update succs_set_info status_set_info simp del: set_map)
      (simp_all add: succs_def status_def new_node_info_def)
next
  case (Some j)
  with assms(2) have "ts1 = ts" "i = j" by (simp_all add: get_nodeinfo_def)
  with Some assms(1) show ?thesis
    using map_of_Some_keys [OF Some] by (auto simp: same_counters_def status_def simp del: set_map)
qed

lemma add_edges_ok:
  assumes "wf_adding v n ts" and "add_edges ts v ps n = (ts', n')"
  shows "wf_adding v n' ts' \<and> same_counters ts ts' \<and>
    set (keys (node2info ts')) = set (keys (node2info ts)) \<union> set ps \<and>
    (\<forall>u. set (succs ts' u) = set (succs ts u) \<union>
       (if u \<in> set ps \<and> status ts u \<noteq> Some NODE_DONE then {v} else {})) \<and>
    (\<forall>u. status ts' u = (if u \<in> set ps \<and> status ts u = None then Some 0 else status ts u))"
  using assms
proof (induction ps arbitrary: ts n)
  case (Cons p ps)
  obtain i ts1 where g: "get_nodeinfo ts p = (i, ts1)" by (cases "get_nodeinfo ts p")
  from get_nodeinfo_adding [OF Cons.prems(1) g] have get: "map_of (node2info ts1) p = Some i"
    "wf_adding v n ts1" "same_counters ts ts1"
    "set (keys (node2info ts1)) = insert p (set (keys (node2info ts)))"
    "\<And>u. succs ts1 u = succs ts u"
    "\<And>u. status ts1 u = (if u = p \<and> status ts u = None then Some 0 else status ts u)"
    by blast+
  show ?case
  proof (cases "npredecessors i = NODE_DONE")
    case True
    with get(1) have "status ts1 p = Some NODE_DONE" by (simp add: status_def)
    then have "status ts p = Some NODE_DONE" using get(6) [of p] by (simp split: if_splits)
    with True Cons.IH [OF get(2)] Cons.prems(2) g get(3-6) show ?thesis
      by (auto simp: same_counters_def simp del: set_map)
  next
    case False
    define j where "j = i\<lparr>successors := successors i @ [v]\<rparr>"
    have j: "npredecessors j = npredecessors i" "successors j = successors i @ [v]"
      by (simp_all add: j_def)
    define ts2 where "ts2 = set_info p j ts1"
    note nodes = get(2) [unfolded wf_adding_def, THEN conjunct2]
    note d = wf_nodesD(1) [OF nodes]
    have pend: "pending ts2 u = pending ts1 u + (if u = v then 1 else 0)" for u
      using pending_set_info [OF d get(1), of j u] False
      by (simp add: edge_weight_def j ts2_def split: if_splits)
    have cnt: "count_status ts2 k = count_status ts1 k" for k
      using count_status_set_info [OF d get(1), of j k] by (simp add: status_weight_def j ts2_def)
    have vin: "v \<in> set (keys (node2info ts1))" using get(2) by (simp add: wf_adding_def)
    have "wf_nodes (adding_ok v (n + 1)) ts2"
      unfolding ts2_def
      using vin wf_nodesD(2,3) [OF nodes] get(1)
      by (intro wf_nodes_set_info [OF nodes get(1)])
        (auto simp: pend [unfolded ts2_def] adding_ok_def j simp del: set_map split: if_splits)
    moreover have keys2: "set (keys (node2info ts2)) = set (keys (node2info ts1))"
      using keys_set_info_old [OF get(1)] by (simp add: ts2_def)
    ultimately have wf2: "wf_adding v (n + 1) ts2" using vin by (simp add: wf_adding_def)
    have eq: "add_edges ts2 v ps (n + 1) = (ts', n')"
      using Cons.prems(2) g False by (simp add: ts2_def j_def)
    have st2: "status ts2 u = status ts1 u" for u
      using get(1) by (auto simp: ts2_def status_set_info j) (simp add: status_def)
    have sc2: "set (succs ts2 u) = set (succs ts1 u) \<union> (if u = p then {v} else {})" for u
      using get(1) by (auto simp: ts2_def succs_set_info j succs_def [of ts1 p])
    have nd: "status ts p \<noteq> Some NODE_DONE"
      using get(6) [of p] get(1) False by (auto simp: status_def split: if_splits)
    have "same_counters ts ts2"
      using get(3) cnt by (simp add: same_counters_def ts2_def set_info_simps)
    with Cons.IH [OF wf2 eq] get(4-6) keys2 nd show ?thesis
      by (auto simp: same_counters_def st2 sc2 simp del: set_map)
  qed
qed (simp add: same_counters_def)

lemma add_ok:
  assumes "wf_sorter ts" and "v \<notin> set (keys (node2info ts))"
  shows "\<exists>ts'. add ts v ps = Inr ts' \<and> wf_sorter ts' \<and> needs_prepare ts' \<and>
    set (keys (node2info ts')) = insert v (set (keys (node2info ts)) \<union> set ps) \<and>
    (\<forall>u. set (succs ts' u) = set (succs ts u) \<union>
       (if u \<in> set ps \<and> status ts u \<noteq> Some NODE_DONE then {v} else {})) \<and>
    (\<forall>u k. k < 0 \<longrightarrow> status ts' u = Some k \<longleftrightarrow> status ts u = Some k)"
proof -
  from assms(1) have core: "wf_core [] ts" and cok: "counters_ok ts"
    by (auto simp: wf_sorter_def)
  have None: "map_of (node2info ts) v = None"
    using assms(2) by (simp add: map_of_None_keys del: set_map)
  define ts1 where "ts1 = set_info v new_node_info ts"
  note fresh = get_nodeinfo_fresh [OF None, folded ts1_def]
  have "wf_core [] ts1"
    unfolding ts1_def wf_core_def
    by (rule wf_nodes_fresh [OF core [unfolded wf_core_def] None]) (simp add: waits_for_def)
  have v0: "pending ts1 v = 0"
    using pending_unknown [OF core [unfolded wf_core_def] None] fresh(2) by simp
  have new: "map_of (node2info ts1) v = Some new_node_info" by (simp add: ts1_def sorter_simps)
  have "wf_nodes (adding_ok v 0) ts1"
    by (rule wf_nodes_mono [OF \<open>wf_core [] ts1\<close> [unfolded wf_core_def]])
      (use new v0 in \<open>auto simp: adding_ok_def new_node_info_def\<close>)
  then have "wf_adding v 0 ts1"
    using map_of_Some_keys [OF new] by (simp add: wf_adding_def del: set_map)
  obtain ts2 n where e: "add_edges ts1 v ps 0 = (ts2, n)" by (cases "add_edges ts1 v ps 0")
  from add_edges_ok [OF \<open>wf_adding v 0 ts1\<close> e] have
    wf2: "wf_adding v n ts2" and sc2: "same_counters ts1 ts2" and
    keys2: "set (keys (node2info ts2)) = set (keys (node2info ts1)) \<union> set ps" and
    succ2: "\<forall>u. set (succs ts2 u) = set (succs ts1 u) \<union>
       (if u \<in> set ps \<and> status ts1 u \<noteq> Some NODE_DONE then {v} else {})" and
    st2: "\<forall>u. status ts2 u = (if u \<in> set ps \<and> status ts1 u = None then Some 0 else status ts1 u)"
    by blast+
  have "v \<in> set (keys (node2info ts2))" using wf2 by (simp add: wf_adding_def)
  then obtain i where i: "map_of (node2info ts2) v = Some i" using keys_map_of by metis
  note nodes = wf2 [unfolded wf_adding_def, THEN conjunct2]
  have i0: "npredecessors i = 0" "n = int (pending ts2 v)"
    using wf_nodesD(3) [OF nodes i] by (simp_all add: adding_ok_def)
  define j where "j = i\<lparr>npredecessors := npredecessors i + n\<rparr>"
  have j: "npredecessors j = n" "successors j = successors i" using i0 by (simp_all add: j_def)
  define ts3 where "ts3 = set_info v j ts2"
  define ts4 where "ts4 = ts3\<lparr>needs_prepare := True\<rparr>"
  note d = wf_nodesD(1) [OF nodes]
  have pend: "pending ts3 u = pending ts2 u" for u
    using pending_set_info [OF d i, of j u] i0 by (simp add: edge_weight_def j ts3_def)
  have cnt: "count_status ts3 k = count_status ts2 k" if "k < 0" for k
    using count_status_set_info [OF d i, of j k] i0 that
    by (simp add: status_weight_def j ts3_def split: if_splits)
  have others: "waits_for (npredecessors k) (pending ts3 u)"
    if "u \<noteq> v" "map_of (node2info ts2) u = Some k" for u k
    using wf_nodesD(3) [OF nodes that(2)] that(1) by (simp add: pend adding_ok_def)
  have "waits_for n (pending ts3 v)" by (simp add: waits_for_def pend i0)
  then have "wf_core [] ts3"
    unfolding wf_core_def ts3_def using wf_nodesD(2) [OF nodes i] others
    by (intro wf_nodes_set_info [OF nodes i]) (simp_all add: j ts3_def)
  moreover have n2i: "node2info ts4 = node2info ts3" by (simp add: ts4_def)
  note cong = views_cong [OF n2i]
  have neg: "NODE_DONE < 0" "NODE_OUT < 0" by (simp_all add: NODE_DONE_def NODE_OUT_def)
  have "same_counters ts ts3"
    using fresh(3) sc2 cnt by (simp add: same_counters_def ts3_def set_info_simps)
  ultimately have "wf_sorter ts4"
    using cok neg
    by (simp add: wf_sorter_def counters_ok_def cong same_counters_def) (simp add: ts4_def)
  moreover have "add ts v ps = Inr ts4"
    using assms(2) fresh(1) e i
    by (simp add: add_def already_added_def get_nodeinfo_def ts4_def ts3_def j_def ts1_def
        del: set_map)
  moreover have "set (keys (node2info ts4)) = insert v (set (keys (node2info ts)) \<union> set ps)"
    using keys2 keys_set_info_old [OF i] n2i
    by (simp add: ts3_def ts1_def sorter_simps del: set_map)
  moreover have "needs_prepare ts4" by (simp add: ts4_def)
  moreover have st1: "status ts1 u = (if u = v then Some 0 else status ts u)" for u
    by (simp add: ts1_def status_set_info new_node_info_def)
  have "succs ts1 u = succs ts u" for u
    using None by (simp add: ts1_def succs_set_info new_node_info_def) (simp add: succs_def)
  moreover have stv: "status ts v = None" using None by (simp add: status_def)
  ultimately have "set (succs ts4 u) = set (succs ts u) \<union>
      (if u \<in> set ps \<and> status ts u \<noteq> Some NODE_DONE then {v} else {})" for u
    using succ2 st1 succs_set_info_same [OF i j(2), folded ts3_def] by (auto simp: cong)
  moreover have "status ts4 u = Some k \<longleftrightarrow> status ts u = Some k" if "k < 0" for u k
    using st1 st2 stv i0(2) that by (auto simp: cong ts3_def status_set_info j)
  ultimately show ?thesis
    using \<open>add ts v ps = Inr ts4\<close> \<open>wf_sorter ts4\<close> \<open>needs_prepare ts4\<close>
      \<open>set (keys (node2info ts4)) = insert v (set (keys (node2info ts)) \<union> set ps)\<close> by blast
qed

lemma add_dup: "v \<in> set (keys (node2info ts)) \<Longrightarrow>
    add ts v ps = Inl (ValueError ''Cannot add the same node more than once'')"
  by (simp add: add_def already_added_def)

section \<open>Runs\<close>

text \<open>
  A client may interleave the operations in any order. Two ghost records describe the run:
  \<open>deps\<close> maps every node passed to \<open>add\<close> to the predecessors it was added with, and \<open>handed\<close>
  lists the nodes returned by \<open>get_ready\<close> so far, in the order they were returned.
\<close>

inductive sorter_run :: "('n \<rightharpoonup> 'n list) \<Rightarrow> 'n list \<Rightarrow> 'n sorter \<Rightarrow> bool" where
  run_start: "sorter_run Map.empty [] empty_sorter"
| run_add: "sorter_run deps handed ts \<Longrightarrow> add ts v ps = Inr ts' \<Longrightarrow>
    sorter_run (deps(v \<mapsto> ps)) handed ts'"
| run_prepare: "sorter_run deps handed ts \<Longrightarrow> sorter_run deps handed (prepare ts)"
| run_get_ready: "sorter_run deps handed ts \<Longrightarrow> get_ready ts = Inr (out, ts') \<Longrightarrow>
    sorter_run deps (handed @ out) ts'"
| run_done: "sorter_run deps handed ts \<Longrightarrow> done_nodes ts vs = Inr ts' \<Longrightarrow>
    sorter_run deps handed ts'"

definition tracks :: "('n \<rightharpoonup> 'n list) \<Rightarrow> 'n sorter \<Rightarrow> bool" where
  "tracks deps ts \<longleftrightarrow>
     (\<forall>v ps. deps v = Some ps \<longrightarrow> v \<in> set (keys (node2info ts)) \<and>
        (\<forall>p \<in> set ps. status ts p = Some NODE_DONE \<or> v \<in> set (succs ts p))) \<and>
     (\<forall>u v. v \<in> set (succs ts u) \<longrightarrow> (\<exists>ps. deps v = Some ps \<and> u \<in> set ps))"

definition dep_edges :: "('n \<rightharpoonup> 'n list) \<Rightarrow> ('n \<times> 'n) set" where
  "dep_edges deps = {(p, v). \<exists>ps. deps v = Some ps \<and> p \<in> set ps}"

lemma done_one_out:
  assumes "done_one ts v = Inr ts'"
  shows "status ts v = Some NODE_OUT"
  using assms by (auto simp: done_one_def status_def split: option.splits if_splits)

lemma done_loop_run:
  assumes "wf_sorter ts" and "\<not> needs_prepare ts" and "done_loop ts vs = Inr ts'"
  shows "wf_sorter ts' \<and> \<not> needs_prepare ts' \<and>
    set (keys (node2info ts')) = set (keys (node2info ts)) \<and>
    (\<forall>u. succs ts' u = succs ts u) \<and> distinct vs \<and>
    (\<forall>u. status ts' u = Some NODE_DONE \<longleftrightarrow> status ts u = Some NODE_DONE \<or> u \<in> set vs) \<and>
    (\<forall>u. status ts' u = Some NODE_OUT \<longleftrightarrow> status ts u = Some NODE_OUT \<and> u \<notin> set vs) \<and>
    (\<forall>v \<in> set vs. status ts v = Some NODE_OUT)"
  using assms
proof (induction vs arbitrary: ts)
  case (Cons v vs)
  from Cons.prems(3) obtain ts1 where ts1: "done_one ts v = Inr ts1" "done_loop ts1 vs = Inr ts'"
    by (auto simp: bindR_Inr_conv)
  from done_one_ok [OF Cons.prems(1,2) done_one_out [OF ts1(1)]] ts1(1) have
    "wf_sorter ts1" "\<not> needs_prepare ts1" and
    eff: "set (keys (node2info ts1)) = set (keys (node2info ts))" "\<forall>u. succs ts1 u = succs ts u"
    "\<forall>u. status ts1 u = Some NODE_DONE \<longleftrightarrow> status ts u = Some NODE_DONE \<or> u = v"
    "\<forall>u. status ts1 u = Some NODE_OUT \<longleftrightarrow> status ts u = Some NODE_OUT \<and> u \<noteq> v"
    by auto
  with Cons.IH [OF _ _ ts1(2)] done_one_out [OF ts1(1)] show ?case by auto
qed simp

lemma tracks_mono:
  assumes "tracks deps ts" and "set (keys (node2info ts)) \<subseteq> set (keys (node2info ts'))"
    and "\<And>u. succs ts' u = succs ts u"
    and "\<And>u. status ts u = Some NODE_DONE \<Longrightarrow> status ts' u = Some NODE_DONE"
  shows "tracks deps ts'"
proof -
  have "status ts' p = Some NODE_DONE \<or> v \<in> set (succs ts' p)"
    if "status ts p = Some NODE_DONE \<or> v \<in> set (succs ts p)" for p v
    using that assms(3,4) by auto
  with assms(1,2) show ?thesis unfolding tracks_def assms(3) by blast
qed

lemma tracks_add:
  assumes "tracks deps ts" and "v \<notin> set (keys (node2info ts))"
    and keys: "set (keys (node2info ts')) = insert v (set (keys (node2info ts)) \<union> set ps)"
    and succ: "\<forall>u. set (succs ts' u) = set (succs ts u) \<union>
       (if u \<in> set ps \<and> status ts u \<noteq> Some NODE_DONE then {v} else {})"
    and dn: "\<And>u. status ts' u = Some NODE_DONE \<longleftrightarrow> status ts u = Some NODE_DONE"
  shows "tracks (deps(v \<mapsto> ps)) ts'"
proof -
  from assms(1) have old1: "\<And>w qs. deps w = Some qs \<Longrightarrow> w \<in> set (keys (node2info ts)) \<and>
        (\<forall>p \<in> set qs. status ts p = Some NODE_DONE \<or> w \<in> set (succs ts p))"
    and old2: "\<And>u w. w \<in> set (succs ts u) \<Longrightarrow> \<exists>qs. deps w = Some qs \<and> u \<in> set qs"
    by (simp_all add: tracks_def)
  show ?thesis
    unfolding tracks_def
  proof (intro conjI allI impI)
    fix w qs assume w: "(deps(v \<mapsto> ps)) w = Some qs"
    show "w \<in> set (keys (node2info ts'))"
      using w keys old1 [of w qs] by (auto simp del: set_map split: if_splits)
    show "\<forall>p \<in> set qs. status ts' p = Some NODE_DONE \<or> w \<in> set (succs ts' p)"
      using w succ old1 [of w qs] by (auto simp: dn simp del: set_map split: if_splits)
  next
    fix u w assume "w \<in> set (succs ts' u)"
    then have "w \<in> set (succs ts u) \<or> w = v \<and> u \<in> set ps"
      using succ by (auto split: if_splits)
    then show "\<exists>qs. (deps(v \<mapsto> ps)) w = Some qs \<and> u \<in> set qs"
      using old2 [of w u] old1 [of w] assms(2) by (auto simp del: set_map)
  qed
qed

definition handed_ok :: "('n \<rightharpoonup> 'n list) \<Rightarrow> 'n list \<Rightarrow> 'n sorter \<Rightarrow> bool" where
  "handed_ok deps handed ts \<longleftrightarrow> distinct handed \<and>
     set handed = {v. status ts v \<in> {Some NODE_OUT, Some NODE_DONE}} \<and>
     (\<forall>v ps p. v \<in> set handed \<longrightarrow> deps v = Some ps \<longrightarrow> p \<in> set ps \<longrightarrow> before handed p v)"

text \<open>A node on the ready list has only finished predecessors.\<close>

lemma ready_preds_done:
  assumes "wf_sorter ts" and "tracks deps ts" and "status ts v = Some 0"
    and "deps v = Some ps" and "p \<in> set ps"
  shows "status ts p = Some NODE_DONE"
proof -
  from assms(3) obtain i where i: "map_of (node2info ts) v = Some i" "npredecessors i = 0"
    by (auto simp: status_def)
  have core: "wf_core [] ts" using assms(1) by (simp add: wf_sorter_def)
  from wf_core_waits [OF core i(1)] i(2) have "pending ts v = 0" using waits_for_zero by simp
  with pending_zero_iff [OF wf_core_distinct [OF core]] assms(2,4,5) show ?thesis
    unfolding tracks_def by blast
qed

lemma get_ready_run:
  assumes "wf_sorter ts" and "get_ready ts = Inr (out, ts')"
  shows "\<not> needs_prepare ts \<and> distinct out \<and> set out = {v. status ts v = Some 0} \<and>
    wf_sorter ts' \<and> \<not> needs_prepare ts' \<and> set (keys (node2info ts')) = set (keys (node2info ts)) \<and>
    (\<forall>u. succs ts' u = succs ts u) \<and>
    (\<forall>u. status ts' u = (if status ts u = Some 0 then Some NODE_OUT else status ts u))"
proof -
  have np: "\<not> needs_prepare ts" using assms(2) by (auto simp: get_ready_def split: if_splits)
  then have "ready_ok ts" using assms(1) by (simp add: wf_sorter_def)
  with get_ready_ok [OF assms(1) np] assms(2) np show ?thesis by (auto simp: ready_ok_def)
qed

lemma handed_get_ready:
  assumes "wf_sorter ts" and "tracks deps ts" and "handed_ok deps handed ts"
    and "get_ready ts = Inr (out, ts')"
  shows "handed_ok deps (handed @ out) ts'"
proof -
  note gr = get_ready_run [OF assms(1,4)]
  have st: "status ts' u = (if status ts u = Some 0 then Some NODE_OUT else status ts u)" for u
    using gr by blast
  have ho: "distinct handed" "set handed = {v. status ts v \<in> {Some NODE_OUT, Some NODE_DONE}}"
    "\<And>v ps p. v \<in> set handed \<Longrightarrow> deps v = Some ps \<Longrightarrow> p \<in> set ps \<Longrightarrow> before handed p v"
    using assms(3) by (auto simp: handed_ok_def)
  have "distinct (handed @ out)" using ho(1,2) gr by auto
  moreover have "set (handed @ out) = {v. status ts' v \<in> {Some NODE_OUT, Some NODE_DONE}}"
    using ho(2) gr by (auto simp: st)
  moreover have "before (handed @ out) p v"
    if "v \<in> set (handed @ out)" "deps v = Some ps" "p \<in> set ps" for v ps p
  proof (cases "v \<in> set handed")
    case True
    show ?thesis by (rule before_append1 [OF ho(3) [OF True that(2,3)]])
  next
    case False
    with that(1) gr have v: "v \<in> set out" "status ts v = Some 0" by auto
    from ready_preds_done [OF assms(1,2) v(2) that(2,3)] ho(2) have "p \<in> set handed" by auto
    then show ?thesis using v(1) by (rule before_append2)
  qed
  ultimately show ?thesis unfolding handed_ok_def by blast
qed

lemma sorter_run_inv:
  "sorter_run deps handed ts \<Longrightarrow> wf_sorter ts \<and> tracks deps ts \<and> handed_ok deps handed ts"
proof (induction rule: sorter_run.induct)
  case run_start
  show ?case by (simp add: wf_empty_sorter tracks_def handed_ok_def)
    (simp add: succs_def status_def empty_sorter_def)
next
  case (run_add deps handed ts v ps ts')
  have v: "v \<notin> set (keys (node2info ts))"
    using add_dup [of v ts ps] run_add.hyps(2) by (auto simp del: set_map)
  with run_add add_ok [of ts v ps] have eff: "wf_sorter ts'"
    "set (keys (node2info ts')) = insert v (set (keys (node2info ts)) \<union> set ps)"
    "\<forall>u. set (succs ts' u) = set (succs ts u) \<union>
       (if u \<in> set ps \<and> status ts u \<noteq> Some NODE_DONE then {v} else {})"
    "\<forall>u k. k < 0 \<longrightarrow> (status ts' u = Some k \<longleftrightarrow> status ts u = Some k)"
    by auto
  have "NODE_DONE < 0" "NODE_OUT < 0" by (simp_all add: NODE_DONE_def NODE_OUT_def)
  then have dn: "status ts' u = Some NODE_DONE \<longleftrightarrow> status ts u = Some NODE_DONE"
    "status ts' u = Some NODE_OUT \<longleftrightarrow> status ts u = Some NODE_OUT" for u
    using eff(4) by blast+
  have "status ts v = None" using v by (simp add: status_def map_of_None_keys del: set_map)
  then have "handed_ok (deps(v \<mapsto> ps)) handed ts'"
    using run_add.IH by (auto simp: handed_ok_def dn)
  with tracks_add [OF _ v eff(2,3) dn(1)] eff(1) run_add.IH show ?case by blast
next
  case (run_prepare deps handed ts)
  then show ?case using wf_prepare views_cong [of "prepare ts" ts] tracks_mono [of deps ts "prepare ts"]
    by (auto simp: handed_ok_def)
next
  case (run_get_ready deps handed ts out ts')
  note gr = get_ready_run [OF _ run_get_ready.hyps(2)]
  have "tracks deps ts'"
    using run_get_ready.IH gr by (intro tracks_mono [of deps ts ts']) auto
  with gr run_get_ready handed_get_ready show ?case by blast
next
  case (run_done deps handed ts vs ts')
  then have "\<not> needs_prepare ts" "done_loop ts vs = Inr ts'"
    by (auto simp: done_nodes_def split: if_splits)
  with run_done.IH have dl: "wf_sorter ts'" "set (keys (node2info ts')) = set (keys (node2info ts))"
    "\<And>u. succs ts' u = succs ts u"
    "\<And>u. status ts' u = Some NODE_DONE \<longleftrightarrow> status ts u = Some NODE_DONE \<or> u \<in> set vs"
    "\<And>u. status ts' u = Some NODE_OUT \<longleftrightarrow> status ts u = Some NODE_OUT \<and> u \<notin> set vs"
    "\<And>v. v \<in> set vs \<Longrightarrow> status ts v = Some NODE_OUT"
    using done_loop_run [of ts vs ts'] by blast+
  have "handed_ok deps handed ts'"
    using run_done.IH dl(6) by (auto simp: handed_ok_def dl(4,5))
  with dl(1) run_done.IH tracks_mono [of deps ts ts'] dl(2-4) show ?case by auto
qed

lemma finite_keys [simp]: "finite {u. status ts u \<noteq> None \<and> P u}"
proof -
  have "{u. status ts u \<noteq> None \<and> P u} \<subseteq> set (keys (node2info ts))"
    using map_of_Some_keys [of "node2info ts"] by (auto simp: status_def simp del: set_map)
  then show ?thesis by (rule finite_subset) simp
qed

lemma status_keys: "status ts u \<noteq> None \<longleftrightarrow> u \<in> set (keys (node2info ts))"
  using map_of_None_keys [of "node2info ts" u] by (simp add: status_def del: set_map)

lemma is_active_iff:
  assumes "wf_sorter ts" and "\<not> needs_prepare ts"
  shows "is_active ts = Inr (\<exists>u. status ts u \<in> {Some 0, Some NODE_OUT})"
proof -
  have wf: "wf_core [] ts" "counters_ok ts" "ready_ok ts"
    using assms by (auto simp: wf_sorter_def)
  have "nfinished ts < npassedout ts \<longleftrightarrow> (\<exists>u. status ts u = Some NODE_OUT)"
    using wf(2) count_status_zero_iff [OF wf_core_distinct [OF wf(1)], of NODE_OUT]
    by (auto simp: counters_ok_def)
  moreover have "ready_nodes ts \<noteq> [] \<longleftrightarrow> (\<exists>u. status ts u = Some 0)"
    using wf(3) by (cases "ready_nodes ts") (auto simp: ready_ok_def)
  ultimately show ?thesis using assms(2) by (auto simp: is_active_def)
qed

text \<open>A node that is neither finished, handed out nor ready waits for a node that is not finished.\<close>

lemma blocked_by:
  assumes "wf_sorter ts" and "tracks deps ts" and "status ts v = Some k"
    and "k \<notin> {0, NODE_OUT, NODE_DONE}"
  shows "\<exists>u. (u, v) \<in> dep_edges deps \<and> status ts u \<noteq> None \<and> status ts u \<noteq> Some NODE_DONE"
proof -
  have core: "wf_core [] ts" using assms(1) by (simp add: wf_sorter_def)
  from assms(3) obtain i where i: "map_of (node2info ts) v = Some i" "npredecessors i = k"
    by (auto simp: status_def)
  from wf_core_waits [OF core i(1)] i(2) assms(4) have "pending ts v \<noteq> 0"
    by (auto simp: waits_for_def)
  then obtain u where u: "v \<in> set (succs ts u)" "status ts u \<noteq> Some NODE_DONE"
    using pending_zero_iff [OF wf_core_distinct [OF core], of v] by auto
  then have "status ts u \<noteq> None"
    by (cases "map_of (node2info ts) u") (simp_all add: succs_def status_def)
  moreover have "(u, v) \<in> dep_edges deps"
    using u(1) assms(2) unfolding tracks_def dep_edges_def by blast
  ultimately show ?thesis using u(2) by blast
qed

lemma inactive_all_done:
  assumes "wf_sorter ts" and "tracks deps ts" and "\<not> needs_prepare ts"
    and "is_active ts = Inr False" and "acyclic (dep_edges deps)"
    and "v \<in> set (keys (node2info ts))"
  shows "status ts v = Some NODE_DONE"
proof (rule ccontr)
  assume nd: "status ts v \<noteq> Some NODE_DONE"
  define N where "N = {u. status ts u \<noteq> None \<and> status ts u \<noteq> Some NODE_DONE}"
  define R where "R = dep_edges deps \<inter> (N \<times> N)"
  have "finite N" unfolding N_def by (rule finite_keys)
  then have "finite R" unfolding R_def by blast
  moreover have "acyclic R" using assms(5) by (rule acyclic_subset) (simp add: R_def)
  ultimately have "wf R" by (rule finite_acyclic_wf)
  moreover have "v \<in> N" using nd assms(6) status_keys [of ts v] by (auto simp: N_def)
  ultimately obtain z where z: "z \<in> N" "\<And>y. (y, z) \<in> R \<Longrightarrow> y \<notin> N" using wfE_min by metis
  from z(1) obtain k where k: "status ts z = Some k" "k \<noteq> NODE_DONE" by (auto simp: N_def)
  with assms(4) is_active_iff [OF assms(1,3)] have "k \<notin> {0, NODE_OUT, NODE_DONE}" by auto
  from blocked_by [OF assms(1,2) k(1) this] obtain u where "(u, z) \<in> R" "u \<in> N"
    using z(1) by (auto simp: R_def N_def)
  with z(2) show False by blast
qed

subsection \<open>The loop of static_order\<close>

definition unfinished :: "'n sorter \<Rightarrow> 'n set" where
  "unfinished ts = {u. status ts u \<noteq> None \<and> status ts u \<noteq> Some NODE_DONE}"

text \<open>One round: the ready nodes are handed out and finished at once.\<close>

lemma static_round:
  assumes "wf_sorter ts" and "\<not> needs_prepare ts"
    and "\<And>u. status ts u \<noteq> Some NODE_OUT" and "is_active ts = Inr True"
  shows "\<exists>out ts1 ts2. get_ready ts = Inr (out, ts1) \<and> done_nodes ts1 out = Inr ts2 \<and>
    \<not> needs_prepare ts2 \<and> (\<forall>u. status ts2 u \<noteq> Some NODE_OUT) \<and>
    card (unfinished ts2) < card (unfinished ts)"
proof -
  obtain ts1 where r: "get_ready ts = Inr (ready_nodes ts, ts1)"
    using get_ready_ok [OF assms(1,2)] by blast
  note gr = get_ready_run [OF assms(1) r]
  from gr have np1: "\<not> needs_prepare ts1" "wf_sorter ts1" "distinct (ready_nodes ts)"
    and out: "\<And>v. v \<in> set (ready_nodes ts) \<longleftrightarrow> status ts v = Some 0"
    and st1: "\<And>u. status ts1 u = (if status ts u = Some 0 then Some NODE_OUT else status ts u)"
    by auto
  obtain ts2 where d: "done_loop ts1 (ready_nodes ts) = Inr ts2"
    and ts2: "\<not> needs_prepare ts2" "set (keys (node2info ts2)) = set (keys (node2info ts1))"
    "\<And>u. status ts2 u = Some NODE_DONE \<longleftrightarrow> status ts1 u = Some NODE_DONE \<or> u \<in> set (ready_nodes ts)"
    "\<And>u. status ts2 u = Some NODE_OUT \<longleftrightarrow> status ts1 u = Some NODE_OUT \<and> u \<notin> set (ready_nodes ts)"
    using done_loop_ok [OF np1(2,1,3)] out st1 by auto
  from is_active_iff [OF assms(1,2)] assms(3,4) obtain u where u: "status ts u = Some 0" by auto
  have "status ts2 w \<noteq> None \<longleftrightarrow> status ts w \<noteq> None" for w
    using ts2(2) gr by (simp add: status_keys del: set_map not_None_eq)
  then have "unfinished ts2 \<subseteq> unfinished ts - {u}"
    using u out by (auto simp: unfinished_def ts2(3) st1)
  moreover have "finite (unfinished ts)" unfolding unfinished_def by (rule finite_keys)
  moreover have "u \<in> unfinished ts" using u by (simp add: unfinished_def)
  ultimately have "card (unfinished ts2) < card (unfinished ts)"
    by (metis card_Diff1_less card_mono finite_Diff le_less_trans)
  moreover have "status ts2 u \<noteq> Some NODE_OUT" for u
    using assms(3) out by (auto simp: ts2(4) st1)
  moreover have "done_nodes ts1 (ready_nodes ts) = Inr ts2" using d np1 by (simp add: done_nodes_def)
  ultimately show ?thesis using r ts2(1) by blast
qed

lemma static_order_loop_returns:
  assumes "sorter_run deps acc ts" and "\<not> needs_prepare ts"
    and "\<And>u. status ts u \<noteq> Some NODE_OUT"
  shows "\<exists>order ts'. static_order_loop ts acc = Some (Inr order) \<and>
    sorter_run deps order ts' \<and> is_active ts' = Inr False"
  using assms
proof (induction "card (unfinished ts)" arbitrary: ts acc rule: less_induct)
  case less
  have wf: "wf_sorter ts" using sorter_run_inv [OF less.prems(1)] by blast
  obtain b where b: "is_active ts = Inr b" using is_active_iff [OF wf less.prems(2)] by blast
  show ?case
  proof (cases b)
    case True
    have "is_active ts = Inr True" using b True by simp
    from static_round [OF wf less.prems(2,3) this] obtain out ts1 ts2 where
      r: "get_ready ts = Inr (out, ts1)" "done_nodes ts1 out = Inr ts2" "\<not> needs_prepare ts2"
      "\<And>u. status ts2 u \<noteq> Some NODE_OUT" "card (unfinished ts2) < card (unfinished ts)" by auto
    have "sorter_run deps (acc @ out) ts2"
      by (rule run_done [OF run_get_ready [OF less.prems(1) r(1)] r(2)])
    from less.hyps [OF r(5) this r(3,4)] show ?thesis
      using b True r(1,2) by (subst static_order_loop.simps) simp
  next
    case False
    with b less.prems(1) show ?thesis by (subst static_order_loop.simps) auto
  qed
qed

text \<open>A fresh graph: every \<open>add\<close> of the constructor succeeds unless it repeats a node.\<close>

lemma add_graph_run:
  assumes "sorter_run deps [] ts" and "add_graph ts g = Inr ts'" and "distinct (keys g)"
    and "set (keys g) \<inter> dom deps = {}"
  shows "sorter_run (deps ++ map_of g) [] ts'"
  using assms
proof (induction g arbitrary: deps ts)
  case (Cons x g)
  obtain v ps where x: "x = (v, ps)" by (cases x)
  from Cons.prems(2) x obtain ts1 where a: "add ts v ps = Inr ts1" "add_graph ts1 g = Inr ts'"
    by (auto simp: bindR_Inr_conv)
  have "set (keys g) \<inter> dom (deps(v \<mapsto> ps)) = {}" using Cons.prems(3,4) x by auto
  then have "sorter_run (deps(v \<mapsto> ps) ++ map_of g) [] ts'"
    using Cons.prems(3) by (intro Cons.IH [OF run_add [OF Cons.prems(1) a(1)] a(2)]) (simp_all del: fun_upd_apply)
  moreover have "deps(v \<mapsto> ps) ++ map_of g = deps ++ map_of (x # g)"
    using Cons.prems(3) x by (simp add: map_add_upd_left dom_map_of_conv_image_fst)
  ultimately show ?case by (simp only:)
qed simp

lemma run_keys:
  "sorter_run deps handed ts \<Longrightarrow>
     set (keys (node2info ts)) = {v. \<exists>ps. deps v = Some ps} \<union> {p. \<exists>v. (p, v) \<in> dep_edges deps}"
proof (induction rule: sorter_run.induct)
  case (run_add deps handed ts v ps ts')
  have wf: "wf_sorter ts" "tracks deps ts" using sorter_run_inv [OF run_add.hyps(1)] by auto
  have v: "v \<notin> set (keys (node2info ts))"
    using add_dup [of v ts ps] run_add.hyps(2) by (auto simp del: set_map)
  have "set (keys (node2info ts')) = insert v (set (keys (node2info ts)) \<union> set ps)"
    using add_ok [OF wf(1) v, of ps] run_add.hyps(2) by (auto simp del: set_map)
  moreover have "deps v = None" using run_add.IH v by (cases "deps v") (auto simp del: set_map)
  moreover from this have
    "{p. \<exists>w. (p, w) \<in> dep_edges (deps(v \<mapsto> ps))} = {p. \<exists>w. (p, w) \<in> dep_edges deps} \<union> set ps"
    by (auto simp: dep_edges_def) (metis option.distinct(1))
  moreover have "{w. \<exists>qs. (deps(v \<mapsto> ps)) w = Some qs} = insert v {w. \<exists>qs. deps w = Some qs}"
    by auto
  ultimately show ?case using run_add.IH by (simp only:) blast
next
  case (run_get_ready deps handed ts out ts')
  then show ?case using get_ready_run [OF _ run_get_ready.hyps(2)] sorter_run_inv by blast
next
  case (run_done deps handed ts vs ts')
  then have "\<not> needs_prepare ts" "done_loop ts vs = Inr ts'"
    by (auto simp: done_nodes_def split: if_splits)
  with run_done sorter_run_inv [OF run_done.hyps(1)] done_loop_run [of ts vs ts'] show ?case by simp
qed (simp_all add: empty_sorter_def dep_edges_def)

text \<open>
  Because a node cannot be added once it is known, not even as a predecessor, the requested
  edges never form a cycle of two or more nodes.
\<close>

lemma acyclic_sink:
  assumes "acyclic R" and "v \<notin> Domain R" and "v \<notin> A"
  shows "acyclic (R \<union> A \<times> {v})"
proof -
  have "x \<noteq> v \<and> ((x, y) \<in> R\<^sup>+ \<or> y = v)" if "(x, y) \<in> (R \<union> A \<times> {v})\<^sup>+" for x y
    using that
  proof (induction rule: trancl_induct)
    case (base y)
    then show ?case using assms(2,3) by auto
  next
    case (step y z)
    then show ?case using assms(2,3) by (auto intro: trancl_into_trancl)
  qed
  with assms(1) show ?thesis unfolding acyclic_def by blast
qed

lemma run_acyclic: "sorter_run deps handed ts \<Longrightarrow> acyclic (dep_edges deps - Id)"
proof (induction rule: sorter_run.induct)
  case (run_add deps handed ts v ps ts')
  have v: "v \<notin> set (keys (node2info ts))"
    using add_dup [of v ts ps] run_add.hyps(2) by (auto simp del: set_map)
  with run_keys [OF run_add.hyps(1)] have "deps v = None" "v \<notin> Domain (dep_edges deps - Id)"
    by (cases "deps v"; auto simp del: set_map)+
  moreover from this have "dep_edges (deps(v \<mapsto> ps)) - Id = (dep_edges deps - Id) \<union> (set ps - {v}) \<times> {v}"
    by (auto simp: dep_edges_def)
  ultimately show ?case using acyclic_sink run_add.IH by (metis Diff_iff insertI1)
qed (simp_all add: dep_edges_def acyclic_def)

lemma run_acyclic_irrefl:
  assumes "sorter_run deps handed ts" and "\<And>v ps. deps v = Some ps \<Longrightarrow> v \<notin> set ps"
  shows "acyclic (dep_edges deps)"
proof -
  have "dep_edges deps - Id = dep_edges deps" using assms(2) by (auto simp: dep_edges_def)
  with run_acyclic [OF assms(1)] show ?thesis by simp
qed

lemma cycle_is_loop:
  assumes "acyclic (R - Id)" and "(v, v) \<in> R\<^sup>+"
  shows "(v, v) \<in> R"
proof (rule ccontr)
  assume "(v, v) \<notin> R"
  with assms(2) obtain w where w: "(v, w) \<in> R" "v \<noteq> w" "(w, v) \<in> R\<^sup>+"
    by (metis tranclD rtranclD)
  have "(R - Id)\<^sup>* = R\<^sup>*" by (rule rtrancl_r_diff_Id)
  with w have "(v, w) \<in> R - Id" "(w, v) \<in> (R - Id)\<^sup>*" by (auto dest: trancl_into_rtrancl)
  then have "(v, v) \<in> (R - Id)\<^sup>+" by (rule rtrancl_into_trancl2)
  with assms(1) show False by (simp add: acyclic_def)
qed

lemma run_all_done:
  assumes "sorter_run deps handed ts" and "is_active ts = Inr False"
    and "\<And>v ps. deps v = Some ps \<Longrightarrow> v \<notin> set ps"
  shows "set handed = set (keys (node2info ts)) \<and>
    (\<forall>v \<in> set handed. status ts v = Some NODE_DONE)"
proof -
  note inv = sorter_run_inv [OF assms(1)]
  have np: "\<not> needs_prepare ts" using assms(2) by (auto simp: is_active_def split: if_splits)
  have dn: "\<And>v. v \<in> set (keys (node2info ts)) \<Longrightarrow> status ts v = Some NODE_DONE"
    using inactive_all_done [OF _ _ np assms(2) run_acyclic_irrefl [OF assms(1,3)]] inv by blast
  then have "set (keys (node2info ts)) \<subseteq> set handed"
    using inv by (auto simp: handed_ok_def simp del: set_map)
  moreover have "set handed \<subseteq> set (keys (node2info ts))"
    using inv status_keys [of ts] by (auto simp: handed_ok_def simp del: set_map)
  ultimately show ?thesis using dn by blast
qed

lemma static_order_run:
  assumes "distinct (keys g)" and "init_sorter (Some g) = Inr ts"
  shows "\<exists>order ts'. static_order ts = Some (Inr order) \<and> sorter_run (map_of g) order ts' \<and>
    is_active ts' = Inr False"
proof -
  have "sorter_run (map_of g) [] ts"
    using add_graph_run [OF run_start, of g ts] assms by (simp add: init_sorter_def)
  then have run: "sorter_run (map_of g) [] (prepare ts)" by (rule run_prepare)
  have "status (prepare ts) u \<noteq> Some NODE_OUT" for u
    using sorter_run_inv [OF run] by (auto simp: handed_ok_def)
  from static_order_loop_returns [OF run _ this] show ?thesis by (auto simp: static_order_def)
qed

lemma run_before:
  assumes "sorter_run deps handed ts" and "(p, v) \<in> dep_edges deps" and "v \<in> set handed"
  shows "before handed p v"
  using sorter_run_inv [OF assms(1)] assms(2,3) unfolding handed_ok_def dep_edges_def by blast

section \<open>The sorter as the scheduler of a client that adds dependencies first\<close>

definition sorter_nodes :: "'n sorter \<Rightarrow> 'n set" where
  "sorter_nodes ts = set (keys (node2info ts))"

definition with_status :: "int \<Rightarrow> 'n sorter \<Rightarrow> 'n set" where
  "with_status k ts = {v. status ts v = Some k}"

definition deps_of :: "('n \<Rightarrow> 'n list) \<Rightarrow> 'n sorter \<Rightarrow> 'n \<rightharpoonup> 'n list" where
  "deps_of deps ts v = (if v \<in> sorter_nodes ts then Some (deps v) else None)"

definition sched_ok :: "('n \<Rightarrow> 'n list) \<Rightarrow> 'n list \<Rightarrow> 'n sorter \<Rightarrow> bool" where
  "sched_ok deps h ts \<longleftrightarrow> sorter_run (deps_of deps ts) h ts \<and>
     (\<forall>v \<in> sorter_nodes ts. set (deps v) \<subseteq> sorter_nodes ts - {v}) \<and>
     (\<forall>v \<in> set h. set (deps v) \<subseteq> with_status NODE_DONE ts)"

lemma deps_of_cong: "sorter_nodes ts' = sorter_nodes ts \<Longrightarrow> deps_of deps ts' = deps_of deps ts"
  by (rule ext) (simp add: deps_of_def)

lemma sched_run:
  assumes "sched_ok deps h ts"
  shows "wf_sorter ts" "tracks (deps_of deps ts) ts" "handed_ok (deps_of deps ts) h ts"
  using assms sorter_run_inv by (auto simp: sched_ok_def)

lemma with_status_nodes: "with_status k ts \<subseteq> sorter_nodes ts"
  using status_keys [of ts] by (auto simp: with_status_def sorter_nodes_def simp del: set_map)

lemma sched_handed:
  assumes "sched_ok deps h ts"
  shows "set h = with_status NODE_OUT ts \<union> with_status NODE_DONE ts" "distinct h" "set h \<subseteq> sorter_nodes ts"
proof -
  show "set h = with_status NODE_OUT ts \<union> with_status NODE_DONE ts" "distinct h"
    using sched_run(3) [OF assms] by (auto simp: handed_ok_def with_status_def)
  then show "set h \<subseteq> sorter_nodes ts" using with_status_nodes [of _ ts] by blast
qed

lemma sched_acyclic:
  assumes "sched_ok deps h ts"
  shows "acyclic (dep_rel deps (sorter_nodes ts))"
proof -
  have "dep_rel deps (sorter_nodes ts) = dep_edges (deps_of deps ts)"
    by (auto simp: dep_rel_def dep_edges_def deps_of_def split: if_splits)
  moreover have "acyclic (dep_edges (deps_of deps ts))"
    by (rule run_acyclic_irrefl [of _ h ts])
      (use assms in \<open>auto simp: sched_ok_def deps_of_def split: if_splits\<close>)
  ultimately show ?thesis by simp
qed

lemma sched_add:
  assumes "sched_ok deps h ts" and "v \<notin> sorter_nodes ts" and "set (deps v) \<subseteq> sorter_nodes ts"
  shows "\<exists>ts'. add ts v (deps v) = Inr ts' \<and> sched_ok deps h ts' \<and>
    sorter_nodes ts' = insert v (sorter_nodes ts) \<and>
    with_status NODE_OUT ts' = with_status NODE_OUT ts \<and> with_status NODE_DONE ts' = with_status NODE_DONE ts"
proof -
  from add_ok [OF sched_run(1) [OF assms(1)], of v "deps v"] assms(2) obtain ts' where
    ts': "add ts v (deps v) = Inr ts'"
    "set (keys (node2info ts')) = insert v (set (keys (node2info ts)) \<union> set (deps v))"
    "\<forall>u k. k < 0 \<longrightarrow> status ts' u = Some k \<longleftrightarrow> status ts u = Some k"
    unfolding sorter_nodes_def by blast
  then have nodes: "sorter_nodes ts' = insert v (sorter_nodes ts)"
    using assms(3) by (auto simp: sorter_nodes_def simp del: set_map)
  have st: "with_status NODE_OUT ts' = with_status NODE_OUT ts"
    "with_status NODE_DONE ts' = with_status NODE_DONE ts"
    using ts'(3) by (simp_all add: with_status_def NODE_OUT_def NODE_DONE_def)
  have "deps_of deps ts' = (deps_of deps ts)(v \<mapsto> deps v)"
    by (rule ext) (simp add: deps_of_def nodes)
  with run_add [OF _ ts'(1)] assms(1) have "sorter_run (deps_of deps ts') h ts'"
    by (simp add: sched_ok_def)
  with assms st nodes have "sched_ok deps h ts'" by (auto simp: sched_ok_def)
  with ts'(1) nodes st show ?thesis by blast
qed

lemma sched_prepare:
  assumes "sched_ok deps h ts"
  shows "sched_ok deps h (prepare ts) \<and> \<not> needs_prepare (prepare ts) \<and>
    sorter_nodes (prepare ts) = sorter_nodes ts \<and>
    with_status NODE_OUT (prepare ts) = with_status NODE_OUT ts \<and>
    with_status NODE_DONE (prepare ts) = with_status NODE_DONE ts"
proof -
  have "sorter_nodes (prepare ts) = sorter_nodes ts" "with_status k (prepare ts) = with_status k ts" for k
    by (simp_all add: sorter_nodes_def with_status_def status_def)
  moreover from this have "deps_of deps (prepare ts) = deps_of deps ts" by (intro deps_of_cong)
  ultimately show ?thesis using assms run_prepare by (auto simp: sched_ok_def)
qed

text \<open>A node that was not handed out is ready exactly when its dependencies are finished.\<close>

lemma sched_ready_iff:
  assumes "sched_ok deps h ts"
  shows "status ts v = Some 0 \<longleftrightarrow> v \<in> sorter_nodes ts - set h \<and> set (deps v) \<subseteq> with_status NODE_DONE ts"
proof
  assume z: "status ts v = Some 0"
  then have v: "v \<in> sorter_nodes ts" using status_keys [of ts v] by (simp add: sorter_nodes_def)
  moreover have "v \<notin> set h" using z sched_handed(1) [OF assms] by (auto simp: with_status_def)
  moreover have "set (deps v) \<subseteq> with_status NODE_DONE ts"
    using ready_preds_done [OF sched_run(1,2) [OF assms] z] v by (auto simp: deps_of_def with_status_def)
  ultimately show "v \<in> sorter_nodes ts - set h \<and> set (deps v) \<subseteq> with_status NODE_DONE ts" by blast
next
  assume v: "v \<in> sorter_nodes ts - set h \<and> set (deps v) \<subseteq> with_status NODE_DONE ts"
  then obtain k where k: "status ts v = Some k" using status_keys [of ts v] by (auto simp: sorter_nodes_def)
  show "status ts v = Some 0"
  proof (rule ccontr)
    assume "status ts v \<noteq> Some 0"
    with k v sched_handed(1) [OF assms] have "k \<notin> {0, NODE_OUT, NODE_DONE}" by (auto simp: with_status_def)
    from blocked_by [OF sched_run(1,2) [OF assms] k this] v show False
      by (auto simp: dep_edges_def deps_of_def with_status_def split: if_splits)
  qed
qed

lemma sched_get_ready:
  assumes "sched_ok deps h ts" and "\<not> needs_prepare ts"
  shows "\<exists>vs ts'. get_ready ts = Inr (vs, ts') \<and> sched_ok deps (h @ vs) ts' \<and> \<not> needs_prepare ts' \<and>
    set vs = {v \<in> sorter_nodes ts - set h. set (deps v) \<subseteq> with_status NODE_DONE ts} \<and>
    sorter_nodes ts' = sorter_nodes ts \<and>
    with_status NODE_OUT ts' = with_status NODE_OUT ts \<union> set vs \<and>
    with_status NODE_DONE ts' = with_status NODE_DONE ts"
proof -
  from get_ready_ok [OF sched_run(1) [OF assms(1)] assms(2)] obtain ts' where
    r: "get_ready ts = Inr (ready_nodes ts, ts')" by blast
  note gr = get_ready_run [OF sched_run(1) [OF assms(1)] r]
  define vs where "vs = ready_nodes ts"
  have nodes: "sorter_nodes ts' = sorter_nodes ts" using gr by (simp add: sorter_nodes_def)
  have st: "with_status NODE_OUT ts' = with_status NODE_OUT ts \<union> set vs"
    "with_status NODE_DONE ts' = with_status NODE_DONE ts"
    using gr by (auto simp: with_status_def vs_def)
  have vs: "set vs = {v \<in> sorter_nodes ts - set h. set (deps v) \<subseteq> with_status NODE_DONE ts}"
    using gr sched_ready_iff [OF assms(1)] by (auto simp: vs_def)
  have "sorter_run (deps_of deps ts') (h @ vs) ts'"
    using run_get_ready [OF _ r] assms(1) deps_of_cong [OF nodes] by (simp add: sched_ok_def vs_def)
  then have "sched_ok deps (h @ vs) ts'" using assms(1) nodes st vs by (auto simp: sched_ok_def)
  with r gr nodes st vs show ?thesis by (auto simp: vs_def)
qed

lemma sched_done:
  assumes "sched_ok deps h ts" and "\<not> needs_prepare ts" and "v \<in> with_status NODE_OUT ts"
  shows "\<exists>ts'. done_nodes ts [v] = Inr ts' \<and> sched_ok deps h ts' \<and> \<not> needs_prepare ts' \<and>
    sorter_nodes ts' = sorter_nodes ts \<and> with_status NODE_OUT ts' = with_status NODE_OUT ts - {v} \<and>
    with_status NODE_DONE ts' = insert v (with_status NODE_DONE ts)"
proof -
  have "\<exists>ts'. done_loop ts [v] = Inr ts'"
    using done_loop_ok [OF sched_run(1) [OF assms(1)] assms(2), of "[v]"] assms(3)
    by (auto simp: with_status_def)
  then obtain ts' where r: "done_loop ts [v] = Inr ts'" by blast
  note dr = done_loop_run [OF sched_run(1) [OF assms(1)] assms(2) r]
  have dn: "done_nodes ts [v] = Inr ts'" using r assms(2) by (simp add: done_nodes_def del: done_loop.simps)
  have nodes: "sorter_nodes ts' = sorter_nodes ts" using dr by (simp add: sorter_nodes_def)
  have st: "with_status NODE_OUT ts' = with_status NODE_OUT ts - {v}"
    "with_status NODE_DONE ts' = insert v (with_status NODE_DONE ts)"
    using dr by (auto simp: with_status_def)
  have "sorter_run (deps_of deps ts') h ts'"
    using run_done [OF _ dn] assms(1) deps_of_cong [OF nodes] by (simp add: sched_ok_def)
  then have "sched_ok deps h ts'" using assms(1) nodes st by (auto simp: sched_ok_def)
  with dn dr nodes st show ?thesis by blast
qed

interpretation topo: scheduler sched_ok "\<lambda>ts. \<not> needs_prepare ts" sorter_nodes "with_status NODE_OUT"
  "with_status NODE_DONE" add prepare get_ready done_nodes
proof
  fix s :: "'a sorter" and deps h v p
  show "finite (sorter_nodes s)" by (simp add: sorter_nodes_def)
  assume ok: "sched_ok deps h s"
  show "set h = with_status NODE_OUT s \<union> with_status NODE_DONE s \<and> distinct h \<and>
      with_status NODE_OUT s \<inter> with_status NODE_DONE s = {} \<and> set h \<subseteq> sorter_nodes s"
    using sched_handed [OF ok] by (auto simp: with_status_def)
  show "v \<in> set h \<Longrightarrow> set (deps v) \<subseteq> with_status NODE_DONE s" using ok by (simp add: sched_ok_def)
  show "v \<in> set h \<Longrightarrow> p \<in> set (deps v) \<Longrightarrow> before h p v"
    using sched_run(3) [OF ok] sched_handed(3) [OF ok] by (auto simp: handed_ok_def deps_of_def)
  show "v \<in> sorter_nodes s \<Longrightarrow> set (deps v) \<subseteq> sorter_nodes s" using ok by (auto simp: sched_ok_def)
qed (intro sched_acyclic sched_add sched_prepare sched_get_ready sched_done; assumption)+

lemma sched_start: "sched_ok deps [] empty_sorter"
proof -
  have "deps_of deps empty_sorter = Map.empty"
    by (rule ext) (simp add: deps_of_def sorter_nodes_def empty_sorter_def)
  then show ?thesis using run_start by (simp add: sched_ok_def sorter_nodes_def) (simp add: empty_sorter_def)
qed

section \<open>Properties\<close>

text \<open>
  (C11) In every interleaving of \<open>add\<close>, \<open>prepare\<close>, \<open>get_ready\<close> and \<open>done\<close>, including nodes added
  while others run, no node is handed out twice and every node is handed out after all the
  predecessors it was added with.
\<close>

theorem handed_order:
  assumes "sorter_run deps handed ts"
  shows "distinct handed \<and>
    (\<forall>v ps p. v \<in> set handed \<longrightarrow> deps v = Some ps \<longrightarrow> p \<in> set ps \<longrightarrow> before handed p v)"
  using sorter_run_inv [OF assms] by (simp add: handed_ok_def)

text \<open>
  (C17) If the requested dependencies have no cycle, the sorter reports itself inactive only when
  every known node was handed out and finished: no node is ever left behind.
\<close>

theorem run_complete:
  assumes "sorter_run deps handed ts" and "is_active ts = Inr False"
    and "\<And>v ps. deps v = Some ps \<Longrightarrow> v \<notin> set ps"
  shows "set handed = set (keys (node2info ts)) \<and> (\<forall>v \<in> set handed. status ts v = Some NODE_DONE)"
  by (rule run_all_done [OF assms])

text \<open>
  On a prepared sorter \<open>is_active\<close> and \<open>get_ready\<close> never fail and see exactly the ready
  and the handed-out nodes; \<open>done\<close> succeeds exactly for distinct nodes that are handed out, and
  \<open>add\<close> exactly for a node not known yet.
\<close>

theorem operations_succeed:
  assumes "sorter_run deps handed ts" and "\<not> needs_prepare ts"
  shows "is_active ts = Inr (\<exists>u. status ts u \<in> {Some 0, Some NODE_OUT}) \<and>
    (\<exists>out ts'. get_ready ts = Inr (out, ts') \<and> distinct out \<and> set out = {v. status ts v = Some 0}) \<and>
    (\<forall>vs. (\<exists>ts'. done_nodes ts vs = Inr ts') \<longleftrightarrow>
      distinct vs \<and> (\<forall>v \<in> set vs. status ts v = Some NODE_OUT)) \<and>
    (\<forall>v ps. (\<exists>ts'. add ts v ps = Inr ts') \<longleftrightarrow> status ts v = None)"
proof (intro conjI allI)
  have wf: "wf_sorter ts" using sorter_run_inv [OF assms(1)] by blast
  show "is_active ts = Inr (\<exists>u. status ts u \<in> {Some 0, Some NODE_OUT})"
    by (rule is_active_iff [OF wf assms(2)])
  show "\<exists>out ts'. get_ready ts = Inr (out, ts') \<and> distinct out \<and> set out = {v. status ts v = Some 0}"
    using get_ready_ok [OF wf assms(2)] get_ready_run [OF wf] by blast
  show "(\<exists>ts'. done_nodes ts vs = Inr ts') \<longleftrightarrow>
      distinct vs \<and> (\<forall>v \<in> set vs. status ts v = Some NODE_OUT)" for vs
    using done_loop_ok [OF wf assms(2), of vs] done_loop_run [OF wf assms(2), of vs] assms(2)
    by (auto simp: done_nodes_def)
  show "(\<exists>ts'. add ts v ps = Inr ts') \<longleftrightarrow> status ts v = None" for v ps
    using add_ok [OF wf, of v ps] add_dup [of v ts ps] status_keys [of ts v]
    by (cases "v \<in> set (keys (node2info ts))") (auto simp del: set_map)
qed

text \<open>
  \<open>static_order\<close> of a freshly built acyclic graph terminates and yields every node of the
  graph, keys and predecessors, exactly once and after its predecessors.
\<close>

theorem static_order_correct:
  assumes "distinct (keys g)" and "init_sorter (Some g) = Inr ts"
    and "\<And>v ps. map_of g v = Some ps \<Longrightarrow> v \<notin> set ps"
  shows "\<exists>order. static_order ts = Some (Inr order) \<and> distinct order \<and>
    set order = set (keys g) \<union> (\<Union>ps \<in> set (dvalues g). set ps) \<and>
    (\<forall>v ps p. map_of g v = Some ps \<longrightarrow> p \<in> set ps \<longrightarrow> before order p v)"
proof -
  from static_order_run [OF assms(1,2)] obtain order ts' where
    o: "static_order ts = Some (Inr order)" "sorter_run (map_of g) order ts'"
    "is_active ts' = Inr False" by blast
  have "{v. \<exists>ps. map_of g v = Some ps} \<union> {p. \<exists>v. (p, v) \<in> dep_edges (map_of g)} =
      set (keys g) \<union> (\<Union>ps \<in> set (dvalues g). set ps)"
    using assms(1) by (force simp: dep_edges_def)
  with run_all_done [OF o(2,3) assms(3)] run_keys [OF o(2)]
  have order: "set order = set (keys g) \<union> (\<Union>ps \<in> set (dvalues g). set ps)" by simp
  then have "before order p v" if "map_of g v = Some ps" "p \<in> set ps" for v ps p
    using map_of_Some_keys [OF that(1)] that run_before [OF o(2), of p v]
    by (simp add: dep_edges_def)
  with order o(1) sorter_run_inv [OF o(2)] show ?thesis by (auto simp: handed_ok_def)
qed

text \<open>
  A node that is listed among its own predecessors is never yielded: \<open>static_order\<close>
  terminates without an error and leaves it out, although the documentation promises a
  \<open>CycleError\<close>. Every longer cycle is refused by the constructor, which raises
  \<open>ValueError\<close> when a key was already mentioned by an earlier entry.
\<close>

theorem static_order_cycle:
  assumes "distinct (keys g)" and "init_sorter (Some g) = Inr ts"
    and "(v, v) \<in> (dep_edges (map_of g))\<^sup>+"
  shows "(\<exists>ps. map_of g v = Some ps \<and> v \<in> set ps) \<and>
    (\<exists>order. static_order ts = Some (Inr order) \<and> v \<notin> set order)"
proof -
  from static_order_run [OF assms(1,2)] obtain order ts' where
    o: "static_order ts = Some (Inr order)" "sorter_run (map_of g) order ts'" by blast
  have d: "distinct order" using sorter_run_inv [OF o(2)] by (simp add: handed_ok_def)
  have "v \<notin> set order"
    using before_trancl [OF d assms(3) _ run_before [OF o(2)]] distinct_before_asym [OF d] by blast
  moreover have "(v, v) \<in> dep_edges (map_of g)"
    using cycle_is_loop [OF run_acyclic [OF o(2)] assms(3)] .
  ultimately show ?thesis using o(1) by (auto simp: dep_edges_def)
qed

section \<open>Concrete runs\<close>

text \<open>Two nodes, \<open>2\<close> after \<open>1\<close>: added, then handed out and finished one after the other.\<close>

definition demo_ts :: "nat sorter" where
  "demo_ts = (case init_sorter (Some [(2, [1])]) of Inr ts \<Rightarrow> ts | Inl _ \<Rightarrow> empty_sorter)"

definition demo_done :: "nat sorter" where
  "demo_done = (let ts1 = (case get_ready (prepare demo_ts) of Inr r \<Rightarrow> snd r | Inl _ \<Rightarrow> demo_ts);
      ts2 = (case done_nodes ts1 [1] of Inr ts \<Rightarrow> ts | Inl _ \<Rightarrow> demo_ts);
      ts3 = (case get_ready ts2 of Inr r \<Rightarrow> snd r | Inl _ \<Rightarrow> demo_ts)
    in (case done_nodes ts3 [2] of Inr ts \<Rightarrow> ts | Inl _ \<Rightarrow> demo_ts))"

lemma demo_ts_eval: "init_sorter (Some [(2, [1])]) = Inr demo_ts"
  by code_simp

lemma demo_run_start: "sorter_run [2 \<mapsto> [1]] [] (prepare demo_ts)"
  using run_prepare [OF run_add [OF run_start, of 2 "[1::nat]" demo_ts]] demo_ts_eval
  by (simp add: init_sorter_def bindR_Inr_conv)

lemma demo_run_done: "sorter_run [2 \<mapsto> [1]] [1, 2] demo_done"
proof -
  define ts1 where "ts1 = (case get_ready (prepare demo_ts) of Inr r \<Rightarrow> snd r | Inl _ \<Rightarrow> demo_ts)"
  define ts2 where "ts2 = (case done_nodes ts1 [1] of Inr ts \<Rightarrow> ts | Inl _ \<Rightarrow> demo_ts)"
  define ts3 where "ts3 = (case get_ready ts2 of Inr r \<Rightarrow> snd r | Inl _ \<Rightarrow> demo_ts)"
  note defs = ts1_def ts2_def ts3_def
  have r1: "get_ready (prepare demo_ts) = Inr ([1], ts1)" unfolding defs by code_simp
  have d1: "done_nodes ts1 [1] = Inr ts2" unfolding defs by code_simp
  have r2: "get_ready ts2 = Inr ([2], ts3)" unfolding defs by code_simp
  have d2: "done_nodes ts3 [2] = Inr demo_done" unfolding defs by code_simp
  have "sorter_run [2 \<mapsto> [1]] ([] @ [1]) ts2"
    by (rule run_done [OF run_get_ready [OF demo_run_start r1] d1])
  then have "sorter_run [2 \<mapsto> [1]] (([] @ [1]) @ [2]) demo_done"
    by (rule run_done [OF run_get_ready [OF _ r2] d2])
  then show ?thesis by simp
qed

theorem handed_order_witness:
  "sorter_run [2 \<mapsto> [1]] [1, 2] demo_done \<and> distinct [1, 2 :: nat] \<and> before [1, 2 :: nat] 1 2"
  using handed_order [OF demo_run_done] demo_run_done by simp

theorem run_complete_witness:
  "is_active demo_done = Inr False \<and> {1, 2} = set (keys (node2info demo_done))"
proof -
  have act: "is_active demo_done = Inr False" by code_simp
  have "set [1, 2] = set (keys (node2info demo_done)) \<and>
      (\<forall>v \<in> set [1, 2]. status demo_done v = Some NODE_DONE)"
    by (rule run_complete [OF demo_run_done act]) (auto split: if_splits)
  with act show ?thesis by simp
qed

theorem operations_succeed_witness:
  "\<not> needs_prepare (prepare demo_ts) \<and> (\<exists>out ts'. get_ready (prepare demo_ts) = Inr (out, ts') \<and>
     set out = {v. status (prepare demo_ts) v = Some 0})"
  using operations_succeed [OF demo_run_start] by auto

theorem static_order_correct_witness:
  "\<exists>order. static_order demo_ts = Some (Inr order) \<and> set order = {1, 2} \<and> before order 1 2"
proof -
  have "v \<notin> set ps" if "map_of [(2, [1])] v = Some ps" for v :: nat and ps
    using that by (auto split: if_splits)
  from static_order_correct [OF _ demo_ts_eval this] show ?thesis by auto
qed

definition demo_loop :: "nat sorter" where
  "demo_loop = (case init_sorter (Some [(1, [1]), (2, [])]) of Inr ts \<Rightarrow> ts | Inl _ \<Rightarrow> empty_sorter)"

lemma demo_loop_eval: "init_sorter (Some [(1, [1]), (2, [])]) = Inr demo_loop"
  by code_simp

theorem static_order_cycle_witness:
  "\<exists>order. static_order demo_loop = Some (Inr order) \<and> 1 \<notin> set order"
proof -
  have "(1, 1) \<in> (dep_edges (map_of [(1, [1 :: nat]), (2, [])]))\<^sup>+" by (auto simp: dep_edges_def)
  with static_order_cycle [OF _ demo_loop_eval this] show ?thesis by simp
qed

end
