(* ===== verification/Execution_Graph.thy ===== *)
theory Execution_Graph
  imports Grammar
begin

text \<open>
  The compiler from validated sources to dependency chains
  (\<open>executor/execution_graph.py\<close>, \<open>executor/dependency_chain.py\<close> and the \<open>get_dependent_nodes\<close>
  methods of the node executors). A chain is built once for every node, so the identity of a
  chain object is the identity of its executor's node. Which keyword arguments of a call are
  resolved statically (\<open>ConstExpr\<close>) is a property of the argument class of the called UDF and a
  parameter here.
\<close>

section \<open>Chains\<close>

datatype chain = Chain (executor_node: ast_node) (dependent_on: "chain list")

definition chain_id :: "chain \<Rightarrow> nat" where
  "chain_id c = nid (executor_node c)"

text \<open>\<open>Call.argument_dict\<close> and \<open>ArgumentsBase.get_dependent_node_dict\<close>.\<close>

fun argument_dict :: "ast_node list \<Rightarrow> (string, ast_node) dict \<Rightarrow> (string, ast_node) dict" where
  "argument_dict [] d = d"
| "argument_dict (Keyword m k v # as) d = argument_dict as (AList.update k v d)"
| "argument_dict (_ # as) d = argument_dict as d"

definition get_dependent_node_dict :: "(string \<Rightarrow> bool) \<Rightarrow> ast_node list \<Rightarrow> (string, ast_node) dict" where
  "get_dependent_node_dict is_const args = filter (\<lambda>p. \<not> is_const (fst p)) (argument_dict args [])"

type_synonym const_kwargs = "nat \<Rightarrow> string \<Rightarrow> bool"

text \<open>
  The executor that is registered for the class of a node: the nodes it depends on, or \<open>None\<close> when
  no executor is registered.
\<close>

definition get_dependent_nodes :: "const_kwargs \<Rightarrow> ast_node \<Rightarrow> ast_node list option" where
  "get_dependent_nodes ck n =
     (case n of
        Assign _ _ v _ \<Rightarrow> Some [v]
      | BinaryComparison _ l r _ \<Rightarrow> Some [l, r]
      | BinaryOperation _ l r _ \<Rightarrow> Some [l, r]
      | BooleanOperation _ vs _ \<Rightarrow> Some vs
      | Call m _ args \<Rightarrow> Some (dvalues (get_dependent_node_dict (ck (node_id m)) args))
      | UnaryOperation _ x _ \<Rightarrow> Some [x]
      | StringLit _ _ \<Rightarrow> Some []
      | Number _ _ \<Rightarrow> Some []
      | Boolean _ _ \<Rightarrow> Some []
      | NoneLit _ \<Rightarrow> Some []
      | ListLit _ xs \<Rightarrow> Some xs
      | FormatString _ _ ns \<Rightarrow> Some ns
      | _ \<Rightarrow> None)"

lemma argument_dict_values:
  "set (dvalues (argument_dict as d)) \<subseteq> set (dvalues d) \<union> {v. \<exists>m k. Keyword m k v \<in> set as}"
proof (induction as d rule: argument_dict.induct)
  case (2 m k v as d)
  have "set (dvalues (AList.update k v d)) \<subseteq> insert v (set (dvalues d))"
    by (induction d) auto
  with "2.IH" have "set (dvalues (argument_dict as (AList.update k v d))) \<subseteq>
      insert v (set (dvalues d)) \<union> {v. \<exists>m k. Keyword m k v \<in> set as}" by blast
  moreover have "{w. \<exists>m' k'. Keyword m' k' w \<in> set (Keyword m k v # as)} =
      insert v {w. \<exists>m k. Keyword m k w \<in> set as}" by auto
  ultimately show ?case by (simp del: set_map)
qed auto

lemma dependent_size:
  assumes "get_dependent_nodes ck n = Some ds" and "d \<in> set ds"
  shows "size d < size n"
proof (cases "\<exists>m f args. n = Call m f args")
  case True
  then obtain m f args where n: "n = Call m f args" by blast
  with assms have "d \<in> set (dvalues (argument_dict args []))"
    by (auto simp: get_dependent_nodes_def get_dependent_node_dict_def)
  with argument_dict_values [of args "[]"] obtain m' k where kw: "Keyword m' k d \<in> set args" by auto
  have "size d < size (Keyword m' k d)" by simp
  also have "\<dots> < size n" using child_size [of "Keyword m' k d" n] kw n by simp
  finally show ?thesis .
next
  case False
  then have "d \<in> set (child_nodes n)"
    using assms by (cases n) (auto simp: get_dependent_nodes_def)
  then show ?thesis by (rule child_size)
qed

section \<open>The execution graph\<close>

record execution_graph =
  root_node_executor_mapping :: "(nat, chain) dict"
  assignment_executor_mapping :: "(string, chain) dict"
  sorted_dependency_chains :: "(string, chain list) dict"

definition empty_graph :: execution_graph where
  "empty_graph = \<lparr>root_node_executor_mapping = [], assignment_executor_mapping = [],
     sorted_dependency_chains = []\<rparr>"

text \<open>A loaded name reuses the chain of its assignment; any other node gets a chain of its own.\<close>

definition loaded_name :: "ast_node \<Rightarrow> string option" where
  "loaded_name n = (case n of Name m i Load \<Rightarrow> Some (identifier_key m i) | _ \<Rightarrow> None)"

function build_chain :: "const_kwargs \<Rightarrow> (string, chain) dict \<Rightarrow> ast_node \<Rightarrow> chain result" where
  "build_chain ck am n =
     (case loaded_name n of
        Some k \<Rightarrow> (case map_of am k of None \<Rightarrow> Inl KeyError | Some c \<Rightarrow> Inr c)
      | None \<Rightarrow>
          if is_name n then Inl (AssertionError ''Name executor cannot operate on Store name nodes.'')
          else (case get_dependent_nodes ck n of
                  None \<Rightarrow> Inl KeyError
                | Some ds \<Rightarrow> bindR (mapR (build_chain ck am) ds) (\<lambda>cs. Inr (Chain n cs))))"
  by pat_completeness auto
termination by (relation "measure (\<lambda>(ck, am, n). size n)") (simp_all add: dependent_size)

declare build_chain.simps [simp del]

text \<open>\<open>_add_validated_source\<close> over the statements of a source.\<close>

fun add_statements :: "const_kwargs \<Rightarrow> ast_node list \<Rightarrow> execution_graph \<Rightarrow> execution_graph result" where
  "add_statements ck [] g = Inr g"
| "add_statements ck (s # ss) g =
     bindR (build_chain ck (assignment_executor_mapping g) s) (\<lambda>c.
       let g1 = g\<lparr>root_node_executor_mapping :=
                    AList.update (nid s) c (root_node_executor_mapping g)\<rparr>;
           g2 = (case s of
                   Assign m (Name tm target tc) v a \<Rightarrow>
                     g1\<lparr>assignment_executor_mapping :=
                          AList.update (identifier_key tm target) c (assignment_executor_mapping g1)\<rparr>
                 | _ \<Rightarrow> g1)
       in add_statements ck ss g2)"

definition statements_of :: "ast_node \<Rightarrow> ast_node list" where
  "statements_of r = (case r of Root _ ss \<Rightarrow> ss | _ \<Rightarrow> [])"

definition add_validated_source :: "const_kwargs \<Rightarrow> ast_node \<Rightarrow> execution_graph \<Rightarrow> execution_graph result" where
  "add_validated_source ck root g = add_statements ck (statements_of root) g"

text \<open>
  \<open>do_topological_sort\<close>: the dependencies first, then the chain itself unless it was visited. The
  state is the list \<open>sorted_chain\<close> and the set \<open>visited\<close>.
\<close>

function do_topological_sort :: "chain \<Rightarrow> chain list \<times> chain list \<Rightarrow> chain list \<times> chain list" where
  "do_topological_sort (Chain n ds) st =
     (let (srt, visited) = foldl (\<lambda>st d. do_topological_sort d st) st ds in
      if Chain n ds \<in> set visited then (srt, visited)
      else (srt @ [Chain n ds], Chain n ds # visited))"
  by pat_completeness auto
termination by (relation "measure (\<lambda>(c, st). size c)")
    (auto dest!: size_list_estimation' [OF _ order_refl, of _ _ size])

declare do_topological_sort.simps [simp del]

fun get_dependency_chains :: "execution_graph \<Rightarrow> ast_node list \<Rightarrow> chain list result" where
  "get_dependency_chains g [] = Inr []"
| "get_dependency_chains g (s # ss) =
     (case map_of (root_node_executor_mapping g) (nid s) of
        None \<Rightarrow> Inl KeyError
      | Some c \<Rightarrow> bindR (get_dependency_chains g ss) (\<lambda>cs. Inr (c # cs)))"

definition topologically_sort_chains :: "chain list \<Rightarrow> chain list" where
  "topologically_sort_chains cs = fst (foldl (\<lambda>st c. do_topological_sort c st) ([], []) cs)"

definition topologically_sort_dependency_chain_for :: "execution_graph \<Rightarrow> ast_node \<Rightarrow> chain list result" where
  "topologically_sort_dependency_chain_for g root =
     bindR (get_dependency_chains g (statements_of root)) (\<lambda>cs. Inr (topologically_sort_chains cs))"

section \<open>Compilation\<close>

fun chain_dedupe :: "'a list \<Rightarrow> 'a list \<Rightarrow> 'a list \<Rightarrow> 'a list" where
  "chain_dedupe seen [] [] = []"
| "chain_dedupe seen [] (y # ys) =
     (if y \<in> set seen then chain_dedupe seen [] ys else y # chain_dedupe (y # seen) [] ys)"
| "chain_dedupe seen (x # xs) ys =
     (if x \<in> set seen then chain_dedupe seen xs ys else x # chain_dedupe (x # seen) xs ys)"

text \<open>A source is its path and its tree.\<close>

type_synonym source = "string \<times> ast_node"

fun add_sources :: "const_kwargs \<Rightarrow> source list \<Rightarrow> execution_graph \<Rightarrow> execution_graph result" where
  "add_sources ck [] g = Inr g"
| "add_sources ck (s # ss) g =
     bindR (add_validated_source ck (snd s) g) (\<lambda>g1. add_sources ck ss g1)"

fun sort_sources :: "source list \<Rightarrow> execution_graph \<Rightarrow> execution_graph result" where
  "sort_sources [] g = Inr g"
| "sort_sources (s # ss) g =
     bindR (topologically_sort_dependency_chain_for g (snd s)) (\<lambda>cs.
       sort_sources ss (g\<lparr>sorted_dependency_chains :=
                           AList.update (fst s) cs (sorted_dependency_chains g)\<rparr>))"

definition compile_execution_graph :: "const_kwargs \<Rightarrow> source list \<Rightarrow> source list \<Rightarrow> execution_graph result" where
  "compile_execution_graph ck sorted_srcs sources =
     (let ordered = chain_dedupe [] sorted_srcs sources in
      bindR (add_sources ck ordered empty_graph) (sort_sources ordered))"

section \<open>The sorted chains\<close>

function subchains :: "chain \<Rightarrow> chain list" where
  "subchains (Chain n ds) = Chain n ds # concat (map subchains ds)"
  by pat_completeness auto
termination by (relation "measure size")
    (auto dest!: size_list_estimation' [OF _ order_refl, of _ _ size])

declare subchains.simps [simp del]

lemma subchains_self [simp]: "c \<in> set (subchains c)"
  by (cases c) (simp add: subchains.simps)

lemma subchains_dep: "d \<in> set (dependent_on c) \<Longrightarrow> set (subchains d) \<subseteq> set (subchains c)"
  by (cases c) (auto simp: subchains.simps)

definition deps_before :: "chain list \<Rightarrow> bool" where
  "deps_before srt \<longleftrightarrow> (\<forall>c \<in> set srt. \<forall>d \<in> set (dependent_on c). before srt d c)"

definition sort_ok :: "chain list \<Rightarrow> bool" where
  "sort_ok srt \<longleftrightarrow> distinct srt \<and> deps_before srt"

lemma sort_ok_snoc:
  assumes "sort_ok srt" and "c \<notin> set srt" and "set (dependent_on c) \<subseteq> set srt"
  shows "sort_ok (srt @ [c])"
  using assms by (auto simp: sort_ok_def deps_before_def intro: before_append1 before_snoc)

text \<open>The state of the loop: \<open>visited\<close> has the same elements as \<open>sorted_chain\<close>.\<close>

definition sort_step_ok :: "chain list \<times> chain list \<Rightarrow> chain set \<Rightarrow> chain list \<times> chain list \<Rightarrow> bool" where
  "sort_step_ok st new st' \<longleftrightarrow> set (snd st') = set (fst st') \<and> sort_ok (fst st') \<and>
     set (fst st') = set (fst st) \<union> new"

lemma foldl_sort_ok:
  assumes "\<And>d st. d \<in> set ds \<Longrightarrow> set (snd st) = set (fst st) \<Longrightarrow> sort_ok (fst st) \<Longrightarrow>
      sort_step_ok st (set (subchains d)) (do_topological_sort d st)"
    and "set (snd st) = set (fst st)" and "sort_ok (fst st)"
  shows "sort_step_ok st (\<Union>d \<in> set ds. set (subchains d)) (foldl (\<lambda>st d. do_topological_sort d st) st ds)"
  using assms
proof (induction ds arbitrary: st)
  case (Cons d ds)
  have "sort_step_ok st (set (subchains d)) (do_topological_sort d st)" using Cons.prems by simp
  with Cons.IH [of "do_topological_sort d st"] Cons.prems(1) show ?case
    by (auto simp: sort_step_ok_def)
qed (simp add: sort_step_ok_def)

lemma do_topological_sort_ok:
  "set (snd st) = set (fst st) \<Longrightarrow> sort_ok (fst st) \<Longrightarrow>
     sort_step_ok st (set (subchains c)) (do_topological_sort c st)"
proof (induction c arbitrary: st)
  case (Chain n ds)
  define st1 where "st1 = foldl (\<lambda>st d. do_topological_sort d st) st ds"
  have st1: "sort_step_ok st (\<Union>d \<in> set ds. set (subchains d)) st1"
    unfolding st1_def by (rule foldl_sort_ok) (use Chain in auto)
  have "set ds \<subseteq> set (fst st1)" using st1 subchains_self by (auto simp: sort_step_ok_def)
  then have "sort_ok (fst st1 @ [Chain n ds])" if "Chain n ds \<notin> set (fst st1)"
    using sort_ok_snoc [OF _ that] st1 by (simp add: sort_step_ok_def)
  with st1 show ?case
    by (auto simp: do_topological_sort.simps subchains.simps sort_step_ok_def Let_def
        simp flip: st1_def split: prod.splits)
qed

lemma topologically_sort_chains_ok:
  "sort_ok (topologically_sort_chains cs) \<and>
   set (topologically_sort_chains cs) = (\<Union>c \<in> set cs. set (subchains c))"
proof -
  have "sort_step_ok ([], []) (\<Union>c \<in> set cs. set (subchains c))
      (foldl (\<lambda>st c. do_topological_sort c st) ([], []) cs)"
    by (rule foldl_sort_ok)
      (simp_all add: do_topological_sort_ok sort_ok_def deps_before_def)
  then show ?thesis by (simp add: sort_step_ok_def topologically_sort_chains_def)
qed

section \<open>Names must be defined before they are used\<close>

text \<open>
  A node can be compiled when every name it depends on has a chain and every node it depends on
  has a registered executor.
\<close>

function resolvable :: "const_kwargs \<Rightarrow> string set \<Rightarrow> ast_node \<Rightarrow> bool" where
  "resolvable ck ks n =
     (case loaded_name n of
        Some k \<Rightarrow> k \<in> ks
      | None \<Rightarrow> \<not> is_name n \<and>
          (case get_dependent_nodes ck n of None \<Rightarrow> False | Some ds \<Rightarrow> list_all (resolvable ck ks) ds))"
  by pat_completeness auto
termination by (relation "measure (\<lambda>(ck, ks, n). size n)") (simp_all add: dependent_size)

declare resolvable.simps [simp del]

lemma build_chain_iff: "(\<exists>c. build_chain ck am n = Inr c) \<longleftrightarrow> resolvable ck (set (keys am)) n"
proof (induction ck "set (keys am)" n rule: resolvable.induct)
  case (1 ck n)
  show ?case
  proof (cases "loaded_name n")
    case (Some k)
    then show ?thesis
      by (simp add: build_chain.simps [of ck am n] resolvable.simps [of ck _ n] map_of_None_keys
          option.case_eq_if keys_map_of del: set_map)
  next
    case None
    note IH = 1 [OF None]
    show ?thesis
    proof (cases "is_name n \<or> get_dependent_nodes ck n = None")
      case True
      with None show ?thesis
        by (auto simp: build_chain.simps [of ck am n] resolvable.simps [of ck _ n])
    next
      case False
      then obtain ds where ds: "get_dependent_nodes ck n = Some ds" "\<not> is_name n" by blast
      have "(\<exists>cs. mapR (build_chain ck am) ds = Inr cs) \<longleftrightarrow>
          (\<forall>d \<in> set ds. \<exists>c. build_chain ck am d = Inr c)" by (rule mapR_ex_iff)
      with IH ds None show ?thesis
        by (auto simp: build_chain.simps [of ck am n] resolvable.simps [of ck _ n] list_all_iff
            bindR_Inr_conv)
    qed
  qed
qed

definition target_key :: "ast_node \<Rightarrow> string set" where
  "target_key s = (case s of Assign m (Name tm target tc) v a \<Rightarrow> {identifier_key tm target} | _ \<Rightarrow> {})"

fun compilable :: "const_kwargs \<Rightarrow> string set \<Rightarrow> ast_node list \<Rightarrow> bool" where
  "compilable ck ks [] = True"
| "compilable ck ks (s # ss) = (resolvable ck ks s \<and> compilable ck (ks \<union> target_key s) ss)"

text \<open>The graph after one statement.\<close>

definition add_statement :: "ast_node \<Rightarrow> chain \<Rightarrow> execution_graph \<Rightarrow> execution_graph" where
  "add_statement s c g =
     (let g1 = g\<lparr>root_node_executor_mapping := AList.update (nid s) c (root_node_executor_mapping g)\<rparr> in
      case s of
        Assign m (Name tm target tc) v a \<Rightarrow>
          g1\<lparr>assignment_executor_mapping :=
               AList.update (identifier_key tm target) c (assignment_executor_mapping g1)\<rparr>
      | _ \<Rightarrow> g1)"

lemma add_statements_Cons:
  "add_statements ck (s # ss) g =
     bindR (build_chain ck (assignment_executor_mapping g) s) (\<lambda>c. add_statements ck ss (add_statement s c g))"
  by (simp add: add_statement_def Let_def)

declare add_statements.simps(2) [simp del]
declare add_statements_Cons [simp]

lemma root_mapping_add_statement [simp]:
  "root_node_executor_mapping (add_statement s c g) = AList.update (nid s) c (root_node_executor_mapping g)"
  by (simp add: add_statement_def Let_def split: ast_node.splits)

lemma sorted_chains_add_statement [simp]:
  "sorted_dependency_chains (add_statement s c g) = sorted_dependency_chains g"
  by (simp add: add_statement_def Let_def split: ast_node.splits)

lemma assignment_mapping_add_statement:
  "map_of (assignment_executor_mapping (add_statement s c g)) k =
     (if k \<in> target_key s then Some c else map_of (assignment_executor_mapping g) k)"
  by (cases s) (auto simp: add_statement_def target_key_def dict_simps split: ast_node.splits)

lemma assignment_keys_add_statement:
  "set (keys (assignment_executor_mapping (add_statement s c g))) =
     set (keys (assignment_executor_mapping g)) \<union> target_key s"
proof -
  have "k \<in> set (keys d) \<longleftrightarrow> map_of d k \<noteq> None" for k and d :: "(string, chain) dict"
    by (simp add: map_of_None_keys del: set_map)
  then show ?thesis by (auto simp: assignment_mapping_add_statement simp del: set_map)
qed

definition ordered_statements :: "source list \<Rightarrow> ast_node list" where
  "ordered_statements srcs = concat (map (\<lambda>s. statements_of (snd s)) srcs)"

lemma add_statements_append:
  "add_statements ck (ss @ ts) g = bindR (add_statements ck ss g) (add_statements ck ts)"
  by (induction ss arbitrary: g) (auto simp: bindR_def split: sum.splits)

lemma add_sources_statements: "add_sources ck srcs g = add_statements ck (ordered_statements srcs) g"
  by (induction srcs arbitrary: g)
    (auto simp: ordered_statements_def add_validated_source_def add_statements_append cong: bindR_cong)

lemma add_statements_iff:
  "(\<exists>g'. add_statements ck ss g = Inr g') \<longleftrightarrow>
     compilable ck (set (keys (assignment_executor_mapping g))) ss"
proof (induction ss arbitrary: g)
  case (Cons s ss)
  have "(\<exists>g'. add_statements ck (s # ss) g = Inr g') \<longleftrightarrow>
      (\<exists>c. build_chain ck (assignment_executor_mapping g) s = Inr c \<and>
         (\<exists>g'. add_statements ck ss (add_statement s c g) = Inr g'))"
    by (auto simp: bindR_Inr_conv)
  also have "\<dots> \<longleftrightarrow> compilable ck (set (keys (assignment_executor_mapping g))) (s # ss)"
    using build_chain_iff [of ck "assignment_executor_mapping g" s]
    by (auto simp: Cons.IH assignment_keys_add_statement simp del: set_map)
  finally show ?case .
qed simp

lemma add_statements_roots:
  "add_statements ck ss g = Inr g' \<Longrightarrow>
     set (keys (root_node_executor_mapping g')) =
       set (keys (root_node_executor_mapping g)) \<union> nid ` set ss \<and>
     sorted_dependency_chains g' = sorted_dependency_chains g"
proof (induction ss arbitrary: g)
  case (Cons s ss)
  then obtain c where "add_statements ck ss (add_statement s c g) = Inr g'"
    by (auto simp: bindR_Inr_conv)
  from Cons.IH [OF this] show ?case
    using set_keys_update [of "nid s" c "root_node_executor_mapping g"] by (auto simp del: set_map)
qed simp

lemma get_dependency_chains_ok:
  "nid ` set ss \<subseteq> set (keys (root_node_executor_mapping g)) \<Longrightarrow>
     \<exists>cs. get_dependency_chains g ss = Inr cs \<and>
       list_all2 (\<lambda>s c. map_of (root_node_executor_mapping g) (nid s) = Some c) ss cs"
proof (induction ss)
  case (Cons s ss)
  then obtain c where "map_of (root_node_executor_mapping g) (nid s) = Some c"
    using keys_map_of [of "nid s" "root_node_executor_mapping g"] by auto
  with Cons show ?case by auto
qed simp

text \<open>The chains of the statements of a source, as the compiled graph has them.\<close>

definition statement_chains :: "execution_graph \<Rightarrow> ast_node \<Rightarrow> chain list" where
  "statement_chains g root = map (\<lambda>s. the (map_of (root_node_executor_mapping g) (nid s))) (statements_of root)"

lemma get_dependency_chains_eq:
  assumes "nid ` set ss \<subseteq> set (keys (root_node_executor_mapping g))"
  shows "get_dependency_chains g ss =
    Inr (map (\<lambda>s. the (map_of (root_node_executor_mapping g) (nid s))) ss)"
proof -
  from get_dependency_chains_ok [OF assms] obtain cs where
    cs: "get_dependency_chains g ss = Inr cs"
    "list_all2 (\<lambda>s c. map_of (root_node_executor_mapping g) (nid s) = Some c) ss cs" by blast
  from cs(2) have "cs = map (\<lambda>s. the (map_of (root_node_executor_mapping g) (nid s))) ss"
    by (induction rule: list_all2_induct) auto
  with cs(1) show ?thesis by simp
qed

lemma sort_sources_ok:
  assumes "nid ` set (ordered_statements srcs) \<subseteq> set (keys (root_node_executor_mapping g))"
    and "distinct (map fst srcs)"
  shows "\<exists>g'. sort_sources srcs g = Inr g' \<and>
    root_node_executor_mapping g' = root_node_executor_mapping g \<and>
    assignment_executor_mapping g' = assignment_executor_mapping g \<and>
    (\<forall>p. map_of (sorted_dependency_chains g') p =
       (case map_of srcs p of None \<Rightarrow> map_of (sorted_dependency_chains g) p
        | Some root \<Rightarrow> Some (topologically_sort_chains (statement_chains g root))))"
  using assms
proof (induction srcs arbitrary: g)
  case (Cons s srcs)
  obtain path root where s: "s = (path, root)" by (cases s)
  define g1 where "g1 = g\<lparr>sorted_dependency_chains := AList.update path
    (topologically_sort_chains (statement_chains g root)) (sorted_dependency_chains g)\<rparr>"
  have g1: "root_node_executor_mapping g1 = root_node_executor_mapping g"
    "assignment_executor_mapping g1 = assignment_executor_mapping g"
    "statement_chains g1 r = statement_chains g r" for r
    by (simp_all add: g1_def statement_chains_def)
  have sub: "nid ` set (statements_of root) \<subseteq> set (keys (root_node_executor_mapping g))"
    "nid ` set (ordered_statements srcs) \<subseteq> set (keys (root_node_executor_mapping g1))"
    using Cons.prems(1) s g1(1) by (auto simp: ordered_statements_def)
  have "sort_sources (s # srcs) g = sort_sources srcs g1"
    using get_dependency_chains_eq [OF sub(1)] s
    by (simp add: topologically_sort_dependency_chain_for_def g1_def statement_chains_def)
  moreover from Cons.IH [OF sub(2)] Cons.prems(2) obtain g' where g': "sort_sources srcs g1 = Inr g'"
    "root_node_executor_mapping g' = root_node_executor_mapping g1"
    "assignment_executor_mapping g' = assignment_executor_mapping g1"
    "\<forall>p. map_of (sorted_dependency_chains g') p =
       (case map_of srcs p of None \<Rightarrow> map_of (sorted_dependency_chains g1) p
        | Some root \<Rightarrow> Some (topologically_sort_chains (statement_chains g1 root)))" by auto
  moreover have "map_of srcs path = None" using Cons.prems(2) s by (simp add: map_of_eq_None_iff)
  ultimately show ?case using s g1 by (auto simp: g1_def dict_simps split: option.splits)
qed simp

section \<open>One chain per node\<close>

definition graph_chains :: "execution_graph \<Rightarrow> chain set" where
  "graph_chains g =
     (\<Union>c \<in> ran (map_of (root_node_executor_mapping g)) \<union> ran (map_of (assignment_executor_mapping g)).
        set (subchains c))"

definition consistent :: "chain set \<Rightarrow> bool" where
  "consistent C \<longleftrightarrow> inj_on chain_id C"

definition tree_ids :: "ast_node list \<Rightarrow> nat list" where
  "tree_ids ss = map nid (concat (map iter_tree ss))"

lemma iter_tree_child: "c \<in> set (child_nodes n) \<Longrightarrow> set (iter_tree c) \<subseteq> set (iter_tree n)"
  by (subst iter_tree.simps [of n]) auto

lemma iter_tree_self [simp]: "n \<in> set (iter_tree n)"
  by (subst iter_tree.simps) simp

lemma dependent_in_tree:
  assumes "get_dependent_nodes ck n = Some ds" and "d \<in> set ds"
  shows "set (iter_tree d) \<subseteq> set (iter_tree n)"
proof (cases "\<exists>m f args. n = Call m f args")
  case True
  then obtain m f args where n: "n = Call m f args" by blast
  with assms have "d \<in> set (dvalues (argument_dict args []))"
    by (auto simp: get_dependent_nodes_def get_dependent_node_dict_def)
  with argument_dict_values [of args "[]"] obtain m' k where kw: "Keyword m' k d \<in> set args" by auto
  have "set (iter_tree d) \<subseteq> set (iter_tree (Keyword m' k d))" by (rule iter_tree_child) simp
  also have "\<dots> \<subseteq> set (iter_tree n)" using kw n by (intro iter_tree_child) simp
  finally show ?thesis .
next
  case False
  then have "d \<in> set (child_nodes n)"
    using assms by (cases n) (auto simp: get_dependent_nodes_def)
  then show ?thesis by (rule iter_tree_child)
qed

lemma build_chain_cases:
  assumes "build_chain ck am n = Inr c"
  shows "(\<exists>k. loaded_name n = Some k \<and> map_of am k = Some c) \<or>
    (loaded_name n = None \<and> \<not> is_name n \<and> (\<exists>ds cs. get_dependent_nodes ck n = Some ds \<and>
       list_all2 (\<lambda>d c. build_chain ck am d = Inr c) ds cs \<and> c = Chain n cs))"
  using assms unfolding build_chain.simps [of ck am n]
  by (auto simp: bindR_Inr_conv mapR_Inr_conv split: option.splits if_splits)

lemma build_subchains:
  assumes "build_chain ck am n = Inr c" and "x \<in> set (subchains c)"
  shows "(\<exists>d \<in> ran (map_of am). x \<in> set (subchains d)) \<or>
    executor_node x \<in> set (iter_tree n) \<and> build_chain ck am (executor_node x) = Inr x"
  using assms
proof (induction n arbitrary: c rule: measure_induct_rule [of size])
  case (less n)
  from build_chain_cases [OF less.prems(1)] show ?case
  proof (elim disjE exE conjE)
    fix k assume "loaded_name n = Some k" "map_of am k = Some c"
    with less.prems(2) show ?thesis by (auto intro: ranI)
  next
    fix ds cs assume ds: "get_dependent_nodes ck n = Some ds"
      "list_all2 (\<lambda>d c. build_chain ck am d = Inr c) ds cs" "c = Chain n cs"
    show ?thesis
    proof (cases "x = c")
      case True
      with ds(3) less.prems(1) show ?thesis by simp
    next
      case False
      with less.prems(2) ds(3) obtain e where e: "e \<in> set cs" "x \<in> set (subchains e)"
        by (auto simp: subchains.simps)
      from ds(2) e(1) obtain d where d: "d \<in> set ds" "build_chain ck am d = Inr e"
        using list_all2_source [OF ds(2) e(1)] by blast
      from less.IH [OF dependent_size [OF ds(1) d(1)] d(2) e(2)] dependent_in_tree [OF ds(1) d(1)]
      show ?thesis by blast
    qed
  qed
qed

lemma graph_chains_add_statement:
  "graph_chains (add_statement s c g) \<subseteq> graph_chains g \<union> set (subchains c)"
proof -
  have "ran (map_of (root_node_executor_mapping (add_statement s c g))) \<subseteq>
      insert c (ran (map_of (root_node_executor_mapping g)))"
    by (auto simp: ran_def dict_simps split: if_splits)
  moreover have "ran (map_of (assignment_executor_mapping (add_statement s c g))) \<subseteq>
      insert c (ran (map_of (assignment_executor_mapping g)))"
    by (auto simp: ran_def assignment_mapping_add_statement split: if_splits)
  ultimately show ?thesis unfolding graph_chains_def by blast
qed

lemma consistent_step:
  assumes "consistent (graph_chains g)" and "chain_id ` graph_chains g \<inter> set (map nid (iter_tree s)) = {}"
    and "distinct (map nid (iter_tree s))" and "build_chain ck (assignment_executor_mapping g) s = Inr c"
  shows "consistent (graph_chains (add_statement s c g)) \<and>
    chain_id ` graph_chains (add_statement s c g) \<subseteq> chain_id ` graph_chains g \<union> set (map nid (iter_tree s))"
proof -
  define am where "am = assignment_executor_mapping g"
  have old_or_new: "x \<in> graph_chains g \<or>
      executor_node x \<in> set (iter_tree s) \<and> build_chain ck am (executor_node x) = Inr x"
    if "x \<in> graph_chains (add_statement s c g)" for x
    using that graph_chains_add_statement [of s c g] build_subchains [OF assms(4), of x]
    by (auto simp: graph_chains_def am_def)
  have "x = y" if x: "x \<in> graph_chains (add_statement s c g)"
    and y: "y \<in> graph_chains (add_statement s c g)" and id: "chain_id x = chain_id y" for x y
  proof -
    have apart: False if "u \<in> graph_chains g" "executor_node v \<in> set (iter_tree s)"
      "chain_id u = chain_id v" for u v
      using that assms(2) by (auto simp: chain_id_def [of v])
    consider (old) "x \<in> graph_chains g" "y \<in> graph_chains g"
      | (new) "executor_node x \<in> set (iter_tree s)" "executor_node y \<in> set (iter_tree s)"
          "build_chain ck am (executor_node x) = Inr x" "build_chain ck am (executor_node y) = Inr y"
      using old_or_new [OF x] old_or_new [OF y] apart id by metis
    then show ?thesis
    proof cases
      case old
      then show ?thesis using assms(1) id by (auto simp: consistent_def inj_on_def)
    next
      case new
      have "inj_on nid (set (iter_tree s))" using assms(3) by (simp add: distinct_map)
      with new(1,2) id have "executor_node x = executor_node y"
        by (auto simp: chain_id_def inj_on_def)
      then have "Inr x = (Inr y :: chain result)" unfolding new(3,4) [symmetric] by (rule arg_cong)
      then show ?thesis by (rule sum.inject(2) [THEN iffD1])
    qed
  qed
  moreover have "chain_id x \<in> chain_id ` graph_chains g \<union> set (map nid (iter_tree s))"
    if "x \<in> graph_chains (add_statement s c g)" for x
  proof (cases "x \<in> graph_chains g")
    case False
    with old_or_new [OF that] have "executor_node x \<in> set (iter_tree s)" by blast
    then show ?thesis by (simp add: chain_id_def)
  qed simp
  ultimately show ?thesis
    by (intro conjI subsetI) (auto simp: consistent_def inj_on_def simp del: set_map)
qed

lemma add_statements_consistent:
  assumes "add_statements ck ss g = Inr g'" and "distinct (tree_ids ss)"
    and "consistent (graph_chains g)" and "chain_id ` graph_chains g \<inter> set (tree_ids ss) = {}"
  shows "consistent (graph_chains g')"
  using assms
proof (induction ss arbitrary: g)
  case (Cons s ss)
  from Cons.prems(1) obtain c where c: "build_chain ck (assignment_executor_mapping g) s = Inr c"
    "add_statements ck ss (add_statement s c g) = Inr g'" by (auto simp: bindR_Inr_conv)
  have ids: "set (tree_ids (s # ss)) = set (map nid (iter_tree s)) \<union> set (tree_ids ss)"
    "distinct (map nid (iter_tree s))" "distinct (tree_ids ss)"
    "set (map nid (iter_tree s)) \<inter> set (tree_ids ss) = {}"
    using Cons.prems(2) by (auto simp: tree_ids_def)
  from consistent_step [OF Cons.prems(3) _ ids(2) c(1)] Cons.prems(4) ids(1)
  have "consistent (graph_chains (add_statement s c g))"
    "chain_id ` graph_chains (add_statement s c g) \<subseteq> chain_id ` graph_chains g \<union> set (map nid (iter_tree s))"
    by blast+
  moreover from this have "chain_id ` graph_chains (add_statement s c g) \<inter> set (tree_ids ss) = {}"
    using Cons.prems(4) ids(1,4) by blast
  ultimately show ?case using Cons.IH [OF c(2) ids(3)] by blast
qed simp

lemma chain_dedupe_ok:
  "distinct (chain_dedupe seen xs ys) \<and> set (chain_dedupe seen xs ys) = (set xs \<union> set ys) - set seen"
  by (induction seen xs ys rule: chain_dedupe.induct) auto

lemma root_mapping_stable:
  assumes "add_statements ck ss g = Inr g'" and "k \<notin> nid ` set ss"
  shows "map_of (root_node_executor_mapping g') k = map_of (root_node_executor_mapping g) k"
  using assms
proof (induction ss arbitrary: g)
  case (Cons s ss)
  then obtain c where "add_statements ck ss (add_statement s c g) = Inr g'"
    by (auto simp: bindR_Inr_conv)
  from Cons.IH [OF this] Cons.prems(2) show ?case by (auto simp: dict_simps)
qed simp

lemma statement_ids_distinct: "distinct (tree_ids ss) \<Longrightarrow> distinct (map nid ss)"
proof (induction ss)
  case (Cons s ss)
  have "nid s \<in> nid ` set (iter_tree s)" by simp
  moreover have "nid ` set ss \<subseteq> set (tree_ids ss)" using iter_tree_self by (fastforce simp: tree_ids_def)
  moreover have "nid ` set (iter_tree s) \<inter> set (tree_ids ss) = {}" "distinct (tree_ids ss)"
    using Cons.prems by (auto simp: tree_ids_def)
  ultimately have "nid s \<notin> nid ` set ss" by blast
  with Cons.IH \<open>distinct (tree_ids ss)\<close> show ?case by simp
qed simp

lemma add_statements_nodes:
  assumes "add_statements ck ss g = Inr g'" and "distinct (map nid ss)" and "list_all is_statement ss"
    and "s \<in> set ss"
  shows "\<exists>c. map_of (root_node_executor_mapping g') (nid s) = Some c \<and> executor_node c = s"
  using assms
proof (induction ss arbitrary: g)
  case (Cons t ss)
  from Cons.prems(1) obtain c where c: "build_chain ck (assignment_executor_mapping g) t = Inr c"
    "add_statements ck ss (add_statement t c g) = Inr g'" by (auto simp: bindR_Inr_conv)
  show ?case
  proof (cases "s = t")
    case True
    have "loaded_name t = None" using Cons.prems(3)
      by (cases t) (auto simp: loaded_name_def is_statement_def)
    with build_chain_cases [OF c(1)] have "executor_node c = t" by auto
    with root_mapping_stable [OF c(2)] True Cons.prems(2) show ?thesis by (simp add: dict_simps)
  next
    case False
    with Cons.IH [OF c(2)] Cons.prems(2-4) show ?thesis by simp
  qed
qed simp

lemma compile_cases:
  assumes "compile_execution_graph ck sorted_srcs srcs = Inr g"
    and "distinct (map fst (chain_dedupe [] sorted_srcs srcs))"
  shows "\<exists>g1. add_statements ck (ordered_statements (chain_dedupe [] sorted_srcs srcs)) empty_graph = Inr g1 \<and>
    root_node_executor_mapping g = root_node_executor_mapping g1 \<and>
    assignment_executor_mapping g = assignment_executor_mapping g1 \<and>
    (\<forall>p root. (p, root) \<in> set sorted_srcs \<union> set srcs \<longrightarrow> map_of (sorted_dependency_chains g) p =
       Some (topologically_sort_chains (statement_chains g root)))"
proof -
  define ordered where "ordered = chain_dedupe [] sorted_srcs srcs"
  from assms(1) obtain g1 where g1: "add_statements ck (ordered_statements ordered) empty_graph = Inr g1"
    "sort_sources ordered g1 = Inr g"
    by (auto simp: compile_execution_graph_def Let_def bindR_Inr_conv add_sources_statements ordered_def)
  from add_statements_roots [OF g1(1)] have
    "nid ` set (ordered_statements ordered) \<subseteq> set (keys (root_node_executor_mapping g1))" by simp
  from sort_sources_ok [OF this] assms(2) g1(2) have g: "root_node_executor_mapping g = root_node_executor_mapping g1"
    "assignment_executor_mapping g = assignment_executor_mapping g1"
    "\<forall>p. map_of (sorted_dependency_chains g) p =
       (case map_of ordered p of None \<Rightarrow> map_of (sorted_dependency_chains g1) p
        | Some root \<Rightarrow> Some (topologically_sort_chains (statement_chains g1 root)))"
    by (auto simp: ordered_def)
  moreover have "map_of ordered p = Some root" if "(p, root) \<in> set sorted_srcs \<union> set srcs" for p root
    using that assms(2) chain_dedupe_ok [of "[]" sorted_srcs srcs] by (simp add: ordered_def)
  moreover have "statement_chains g root = statement_chains g1 root" for root
    using g(1) by (simp add: statement_chains_def)
  ultimately show ?thesis using g1(1) by (auto simp: ordered_def)
qed

text \<open>Every list of sorted chains is a list of a source.\<close>

lemma compiled_chains_cases:
  assumes "compile_execution_graph ck sorted_srcs srcs = Inr g"
    and "distinct (map fst (chain_dedupe [] sorted_srcs srcs))"
    and "map_of (sorted_dependency_chains g) p = Some cs"
  shows "sort_ok cs \<and> set cs \<subseteq> graph_chains g"
proof -
  define ordered where "ordered = chain_dedupe [] sorted_srcs srcs"
  from assms(1) obtain g1 where g1: "add_statements ck (ordered_statements ordered) empty_graph = Inr g1"
    "sort_sources ordered g1 = Inr g"
    by (auto simp: compile_execution_graph_def Let_def bindR_Inr_conv add_sources_statements ordered_def)
  note roots = add_statements_roots [OF g1(1)]
  then have sub: "nid ` set (ordered_statements ordered) \<subseteq> set (keys (root_node_executor_mapping g1))" by simp
  from sort_sources_ok [OF sub] assms(2) g1(2) have g: "root_node_executor_mapping g = root_node_executor_mapping g1"
    "map_of (sorted_dependency_chains g) p =
       (case map_of ordered p of None \<Rightarrow> map_of (sorted_dependency_chains g1) p
        | Some root \<Rightarrow> Some (topologically_sort_chains (statement_chains g1 root)))"
    by (auto simp: ordered_def)
  from g(2) assms(3) roots obtain root where root: "map_of ordered p = Some root"
    "cs = topologically_sort_chains (statement_chains g1 root)"
    by (auto simp: empty_graph_def split: option.splits)
  have "set (statement_chains g1 root) \<subseteq> ran (map_of (root_node_executor_mapping g))"
  proof
    fix c assume "c \<in> set (statement_chains g1 root)"
    then obtain s where s: "s \<in> set (statements_of root)"
      "c = the (map_of (root_node_executor_mapping g1) (nid s))" by (auto simp: statement_chains_def)
    have "s \<in> set (ordered_statements ordered)"
      using map_of_SomeD [OF root(1)] s(1) by (auto simp: ordered_statements_def intro!: bexI)
    then have "nid s \<in> set (keys (root_node_executor_mapping g1))" using sub by blast
    then show "c \<in> ran (map_of (root_node_executor_mapping g))"
      using keys_map_of s(2) g(1) by (fastforce simp: ran_def)
  qed
  then show ?thesis using topologically_sort_chains_ok [of "statement_chains g1 root"] root(2)
    by (auto simp: graph_chains_def)
qed

lemma compiled_consistent:
  assumes "compile_execution_graph ck sorted_srcs srcs = Inr g"
    and "distinct (map fst (chain_dedupe [] sorted_srcs srcs))"
    and "distinct (tree_ids (ordered_statements (chain_dedupe [] sorted_srcs srcs)))"
  shows "consistent (graph_chains g)"
proof -
  from compile_cases [OF assms(1,2)] obtain g1 where
    g1: "add_statements ck (ordered_statements (chain_dedupe [] sorted_srcs srcs)) empty_graph = Inr g1"
    and g: "root_node_executor_mapping g = root_node_executor_mapping g1"
    "assignment_executor_mapping g = assignment_executor_mapping g1" by blast
  have "graph_chains empty_graph = {}" by (simp add: graph_chains_def empty_graph_def)
  with add_statements_consistent [OF g1] assms(3) have "consistent (graph_chains g1)"
    by (simp add: consistent_def)
  then show ?thesis using g by (simp add: graph_chains_def)
qed

section \<open>Properties\<close>

text \<open>
  (C22) Compilation succeeds exactly when, in the order the sources are compiled, every name a
  statement depends on is assigned by an earlier statement and every node it depends on has a
  registered executor; otherwise it raises.
\<close>

theorem compile_succeeds_iff:
  assumes "distinct (map fst (chain_dedupe [] sorted_srcs srcs))"
  shows "(\<exists>g. compile_execution_graph ck sorted_srcs srcs = Inr g) \<longleftrightarrow>
    compilable ck {} (ordered_statements (chain_dedupe [] sorted_srcs srcs))"
proof -
  define ordered where "ordered = chain_dedupe [] sorted_srcs srcs"
  have "\<exists>g'. sort_sources ordered g = Inr g'"
    if "add_statements ck (ordered_statements ordered) empty_graph = Inr g" for g
    using sort_sources_ok [of ordered g] add_statements_roots [OF that] assms by (auto simp: ordered_def)
  then have "(\<exists>g. compile_execution_graph ck sorted_srcs srcs = Inr g) \<longleftrightarrow>
      (\<exists>g. add_statements ck (ordered_statements ordered) empty_graph = Inr g)"
    by (auto simp: compile_execution_graph_def add_sources_statements bindR_Inr_conv Let_def
        simp flip: ordered_def)
  then show ?thesis by (simp add: add_statements_iff empty_graph_def ordered_def)
qed

text \<open>
  (C21) The chains compiled for a source are the chains of its statements and everything they
  depend on, across sources, without repetition and each after its dependencies; different
  chains have different identities.
\<close>

theorem compiled_chains_sorted:
  assumes "compile_execution_graph ck sorted_srcs srcs = Inr g"
    and "distinct (map fst (chain_dedupe [] sorted_srcs srcs))"
    and "distinct (tree_ids (ordered_statements (chain_dedupe [] sorted_srcs srcs)))"
    and "list_all is_statement (ordered_statements (chain_dedupe [] sorted_srcs srcs))"
    and "(path, root) \<in> set sorted_srcs \<union> set srcs"
  shows "\<exists>srt. map_of (sorted_dependency_chains g) path = Some srt \<and>
    distinct (map chain_id srt) \<and> deps_before srt \<and>
    executor_node ` set (statement_chains g root) = set (statements_of root) \<and>
    set srt = (\<Union>c \<in> set (statement_chains g root). set (subchains c))"
proof -
  define ordered where "ordered = chain_dedupe [] sorted_srcs srcs"
  from compile_cases [OF assms(1,2)] obtain g1 where
    g1: "add_statements ck (ordered_statements ordered) empty_graph = Inr g1"
    and g: "root_node_executor_mapping g = root_node_executor_mapping g1"
    "assignment_executor_mapping g = assignment_executor_mapping g1"
    "map_of (sorted_dependency_chains g) path = Some (topologically_sort_chains (statement_chains g root))"
    using assms(5) by (auto simp: ordered_def)
  note cons = compiled_consistent [OF assms(1-3)]
  have mem: "set (statements_of root) \<subseteq> set (ordered_statements ordered)"
    using assms(5) chain_dedupe_ok [of "[]" sorted_srcs srcs]
    by (force simp: ordered_statements_def ordered_def)
  have nodes: "\<exists>c. map_of (root_node_executor_mapping g) (nid s) = Some c \<and> executor_node c = s"
    if "s \<in> set (statements_of root)" for s
    using add_statements_nodes [OF g1 statement_ids_distinct] assms(3,4) that mem g(1)
    by (auto simp: ordered_def)
  have exec: "executor_node ` set (statement_chains g root) = set (statements_of root)"
    unfolding statement_chains_def set_map image_image
  proof (rule trans [OF image_cong [OF refl] image_ident])
    fix s assume "s \<in> set (statements_of root)"
    from nodes [OF this] show "executor_node (the (map_of (root_node_executor_mapping g) (nid s))) = s"
      by auto
  qed
  have "set (statement_chains g root) \<subseteq> ran (map_of (root_node_executor_mapping g))"
    using nodes by (force simp: statement_chains_def ran_def)
  then have "set (topologically_sort_chains (statement_chains g root)) \<subseteq> graph_chains g"
    using topologically_sort_chains_ok [of "statement_chains g root"] by (auto simp: graph_chains_def)
  with cons topologically_sort_chains_ok [of "statement_chains g root"]
  have "distinct (map chain_id (topologically_sort_chains (statement_chains g root)))"
    by (simp add: distinct_map consistent_def sort_ok_def inj_on_subset)
  with g(3) exec topologically_sort_chains_ok [of "statement_chains g root"] show ?thesis
    by (simp add: sort_ok_def)
qed

section \<open>Concrete inputs\<close>

text \<open>Two sources: the entry point uses a feature that the other one defines.\<close>

definition demo_lib :: source where
  "demo_lib = (''lib.sml'', Root (demo_meta 1)
     [Assign (demo_meta 2) (Name (demo_meta 3) ''X'' Store) (Number (demo_meta 4) (IntN 1)) None])"

definition demo_main :: source where
  "demo_main = (''main.sml'', Root (demo_meta 11)
     [Assign (demo_meta 12) (Name (demo_meta 13) ''Y'' Store)
        (BinaryOperation (demo_meta 14) (Name (demo_meta 15) ''X'' Load) (Number (demo_meta 16) (IntN 2))
           (Operator (demo_meta 17) Add)) None])"

definition demo_egraph :: execution_graph where
  "demo_egraph = (case compile_execution_graph (\<lambda>_ _. False) [demo_lib] [demo_main, demo_lib] of
     Inr g \<Rightarrow> g | Inl _ \<Rightarrow> empty_graph)"

lemma demo_egraph_eval:
  "compile_execution_graph (\<lambda>_ _. False) [demo_lib] [demo_main, demo_lib] = Inr demo_egraph"
  by code_simp

lemma demo_sources_ok:
  "distinct (map fst (chain_dedupe [] [demo_lib] [demo_main, demo_lib]))"
  "distinct (tree_ids (ordered_statements (chain_dedupe [] [demo_lib] [demo_main, demo_lib])))"
  "list_all is_statement (ordered_statements (chain_dedupe [] [demo_lib] [demo_main, demo_lib]))"
  by code_simp+

theorem compile_succeeds_iff_witness:
  "distinct (map fst (chain_dedupe [] [demo_lib] [demo_main, demo_lib])) \<and>
   compilable (\<lambda>_ _. False) {} (ordered_statements (chain_dedupe [] [demo_lib] [demo_main, demo_lib]))"
  using compile_succeeds_iff [OF demo_sources_ok(1)] demo_egraph_eval demo_sources_ok(1) by blast

theorem compiled_chains_sorted_witness:
  "\<exists>srt. map_of (sorted_dependency_chains demo_egraph) ''main.sml'' = Some srt \<and>
     distinct (map chain_id srt) \<and> deps_before srt"
proof -
  have "(fst demo_main, snd demo_main) \<in> set [demo_lib] \<union> set [demo_main, demo_lib]" by simp
  from compiled_chains_sorted [OF demo_egraph_eval demo_sources_ok this] show ?thesis
    by (auto simp: demo_main_def)
qed

end
