(* ===== verification/Node_Executors.thy ===== *)
theory Node_Executors
  imports Grammar
begin

text \<open>
  Run-time values and the node executors of \<open>executor/node_executor/\<close>. Integers, booleans, strings
  and lists behave as Python defines them; what needs floating-point arithmetic, the text of a
  float or of an object, or the full format mini-language is a parameter. Strings are sequences
  of 8-bit characters.
\<close>

section \<open>Values\<close>

datatype pyval =
  VNone
| VBool bool
| VInt int
| VFloat "64 word"
| VStr string
| VList "pyval list"
| VConv string pyval  \<comment> \<open>a \<open>PostExecutionConvertible\<close>: its class, and what it converts to\<close>
| VObj string nat

record py_env =
  float_op :: "operator \<Rightarrow> pyval \<Rightarrow> pyval \<Rightarrow> pyval result"
  float_neg :: "pyval \<Rightarrow> pyval result"
  float_eq :: "pyval \<Rightarrow> pyval \<Rightarrow> bool"
  float_cmp :: "comparator \<Rightarrow> pyval \<Rightarrow> pyval \<Rightarrow> bool result"
  obj_str :: "pyval \<Rightarrow> string"
  format_field :: "string \<Rightarrow> (string, pyval) dict \<Rightarrow> string result"

definition truthy :: "pyval \<Rightarrow> bool" where
  "truthy v = (case v of
     VNone \<Rightarrow> False | VBool b \<Rightarrow> b | VInt i \<Rightarrow> i \<noteq> 0 | VFloat w \<Rightarrow> w \<noteq> 0 \<and> w \<noteq> 0x8000000000000000
   | VStr s \<Rightarrow> s \<noteq> [] | VList xs \<Rightarrow> xs \<noteq> [] | _ \<Rightarrow> True)"

text \<open>A boolean is an integer.\<close>

definition as_int :: "pyval \<Rightarrow> int option" where
  "as_int v = (case v of VBool b \<Rightarrow> Some (if b then 1 else 0) | VInt i \<Rightarrow> Some i | _ \<Rightarrow> None)"

definition is_float :: "pyval \<Rightarrow> bool" where
  "is_float v = (case v of VFloat _ \<Rightarrow> True | _ \<Rightarrow> False)"

section \<open>Binary and unary operators\<close>

unbundle bit_operations_syntax

definition int_op :: "py_env \<Rightarrow> operator \<Rightarrow> int \<Rightarrow> int \<Rightarrow> pyval result" where
  "int_op env op a b =
     (case op of
        Add \<Rightarrow> Inr (VInt (a + b))
      | Subtract \<Rightarrow> Inr (VInt (a - b))
      | Multiply \<Rightarrow> Inr (VInt (a * b))
      | Divide \<Rightarrow> if b = 0 then Inl ZeroDivisionError else float_op env Divide (VInt a) (VInt b)
      | FloorDivide \<Rightarrow> if b = 0 then Inl ZeroDivisionError else Inr (VInt (a div b))
      | Modulo \<Rightarrow> if b = 0 then Inl ZeroDivisionError else Inr (VInt (a mod b))
      | PowOp \<Rightarrow>
          if b \<ge> 0 then Inr (VInt (a ^ nat b))
          else if a = 0 then Inl ZeroDivisionError else float_op env PowOp (VInt a) (VInt b)
      | LeftShift \<Rightarrow>
          if b < 0 then Inl (ValueError ''negative shift count'') else Inr (VInt (push_bit (nat b) a))
      | RightShift \<Rightarrow>
          if b < 0 then Inl (ValueError ''negative shift count'') else Inr (VInt (drop_bit (nat b) a))
      | BitwiseOr \<Rightarrow> Inr (VInt (a OR b))
      | BitwiseXor \<Rightarrow> Inr (VInt (a XOR b))
      | BitwiseAnd \<Rightarrow> Inr (VInt (a AND b)))"

definition bool_op :: "py_env \<Rightarrow> operator \<Rightarrow> bool \<Rightarrow> bool \<Rightarrow> pyval result" where
  "bool_op env op a b =
     (case op of
        BitwiseOr \<Rightarrow> Inr (VBool (a \<or> b))
      | BitwiseXor \<Rightarrow> Inr (VBool (a \<noteq> b))
      | BitwiseAnd \<Rightarrow> Inr (VBool (a \<and> b))
      | _ \<Rightarrow> int_op env op (if a then 1 else 0) (if b then 1 else 0))"

definition repeat_list :: "int \<Rightarrow> 'a list \<Rightarrow> 'a list" where
  "repeat_list k xs = concat (replicate (nat k) xs)"

definition binary_operator :: "py_env \<Rightarrow> operator \<Rightarrow> pyval \<Rightarrow> pyval \<Rightarrow> pyval result" where
  "binary_operator env op a b =
     (case (a, b) of
        (VBool x, VBool y) \<Rightarrow> bool_op env op x y
      | (VStr s, VStr t) \<Rightarrow>
          if op = Add then Inr (VStr (s @ t))
          else if op = Modulo then float_op env op a b else Inl (TypeError ''unsupported operand'')
      | (VList s, VList t) \<Rightarrow> if op = Add then Inr (VList (s @ t)) else Inl (TypeError ''unsupported operand'')
      | _ \<Rightarrow>
          (case (as_int a, as_int b) of
             (Some i, Some j) \<Rightarrow> int_op env op i j
           | (Some i, None) \<Rightarrow>
               (if is_float b then float_op env op a b
                else case b of
                  VStr s \<Rightarrow> if op = Multiply then Inr (VStr (repeat_list i s)) else Inl (TypeError ''unsupported operand'')
                | VList s \<Rightarrow> if op = Multiply then Inr (VList (repeat_list i s)) else Inl (TypeError ''unsupported operand'')
                | _ \<Rightarrow> Inl (TypeError ''unsupported operand''))
           | (None, Some j) \<Rightarrow>
               (if is_float a then float_op env op a b
                else case a of
                  VStr s \<Rightarrow> if op = Multiply then Inr (VStr (repeat_list j s))
                    else if op = Modulo then float_op env op a b else Inl (TypeError ''unsupported operand'')
                | VList s \<Rightarrow> if op = Multiply then Inr (VList (repeat_list j s)) else Inl (TypeError ''unsupported operand'')
                | _ \<Rightarrow> Inl (TypeError ''unsupported operand''))
           | (None, None) \<Rightarrow>
               (if is_float a \<and> is_float b then float_op env op a b
                else case a of
                  VStr s \<Rightarrow> if op = Modulo then float_op env op a b else Inl (TypeError ''unsupported operand'')
                | _ \<Rightarrow> Inl (TypeError ''unsupported operand''))))"

definition unary_operator_value :: "py_env \<Rightarrow> unary_operator \<Rightarrow> pyval \<Rightarrow> pyval result" where
  "unary_operator_value env op v =
     (case op of
        NotOp \<Rightarrow> Inr (VBool (\<not> truthy v))
      | USub \<Rightarrow>
          (case as_int v of
             Some i \<Rightarrow> Inr (VInt (- i))
           | None \<Rightarrow> if is_float v then float_neg env v else Inl (TypeError ''bad operand type for unary -'')))"

section \<open>Comparisons\<close>

definition list_items :: "pyval \<Rightarrow> pyval list option" where
  "list_items v = (case v of VList xs \<Rightarrow> Some xs | _ \<Rightarrow> None)"

lemma list_items_size: "list_items v = Some xs \<Longrightarrow> x \<in> set xs \<Longrightarrow> size x < size v"
  by (cases v) (auto simp: list_items_def dest!: size_list_estimation' [OF _ order_refl, of _ _ size])

text \<open>\<open>==\<close> of two values that are not both lists.\<close>

definition scalar_eq :: "py_env \<Rightarrow> pyval \<Rightarrow> pyval \<Rightarrow> bool" where
  "scalar_eq env a b =
     (if is_float a \<or> is_float b then float_eq env a b
      else case as_int a of
             Some i \<Rightarrow> as_int b = Some i
           | None \<Rightarrow> a = b)"

function py_eq :: "py_env \<Rightarrow> pyval \<Rightarrow> pyval \<Rightarrow> bool" where
  "py_eq env a b =
     (case list_items a of
        None \<Rightarrow> scalar_eq env a b
      | Some xs \<Rightarrow>
          (case list_items b of
             None \<Rightarrow> False
           | Some ys \<Rightarrow> length xs = length ys \<and> list_all (\<lambda>(x, y). py_eq env x y) (zip xs ys)))"
  by pat_completeness auto
termination by (relation "measure (\<lambda>(env, a, b). size a)")
    (auto dest: set_zip_leftD list_items_size)

declare py_eq.simps [simp del]

fun str_less :: "string \<Rightarrow> string \<Rightarrow> bool" where
  "str_less [] [] = False"
| "str_less [] (y # ys) = True"
| "str_less (x # xs) [] = False"
| "str_less (x # xs) (y # ys) =
     (if (of_char x :: nat) = of_char y then str_less xs ys else (of_char x :: nat) < of_char y)"

definition order_holds :: "comparator \<Rightarrow> bool \<Rightarrow> bool \<Rightarrow> bool" where
  "order_holds c lt eq = (case c of
     LessThan \<Rightarrow> lt | LessThanEquals \<Rightarrow> lt \<or> eq | GreaterThan \<Rightarrow> \<not> lt \<and> \<not> eq
   | GreaterThanEquals \<Rightarrow> \<not> lt | _ \<Rightarrow> False)"

text \<open>The operators \<open>lt\<close>, \<open>le\<close>, \<open>gt\<close> and \<open>ge\<close>; lists are compared at the first item that differs.\<close>

definition scalar_order :: "py_env \<Rightarrow> comparator \<Rightarrow> pyval \<Rightarrow> pyval \<Rightarrow> bool result" where
  "scalar_order env c a b =
     (if is_float a \<or> is_float b then float_cmp env c a b
      else case as_int a of
             Some i \<Rightarrow> (case as_int b of Some j \<Rightarrow> Inr (order_holds c (i < j) (i = j))
                           | None \<Rightarrow> Inl (TypeError ''not supported between instances''))
           | None \<Rightarrow>
               (case a of
                  VStr s \<Rightarrow> (case b of VStr t \<Rightarrow> Inr (order_holds c (str_less s t) (s = t))
                                | _ \<Rightarrow> Inl (TypeError ''not supported between instances''))
                | VConv _ _ \<Rightarrow> float_cmp env c a b
                | VObj _ _ \<Rightarrow> float_cmp env c a b
                | _ \<Rightarrow> Inl (TypeError ''not supported between instances'')))"

function py_order :: "py_env \<Rightarrow> comparator \<Rightarrow> pyval \<Rightarrow> pyval \<Rightarrow> bool result" where
  "py_order env c a b =
     (case list_items a of
        None \<Rightarrow> scalar_order env c a b
      | Some xs \<Rightarrow>
          (case list_items b of
             None \<Rightarrow> scalar_order env c a b
           | Some ys \<Rightarrow>
               (case dropWhile (\<lambda>(x, y). py_eq env x y) (zip xs ys) of
                  [] \<Rightarrow> Inr (order_holds c (length xs < length ys) (length xs = length ys))
                | p # _ \<Rightarrow> py_order env c (fst p) (snd p))))"
  by pat_completeness auto
termination
proof (relation "measure (\<lambda>(env, c, a, b). size a)")
  fix env c a b xs ys p ps
  assume xs: "list_items a = Some xs"
    and "dropWhile (\<lambda>(x, y). py_eq env x y) (zip xs ys) = p # ps"
  then have "p \<in> set (zip xs ys)" by (metis list.set_intros(1) set_dropWhileD)
  then have "fst p \<in> set xs" by (metis prod.collapse set_zip_leftD)
  then show "((env, c, fst p, snd p), env, c, a, b) \<in> measure (\<lambda>(env, c, a, b). size a)"
    using list_items_size [OF xs] by (cases p) simp
qed simp

declare py_order.simps [simp del]

fun is_substring :: "string \<Rightarrow> string \<Rightarrow> bool" where
  "is_substring s [] = (s = [])"
| "is_substring s (c # cs) = (take (length s) (c # cs) = s \<or> is_substring s cs)"

text \<open>The guarded \<open>in\<close> of the comparison executor.\<close>

definition in_operator :: "py_env \<Rightarrow> pyval \<Rightarrow> pyval \<Rightarrow> bool result" where
  "in_operator env a b =
     (if a = VNone \<and> (b = VNone \<or> (case b of VList xs \<Rightarrow> VNone \<in> set xs | _ \<Rightarrow> False)) then Inr True
      else if a = VNone \<or> b = VNone then Inr False
      else case b of
        VList xs \<Rightarrow> Inr (list_ex (py_eq env a) xs)
      | VStr t \<Rightarrow> (case a of VStr s \<Rightarrow> Inr (is_substring s t)
                     | _ \<Rightarrow> Inl (TypeError ''in <string> requires string as left operand''))
      | _ \<Rightarrow> Inl (TypeError ''argument is not iterable''))"

definition comparator_value :: "py_env \<Rightarrow> comparator \<Rightarrow> pyval \<Rightarrow> pyval \<Rightarrow> bool result" where
  "comparator_value env c a b =
     (case c of
        Equals \<Rightarrow> Inr (py_eq env a b)
      | NotEquals \<Rightarrow> Inr (\<not> py_eq env a b)
      | In \<Rightarrow> in_operator env a b
      | NotIn \<Rightarrow> bindR (in_operator env a b) (\<lambda>r. Inr (\<not> r))
      | _ \<Rightarrow> py_order env c a b)"

definition left_can_be_none :: "comparator \<Rightarrow> bool" where
  "left_can_be_none c \<longleftrightarrow> c \<in> {In, NotIn, Equals, NotEquals}"

definition right_can_be_none :: "comparator \<Rightarrow> bool" where
  "right_can_be_none c \<longleftrightarrow> c \<in> {Equals, NotEquals}"

definition handles_none_comparison :: "comparator \<Rightarrow> bool" where
  "handles_none_comparison c \<longleftrightarrow> c \<in> {LessThan, LessThanEquals, GreaterThan, GreaterThanEquals}"

section \<open>Format strings\<close>

fun nat_digits :: "nat \<Rightarrow> string" where
  "nat_digits n = (if n < 10 then [char_of (48 + n)] else nat_digits (n div 10) @ [char_of (48 + n mod 10)])"

declare nat_digits.simps [simp del]

definition py_str :: "py_env \<Rightarrow> pyval \<Rightarrow> string" where
  "py_str env v = (case v of
     VNone \<Rightarrow> ''None'' | VBool b \<Rightarrow> (if b then ''True'' else ''False'')
   | VInt i \<Rightarrow> (if i < 0 then ''-'' @ nat_digits (nat (- i)) else nat_digits (nat i))
   | VStr s \<Rightarrow> s | _ \<Rightarrow> obj_str env v)"

definition is_digit_char :: "char \<Rightarrow> bool" where
  "is_digit_char c \<longleftrightarrow> 48 \<le> (of_char c :: nat) \<and> (of_char c :: nat) \<le> 57"

text \<open>
  A replacement field: an empty or numeric field needs positional arguments, of which there are
  none; conversions, format specs, attributes, items and nested fields are left to the parameter.
\<close>

definition replacement_field :: "py_env \<Rightarrow> (string, pyval) dict \<Rightarrow> string \<Rightarrow> string result" where
  "replacement_field env args fld =
     (if list_ex (\<lambda>c. c \<in> set ''!:.[{'') fld then format_field env fld args
      else if list_all is_digit_char fld then Inl IndexError
      else case map_of args fld of None \<Rightarrow> Inl KeyError | Some v \<Rightarrow> Inr (py_str env v))"

function py_format :: "(string \<Rightarrow> string result) \<Rightarrow> string \<Rightarrow> string result" where
  "py_format rep [] = Inr []"
| "py_format rep (c # cs) =
     (if c = CHR ''{'' then
        (case cs of
           [] \<Rightarrow> Inl (ValueError ''Single '{' encountered in format string'')
         | d # ds \<Rightarrow>
             if d = CHR ''{'' then bindR (py_format rep ds) (\<lambda>r. Inr (CHR ''{'' # r))
             else if CHR ''}'' \<notin> set cs then Inl (ValueError ''expected '}' before end of string'')
             else bindR (rep (takeWhile (\<lambda>x. x \<noteq> CHR ''}'') cs)) (\<lambda>t.
                  bindR (py_format rep (drop 1 (dropWhile (\<lambda>x. x \<noteq> CHR ''}'') cs))) (\<lambda>r. Inr (t @ r))))
      else if c = CHR ''}'' then
        (case cs of
           d # ds \<Rightarrow> if d = CHR ''}'' then bindR (py_format rep ds) (\<lambda>r. Inr (CHR ''}'' # r))
                      else Inl (ValueError ''Single '}' encountered in format string'')
         | [] \<Rightarrow> Inl (ValueError ''Single '}' encountered in format string''))
      else bindR (py_format rep cs) (\<lambda>r. Inr (c # r)))"
  by pat_completeness auto
termination
proof (relation "measure (\<lambda>(rep, s). length s)")
  fix rep :: "string \<Rightarrow> string result" and c cs d ds t
  have "length (drop 1 (dropWhile (\<lambda>x. x \<noteq> CHR ''}'') cs)) \<le> length (dropWhile (\<lambda>x. x \<noteq> CHR ''}'') cs)"
    by simp
  also have "\<dots> \<le> length cs" by (rule length_dropWhile_le)
  finally show "((rep, drop 1 (dropWhile (\<lambda>x. x \<noteq> CHR ''}'') cs)), rep, c # cs) \<in> measure (\<lambda>(rep, s). length s)"
    by simp
qed simp_all

declare py_format.simps(2) [simp del]

section \<open>Node executors\<close>

text \<open>
  \<open>resolve n b\<close> is \<open>execution_context.resolved(n, return_none_for_failed_values=b)\<close>. \<open>all\<close> and
  \<open>any\<close> stop at the first value that decides the result.
\<close>

type_synonym resolver = "ast_node \<Rightarrow> bool \<Rightarrow> pyval result"

fun all_values :: "resolver \<Rightarrow> ast_node list \<Rightarrow> bool result" where
  "all_values resolve [] = Inr True"
| "all_values resolve (n # ns) =
     bindR (resolve n True) (\<lambda>v. if truthy v then all_values resolve ns else Inr False)"

fun any_value :: "resolver \<Rightarrow> ast_node list \<Rightarrow> bool result" where
  "any_value resolve [] = Inr False"
| "any_value resolve (n # ns) =
     bindR (resolve n True) (\<lambda>v. if truthy v then Inr True else any_value resolve ns)"

definition execute_boolean_operation :: "resolver \<Rightarrow> ast_node list \<Rightarrow> boolean_operand \<Rightarrow> pyval result" where
  "execute_boolean_operation resolve vs op =
     bindR (case op of And \<Rightarrow> all_values resolve vs | Or \<Rightarrow> any_value resolve vs) (\<lambda>b. Inr (VBool b))"

definition execute_binary_comparison :: "py_env \<Rightarrow> resolver \<Rightarrow> ast_node \<Rightarrow> ast_node \<Rightarrow> comparator \<Rightarrow> pyval result" where
  "execute_binary_comparison env resolve l r c =
     bindR (resolve l (left_can_be_none c)) (\<lambda>a.
     bindR (resolve r (right_can_be_none c)) (\<lambda>b.
       if handles_none_comparison c \<and> (a = VNone \<or> b = VNone) then Inr (VBool False)
       else bindR (comparator_value env c a b) (\<lambda>x. Inr (VBool x))))"

fun name_identifier :: "ast_node \<Rightarrow> string" where
  "name_identifier (Name _ i _) = i"
| "name_identifier _ = []"

definition execute_format_string :: "py_env \<Rightarrow> resolver \<Rightarrow> string \<Rightarrow> ast_node list \<Rightarrow> pyval result" where
  "execute_format_string env resolve fmt names =
     bindR (mapR (\<lambda>n. bindR (resolve n False) (\<lambda>v. Inr (name_identifier n, v))) names) (\<lambda>kvs.
     bindR (py_format (replacement_field env (rev kvs)) fmt) (\<lambda>s. Inr (VStr s)))"

text \<open>The executors of the nodes that neither store an output nor call a UDF.\<close>

definition execute_pure :: "py_env \<Rightarrow> resolver \<Rightarrow> ast_node \<Rightarrow> pyval result" where
  "execute_pure env resolve n =
     (case n of
        StringLit _ s \<Rightarrow> Inr (VStr s)
      | Number _ k \<Rightarrow> Inr (case k of IntN i \<Rightarrow> VInt i | FloatN w \<Rightarrow> VFloat w)
      | Boolean _ b \<Rightarrow> Inr (VBool b)
      | NoneLit _ \<Rightarrow> Inr VNone
      | ListLit _ items \<Rightarrow> bindR (mapR (\<lambda>x. resolve x False) items) (\<lambda>vs. Inr (VList vs))
      | FormatString _ fmt names \<Rightarrow> execute_format_string env resolve fmt names
      | BinaryOperation _ l r (Operator _ op) \<Rightarrow>
          bindR (resolve l False) (\<lambda>a. bindR (resolve r False) (\<lambda>b. binary_operator env op a b))
      | UnaryOperation _ x (UnaryOperator _ op) \<Rightarrow>
          bindR (resolve x False) (\<lambda>v. unary_operator_value env op v)
      | BinaryComparison _ l r (Comparator _ c) \<Rightarrow> execute_binary_comparison env resolve l r c
      | BooleanOperation _ vs (BooleanOperand _ op) \<Rightarrow> execute_boolean_operation resolve vs op
      | Name _ _ _ \<Rightarrow> resolve n False
      | _ \<Rightarrow> Inl KeyError)"

section \<open>Formatting\<close>

text \<open>A format string as its author wrote it: text, and names in braces.\<close>

datatype format_part = Text string | Field string

fun render_part :: "format_part \<Rightarrow> string" where
  "render_part (Text s) = s"
| "render_part (Field i) = ''{'' @ i @ ''}''"

fun fill_part :: "py_env \<Rightarrow> (string, pyval) dict \<Rightarrow> format_part \<Rightarrow> string" where
  "fill_part env args (Text s) = s"
| "fill_part env args (Field i) = py_str env (the (map_of args i))"

definition is_identifier :: "string \<Rightarrow> bool" where
  "is_identifier i \<longleftrightarrow> i \<noteq> [] \<and> \<not> is_digit_char (hd i) \<and> set i \<inter> set ''!:.[{}'' = {}"

fun part_ok :: "(string, pyval) dict \<Rightarrow> format_part \<Rightarrow> bool" where
  "part_ok args (Text s) = (set s \<inter> set ''{}'' = {})"
| "part_ok args (Field i) = (is_identifier i \<and> i \<in> set (keys args))"

lemma py_format_text:
  "set s \<inter> set ''{}'' = {} \<Longrightarrow> py_format rep (s @ t) = bindR (py_format rep t) (\<lambda>r. Inr (s @ r))"
  by (induction s) (auto simp: py_format.simps(2) bindR_def split: sum.splits)

lemma py_format_field:
  assumes "i \<noteq> []" and "CHR ''{'' \<notin> set i" and "CHR ''}'' \<notin> set i"
  shows "py_format rep (''{'' @ i @ ''}'' @ t) =
    bindR (rep i) (\<lambda>x. bindR (py_format rep t) (\<lambda>r. Inr (x @ r)))"
proof -
  obtain d ds where i: "i = d # ds" using assms(1) by (cases i) auto
  have "takeWhile (\<lambda>x. x \<noteq> CHR ''}'') (i @ CHR ''}'' # t) = i"
    "dropWhile (\<lambda>x. x \<noteq> CHR ''}'') (i @ CHR ''}'' # t) = CHR ''}'' # t"
    using assms(3) by (auto simp: takeWhile_append dropWhile_append)
  then show ?thesis using assms i by (auto simp: py_format.simps(2))
qed

lemma replacement_field_name:
  assumes "is_identifier i" and "map_of args i = Some v"
  shows "replacement_field env args i = Inr (py_str env v)"
proof -
  obtain d ds where i: "i = d # ds" using assms(1) by (cases i) (auto simp: is_identifier_def)
  have "\<not> list_ex (\<lambda>c. c \<in> set ''!:.[{'') i" using assms(1) by (auto simp: is_identifier_def list_ex_iff)
  moreover have "\<not> list_all is_digit_char i" using assms(1) i by (simp add: is_identifier_def)
  ultimately show ?thesis using assms(2) by (simp add: replacement_field_def)
qed

section \<open>Properties\<close>

text \<open>
  Formatting a string made of brace-free text and of names in braces replaces every name by
  the text of its value and keeps everything else.
\<close>

theorem format_correct:
  assumes "\<And>p. p \<in> set parts \<Longrightarrow> part_ok args p"
  shows "py_format (replacement_field env args) (concat (map render_part parts)) =
    Inr (concat (map (fill_part env args) parts))"
  using assms
proof (induction parts)
  case (Cons p parts)
  then have IH: "py_format (replacement_field env args) (concat (map render_part parts)) =
      Inr (concat (map (fill_part env args) parts))" and p: "part_ok args p" by simp_all
  show ?case
  proof (cases p)
    case (Text s)
    with p IH py_format_text [of s] show ?thesis by simp
  next
    case (Field i)
    with p obtain v where v: "map_of args i = Some v" using keys_map_of [of i args] by auto
    from Field p have "i \<noteq> []" "CHR ''{'' \<notin> set i" "CHR ''}'' \<notin> set i" by (auto simp: is_identifier_def)
    with Field v p IH py_format_field [of i] replacement_field_name [of i args v env] show ?thesis by simp
  qed
qed simp

text \<open>
  A boolean operation whose operands can be resolved never fails; failed operands, which
  resolve to \<open>None\<close>, count as false.
\<close>

theorem boolean_operation_total:
  assumes "\<And>n. n \<in> set vs \<Longrightarrow> resolve n True = Inr (val n)"
  shows "execute_boolean_operation resolve vs op =
    Inr (VBool (case op of And \<Rightarrow> \<forall>n \<in> set vs. truthy (val n) | Or \<Rightarrow> \<exists>n \<in> set vs. truthy (val n)))"
proof -
  have "all_values resolve vs = Inr (\<forall>n \<in> set vs. truthy (val n))"
    "any_value resolve vs = Inr (\<exists>n \<in> set vs. truthy (val n))"
    using assms by (induction vs) auto
  then show ?thesis by (cases op) (simp_all add: execute_boolean_operation_def)
qed

text \<open>
  A comparison never raises because of \<open>None\<close>: an ordering with a \<open>None\<close> operand is false,
  equality and membership treat \<open>None\<close> as a value.
\<close>

theorem comparison_with_none:
  assumes "resolve l (left_can_be_none c) = Inr a" and "resolve r (right_can_be_none c) = Inr b"
    and "a = VNone \<or> b = VNone"
  shows "\<exists>x. execute_binary_comparison env resolve l r c = Inr (VBool x) \<and>
    (handles_none_comparison c \<longrightarrow> \<not> x) \<and>
    (c = In \<longrightarrow> x = (a = VNone \<and> (b = VNone \<or> (\<exists>xs. b = VList xs \<and> VNone \<in> set xs))))"
  using assms
  by (cases c) (auto simp: execute_binary_comparison_def handles_none_comparison_def
      comparator_value_def in_operator_def split: pyval.splits)

section \<open>Concrete inputs\<close>

definition demo_env :: py_env where
  "demo_env = \<lparr>float_op = \<lambda>_ _ _. Inl (TypeError ''float''), float_neg = \<lambda>_. Inl (TypeError ''float''),
     float_eq = (=), float_cmp = \<lambda>_ _ _. Inl (TypeError ''float''), obj_str = \<lambda>_. ''<object>'',
     format_field = \<lambda>_ _. Inl (ValueError ''format'')\<rparr>"

theorem format_correct_witness:
  "py_format (replacement_field demo_env [(''Id'', VInt 42)]) ''user {Id}!'' = Inr ''user 42!''"
proof -
  have "py_format (replacement_field demo_env [(''Id'', VInt 42)])
      (concat (map render_part [Text ''user '', Field ''Id'', Text ''!''])) =
    Inr (concat (map (fill_part demo_env [(''Id'', VInt 42)]) [Text ''user '', Field ''Id'', Text ''!'']))"
    by (rule format_correct) (auto simp: is_identifier_def is_digit_char_def)
  moreover have "concat (map (fill_part demo_env [(''Id'', VInt 42)]) [Text ''user '', Field ''Id'', Text ''!'']) =
      ''user 42!''" by code_simp
  ultimately show ?thesis by simp
qed

theorem boolean_operation_total_witness:
  "execute_boolean_operation (\<lambda>_ _. Inr VNone) [NoneLit (demo_meta 0)] Or = Inr (VBool False)"
  by (subst boolean_operation_total [of _ _ "\<lambda>_. VNone"]) (simp_all add: truthy_def)

theorem comparison_with_none_witness:
  "execute_binary_comparison demo_env (\<lambda>_ _. Inr VNone) (NoneLit (demo_meta 0)) (NoneLit (demo_meta 1)) LessThan =
     Inr (VBool False)"
  using comparison_with_none [of "\<lambda>_ _. Inr VNone" "NoneLit (demo_meta 0)" LessThan VNone
      "NoneLit (demo_meta 1)" VNone demo_env]
  by (auto simp: handles_none_comparison_def)

end
