(* ===== verification/Executor.thy ===== *)
theory Executor
  imports Topo_Sorter Execution_Graph Node_Executors "HOL-Library.Multiset"
begin

text \<open>
  The execution context (\<open>executor/execution_context.py\<close>) and the executor
  (\<open>executor/executor.py\<close>). The UDFs are a parameter: a UDF is a record of which
  keyword arguments are constant expressions, which accept \<open>None\<close>, what executing it returns, which
  effects it adds and which sources it enqueues, in that order, and the dynamic check of its result.
\<close>

section \<open>Context\<close>

datatype node_result = Ok pyval | Err

record udf_outcome =
  out_effects :: "pyval list"
  out_sources :: "string list"
  out_result :: "pyval result"

record udf =
  udf_execute_async :: bool
  udf_const_kwarg :: "string \<Rightarrow> bool"
  udf_kwarg_can_be_none :: "string \<Rightarrow> bool"
  udf_static_arguments :: "(string, pyval) dict"
  udf_resolve_override :: "(resolver \<Rightarrow> (string, ast_node) dict \<Rightarrow> (string, pyval) dict result) option"
  udf_execute :: "resolver \<Rightarrow> (string, pyval) dict \<Rightarrow> udf_outcome"
  udf_check_result_type :: "pyval \<Rightarrow> pyval result"

record config =
  execution_graph_of :: execution_graph
  udf_of :: "nat \<Rightarrow> udf"
  env_of :: py_env
  annotations_of :: annotations
  nodes_to_unwrap :: "nat \<Rightarrow> bool"

record exec_context =
  resolved_node_values :: "(nat, node_result) dict"
  outputs :: "(string, pyval) dict"
  effects :: "(string, pyval list) dict"
  dependency_dag :: "nat sorter"
  chain_by_id :: "(nat, chain) dict"
  error_infos :: "(py_exc \<times> nat) list"

definition empty_context :: exec_context where
  "empty_context = \<lparr>resolved_node_values = [], outputs = [], effects = [],
     dependency_dag = empty_sorter, chain_by_id = [], error_infos = []\<rparr>"

text \<open>The node that resolves a name is the assignment it is loaded from.\<close>

definition get_name_node :: "config \<Rightarrow> ast_node \<Rightarrow> ast_node result" where
  "get_name_node cfg n =
     (case loaded_name n of
        None \<Rightarrow> Inl (AssertionError ''name.context'')
      | Some k \<Rightarrow> (case map_of (assignment_executor_mapping (execution_graph_of cfg)) k of
                      None \<Rightarrow> Inl KeyError | Some c \<Rightarrow> Inr (executor_node c)))"

definition unwrap_value :: "bool \<Rightarrow> pyval \<Rightarrow> pyval result" where
  "unwrap_value should_unwrap v =
     (if should_unwrap then (case v of VConv _ w \<Rightarrow> Inr w | _ \<Rightarrow> Inl (AssertionError ''PostExecutionConvertible''))
      else Inr v)"

definition resolved :: "config \<Rightarrow> (nat, node_result) dict \<Rightarrow> resolver" where
  "resolved cfg vals n return_none =
     bindR (if is_name n then get_name_node cfg n else Inr n) (\<lambda>m.
       case map_of vals (nid m) of
         None \<Rightarrow> Inl KeyError
       | Some (Ok v) \<Rightarrow> unwrap_value (nodes_to_unwrap cfg (nid n)) v
       | Some Err \<Rightarrow> if return_none then Inr VNone else Inl NodeFailurePropagationException)"

definition set_output_value :: "string \<Rightarrow> pyval \<Rightarrow> exec_context \<Rightarrow> exec_context" where
  "set_output_value k v ctx = ctx\<lparr>outputs := AList.update k v (outputs ctx)\<rparr>"

fun effect_class :: "pyval \<Rightarrow> string" where
  "effect_class (VObj c _) = c"
| "effect_class (VConv c _) = c"
| "effect_class _ = ''''"

definition add_effect :: "pyval \<Rightarrow> exec_context \<Rightarrow> exec_context" where
  "add_effect e ctx =
     (let old = (case map_of (effects ctx) (effect_class e) of None \<Rightarrow> [] | Some es \<Rightarrow> es) in
      ctx\<lparr>effects := AList.update (effect_class e) (old @ [e]) (effects ctx)\<rparr>)"

text \<open>
  \<open>UDFBase.resolve_arguments\<close>: the dependent arguments in order, a failed one as \<open>None\<close> when the
  argument class allows it, on top of the arguments that were resolved statically. A UDF may
  override it.
\<close>

fun resolve_items :: "(string \<Rightarrow> bool) \<Rightarrow> resolver \<Rightarrow> (string, ast_node) dict \<Rightarrow> (string, pyval) dict result" where
  "resolve_items can_be_none res [] = Inr []"
| "resolve_items can_be_none res ((k, n) # d) =
     bindR (res n (can_be_none k)) (\<lambda>v. bindR (resolve_items can_be_none res d) (\<lambda>vs. Inr ((k, v) # vs)))"

definition udf_resolve_arguments :: "udf \<Rightarrow> resolver \<Rightarrow> (string, ast_node) dict \<Rightarrow> (string, pyval) dict result" where
  "udf_resolve_arguments u res d =
     (case udf_resolve_override u of
        Some f \<Rightarrow> f res d
      | None \<Rightarrow> bindR (resolve_items (udf_kwarg_can_be_none u) res d) (\<lambda>vs.
          Inr (foldl (\<lambda>acc (k, v). AList.update k v acc) (udf_static_arguments u) vs)))"

text \<open>\<open>enqueue_source\<close>: the loop over the sorted chains of the source, then \<open>prepare\<close>.\<close>

fun enqueue_chains :: "chain list \<Rightarrow> exec_context \<Rightarrow> exec_context result" where
  "enqueue_chains [] ctx = Inr ctx"
| "enqueue_chains (c # cs) ctx =
     (if already_added (dependency_dag ctx) (chain_id c) then enqueue_chains cs ctx
      else bindR (add (dependency_dag ctx) (chain_id c) (map chain_id (dependent_on c))) (\<lambda>dag.
             enqueue_chains cs (ctx\<lparr>dependency_dag := dag,
               chain_by_id := AList.update (chain_id c) c (chain_by_id ctx)\<rparr>)))"

definition enqueue_source :: "config \<Rightarrow> string \<Rightarrow> exec_context \<Rightarrow> exec_context result" where
  "enqueue_source cfg path ctx =
     (case map_of (sorted_dependency_chains (execution_graph_of cfg)) path of
        None \<Rightarrow> Inl KeyError
      | Some cs \<Rightarrow> bindR (enqueue_chains cs ctx) (\<lambda>ctx1.
          Inr (ctx1\<lparr>dependency_dag := prepare (dependency_dag ctx1)\<rparr>)))"

fun lookup_chains :: "(nat, chain) dict \<Rightarrow> nat list \<Rightarrow> chain list result" where
  "lookup_chains d [] = Inr []"
| "lookup_chains d (i # is) =
     (case map_of d i of None \<Rightarrow> Inl KeyError
      | Some c \<Rightarrow> bindR (lookup_chains d is) (\<lambda>cs. Inr (c # cs)))"

definition get_ready_to_execute :: "exec_context \<Rightarrow> (chain list \<times> exec_context) result" where
  "get_ready_to_execute ctx =
     bindR (get_ready (dependency_dag ctx)) (\<lambda>(ids, dag).
     bindR (lookup_chains (chain_by_id ctx) ids) (\<lambda>cs. Inr (cs, ctx\<lparr>dependency_dag := dag\<rparr>)))"

definition set_resolved_value :: "chain \<Rightarrow> node_result \<Rightarrow> exec_context \<Rightarrow> exec_context result" where
  "set_resolved_value c r ctx =
     bindR (done_nodes (dependency_dag ctx) [chain_id c]) (\<lambda>dag.
       Inr (ctx\<lparr>resolved_node_values := AList.update (chain_id c) r (resolved_node_values ctx),
                dependency_dag := dag\<rparr>))"

section \<open>Executing a node\<close>

fun enqueue_sources :: "config \<Rightarrow> string list \<Rightarrow> exec_context \<Rightarrow> py_exc option \<times> exec_context" where
  "enqueue_sources cfg [] ctx = (None, ctx)"
| "enqueue_sources cfg (p # ps) ctx =
     (case enqueue_source cfg p ctx of
        Inl e \<Rightarrow> (Some e, ctx)
      | Inr ctx1 \<Rightarrow> enqueue_sources cfg ps ctx1)"

definition execute_call :: "config \<Rightarrow> meta \<Rightarrow> ast_node list \<Rightarrow> exec_context \<Rightarrow> pyval result \<times> exec_context" where
  "execute_call cfg m args ctx =
     (let u = udf_of cfg (node_id m);
          res = resolved cfg (resolved_node_values ctx)
      in case udf_resolve_arguments u res (get_dependent_node_dict (udf_const_kwarg u) args) of
           Inl e \<Rightarrow> (Inl e, ctx)
         | Inr resolved_arguments \<Rightarrow>
             (let o1 = udf_execute u res resolved_arguments;
                  ctx1 = foldl (\<lambda>ctx e. add_effect e ctx) ctx (out_effects o1);
                  (err, ctx2) = enqueue_sources cfg (out_sources o1) ctx1
              in (case err of Some e \<Rightarrow> Inl e | None \<Rightarrow> bindR (out_result o1) (udf_check_result_type u), ctx2)))"

definition execute_assign :: "config \<Rightarrow> ast_node \<Rightarrow> string \<Rightarrow> ast_node \<Rightarrow> exec_context \<Rightarrow> pyval result \<times> exec_context" where
  "execute_assign cfg n target v ctx =
     (let res = resolved cfg (resolved_node_values ctx) in
      case res v True of
        Inl e \<Rightarrow> (Inl e, ctx)
      | Inr maybe_error \<Rightarrow>
          (case should_extract (annotations_of cfg) n of
             Inl e \<Rightarrow> (Inl e, ctx)
           | Inr b \<Rightarrow> (res v False, if b then set_output_value target maybe_error ctx else ctx)))"

definition execute_node :: "config \<Rightarrow> ast_node \<Rightarrow> exec_context \<Rightarrow> pyval result \<times> exec_context" where
  "execute_node cfg n ctx =
     (case n of
        Assign m t v a \<Rightarrow> execute_assign cfg n (name_identifier t) v ctx
      | Call m f args \<Rightarrow> execute_call cfg m args ctx
      | _ \<Rightarrow> (execute_pure (env_of cfg) (resolved cfg (resolved_node_values ctx)) n, ctx))"

text \<open>\<open>_wrapped_execution\<close>: an exception becomes \<open>Err\<close> and is recorded unless it only propagates.\<close>

definition wrapped_execution :: "config \<Rightarrow> chain \<Rightarrow> exec_context \<Rightarrow> node_result \<times> exec_context" where
  "wrapped_execution cfg c ctx =
     (case execute_node cfg (executor_node c) ctx of
        (Inr v, ctx1) \<Rightarrow> (Ok v, ctx1)
      | (Inl e, ctx1) \<Rightarrow>
          (Err, if e = NodeFailurePropagationException then ctx1
                else ctx1\<lparr>error_infos := error_infos ctx1 @ [(e, nid (executor_node c))]\<rparr>))"

section \<open>The loop without a pool\<close>

fun run_sync :: "config \<Rightarrow> chain list \<Rightarrow> exec_context \<Rightarrow> exec_context result" where
  "run_sync cfg [] ctx = Inr ctx"
| "run_sync cfg (c # cs) ctx =
     (let (r, ctx1) = wrapped_execution cfg c ctx in
      bindR (set_resolved_value c r ctx1) (run_sync cfg cs))"

partial_function (option) execute_loop :: "config \<Rightarrow> chain list \<Rightarrow> exec_context \<Rightarrow> exec_context result option" where
  "execute_loop cfg ready_sync ctx =
     (if ready_sync = [] then Some (Inr ctx)
      else case run_sync cfg ready_sync ctx of
             Inl e \<Rightarrow> Some (Inl e)
           | Inr ctx1 \<Rightarrow>
               (case get_ready_to_execute ctx1 of
                  Inl e \<Rightarrow> Some (Inl e)
                | Inr r \<Rightarrow> execute_loop cfg (fst r) (snd r)))"

definition SOURCE_ENTRY_POINT_PATH :: string where
  "SOURCE_ENTRY_POINT_PATH = ''main.sml''"

definition init_context :: "config \<Rightarrow> exec_context result" where
  "init_context cfg = enqueue_source cfg SOURCE_ENTRY_POINT_PATH empty_context"

definition execute :: "config \<Rightarrow> exec_context result option" where
  "execute cfg =
     (case init_context cfg of
        Inl e \<Rightarrow> Some (Inl e)
      | Inr ctx \<Rightarrow>
          (case get_ready_to_execute ctx of
             Inl e \<Rightarrow> Some (Inl e)
           | Inr r \<Rightarrow> execute_loop cfg (fst r) (snd r)))"

section \<open>The context and its scheduler\<close>

text \<open>The chains the graph has for its sources, and the dependencies of a chain by identity.\<close>

definition all_chains :: "execution_graph \<Rightarrow> chain set" where
  "all_chains g = (\<Union>cs \<in> ran (map_of (sorted_dependency_chains g)). set cs)"

definition chain_at :: "execution_graph \<Rightarrow> nat \<Rightarrow> chain" where
  "chain_at g = inv_into (all_chains g) chain_id"

definition chain_deps :: "execution_graph \<Rightarrow> nat \<Rightarrow> nat list" where
  "chain_deps g i = map chain_id (dependent_on (chain_at g i))"

definition good_graph :: "execution_graph \<Rightarrow> bool" where
  "good_graph g \<longleftrightarrow> (\<forall>cs \<in> ran (map_of (sorted_dependency_chains g)). sort_ok cs) \<and>
     consistent (all_chains g)"

lemma chain_at_id: "good_graph g \<Longrightarrow> c \<in> all_chains g \<Longrightarrow> chain_at g (chain_id c) = c"
  by (simp add: chain_at_def good_graph_def consistent_def)

lemma chain_deps_id:
  "good_graph g \<Longrightarrow> c \<in> all_chains g \<Longrightarrow> chain_deps g (chain_id c) = map chain_id (dependent_on c)"
  by (simp add: chain_deps_def chain_at_id)

lemma finite_all_chains: "finite (all_chains g)"
  unfolding all_chains_def by (rule finite_UN_I) (simp_all add: finite_ran finite_dom_map_of)

abbreviation dag_nodes :: "exec_context \<Rightarrow> nat set" where
  "dag_nodes ctx \<equiv> sorter_nodes (dependency_dag ctx)"

abbreviation dag_running :: "exec_context \<Rightarrow> nat set" where
  "dag_running ctx \<equiv> with_status NODE_OUT (dependency_dag ctx)"

abbreviation dag_finished :: "exec_context \<Rightarrow> nat set" where
  "dag_finished ctx \<equiv> with_status NODE_DONE (dependency_dag ctx)"

definition ctx_core :: "config \<Rightarrow> nat list \<Rightarrow> exec_context \<Rightarrow> bool" where
  "ctx_core cfg h ctx \<longleftrightarrow> sched_ok (chain_deps (execution_graph_of cfg)) h (dependency_dag ctx) \<and>
     set (keys (chain_by_id ctx)) = dag_nodes ctx \<and>
     (\<forall>i c. map_of (chain_by_id ctx) i = Some c \<longrightarrow> chain_id c = i \<and> c \<in> all_chains (execution_graph_of cfg)) \<and>
     set (keys (resolved_node_values ctx)) = dag_finished ctx"

definition ctx_ok :: "config \<Rightarrow> nat list \<Rightarrow> exec_context \<Rightarrow> bool" where
  "ctx_ok cfg h ctx \<longleftrightarrow> ctx_core cfg h ctx \<and> \<not> needs_prepare (dependency_dag ctx)"

text \<open>What an operation that only enqueues keeps of the context.\<close>

definition enqueues :: "exec_context \<Rightarrow> exec_context \<Rightarrow> bool" where
  "enqueues ctx ctx' \<longleftrightarrow> resolved_node_values ctx' = resolved_node_values ctx \<and>
     dag_nodes ctx \<subseteq> dag_nodes ctx' \<and> dag_running ctx' = dag_running ctx \<and>
     dag_finished ctx' = dag_finished ctx"

lemma enqueues_refl [simp]: "enqueues ctx ctx"
  by (simp add: enqueues_def)

lemma enqueues_trans: "enqueues a b \<Longrightarrow> enqueues b c \<Longrightarrow> enqueues a c"
  by (auto simp: enqueues_def)

lemma enqueue_chains_ok:
  assumes "good_graph (execution_graph_of cfg)" and "ctx_core cfg h ctx"
    and "set cs \<subseteq> all_chains (execution_graph_of cfg)" and "distinct cs"
    and "\<And>c d. c \<in> set cs \<Longrightarrow> d \<in> set (dependent_on c) \<Longrightarrow> chain_id d \<in> dag_nodes ctx \<or> before cs d c"
  shows "\<exists>ctx'. enqueue_chains cs ctx = Inr ctx' \<and> ctx_core cfg h ctx' \<and> enqueues ctx ctx' \<and>
    dag_nodes ctx' = dag_nodes ctx \<union> chain_id ` set cs"
  using assms(2-)
proof (induction cs arbitrary: ctx)
  case (Cons c cs)
  let ?deps = "chain_deps (execution_graph_of cfg)"
  have c: "c \<in> all_chains (execution_graph_of cfg)" using Cons.prems(2) by simp
  have first: "chain_id d \<in> dag_nodes ctx" if "d \<in> set (dependent_on c)" for d
    using Cons.prems(3) Cons.prems(4) [of c d] that before_in_set [of cs d c] by (auto simp: before_Cons)
  have rest: "chain_id d \<in> insert (chain_id c) (dag_nodes ctx) \<or> before cs d e"
    if "e \<in> set cs" "d \<in> set (dependent_on e)" for d e
    using Cons.prems(4) [of e d] that by (auto simp: before_Cons)
  show ?case
  proof (cases "already_added (dependency_dag ctx) (chain_id c)")
    case True
    then have mem: "chain_id c \<in> dag_nodes ctx" by (simp add: already_added_def sorter_nodes_def)
    with Cons.IH [OF Cons.prems(1)] Cons.prems(2,3) rest True show ?thesis
      by (auto simp: insert_absorb)
  next
    case False
    then have new: "chain_id c \<notin> dag_nodes ctx" by (simp add: already_added_def sorter_nodes_def)
    have "set (?deps (chain_id c)) \<subseteq> dag_nodes ctx"
      using first by (auto simp: chain_deps_id [OF assms(1) c])
    with topo.add_law [of ?deps h "dependency_dag ctx" "chain_id c"] new Cons.prems(1) obtain dag where
      dag: "add (dependency_dag ctx) (chain_id c) (?deps (chain_id c)) = Inr dag" "sched_ok ?deps h dag"
      "sorter_nodes dag = insert (chain_id c) (dag_nodes ctx)" "with_status NODE_OUT dag = dag_running ctx"
      "with_status NODE_DONE dag = dag_finished ctx"
      by (auto simp: ctx_core_def)
    define ctx1 where "ctx1 = ctx\<lparr>dependency_dag := dag,
      chain_by_id := AList.update (chain_id c) c (chain_by_id ctx)\<rparr>"
    have core: "ctx_core cfg h ctx1"
      using Cons.prems(1) dag c by (auto simp: ctx_core_def ctx1_def dict_simps simp del: set_map)
    have enq: "enqueues ctx ctx1" using dag by (auto simp: enqueues_def ctx1_def)
    have nodes: "dag_nodes ctx1 = insert (chain_id c) (dag_nodes ctx)" using dag by (simp add: ctx1_def)
    from Cons.IH [OF core] Cons.prems(2,3) rest nodes obtain ctx' where
      "enqueue_chains cs ctx1 = Inr ctx'" "ctx_core cfg h ctx'" "enqueues ctx1 ctx'"
      "dag_nodes ctx' = dag_nodes ctx1 \<union> chain_id ` set cs" by auto
    moreover have "enqueue_chains (c # cs) ctx = enqueue_chains cs ctx1"
      using False dag(1) by (simp add: chain_deps_id [OF assms(1) c] ctx1_def)
    ultimately show ?thesis using enqueues_trans [OF enq] nodes by auto
  qed
qed simp

lemma enqueue_source_ok:
  assumes "good_graph (execution_graph_of cfg)" and "ctx_core cfg h ctx"
    and "map_of (sorted_dependency_chains (execution_graph_of cfg)) path = Some cs"
  shows "\<exists>ctx'. enqueue_source cfg path ctx = Inr ctx' \<and> ctx_ok cfg h ctx' \<and> enqueues ctx ctx' \<and>
    dag_nodes ctx' = dag_nodes ctx \<union> chain_id ` set cs"
proof -
  have cs: "cs \<in> ran (map_of (sorted_dependency_chains (execution_graph_of cfg)))"
    using assms(3) by (auto simp: ran_def)
  then have "set cs \<subseteq> all_chains (execution_graph_of cfg)" by (auto simp: all_chains_def)
  moreover have "distinct cs" using cs assms(1) by (auto simp: good_graph_def sort_ok_def)
  moreover have "chain_id d \<in> dag_nodes ctx \<or> before cs d c"
    if "c \<in> set cs" "d \<in> set (dependent_on c)" for c d
    using cs assms(1) that by (auto simp: good_graph_def sort_ok_def deps_before_def)
  ultimately obtain ctx1 where ctx1: "enqueue_chains cs ctx = Inr ctx1" "ctx_core cfg h ctx1"
    "enqueues ctx ctx1" "dag_nodes ctx1 = dag_nodes ctx \<union> chain_id ` set cs"
    using enqueue_chains_ok [OF assms(1,2), of cs] by blast
  let ?ctx' = "ctx1\<lparr>dependency_dag := prepare (dependency_dag ctx1)\<rparr>"
  from ctx1(2) topo.prepare_law [of _ h "dependency_dag ctx1"] have
    "ctx_ok cfg h ?ctx'" "enqueues ctx1 ?ctx'" "dag_nodes ?ctx' = dag_nodes ctx1"
    by (auto simp: ctx_core_def ctx_ok_def enqueues_def)
  with ctx1 assms(3) enqueues_trans [of ctx ctx1 ?ctx'] show ?thesis
    by (auto simp: enqueue_source_def)
qed

subsection \<open>Executing a node only enqueues\<close>

lemma ctx_ok_cong:
  assumes "dependency_dag ctx' = dependency_dag ctx" and "chain_by_id ctx' = chain_by_id ctx"
    and "resolved_node_values ctx' = resolved_node_values ctx"
  shows "ctx_ok cfg h ctx' = ctx_ok cfg h ctx" "enqueues ctx ctx'"
  using assms by (simp_all add: ctx_ok_def ctx_core_def enqueues_def)

definition known_source :: "config \<Rightarrow> string \<Rightarrow> bool" where
  "known_source cfg p \<longleftrightarrow> map_of (sorted_dependency_chains (execution_graph_of cfg)) p \<noteq> None"

definition source_ids :: "config \<Rightarrow> string \<Rightarrow> nat set" where
  "source_ids cfg p =
     (case map_of (sorted_dependency_chains (execution_graph_of cfg)) p of None \<Rightarrow> {}
      | Some cs \<Rightarrow> chain_id ` set cs)"

lemma enqueue_sources_ok:
  assumes "good_graph (execution_graph_of cfg)" and "ctx_ok cfg h ctx"
  shows "ctx_ok cfg h (snd (enqueue_sources cfg ps ctx)) \<and> enqueues ctx (snd (enqueue_sources cfg ps ctx)) \<and>
    fst (enqueue_sources cfg ps ctx) = (if list_all (known_source cfg) ps then None else Some KeyError) \<and>
    dag_nodes (snd (enqueue_sources cfg ps ctx)) =
      dag_nodes ctx \<union> (\<Union>p \<in> set (takeWhile (known_source cfg) ps). source_ids cfg p)"
  using assms(2)
proof (induction ps arbitrary: ctx)
  case (Cons p ps)
  show ?case
  proof (cases "map_of (sorted_dependency_chains (execution_graph_of cfg)) p")
    case None
    then show ?thesis using Cons.prems by (simp add: enqueue_source_def known_source_def)
  next
    case (Some cs)
    have "ctx_core cfg h ctx" using Cons.prems by (simp add: ctx_ok_def)
    from enqueue_source_ok [OF assms(1) this Some] obtain ctx1 where
      ctx1: "enqueue_source cfg p ctx = Inr ctx1" "ctx_ok cfg h ctx1" "enqueues ctx ctx1"
      "dag_nodes ctx1 = dag_nodes ctx \<union> source_ids cfg p"
      by (auto simp: source_ids_def Some)
    from Cons.IH [OF ctx1(2)] ctx1 Some show ?thesis
      by (auto simp: known_source_def intro: enqueues_trans)
  qed
qed simp

lemma add_effects_frame:
  "dependency_dag (foldl (\<lambda>ctx e. add_effect e ctx) ctx es) = dependency_dag ctx"
  "chain_by_id (foldl (\<lambda>ctx e. add_effect e ctx) ctx es) = chain_by_id ctx"
  "resolved_node_values (foldl (\<lambda>ctx e. add_effect e ctx) ctx es) = resolved_node_values ctx"
  by (induction es arbitrary: ctx) (simp_all add: add_effect_def Let_def)

lemma execute_call_ok:
  assumes "good_graph (execution_graph_of cfg)" and "ctx_ok cfg h ctx"
  shows "ctx_ok cfg h (snd (execute_call cfg m args ctx)) \<and> enqueues ctx (snd (execute_call cfg m args ctx))"
proof -
  define res where "res = resolved cfg (resolved_node_values ctx)"
  define u where "u = udf_of cfg (node_id m)"
  show ?thesis
  proof (cases "udf_resolve_arguments u res (get_dependent_node_dict (udf_const_kwarg u) args)")
    case (Inl e)
    then show ?thesis using assms(2) by (simp add: execute_call_def Let_def flip: res_def u_def)
  next
    case (Inr vs)
    define ctx1 where "ctx1 = foldl (\<lambda>ctx e. add_effect e ctx) ctx (out_effects (udf_execute u res vs))"
    have "ctx_ok cfg h ctx1" "enqueues ctx ctx1"
      using assms(2) ctx_ok_cong [of ctx1 ctx] add_effects_frame by (simp_all add: ctx1_def)
    moreover have "snd (execute_call cfg m args ctx) =
        snd (enqueue_sources cfg (out_sources (udf_execute u res vs)) ctx1)"
      using Inr by (simp add: execute_call_def Let_def split_beta ctx1_def flip: res_def u_def)
    ultimately show ?thesis
      using enqueue_sources_ok [OF assms(1), of h ctx1] by (auto intro: enqueues_trans)
  qed
qed

lemma execute_assign_frame:
  "dependency_dag (snd (execute_assign cfg n t v ctx)) = dependency_dag ctx"
  "chain_by_id (snd (execute_assign cfg n t v ctx)) = chain_by_id ctx"
  "resolved_node_values (snd (execute_assign cfg n t v ctx)) = resolved_node_values ctx"
  by (auto simp: execute_assign_def Let_def set_output_value_def split: sum.splits)

lemma execute_node_ok:
  assumes "good_graph (execution_graph_of cfg)" and "ctx_ok cfg h ctx"
  shows "ctx_ok cfg h (snd (execute_node cfg n ctx)) \<and> enqueues ctx (snd (execute_node cfg n ctx))"
proof -
  have "ctx_ok cfg h (snd (execute_assign cfg n t v ctx))" "enqueues ctx (snd (execute_assign cfg n t v ctx))" for t v
    using assms(2) ctx_ok_cong [OF execute_assign_frame] by blast+
  then show ?thesis using assms(2) execute_call_ok [OF assms] by (cases n) (simp_all add: execute_node_def)
qed

lemma wrapped_execution_ok:
  assumes "good_graph (execution_graph_of cfg)" and "ctx_ok cfg h ctx"
    and "wrapped_execution cfg c ctx = (r, ctx')"
  shows "ctx_ok cfg h ctx'" "enqueues ctx ctx'"
    "r = (case fst (execute_node cfg (executor_node c) ctx) of Inl _ \<Rightarrow> Err | Inr v \<Rightarrow> Ok v)"
proof -
  define ctx1 where "ctx1 = snd (execute_node cfg (executor_node c) ctx)"
  have ok: "ctx_ok cfg h ctx1" "enqueues ctx ctx1"
    using execute_node_ok [OF assms(1,2)] by (simp_all add: ctx1_def)
  have same: "dependency_dag ctx' = dependency_dag ctx1 \<and> chain_by_id ctx' = chain_by_id ctx1 \<and>
      resolved_node_values ctx' = resolved_node_values ctx1"
    using assms(3) by (auto simp: wrapped_execution_def ctx1_def split: prod.splits sum.splits if_splits)
  then show "ctx_ok cfg h ctx'" using ctx_ok_cong(1) ok(1) by blast
  from same have "enqueues ctx1 ctx'" by (intro ctx_ok_cong(2)) simp_all
  then show "enqueues ctx ctx'" by (rule enqueues_trans [OF ok(2)])
  show "r = (case fst (execute_node cfg (executor_node c) ctx) of Inl _ \<Rightarrow> Err | Inr v \<Rightarrow> Ok v)"
    using assms(3) by (auto simp: wrapped_execution_def split: prod.splits sum.splits)
qed

subsection \<open>Handing out and resolving\<close>

lemma lookup_chains_ok:
  assumes "set is \<subseteq> set (keys d)" and "\<And>i c. map_of d i = Some c \<Longrightarrow> chain_id c = i"
  shows "\<exists>cs. lookup_chains d is = Inr cs \<and> map chain_id cs = is \<and> set cs \<subseteq> ran (map_of d)"
  using assms(1)
proof (induction "is")
  case (Cons i "is")
  then obtain c where c: "map_of d i = Some c" using keys_map_of [of i d] by auto
  with Cons assms(2) [OF c] show ?case by (auto simp: ran_def)
qed simp

definition ready_post :: "config \<Rightarrow> nat list \<Rightarrow> exec_context \<Rightarrow> chain list \<Rightarrow> exec_context \<Rightarrow> bool" where
  "ready_post cfg h ctx cs ctx' \<longleftrightarrow> ctx_ok cfg (h @ map chain_id cs) ctx' \<and>
     resolved_node_values ctx' = resolved_node_values ctx \<and>
     dag_nodes ctx' = dag_nodes ctx \<and> dag_running ctx' = dag_running ctx \<union> chain_id ` set cs \<and>
     dag_finished ctx' = dag_finished ctx \<and> distinct (map chain_id cs) \<and> chain_id ` set cs \<inter> set h = {} \<and>
     set cs \<subseteq> all_chains (execution_graph_of cfg) \<and>
     (cs = [] \<and> dag_running ctx = {} \<longrightarrow> dag_finished ctx = dag_nodes ctx)"

lemma get_ready_to_execute_ok:
  assumes "ctx_ok cfg h ctx"
  shows "\<exists>cs ctx'. get_ready_to_execute ctx = Inr (cs, ctx') \<and> ready_post cfg h ctx cs ctx'"
proof -
  let ?deps = "chain_deps (execution_graph_of cfg)"
  from assms have ok: "sched_ok ?deps h (dependency_dag ctx)" "\<not> needs_prepare (dependency_dag ctx)"
    by (simp_all add: ctx_ok_def ctx_core_def)
  from topo.next_ready_client [OF ok] obtain vs dag where
    r: "get_ready (dependency_dag ctx) = Inr (vs, dag)" "sched_ok ?deps (h @ vs) dag" "\<not> needs_prepare dag"
    "sorter_nodes dag = dag_nodes ctx" "with_status NODE_OUT dag = dag_running ctx \<union> set vs"
    "with_status NODE_DONE dag = dag_finished ctx" "distinct vs" "set vs \<inter> set h = {}" "set vs \<subseteq> dag_nodes ctx"
    "vs = [] \<and> dag_running ctx = {} \<longrightarrow> dag_finished ctx = dag_nodes ctx" by blast
  have "set vs \<subseteq> set (keys (chain_by_id ctx))" "\<And>i c. map_of (chain_by_id ctx) i = Some c \<Longrightarrow> chain_id c = i"
    using assms r(9) by (simp_all add: ctx_ok_def ctx_core_def)
  from lookup_chains_ok [OF this] obtain cs where
    cs: "lookup_chains (chain_by_id ctx) vs = Inr cs" "map chain_id cs = vs" "set cs \<subseteq> ran (map_of (chain_by_id ctx))"
    by blast
  have "set cs \<subseteq> all_chains (execution_graph_of cfg)"
    using cs(3) assms by (force simp: ctx_ok_def ctx_core_def ran_def)
  moreover have "ctx_ok cfg (h @ vs) (ctx\<lparr>dependency_dag := dag\<rparr>)"
    using assms r by (simp add: ctx_ok_def ctx_core_def)
  ultimately show ?thesis using r cs(1) unfolding cs(2) [symmetric]
    by (intro exI [of _ cs] exI [of _ "ctx\<lparr>dependency_dag := dag\<rparr>"]) (auto simp: get_ready_to_execute_def ready_post_def)
qed

lemma get_ready_to_execute_D:
  assumes "ctx_ok cfg h ctx" and "get_ready_to_execute ctx = Inr (cs, ctx')"
  shows "ctx_ok cfg (h @ map chain_id cs) ctx'" "resolved_node_values ctx' = resolved_node_values ctx"
    "dag_nodes ctx' = dag_nodes ctx" "dag_running ctx' = dag_running ctx \<union> chain_id ` set cs"
    "dag_finished ctx' = dag_finished ctx" "distinct (map chain_id cs)" "chain_id ` set cs \<inter> set h = {}"
    "set cs \<subseteq> all_chains (execution_graph_of cfg)"
    "cs = [] \<Longrightarrow> dag_running ctx = {} \<Longrightarrow> dag_finished ctx = dag_nodes ctx"
proof -
  have "ready_post cfg h ctx cs ctx'" using get_ready_to_execute_ok [OF assms(1)] assms(2) by simp
  then show "ctx_ok cfg (h @ map chain_id cs) ctx'" "resolved_node_values ctx' = resolved_node_values ctx"
    "dag_nodes ctx' = dag_nodes ctx" "dag_running ctx' = dag_running ctx \<union> chain_id ` set cs"
    "dag_finished ctx' = dag_finished ctx" "distinct (map chain_id cs)" "chain_id ` set cs \<inter> set h = {}"
    "set cs \<subseteq> all_chains (execution_graph_of cfg)"
    "cs = [] \<Longrightarrow> dag_running ctx = {} \<Longrightarrow> dag_finished ctx = dag_nodes ctx"
    unfolding ready_post_def by simp_all
qed

lemma set_resolved_value_ok:
  assumes "ctx_ok cfg h ctx" and "chain_id c \<in> dag_running ctx"
  shows "\<exists>ctx'. set_resolved_value c r ctx = Inr ctx' \<and> ctx_ok cfg h ctx' \<and>
    resolved_node_values ctx' = AList.update (chain_id c) r (resolved_node_values ctx) \<and>
    dag_nodes ctx' = dag_nodes ctx \<and> dag_running ctx' = dag_running ctx - {chain_id c} \<and>
    dag_finished ctx' = insert (chain_id c) (dag_finished ctx)"
proof -
  let ?deps = "chain_deps (execution_graph_of cfg)"
  from assms have ok: "sched_ok ?deps h (dependency_dag ctx)" "\<not> needs_prepare (dependency_dag ctx)"
    by (simp_all add: ctx_ok_def ctx_core_def)
  from topo.done_law [OF ok assms(2)] obtain dag where
    d: "done_nodes (dependency_dag ctx) [chain_id c] = Inr dag" "sched_ok ?deps h dag" "\<not> needs_prepare dag"
    "sorter_nodes dag = dag_nodes ctx" "with_status NODE_OUT dag = dag_running ctx - {chain_id c}"
    "with_status NODE_DONE dag = insert (chain_id c) (dag_finished ctx)" by blast
  with assms(1) show ?thesis
    by (auto simp: set_resolved_value_def ctx_ok_def ctx_core_def dict_simps simp del: set_map)
qed

lemma set_resolved_value_D:
  assumes "ctx_ok cfg h ctx" and "chain_id c \<in> dag_running ctx" and "set_resolved_value c r ctx = Inr ctx'"
  shows "ctx_ok cfg h ctx'"
    "resolved_node_values ctx' = AList.update (chain_id c) r (resolved_node_values ctx)"
    "dag_nodes ctx' = dag_nodes ctx" "dag_running ctx' = dag_running ctx - {chain_id c}"
    "dag_finished ctx' = insert (chain_id c) (dag_finished ctx)"
  using set_resolved_value_ok [OF assms(1,2), of r] assms(3) by simp_all

section \<open>Every schedule\<close>

text \<open>
  With a pool, asynchronous nodes run in greenlets whose bodies and whose results are interleaved
  with everything else the executor does. The step relation allows every interleaving: chains that
  were handed out wait until they are executed, a result that was computed is stored at any later
  time, and more chains may be handed out in between. The loop without a pool is one of the schedules.
\<close>

record engine =
  eng_ctx :: exec_context
  eng_waiting :: "chain list"
  eng_computed :: "(chain \<times> node_result) list"

inductive engine_step :: "config \<Rightarrow> engine \<Rightarrow> engine \<Rightarrow> bool" for cfg where
  step_ready: "get_ready_to_execute (eng_ctx st) = Inr (cs, ctx') \<Longrightarrow> cs \<noteq> [] \<Longrightarrow>
    engine_step cfg st (st\<lparr>eng_ctx := ctx', eng_waiting := eng_waiting st @ cs\<rparr>)"
| step_execute: "c \<in> set (eng_waiting st) \<Longrightarrow> wrapped_execution cfg c (eng_ctx st) = (r, ctx') \<Longrightarrow>
    engine_step cfg st (st\<lparr>eng_ctx := ctx', eng_waiting := remove1 c (eng_waiting st),
                           eng_computed := eng_computed st @ [(c, r)]\<rparr>)"
| step_finish: "(c, r) \<in> set (eng_computed st) \<Longrightarrow> set_resolved_value c r (eng_ctx st) = Inr ctx' \<Longrightarrow>
    engine_step cfg st (st\<lparr>eng_ctx := ctx', eng_computed := remove1 (c, r) (eng_computed st)\<rparr>)"

definition start_engine :: "exec_context \<Rightarrow> engine" where
  "start_engine ctx = \<lparr>eng_ctx = ctx, eng_waiting = [], eng_computed = []\<rparr>"

inductive engine_run :: "config \<Rightarrow> engine \<Rightarrow> bool" for cfg where
  run_init: "init_context cfg = Inr ctx \<Longrightarrow> engine_run cfg (start_engine ctx)"
| run_step: "engine_run cfg st \<Longrightarrow> engine_step cfg st st' \<Longrightarrow> engine_run cfg st'"

text \<open>The loop ends when nothing waits, nothing is in progress and nothing is ready.\<close>

definition engine_final :: "engine \<Rightarrow> bool" where
  "engine_final st \<longleftrightarrow> eng_waiting st = [] \<and> eng_computed st = [] \<and>
     (case get_ready_to_execute (eng_ctx st) of Inr (cs, _) \<Rightarrow> cs = [] | Inl _ \<Rightarrow> False)"

definition in_flight :: "engine \<Rightarrow> chain multiset" where
  "in_flight st = mset (eng_waiting st) + image_mset fst (mset (eng_computed st))"

definition engine_ok :: "config \<Rightarrow> nat list \<Rightarrow> engine \<Rightarrow> bool" where
  "engine_ok cfg h st \<longleftrightarrow> ctx_ok cfg h (eng_ctx st) \<and>
     image_mset chain_id (in_flight st) = mset_set (dag_running (eng_ctx st)) \<and>
     set_mset (in_flight st) \<subseteq> all_chains (execution_graph_of cfg)"

lemma ctx_ok_empty: "ctx_core cfg [] empty_context"
  using sched_start [of "chain_deps (execution_graph_of cfg)"]
  by (simp add: ctx_core_def empty_context_def sorter_nodes_def with_status_def status_def)
     (simp add: empty_sorter_def)

lemma init_context_ok:
  assumes "good_graph (execution_graph_of cfg)" and "known_source cfg SOURCE_ENTRY_POINT_PATH"
  shows "\<exists>ctx. init_context cfg = Inr ctx \<and> ctx_ok cfg [] ctx \<and> resolved_node_values ctx = [] \<and>
    dag_running ctx = {} \<and> dag_nodes ctx = source_ids cfg SOURCE_ENTRY_POINT_PATH"
proof -
  from assms(2) obtain cs where
    cs: "map_of (sorted_dependency_chains (execution_graph_of cfg)) SOURCE_ENTRY_POINT_PATH = Some cs"
    by (auto simp: known_source_def)
  have "dag_nodes empty_context = {}" "dag_running empty_context = {}" "resolved_node_values empty_context = []"
    by (simp_all add: empty_context_def empty_sorter_def sorter_nodes_def with_status_def status_def)
  with enqueue_source_ok [OF assms(1) ctx_ok_empty cs] show ?thesis
    by (auto simp: init_context_def enqueues_def source_ids_def cs)
qed

lemma finite_running [simp]: "finite (with_status k ts)"
  using finite_subset [OF with_status_nodes [of k ts] topo.finite_nodes] .

lemma in_flight_running:
  assumes "engine_ok cfg h st" and "c \<in># in_flight st"
  shows "chain_id c \<in> dag_running (eng_ctx st)"
proof -
  have "set_mset (image_mset chain_id (in_flight st)) = dag_running (eng_ctx st)"
    using assms(1) finite_running by (simp add: engine_ok_def del: set_image_mset)
  then show ?thesis using assms(2) by auto
qed

lemma engine_step_ok:
  assumes "good_graph (execution_graph_of cfg)" and "engine_step cfg st st'" and "engine_ok cfg h st"
  shows "\<exists>h'. engine_ok cfg h' st'"
  using assms(2,3)
proof (induction rule: engine_step.induct)
  case (step_ready st cs ctx')
  then have ok: "ctx_ok cfg h (eng_ctx st)" by (simp add: engine_ok_def)
  note r = get_ready_to_execute_D [OF ok step_ready(1)]
  from topo.handed_set [of _ h "dependency_dag (eng_ctx st)"] ok have
    "dag_running (eng_ctx st) \<subseteq> set h" by (auto simp: ctx_ok_def ctx_core_def)
  then have "dag_running (eng_ctx st) \<inter> chain_id ` set cs = {}" using r(7) by blast
  moreover have "image_mset chain_id (mset cs) = mset_set (chain_id ` set cs)"
    using mset_set_set [OF r(6)] by simp
  ultimately show ?case using step_ready(3) r(1,4,8)
    by (intro exI [of _ "h @ map chain_id cs"]) (simp add: engine_ok_def in_flight_def mset_set_Union)
next
  case (step_execute c st r ctx')
  have wr: "ctx_ok cfg h ctx'" "enqueues (eng_ctx st) ctx'"
    using wrapped_execution_ok(1,2) [OF assms(1) _ step_execute(2), of h] step_execute(3)
    by (simp_all add: engine_ok_def)
  have "mset (remove1 c (eng_waiting st)) + {#c#} = mset (eng_waiting st)" using step_execute(1) by simp
  then have "in_flight (st\<lparr>eng_ctx := ctx', eng_waiting := remove1 c (eng_waiting st),
      eng_computed := eng_computed st @ [(c, r)]\<rparr>) = in_flight st"
    by (simp add: in_flight_def)
  then show ?case using step_execute(3) wr by (intro exI [of _ h]) (simp add: engine_ok_def enqueues_def)
next
  case (step_finish c r st ctx')
  have c: "c \<in># in_flight st" using step_finish(1) by (force simp: in_flight_def)
  note run = in_flight_running [OF step_finish(3) c]
  have ctx: "ctx_ok cfg h (eng_ctx st)" using step_finish(3) by (simp add: engine_ok_def)
  note ctx' = set_resolved_value_D(1,4) [OF ctx run step_finish(2)]
  have "c \<in># image_mset fst (mset (eng_computed st))" using step_finish(1) by force
  from diff_union_single_conv [OF this, of "mset (eng_waiting st)"] step_finish(1)
  have "in_flight (st\<lparr>eng_ctx := ctx', eng_computed := remove1 (c, r) (eng_computed st)\<rparr>) = in_flight st - {#c#}"
    by (simp add: in_flight_def image_mset_Diff)
  then show ?case using step_finish(3) ctx' c run
    by (intro exI [of _ h]) (auto simp: engine_ok_def image_mset_Diff mset_set_Diff dest: in_diffD)
qed

lemma engine_run_ok:
  assumes "good_graph (execution_graph_of cfg)" and "known_source cfg SOURCE_ENTRY_POINT_PATH"
    and "engine_run cfg st"
  shows "\<exists>h. engine_ok cfg h st"
  using assms(3)
proof (induction rule: engine_run.induct)
  case (run_init ctx)
  then show ?case using init_context_ok [OF assms(1,2)]
    by (auto simp: engine_ok_def start_engine_def in_flight_def)
next
  case (run_step st st')
  then show ?case using engine_step_ok [OF assms(1)] by blast
qed

lemma engine_step_nodes:
  assumes "good_graph (execution_graph_of cfg)" and "engine_step cfg st st'" and "engine_ok cfg h st"
  shows "dag_nodes (eng_ctx st) \<subseteq> dag_nodes (eng_ctx st')"
  using assms(2,3)
proof (induction rule: engine_step.induct)
  case (step_ready st cs ctx')
  then show ?case using get_ready_to_execute_D(3) [OF _ step_ready(1), of cfg h] by (simp add: engine_ok_def)
next
  case (step_execute c st r ctx')
  then show ?case using wrapped_execution_ok(2) [OF assms(1) _ step_execute(2), of h]
    by (simp add: engine_ok_def enqueues_def)
next
  case (step_finish c r st ctx')
  have "c \<in># in_flight st" using step_finish(1) by (force simp: in_flight_def)
  from set_resolved_value_D(3) [OF _ in_flight_running [OF step_finish(3) this] step_finish(2), of cfg h] step_finish(3)
  show ?case by (simp add: engine_ok_def)
qed

lemma engine_run_entry:
  assumes "good_graph (execution_graph_of cfg)" and "known_source cfg SOURCE_ENTRY_POINT_PATH"
    and "engine_run cfg st"
  shows "source_ids cfg SOURCE_ENTRY_POINT_PATH \<subseteq> dag_nodes (eng_ctx st)"
  using assms(3)
proof (induction rule: engine_run.induct)
  case (run_init ctx)
  then show ?case using init_context_ok [OF assms(1,2)] by (auto simp: start_engine_def)
next
  case (run_step st st')
  from engine_run_ok [OF assms(1,2) run_step.hyps(1)] engine_step_nodes [OF assms(1) run_step.hyps(2)] run_step.IH
  show ?case by blast
qed

text \<open>Every step uses up a bounded resource, so that every schedule ends.\<close>

definition engine_measure :: "config \<Rightarrow> engine \<Rightarrow> nat" where
  "engine_measure cfg st =
     3 * card (chain_id ` all_chains (execution_graph_of cfg) - dag_running (eng_ctx st) - dag_finished (eng_ctx st))
     + 2 * length (eng_waiting st) + length (eng_computed st)"

lemma ctx_nodes_subset:
  assumes "ctx_ok cfg h ctx"
  shows "dag_nodes ctx \<subseteq> chain_id ` all_chains (execution_graph_of cfg)"
proof
  fix i assume "i \<in> dag_nodes ctx"
  then obtain c where "map_of (chain_by_id ctx) i = Some c"
    using assms keys_map_of [of i "chain_by_id ctx"] by (auto simp: ctx_ok_def ctx_core_def)
  with assms have "i = chain_id c" "c \<in> all_chains (execution_graph_of cfg)"
    by (auto simp: ctx_ok_def ctx_core_def)
  then show "i \<in> chain_id ` all_chains (execution_graph_of cfg)" by (rule image_eqI)
qed

lemma engine_step_measure:
  assumes "good_graph (execution_graph_of cfg)" and "engine_step cfg st st'" and "engine_ok cfg h st"
  shows "engine_measure cfg st' < engine_measure cfg st"
  using assms(2,3)
proof (induction rule: engine_step.induct)
  case (step_ready st cs ctx')
  then have ok: "ctx_ok cfg h (eng_ctx st)" by (simp add: engine_ok_def)
  let ?A = "chain_id ` all_chains (execution_graph_of cfg)"
  let ?U = "?A - dag_running (eng_ctx st) - dag_finished (eng_ctx st)"
  note r = get_ready_to_execute_D(4,6,5,7,8) [OF ok step_ready(1)]
  have "set h = dag_running (eng_ctx st) \<union> dag_finished (eng_ctx st)"
    using topo.handed_set [of _ h "dependency_dag (eng_ctx st)"] ok by (auto simp: ctx_ok_def ctx_core_def)
  then have sub: "chain_id ` set cs \<subseteq> ?U" using r(4,5) by auto
  have fin: "finite ?U" using finite_all_chains by blast
  have "card (chain_id ` set cs) = length cs" using distinct_card [OF r(2)] by simp
  with card_mono [OF fin sub] card_Diff_subset [OF _ sub]
  have "card (?U - chain_id ` set cs) = card ?U - length cs" "length cs \<le> card ?U" by auto
  moreover have "?A - dag_running ctx' - dag_finished ctx' = ?U - chain_id ` set cs"
    unfolding r by blast
  moreover have "length cs > 0" using step_ready(2) by simp
  ultimately show ?case by (simp add: engine_measure_def del: length_greater_0_conv)
next
  case (step_execute c st r ctx')
  have "enqueues (eng_ctx st) ctx'"
    using wrapped_execution_ok(2) [OF assms(1) _ step_execute(2), of h] step_execute(3)
    by (simp add: engine_ok_def)
  moreover have "length (eng_waiting st) > 0" using step_execute(1) by (cases "eng_waiting st") auto
  ultimately show ?case using step_execute(1)
    by (simp add: engine_measure_def enqueues_def length_remove1 del: length_greater_0_conv)
next
  case (step_finish c r st ctx')
  have "c \<in># in_flight st" using step_finish(1) by (force simp: in_flight_def)
  note run = in_flight_running [OF step_finish(3) this]
  have "ctx_ok cfg h (eng_ctx st)" using step_finish(3) by (simp add: engine_ok_def)
  note eff = set_resolved_value_D(4,5) [OF this run step_finish(2)]
  have "A - dag_running ctx' - dag_finished ctx' = A - dag_running (eng_ctx st) - dag_finished (eng_ctx st)" for A
    unfolding eff using run by auto
  moreover have "length (eng_computed st) > 0" using step_finish(1) by (cases "eng_computed st") auto
  ultimately show ?case using step_finish(1)
    by (simp add: engine_measure_def length_remove1 del: length_greater_0_conv)
qed

lemma engine_steps_measure:
  assumes "good_graph (execution_graph_of cfg)" and "(engine_step cfg)\<^sup>+\<^sup>+ st st'" and "engine_ok cfg h st"
  shows "engine_measure cfg st' < engine_measure cfg st"
proof -
  have "engine_measure cfg st' < engine_measure cfg st \<and> (\<exists>h'. engine_ok cfg h' st')"
    using assms(2)
  proof (induction rule: tranclp_induct)
    case (base st1)
    then show ?case using engine_step_measure engine_step_ok assms(1,3) by blast
  next
    case (step st1 st2)
    from step.IH obtain h1 where h1: "engine_ok cfg h1 st1" by blast
    from engine_step_measure [OF assms(1) step.hyps(2) h1] engine_step_ok [OF assms(1) step.hyps(2) h1] step.IH
    show ?case by (meson less_trans)
  qed
  then show ?thesis by blast
qed

lemma engine_progress:
  assumes "engine_ok cfg h st" and "\<not> engine_final st"
  shows "\<exists>st'. engine_step cfg st st'"
proof -
  have ok: "ctx_ok cfg h (eng_ctx st)" using assms(1) by (simp add: engine_ok_def)
  consider (w) c where "c \<in> set (eng_waiting st)" | (f) c r where "(c, r) \<in> set (eng_computed st)"
    | (r) "eng_waiting st = []" "eng_computed st = []"
    by (cases "eng_waiting st"; cases "eng_computed st") auto
  then show ?thesis
  proof cases
    case w
    then show ?thesis using step_execute [OF w] by (cases "wrapped_execution cfg c (eng_ctx st)") blast
  next
    case f
    then have "c \<in># in_flight st" by (force simp: in_flight_def)
    from set_resolved_value_ok [OF ok in_flight_running [OF assms(1) this], of r] obtain ctx' where
      "set_resolved_value c r (eng_ctx st) = Inr ctx'" by blast
    from step_finish [OF f this] show ?thesis by blast
  next
    case r
    from get_ready_to_execute_ok [OF ok] obtain cs ctx' where
      g: "get_ready_to_execute (eng_ctx st) = Inr (cs, ctx')" by blast
    with assms(2) r have "cs \<noteq> []" by (auto simp: engine_final_def)
    from step_ready [OF g this] show ?thesis by blast
  qed
qed

lemma engine_final_complete:
  assumes "engine_ok cfg h st" and "engine_final st"
  shows "dag_finished (eng_ctx st) = dag_nodes (eng_ctx st)" "dag_running (eng_ctx st) = {}"
    "set (keys (resolved_node_values (eng_ctx st))) = dag_nodes (eng_ctx st)"
proof -
  have ok: "ctx_ok cfg h (eng_ctx st)" using assms(1) by (simp add: engine_ok_def)
  have "mset_set (dag_running (eng_ctx st)) = {#}"
    using assms by (simp add: engine_ok_def engine_final_def in_flight_def)
  then show r: "dag_running (eng_ctx st) = {}" by (simp add: mset_set_empty_iff)
  obtain ctx' where g: "get_ready_to_execute (eng_ctx st) = Inr ([], ctx')"
    using assms(2) by (auto simp: engine_final_def split: sum.splits)
  show f: "dag_finished (eng_ctx st) = dag_nodes (eng_ctx st)"
    using get_ready_to_execute_D(9) [OF ok g] r by simp
  show "set (keys (resolved_node_values (eng_ctx st))) = dag_nodes (eng_ctx st)"
    using ok f by (simp add: ctx_ok_def ctx_core_def)
qed

subsection \<open>The loop without a pool is a schedule\<close>

definition sync_engine :: "chain list \<Rightarrow> exec_context \<Rightarrow> engine" where
  "sync_engine cs ctx = \<lparr>eng_ctx = ctx, eng_waiting = cs, eng_computed = []\<rparr>"

lemma sync_engine_simps [simp]:
  "eng_ctx (sync_engine cs ctx) = ctx" "eng_waiting (sync_engine cs ctx) = cs"
  "eng_computed (sync_engine cs ctx) = []" "start_engine ctx = sync_engine [] ctx"
  by (simp_all add: sync_engine_def start_engine_def)

lemma engine_steps_ok:
  assumes "good_graph (execution_graph_of cfg)" and "(engine_step cfg)\<^sup>*\<^sup>* st st'" and "engine_ok cfg h st"
  shows "\<exists>h'. engine_ok cfg h' st'"
  using assms(2,3) by (induction rule: rtranclp_induct) (auto dest: engine_step_ok [OF assms(1)])

lemma engine_steps_run: "(engine_step cfg)\<^sup>*\<^sup>* st st' \<Longrightarrow> engine_run cfg st \<Longrightarrow> engine_run cfg st'"
  by (induction rule: rtranclp_induct) (auto intro: run_step)

lemma run_sync_ok:
  assumes "good_graph (execution_graph_of cfg)" and "engine_ok cfg h (sync_engine cs ctx)"
  shows "\<exists>ctx'. run_sync cfg cs ctx = Inr ctx' \<and>
    (engine_step cfg)\<^sup>*\<^sup>* (sync_engine cs ctx) (sync_engine [] ctx')"
  using assms(2)
proof (induction cs arbitrary: h ctx)
  case (Cons c cs)
  obtain r ctx1 where w: "wrapped_execution cfg c ctx = (r, ctx1)" by (cases "wrapped_execution cfg c ctx")
  define st1 where "st1 = \<lparr>eng_ctx = ctx1, eng_waiting = cs, eng_computed = [(c, r)]\<rparr>"
  have s1: "engine_step cfg (sync_engine (c # cs) ctx) st1"
    using step_execute [of c "sync_engine (c # cs) ctx" cfg r ctx1] w by (simp add: st1_def sync_engine_def)
  from engine_step_ok [OF assms(1) s1 Cons.prems] obtain h1 where ok1: "engine_ok cfg h1 st1" by blast
  have "c \<in># in_flight st1" by (simp add: in_flight_def st1_def)
  from set_resolved_value_ok [OF _ in_flight_running [OF ok1 this], of cfg h1 r] ok1 obtain ctx2 where
    v: "set_resolved_value c r ctx1 = Inr ctx2" by (auto simp: engine_ok_def st1_def)
  have s2: "engine_step cfg st1 (sync_engine cs ctx2)"
    using step_finish [of c r st1 ctx2 cfg] v by (simp add: st1_def sync_engine_def)
  from engine_step_ok [OF assms(1) s2 ok1] Cons.IH obtain ctx' where
    "run_sync cfg cs ctx2 = Inr ctx'" "(engine_step cfg)\<^sup>*\<^sup>* (sync_engine cs ctx2) (sync_engine [] ctx')" by blast
  with s1 s2 w v show ?case by (auto intro: converse_rtranclp_into_rtranclp)
qed simp

lemma get_ready_nothing:
  assumes "get_ready_to_execute ctx = Inr ([], ctx')"
  shows "ctx' = ctx"
proof -
  obtain ids dag where g: "get_ready (dependency_dag ctx) = Inr (ids, dag)"
    "lookup_chains (chain_by_id ctx) ids = Inr []" "ctx' = ctx\<lparr>dependency_dag := dag\<rparr>"
    using assms by (auto simp: get_ready_to_execute_def bindR_Inr_conv)
  have "ids = []" using g(2) by (cases ids) (auto simp: bindR_Inr_conv split: option.splits)
  with g(1) have "ready_nodes (dependency_dag ctx) = []" "mark_out (dependency_dag ctx) [] = Inr (dependency_dag ctx)"
    by (auto simp: get_ready_def bindR_Inr_conv split: if_splits)
  with g(1) have "dag = dependency_dag ctx" by (auto simp: get_ready_def split: if_splits)
  with g(3) show ?thesis by simp
qed

lemma engine_step_sync_ready:
  assumes "get_ready_to_execute ctx = Inr (cs, ctx')"
  shows "(engine_step cfg)\<^sup>*\<^sup>* (sync_engine [] ctx) (sync_engine cs ctx')"
proof (cases "cs = []")
  case True
  then show ?thesis using get_ready_nothing [of ctx ctx'] assms by simp
next
  case False
  with step_ready [of "sync_engine [] ctx" cs ctx' cfg] assms show ?thesis
    by (auto simp: sync_engine_def)
qed

lemma execute_loop_ok:
  assumes "good_graph (execution_graph_of cfg)" and "engine_ok cfg h (sync_engine cs ctx)"
    and "cs = [] \<longrightarrow> get_ready_to_execute ctx = Inr ([], ctx)"
  shows "\<exists>ctx'. execute_loop cfg cs ctx = Some (Inr ctx') \<and>
    (engine_step cfg)\<^sup>*\<^sup>* (sync_engine cs ctx) (sync_engine [] ctx') \<and> engine_final (sync_engine [] ctx')"
  using assms(2,3)
proof (induction "engine_measure cfg (sync_engine cs ctx)" arbitrary: cs ctx h rule: less_induct)
  case less
  show ?case
  proof (cases "cs = []")
    case True
    with less.prems show ?thesis
      by (auto simp: execute_loop.simps [of cfg "[]"] engine_final_def)
  next
    case False
    from run_sync_ok [OF assms(1) less.prems(1)] obtain ctx1 where
      r: "run_sync cfg cs ctx = Inr ctx1" "(engine_step cfg)\<^sup>*\<^sup>* (sync_engine cs ctx) (sync_engine [] ctx1)" by blast
    from engine_steps_ok [OF assms(1) r(2) less.prems(1)] obtain h1 where ok1: "engine_ok cfg h1 (sync_engine [] ctx1)" by blast
    then have "ctx_ok cfg h1 ctx1" by (simp add: engine_ok_def)
    from get_ready_to_execute_ok [OF this] obtain cs2 ctx2 where
      g: "get_ready_to_execute ctx1 = Inr (cs2, ctx2)" by blast
    from r(2) engine_step_sync_ready [OF g] have
      steps: "(engine_step cfg)\<^sup>*\<^sup>* (sync_engine cs ctx) (sync_engine cs2 ctx2)" by (rule rtranclp_trans)
    from engine_steps_ok [OF assms(1) steps less.prems(1)] obtain h2 where ok2: "engine_ok cfg h2 (sync_engine cs2 ctx2)" by blast
    have "sync_engine cs ctx \<noteq> sync_engine [] ctx1" using False by (simp add: sync_engine_def)
    with rtranclpD [OF r(2)] have "(engine_step cfg)\<^sup>+\<^sup>+ (sync_engine cs ctx) (sync_engine [] ctx1)" by blast
    from tranclp_rtranclp_tranclp [OF this engine_step_sync_ready [OF g]]
    have "engine_measure cfg (sync_engine cs2 ctx2) < engine_measure cfg (sync_engine cs ctx)"
      by (rule engine_steps_measure [OF assms(1) _ less.prems(1)])
    moreover have "cs2 = [] \<longrightarrow> get_ready_to_execute ctx2 = Inr ([], ctx2)"
      using get_ready_nothing g by auto
    ultimately obtain ctx' where l: "execute_loop cfg cs2 ctx2 = Some (Inr ctx')"
      "(engine_step cfg)\<^sup>*\<^sup>* (sync_engine cs2 ctx2) (sync_engine [] ctx')" "engine_final (sync_engine [] ctx')"
      using less.hyps ok2 by blast
    from rtranclp_trans [OF steps l(2)] l(1,3) False r(1) g show ?thesis
      by (simp add: execute_loop.simps [of cfg cs])
  qed
qed

lemma execute_ok:
  assumes "good_graph (execution_graph_of cfg)" and "known_source cfg SOURCE_ENTRY_POINT_PATH"
  shows "\<exists>ctx. execute cfg = Some (Inr ctx) \<and> engine_run cfg (start_engine ctx) \<and> engine_final (start_engine ctx)"
proof -
  from init_context_ok [OF assms] obtain ctx0 where i: "init_context cfg = Inr ctx0" "ctx_ok cfg [] ctx0" by blast
  then have run0: "engine_run cfg (start_engine ctx0)" by (intro run_init)
  from engine_run_ok [OF assms run0] obtain h where ok0: "engine_ok cfg h (sync_engine [] ctx0)" by auto
  from get_ready_to_execute_ok [OF i(2)] obtain cs ctx1 where g: "get_ready_to_execute ctx0 = Inr (cs, ctx1)" by blast
  note steps = engine_step_sync_ready [OF g, of cfg]
  from engine_steps_ok [OF assms(1) steps ok0] obtain h1 where "engine_ok cfg h1 (sync_engine cs ctx1)" by blast
  moreover have "cs = [] \<longrightarrow> get_ready_to_execute ctx1 = Inr ([], ctx1)" using get_ready_nothing g by auto
  ultimately obtain ctx where l: "execute_loop cfg cs ctx1 = Some (Inr ctx)"
    "(engine_step cfg)\<^sup>*\<^sup>* (sync_engine cs ctx1) (sync_engine [] ctx)" "engine_final (sync_engine [] ctx)"
    using execute_loop_ok [OF assms(1)] by blast
  from engine_steps_run [OF rtranclp_trans [OF steps l(2)]] run0 have "engine_run cfg (start_engine ctx)" by simp
  then show ?thesis using i(1) g l(1,3) by (simp add: execute_def)
qed

section \<open>Properties\<close>

text \<open>
  (C4) Without a pool the executor terminates with a result whenever the entry point was compiled, no
  matter what the UDFs do: every chain that was enqueued, by the entry point or by a UDF during the
  run, is resolved when it returns, and the scheduler never raises.
\<close>

theorem execute_completes:
  assumes "good_graph (execution_graph_of cfg)" and "known_source cfg SOURCE_ENTRY_POINT_PATH"
  shows "\<exists>ctx. execute cfg = Some (Inr ctx) \<and>
    set (keys (resolved_node_values ctx)) = set (keys (chain_by_id ctx)) \<and>
    source_ids cfg SOURCE_ENTRY_POINT_PATH \<subseteq> set (keys (resolved_node_values ctx))"
proof -
  from execute_ok [OF assms] obtain ctx where e: "execute cfg = Some (Inr ctx)"
    "engine_run cfg (start_engine ctx)" "engine_final (start_engine ctx)" by blast
  from engine_run_ok [OF assms e(2)] obtain h where h: "engine_ok cfg h (start_engine ctx)" by blast
  from engine_final_complete(3) [OF h e(3)] h have
    "set (keys (resolved_node_values ctx)) = dag_nodes ctx" "set (keys (chain_by_id ctx)) = dag_nodes ctx"
    by (simp_all add: engine_ok_def ctx_ok_def ctx_core_def)
  moreover have "source_ids cfg SOURCE_ENTRY_POINT_PATH \<subseteq> dag_nodes ctx"
    using engine_run_entry [OF assms e(2)] by simp
  ultimately show ?thesis using e(1) by simp
qed

text \<open>
  (C6) In every schedule: no operation of the context raises, a chain that is executed has all its
  dependencies resolved and was not resolved before, some step is possible until everything enqueued
  is resolved, and every step uses up a bounded resource, so that every schedule ends.
\<close>

theorem schedule_safe:
  assumes "good_graph (execution_graph_of cfg)" and "known_source cfg SOURCE_ENTRY_POINT_PATH"
    and "engine_run cfg st"
  shows "(\<exists>r. get_ready_to_execute (eng_ctx st) = Inr r) \<and>
    (\<forall>(c, v) \<in> set (eng_computed st). \<exists>ctx'. set_resolved_value c v (eng_ctx st) = Inr ctx') \<and>
    (\<forall>c \<in> set (eng_waiting st). chain_id c \<notin> set (keys (resolved_node_values (eng_ctx st))) \<and>
       chain_id ` set (dependent_on c) \<subseteq> set (keys (resolved_node_values (eng_ctx st)))) \<and>
    (if engine_final st
     then set (keys (resolved_node_values (eng_ctx st))) = set (keys (chain_by_id (eng_ctx st)))
     else \<exists>st'. engine_step cfg st st') \<and>
    (\<forall>st'. engine_step cfg st st' \<longrightarrow> engine_measure cfg st' < engine_measure cfg st)"
proof (intro conjI ballI allI impI)
  from engine_run_ok [OF assms] obtain h where h: "engine_ok cfg h st" by blast
  then have ctx: "ctx_ok cfg h (eng_ctx st)" by (simp add: engine_ok_def)
  then have ok: "sched_ok (chain_deps (execution_graph_of cfg)) h (dependency_dag (eng_ctx st))"
    and keys: "set (keys (resolved_node_values (eng_ctx st))) = dag_finished (eng_ctx st)"
    "set (keys (chain_by_id (eng_ctx st))) = dag_nodes (eng_ctx st)"
    by (simp_all add: ctx_ok_def ctx_core_def)
  show "\<exists>r. get_ready_to_execute (eng_ctx st) = Inr r" using get_ready_to_execute_ok [OF ctx] by blast
  show "case p of (c, v) \<Rightarrow> \<exists>ctx'. set_resolved_value c v (eng_ctx st) = Inr ctx'"
    if "p \<in> set (eng_computed st)" for p
  proof -
    have "fst p \<in># in_flight st" using that by (force simp: in_flight_def)
    from set_resolved_value_ok [OF ctx in_flight_running [OF h this]] show ?thesis
      by (cases p) (simp, blast)
  qed
  fix c assume "c \<in> set (eng_waiting st)"
  then have fl: "c \<in># in_flight st" by (simp add: in_flight_def)
  then have c: "c \<in> all_chains (execution_graph_of cfg)" using h by (auto simp: engine_ok_def)
  note run = in_flight_running [OF h fl]
  then show "chain_id c \<notin> set (keys (resolved_node_values (eng_ctx st)))"
    unfolding keys using topo.handed_set [OF ok] by auto
  show "chain_id ` set (dependent_on c) \<subseteq> set (keys (resolved_node_values (eng_ctx st)))"
    unfolding keys using run topo.handed_set [OF ok] topo.handed_deps [OF ok, of "chain_id c"]
    by (simp add: chain_deps_id [OF assms(1) c])
next
  from engine_run_ok [OF assms] obtain h where h: "engine_ok cfg h st" by blast
  show "if engine_final st
     then set (keys (resolved_node_values (eng_ctx st))) = set (keys (chain_by_id (eng_ctx st)))
     else \<exists>st'. engine_step cfg st st'"
    using engine_final_complete(3) [OF h] engine_progress [OF h] h
    by (simp add: engine_ok_def ctx_ok_def ctx_core_def)
  show "engine_measure cfg st' < engine_measure cfg st" if "engine_step cfg st st'" for st'
    by (rule engine_step_measure [OF assms(1) that h])
qed

section \<open>A concrete run\<close>

definition demo_udf :: udf where
  "demo_udf = \<lparr>udf_execute_async = False, udf_const_kwarg = (\<lambda>_. False), udf_kwarg_can_be_none = (\<lambda>_. False),
     udf_static_arguments = [], udf_resolve_override = None,
     udf_execute = (\<lambda>_ _. \<lparr>out_effects = [], out_sources = [], out_result = Inr VNone\<rparr>),
     udf_check_result_type = Inr\<rparr>"

definition demo_config :: config where
  "demo_config = \<lparr>execution_graph_of = demo_egraph, udf_of = (\<lambda>_. demo_udf), env_of = demo_env,
     annotations_of = (\<lambda>_. NoAnnotation), nodes_to_unwrap = (\<lambda>_. False)\<rparr>"

lemma demo_good_graph: "good_graph (execution_graph_of demo_config)"
proof -
  have "consistent (graph_chains demo_egraph)"
    by (rule compiled_consistent [OF demo_egraph_eval demo_sources_ok(1,2)])
  with compiled_chains_cases [OF demo_egraph_eval demo_sources_ok(1)] show ?thesis
    by (auto simp: good_graph_def demo_config_def all_chains_def ran_def consistent_def intro: inj_on_subset)
qed

lemma demo_known: "known_source demo_config SOURCE_ENTRY_POINT_PATH"
  unfolding known_source_def by code_simp

theorem execute_completes_witness:
  "\<exists>ctx. execute demo_config = Some (Inr ctx) \<and> set (keys (resolved_node_values ctx)) = set (keys (chain_by_id ctx))"
  using execute_completes [OF demo_good_graph demo_known] by blast

definition demo_start :: exec_context where
  "demo_start = (case init_context demo_config of Inr ctx \<Rightarrow> ctx | Inl _ \<Rightarrow> empty_context)"

lemma demo_start_run: "engine_run demo_config (start_engine demo_start)"
  using init_context_ok [OF demo_good_graph demo_known]
  by (auto simp: demo_start_def simp del: sync_engine_simps intro: run_init)

theorem schedule_safe_witness:
  "(\<exists>r. get_ready_to_execute demo_start = Inr r) \<and> (\<exists>st'. engine_step demo_config (start_engine demo_start) st')"
proof -
  have "\<not> engine_final (start_engine demo_start)" by code_simp
  then show ?thesis using schedule_safe [OF demo_good_graph demo_known demo_start_run] by simp
qed

end
