(* ===== verification/Evaluation.thy ===== *)
theory Evaluation
  imports Executor
begin

text \<open>
  The abstract specification of the executor: the value of a chain is determined by the values of
  the chains it depends on, by recursion on the chain and with no scheduler, and the chains that
  have to be evaluated are the ones of the entry point and, from there, of every source an evaluated
  chain enqueues. The executor is proved to compute exactly that, in every schedule.
\<close>

section \<open>The value of a node\<close>

definition call_arguments :: "config \<Rightarrow> meta \<Rightarrow> ast_node list \<Rightarrow> (nat, node_result) dict \<Rightarrow> (string, pyval) dict result" where
  "call_arguments cfg m args vals =
     (let u = udf_of cfg (node_id m) in
      udf_resolve_arguments u (resolved cfg vals) (get_dependent_node_dict (udf_const_kwarg u) args))"

definition value_of :: "config \<Rightarrow> ast_node \<Rightarrow> (nat, node_result) dict \<Rightarrow> pyval result" where
  "value_of cfg n vals =
     (case n of
        Assign m t v a \<Rightarrow>
          bindR (resolved cfg vals v True) (\<lambda>_. bindR (should_extract (annotations_of cfg) n) (\<lambda>_.
            resolved cfg vals v False))
      | Call m f args \<Rightarrow>
          bindR (call_arguments cfg m args vals) (\<lambda>vs.
            let u = udf_of cfg (node_id m); o1 = udf_execute u (resolved cfg vals) vs in
            if list_all (known_source cfg) (out_sources o1) then bindR (out_result o1) (udf_check_result_type u)
            else Inl KeyError)
      | _ \<Rightarrow> execute_pure (env_of cfg) (resolved cfg vals) n)"

text \<open>The sources a node enqueues: an unknown one stops the call.\<close>

definition sources_of :: "config \<Rightarrow> ast_node \<Rightarrow> (nat, node_result) dict \<Rightarrow> string list" where
  "sources_of cfg n vals =
     (case n of
        Call m f args \<Rightarrow>
          (case call_arguments cfg m args vals of
             Inl _ \<Rightarrow> []
           | Inr vs \<Rightarrow> takeWhile (known_source cfg)
               (out_sources (udf_execute (udf_of cfg (node_id m)) (resolved cfg vals) vs)))
      | _ \<Rightarrow> [])"

lemma execute_node_value:
  assumes "good_graph (execution_graph_of cfg)" and "ctx_ok cfg h ctx"
  shows "fst (execute_node cfg n ctx) = value_of cfg n (resolved_node_values ctx) \<and>
    dag_nodes (snd (execute_node cfg n ctx)) =
      dag_nodes ctx \<union> (\<Union>p \<in> set (sources_of cfg n (resolved_node_values ctx)). source_ids cfg p)"
proof (cases n)
  case (Assign m t v a)
  have "fst (execute_assign cfg n (name_identifier t) v ctx) = value_of cfg n (resolved_node_values ctx)"
    by (cases "resolved cfg (resolved_node_values ctx) v True"; cases "should_extract (annotations_of cfg) n")
      (simp_all add: execute_assign_def value_of_def Assign Let_def)
  with execute_assign_frame(1) [of cfg n "name_identifier t" v ctx] show ?thesis
    by (simp add: execute_node_def sources_of_def Assign)
next
  case (Call m f args)
  define u where "u = udf_of cfg (node_id m)"
  define res where "res = resolved cfg (resolved_node_values ctx)"
  show ?thesis
  proof (cases "call_arguments cfg m args (resolved_node_values ctx)")
    case (Inl e)
    then show ?thesis by (simp add: execute_node_def execute_call_def value_of_def sources_of_def Call
          call_arguments_def Let_def)
  next
    case (Inr vs)
    define o1 where "o1 = udf_execute u res vs"
    define ctx1 where "ctx1 = foldl (\<lambda>ctx e. add_effect e ctx) ctx (out_effects o1)"
    have ok1: "ctx_ok cfg h ctx1" "dag_nodes ctx1 = dag_nodes ctx"
      using assms(2) ctx_ok_cong(1) [of ctx1 ctx] add_effects_frame [of ctx "out_effects o1"]
      by (simp_all add: ctx1_def)
    have ex: "execute_node cfg n ctx =
       (case fst (enqueue_sources cfg (out_sources o1) ctx1) of
          Some e \<Rightarrow> Inl e | None \<Rightarrow> bindR (out_result o1) (udf_check_result_type u),
        snd (enqueue_sources cfg (out_sources o1) ctx1))"
      unfolding o1_def ctx1_def u_def res_def
      using Inr by (simp add: execute_node_def execute_call_def Call call_arguments_def Let_def split_beta)
    have v: "value_of cfg n (resolved_node_values ctx) =
        (if list_all (known_source cfg) (out_sources o1) then bindR (out_result o1) (udf_check_result_type u)
         else Inl KeyError)"
      "sources_of cfg n (resolved_node_values ctx) = takeWhile (known_source cfg) (out_sources o1)"
      using Inr by (simp_all add: value_of_def sources_of_def Call o1_def u_def res_def Let_def)
    show ?thesis unfolding ex v using enqueue_sources_ok [OF assms(1) ok1(1), of "out_sources o1"] ok1(2) by simp
  qed
qed (simp_all add: execute_node_def value_of_def sources_of_def)

section \<open>The value of a chain\<close>

definition proper_subchains :: "chain \<Rightarrow> chain list" where
  "proper_subchains c = concat (map subchains (dependent_on c))"

lemma subchains_size: "d \<in> set (subchains c) \<Longrightarrow> size d \<le> size c"
proof (induction c rule: subchains.induct)
  case (1 n ds)
  have "size d \<le> size (Chain n ds)" if "x \<in> set ds" "d \<in> set (subchains x)" for x
  proof -
    have "size x \<le> size_list size ds" using that(1) by (rule size_list_estimation') simp
    with 1 that show ?thesis by fastforce
  qed
  with 1 show ?case by (auto simp: subchains.simps)
qed

lemma proper_subchains_size: "d \<in> set (proper_subchains c) \<Longrightarrow> size d < size c"
proof (cases c)
  case (Chain n ds)
  assume "d \<in> set (proper_subchains c)"
  then obtain x where x: "x \<in> set ds" "d \<in> set (subchains x)" by (auto simp: proper_subchains_def Chain)
  have "size x \<le> size_list size ds" using x(1) by (rule size_list_estimation') simp
  with subchains_size [OF x(2)] show ?thesis by (simp add: Chain)
qed

lemma subchains_proper: "set (subchains c) = insert c (set (proper_subchains c))"
  by (cases c) (simp add: subchains.simps proper_subchains_def)

function denote :: "config \<Rightarrow> chain \<Rightarrow> node_result" where
  "denote cfg c =
     (case value_of cfg (executor_node c) (map (\<lambda>d. (chain_id d, denote cfg d)) (proper_subchains c)) of
        Inl _ \<Rightarrow> Err | Inr v \<Rightarrow> Ok v)"
  by pat_completeness auto
termination by (relation "measure (\<lambda>(cfg, c). size c)") (simp_all add: proper_subchains_size)

declare denote.simps [simp del]

definition sub_values :: "config \<Rightarrow> chain \<Rightarrow> (nat, node_result) dict" where
  "sub_values cfg c = map (\<lambda>d. (chain_id d, denote cfg d)) (proper_subchains c)"

definition denoted_sources :: "config \<Rightarrow> chain \<Rightarrow> string list" where
  "denoted_sources cfg c = sources_of cfg (executor_node c) (sub_values cfg c)"

text \<open>The chains that have to be evaluated.\<close>

inductive_set demanded :: "config \<Rightarrow> nat set" for cfg where
  demanded_entry: "i \<in> source_ids cfg SOURCE_ENTRY_POINT_PATH \<Longrightarrow> i \<in> demanded cfg"
| demanded_source: "i \<in> demanded cfg \<Longrightarrow>
    p \<in> set (denoted_sources cfg (chain_at (execution_graph_of cfg) i)) \<Longrightarrow>
    j \<in> source_ids cfg p \<Longrightarrow> j \<in> demanded cfg"

section \<open>What a node reads\<close>

text \<open>
  Two valuations agree below a chain when they agree on everything it depends on, directly or
  not. A name in the tree of a chain has to be loaded from one of its dependencies, and a UDF may
  read what its call depends on and nothing else.
\<close>

definition agree_below :: "chain \<Rightarrow> (nat, node_result) dict \<Rightarrow> (nat, node_result) dict \<Rightarrow> bool" where
  "agree_below c vals vals' \<longleftrightarrow>
     (\<forall>d \<in> set (proper_subchains c). map_of vals (chain_id d) = map_of vals' (chain_id d))"

definition read_node :: "config \<Rightarrow> ast_node \<Rightarrow> ast_node result" where
  "read_node cfg n = (if is_name n then get_name_node cfg n else Inr n)"

definition kwargs_of :: "config \<Rightarrow> const_kwargs" where
  "kwargs_of cfg i = udf_const_kwarg (udf_of cfg i)"

definition reads_dependencies :: "config \<Rightarrow> chain \<Rightarrow> bool" where
  "reads_dependencies cfg c \<longleftrightarrow>
     (\<exists>ds. get_dependent_nodes (kwargs_of cfg) (executor_node c) = Some ds \<and>
        (\<forall>d \<in> set ds. \<exists>x \<in> set (dependent_on c). read_node cfg d = Inr (executor_node x)))"

definition udf_local :: "config \<Rightarrow> chain \<Rightarrow> bool" where
  "udf_local cfg c \<longleftrightarrow> (\<forall>m f args vals vals'. executor_node c = Call m f args \<longrightarrow> agree_below c vals vals' \<longrightarrow>
     (\<forall>g. udf_resolve_override (udf_of cfg (node_id m)) = Some g \<longrightarrow>
        g (resolved cfg vals) (get_dependent_node_dict (kwargs_of cfg (node_id m)) args) =
        g (resolved cfg vals') (get_dependent_node_dict (kwargs_of cfg (node_id m)) args)) \<and>
     udf_execute (udf_of cfg (node_id m)) (resolved cfg vals) =
     udf_execute (udf_of cfg (node_id m)) (resolved cfg vals'))"

lemma dependent_proper: "x \<in> set (dependent_on c) \<Longrightarrow> x \<in> set (proper_subchains c)"
  by (auto simp: proper_subchains_def intro!: bexI [of _ x])

lemma resolved_agree:
  assumes "agree_below c vals vals'" and "x \<in> set (dependent_on c)" and "read_node cfg d = Inr (executor_node x)"
  shows "resolved cfg vals d b = resolved cfg vals' d b"
proof -
  have "map_of vals (chain_id x) = map_of vals' (chain_id x)"
    using assms(1) dependent_proper [OF assms(2)] by (simp add: agree_below_def)
  with assms(3) show ?thesis by (simp add: resolved_def read_node_def chain_id_def)
qed

lemma execute_pure_cong:
  assumes "get_dependent_nodes ck n = Some ds" and "\<And>d b. d \<in> set ds \<Longrightarrow> res d b = res' d b"
  shows "execute_pure env res n = execute_pure env res' n"
proof -
  have all: "all_values res ns = all_values res' ns" "any_value res ns = any_value res' ns"
    if "\<And>d b. d \<in> set ns \<Longrightarrow> res d b = res' d b" for ns
    using that by (induction ns) (simp_all cong: if_cong)
  show ?thesis
    using assms all by (cases n) (auto simp: get_dependent_nodes_def execute_pure_def execute_format_string_def
        execute_binary_comparison_def execute_boolean_operation_def split: ast_node.splits boolean_operand.splits
        cong: mapR_cong)
qed

lemma resolve_items_cong:
  assumes "\<And>n b. n \<in> set (dvalues d) \<Longrightarrow> res n b = res' n b"
  shows "resolve_items cb res d = resolve_items cb res' d"
  using assms
proof (induction d)
  case (Cons p d)
  obtain k n where p: "p = (k, n)" by (cases p)
  from Cons have "res n (cb k) = res' n (cb k)" "resolve_items cb res d = resolve_items cb res' d"
    by (auto simp: p)
  then show ?case by (simp add: p)
qed simp

lemma value_of_local:
  assumes "reads_dependencies cfg c" and "udf_local cfg c" and "agree_below c vals vals'"
  shows "value_of cfg (executor_node c) vals = value_of cfg (executor_node c) vals'"
    "sources_of cfg (executor_node c) vals = sources_of cfg (executor_node c) vals'"
proof -
  from assms(1) obtain ds where ds: "get_dependent_nodes (kwargs_of cfg) (executor_node c) = Some ds"
    "\<And>d. d \<in> set ds \<Longrightarrow> \<exists>x \<in> set (dependent_on c). read_node cfg d = Inr (executor_node x)"
    by (auto simp: reads_dependencies_def)
  have res: "resolved cfg vals d b = resolved cfg vals' d b" if "d \<in> set ds" for d b
    using ds(2) [OF that] resolved_agree [OF assms(3)] by blast
  have args: "call_arguments cfg m args vals = call_arguments cfg m args vals'"
    and ex: "udf_execute (udf_of cfg (node_id m)) (resolved cfg vals) =
      udf_execute (udf_of cfg (node_id m)) (resolved cfg vals')"
    if c: "executor_node c = Call m f args" for m f args
  proof -
    let ?u = "udf_of cfg (node_id m)"
    let ?d = "get_dependent_node_dict (udf_const_kwarg ?u) args"
    have ds': "ds = dvalues ?d" using ds(1) c by (simp add: get_dependent_nodes_def kwargs_of_def)
    show "udf_execute ?u (resolved cfg vals) = udf_execute ?u (resolved cfg vals')"
      using assms(2,3) c by (auto simp: udf_local_def)
    have "resolve_items (udf_kwarg_can_be_none ?u) (resolved cfg vals) ?d =
        resolve_items (udf_kwarg_can_be_none ?u) (resolved cfg vals') ?d"
      by (rule resolve_items_cong) (use res ds' in auto)
    then show "call_arguments cfg m args vals = call_arguments cfg m args vals'"
      using assms(2,3) c by (auto simp: call_arguments_def udf_resolve_arguments_def udf_local_def Let_def
          kwargs_of_def split: option.splits)
  qed
  show "sources_of cfg (executor_node c) vals = sources_of cfg (executor_node c) vals'"
    using args ex by (cases "executor_node c") (simp_all add: sources_of_def cong: sum.case_cong)
  have "value_of cfg (Assign m t v a) vals = value_of cfg (Assign m t v a) vals'"
    if "executor_node c = Assign m t v a" for m t v a
    using ds(1) res [of v] that by (auto simp: value_of_def get_dependent_nodes_def)
  then show "value_of cfg (executor_node c) vals = value_of cfg (executor_node c) vals'"
    using args ex execute_pure_cong [OF ds(1) res, of _ "env_of cfg"]
    by (cases "executor_node c") (simp_all add: value_of_def)
qed

section \<open>The executor computes the specification\<close>

definition chain_ok :: "config \<Rightarrow> bool" where
  "chain_ok cfg \<longleftrightarrow> good_graph (execution_graph_of cfg) \<and> known_source cfg SOURCE_ENTRY_POINT_PATH \<and>
     (\<forall>c \<in> all_chains (execution_graph_of cfg). reads_dependencies cfg c)"

lemma all_chains_dependent:
  assumes "good_graph g" and "c \<in> all_chains g" and "d \<in> set (dependent_on c)"
  shows "d \<in> all_chains g"
  using assms before_in_set by (fastforce simp: good_graph_def all_chains_def sort_ok_def deps_before_def)

lemma all_chains_subchains:
  assumes "good_graph g"
  shows "c \<in> all_chains g \<Longrightarrow> set (subchains c) \<subseteq> all_chains g"
proof (induction c rule: subchains.induct)
  case (1 n ds)
  have "set (subchains d) \<subseteq> all_chains g" if "d \<in> set ds" for d
    using 1 that all_chains_dependent [OF assms "1.prems", of d] by simp
  with 1 show ?case by (auto simp: subchains.simps)
qed

lemma map_of_map_key:
  assumes "d \<in> set xs" and "\<And>x. x \<in> set xs \<Longrightarrow> f x = f d \<Longrightarrow> x = d"
  shows "map_of (map (\<lambda>x. (f x, g x)) xs) (f d) = Some (g d)"
  using assms by (induction xs) (auto, metis)

lemma sub_values_map:
  assumes "good_graph (execution_graph_of cfg)" and "c \<in> all_chains (execution_graph_of cfg)"
    and "d \<in> set (proper_subchains c)"
  shows "map_of (sub_values cfg c) (chain_id d) = Some (denote cfg d)"
proof -
  have sub: "set (proper_subchains c) \<subseteq> all_chains (execution_graph_of cfg)"
    using all_chains_subchains [OF assms(1,2)] by (auto simp: subchains_proper)
  have "x = d" if "x \<in> set (proper_subchains c)" "chain_id x = chain_id d" for x
    using that assms(1,3) sub by (auto simp: good_graph_def consistent_def inj_on_def)
  then show ?thesis unfolding sub_values_def by (intro map_of_map_key [OF assms(3)]) simp
qed

text \<open>Everything a chain that was handed out depends on, directly or not, is finished.\<close>

lemma handed_subchains_finished:
  assumes "good_graph (execution_graph_of cfg)" and "ctx_ok cfg h ctx"
  shows "c \<in> all_chains (execution_graph_of cfg) \<Longrightarrow> chain_id c \<in> set h \<Longrightarrow>
    d \<in> set (proper_subchains c) \<Longrightarrow> chain_id d \<in> dag_finished ctx"
proof (induction c arbitrary: d rule: subchains.induct)
  case (1 n ds)
  have ok: "sched_ok (chain_deps (execution_graph_of cfg)) h (dependency_dag ctx)"
    using assms(2) by (simp add: ctx_ok_def ctx_core_def)
  from "1.prems"(3) obtain x where x: "x \<in> set ds" "d \<in> set (subchains x)"
    by (auto simp: proper_subchains_def)
  have "chain_id x \<in> dag_finished ctx"
    using topo.handed_deps [OF ok "1.prems"(2)] chain_deps_id [OF assms(1) "1.prems"(1)] x(1) by auto
  moreover from this have "chain_id x \<in> set h" using topo.handed_set [OF ok] by blast
  moreover have "x \<in> all_chains (execution_graph_of cfg)"
    using all_chains_dependent [OF assms(1) "1.prems"(1)] x(1) by simp
  ultimately show ?case using "1.IH" [OF x(1)] x(2) by (auto simp: subchains_proper)
qed

definition values_ok :: "config \<Rightarrow> engine \<Rightarrow> bool" where
  "values_ok cfg st \<longleftrightarrow>
     (\<forall>i r. map_of (resolved_node_values (eng_ctx st)) i = Some r \<longrightarrow>
        r = denote cfg (chain_at (execution_graph_of cfg) i)) \<and>
     (\<forall>(c, r) \<in> set (eng_computed st). r = denote cfg c)"

definition sources_ok :: "config \<Rightarrow> engine \<Rightarrow> bool" where
  "sources_ok cfg st \<longleftrightarrow>
     dag_nodes (eng_ctx st) \<subseteq> demanded cfg \<and>
     source_ids cfg SOURCE_ENTRY_POINT_PATH \<subseteq> dag_nodes (eng_ctx st) \<and>
     (\<forall>i \<in> dag_finished (eng_ctx st) \<union> chain_id ` fst ` set (eng_computed st).
        \<forall>p \<in> set (denoted_sources cfg (chain_at (execution_graph_of cfg) i)). source_ids cfg p \<subseteq> dag_nodes (eng_ctx st))"

lemma execute_denotes:
  assumes "chain_ok cfg" and "\<forall>c \<in> all_chains (execution_graph_of cfg). udf_local cfg c"
    and "engine_ok cfg h st" and "values_ok cfg st" and "c \<in> set (eng_waiting st)"
    and "wrapped_execution cfg c (eng_ctx st) = (r, ctx')"
  shows "r = denote cfg c"
    "dag_nodes ctx' = dag_nodes (eng_ctx st) \<union> (\<Union>p \<in> set (denoted_sources cfg c). source_ids cfg p)"
proof -
  let ?g = "execution_graph_of cfg" and ?vals = "resolved_node_values (eng_ctx st)"
  have g: "good_graph ?g" using assms(1) by (simp add: chain_ok_def)
  have ctx: "ctx_ok cfg h (eng_ctx st)" using assms(3) by (simp add: engine_ok_def)
  have fl: "c \<in># in_flight st" using assms(5) by (simp add: in_flight_def)
  have c: "c \<in> all_chains ?g" using assms(3) fl by (auto simp: engine_ok_def)
  have "chain_id c \<in> set h"
    using in_flight_running [OF assms(3) fl] topo.handed_set [of _ h "dependency_dag (eng_ctx st)"] ctx
    by (auto simp: ctx_ok_def ctx_core_def)
  note fin = handed_subchains_finished [OF g ctx c this]
  have "agree_below c ?vals (sub_values cfg c)"
    unfolding agree_below_def
  proof
    fix d assume d: "d \<in> set (proper_subchains c)"
    have da: "d \<in> all_chains ?g" using all_chains_subchains [OF g c] d by (auto simp: subchains_proper)
    from fin [OF d] ctx keys_map_of [of "chain_id d" ?vals] obtain r' where
      r': "map_of ?vals (chain_id d) = Some r'" by (auto simp: ctx_ok_def ctx_core_def)
    with assms(4) have "r' = denote cfg (chain_at ?g (chain_id d))" by (simp add: values_ok_def)
    then show "map_of ?vals (chain_id d) = map_of (sub_values cfg c) (chain_id d)"
      using r' sub_values_map [OF g c d] chain_at_id [OF g da] by simp
  qed
  with value_of_local [of cfg c ?vals "sub_values cfg c"] assms(1,2) c have
    v: "value_of cfg (executor_node c) ?vals = value_of cfg (executor_node c) (sub_values cfg c)"
    "sources_of cfg (executor_node c) ?vals = denoted_sources cfg c"
    by (auto simp: chain_ok_def denoted_sources_def)
  note ex = execute_node_value [OF g ctx, of "executor_node c"]
  show "r = denote cfg c"
    using wrapped_execution_ok(3) [OF g ctx assms(6)] ex v(1)
    by (simp add: denote.simps [of cfg c] sub_values_def)
  have "dag_nodes ctx' = dag_nodes (snd (execute_node cfg (executor_node c) (eng_ctx st)))"
    using assms(6) by (auto simp: wrapped_execution_def split: prod.splits sum.splits if_splits)
  then show "dag_nodes ctx' = dag_nodes (eng_ctx st) \<union> (\<Union>p \<in> set (denoted_sources cfg c). source_ids cfg p)"
    using ex v(2) by simp
qed

lemma values_step:
  assumes "chain_ok cfg" and "\<forall>c \<in> all_chains (execution_graph_of cfg). udf_local cfg c"
    and "engine_step cfg st st'" and "engine_ok cfg h st" and "values_ok cfg st" and "sources_ok cfg st"
  shows "values_ok cfg st' \<and> sources_ok cfg st'"
  using assms(3-)
proof (induction rule: engine_step.induct)
  case (step_ready st cs ctx')
  then have "ctx_ok cfg h (eng_ctx st)" by (simp add: engine_ok_def)
  from get_ready_to_execute_D(2,3,5) [OF this step_ready(1)] step_ready(4,5) show ?case by (simp add: values_ok_def sources_ok_def)
next
  case (step_execute c st r ctx')
  let ?g = "execution_graph_of cfg"
  have g: "good_graph ?g" using assms(1) by (simp add: chain_ok_def)
  have ctx: "ctx_ok cfg h (eng_ctx st)" using step_execute(3) by (simp add: engine_ok_def)
  note d = execute_denotes [OF assms(1,2) step_execute(3,4,1,2)]
  have enq: "enqueues (eng_ctx st) ctx'" by (rule wrapped_execution_ok(2) [OF g ctx step_execute(2)])
  have fl: "c \<in># in_flight st" using step_execute(1) by (simp add: in_flight_def)
  then have c: "chain_at ?g (chain_id c) = c"
    using step_execute(3) chain_at_id [OF g] by (auto simp: engine_ok_def)
  have "chain_id c \<in> dag_nodes (eng_ctx st)"
    using in_flight_running [OF step_execute(3) fl] with_status_nodes [of _ "dependency_dag (eng_ctx st)"] by blast
  then have dem: "chain_id c \<in> demanded cfg" using step_execute(5) by (auto simp: sources_ok_def)
  have "dag_nodes ctx' \<subseteq> demanded cfg"
    using step_execute(5) d(2) demanded_source [OF dem, unfolded c] by (auto simp: sources_ok_def)
  moreover have "values_ok cfg (st\<lparr>eng_ctx := ctx', eng_waiting := remove1 c (eng_waiting st),
      eng_computed := eng_computed st @ [(c, r)]\<rparr>)"
    using step_execute(4) d(1) enq by (auto simp: values_ok_def enqueues_def)
  moreover have mono: "dag_nodes (eng_ctx st) \<subseteq> dag_nodes ctx'" using d(2) by blast
  moreover have "\<forall>p \<in> set (denoted_sources cfg (chain_at ?g (chain_id c))). source_ids cfg p \<subseteq> dag_nodes ctx'"
    unfolding c d(2) by blast
  moreover have "\<forall>i \<in> dag_finished (eng_ctx st) \<union> chain_id ` fst ` set (eng_computed st).
      \<forall>p \<in> set (denoted_sources cfg (chain_at ?g i)). source_ids cfg p \<subseteq> dag_nodes ctx'"
    using step_execute(5) mono unfolding sources_ok_def by (meson subset_trans)
  moreover have "source_ids cfg SOURCE_ENTRY_POINT_PATH \<subseteq> dag_nodes ctx'"
    using step_execute(5) mono unfolding sources_ok_def by blast
  ultimately show ?case using enq by (simp add: sources_ok_def enqueues_def ball_Un)
next
  case (step_finish c r st ctx')
  let ?g = "execution_graph_of cfg"
  have g: "good_graph ?g" using assms(1) by (simp add: chain_ok_def)
  have ctx: "ctx_ok cfg h (eng_ctx st)" using step_finish(3) by (simp add: engine_ok_def)
  have fl: "c \<in># in_flight st" using step_finish(1) by (force simp: in_flight_def)
  then have c: "chain_at ?g (chain_id c) = c"
    using step_finish(3) chain_at_id [OF g] by (auto simp: engine_ok_def)
  note e = set_resolved_value_D(2,3,5) [OF ctx in_flight_running [OF step_finish(3) fl] step_finish(2)]
  have r: "r = denote cfg c" using step_finish(1,4) by (auto simp: values_ok_def)
  have sub: "set (remove1 (c, r) (eng_computed st)) \<subseteq> set (eng_computed st)" by (rule set_remove1_subset)
  have "chain_id c \<in> chain_id ` fst ` set (eng_computed st)" using step_finish(1) by force
  then have "sources_ok cfg (st\<lparr>eng_ctx := ctx', eng_computed := remove1 (c, r) (eng_computed st)\<rparr>)"
    using step_finish(5) e sub unfolding sources_ok_def by (simp, blast)
  moreover have "values_ok cfg (st\<lparr>eng_ctx := ctx', eng_computed := remove1 (c, r) (eng_computed st)\<rparr>)"
    using step_finish(4) e(1) r c sub by (auto simp: values_ok_def dict_simps split: if_splits)
  ultimately show ?case by blast
qed

lemma engine_run_values:
  assumes "chain_ok cfg" and "\<forall>c \<in> all_chains (execution_graph_of cfg). udf_local cfg c" and "engine_run cfg st"
  shows "values_ok cfg st \<and> sources_ok cfg st"
  using assms(3)
proof (induction rule: engine_run.induct)
  case (run_init ctx)
  have g: "good_graph (execution_graph_of cfg)" "known_source cfg SOURCE_ENTRY_POINT_PATH"
    using assms(1) by (simp_all add: chain_ok_def)
  from init_context_ok [OF g] run_init have i: "resolved_node_values ctx = []" "ctx_ok cfg [] ctx"
    "dag_nodes ctx = source_ids cfg SOURCE_ENTRY_POINT_PATH" by auto
  then have "dag_finished ctx = {}" by (simp add: ctx_ok_def ctx_core_def)
  with i show ?case by (auto simp: values_ok_def sources_ok_def intro: demanded_entry)
next
  case (run_step st st')
  have g: "good_graph (execution_graph_of cfg)" "known_source cfg SOURCE_ENTRY_POINT_PATH"
    using assms(1) by (simp_all add: chain_ok_def)
  from engine_run_ok [OF g run_step.hyps(1)] obtain h where "engine_ok cfg h st" by blast
  with values_step [OF assms(1,2) run_step.hyps(2)] run_step.IH show ?case by blast
qed

lemma final_values:
  assumes "chain_ok cfg" and "\<forall>c \<in> all_chains (execution_graph_of cfg). udf_local cfg c"
    and "engine_run cfg st" and "engine_final st"
  shows "dag_nodes (eng_ctx st) = demanded cfg \<and> map_of (resolved_node_values (eng_ctx st)) =
    (\<lambda>i. if i \<in> demanded cfg then Some (denote cfg (chain_at (execution_graph_of cfg) i)) else None)"
proof -
  have g: "good_graph (execution_graph_of cfg)" "known_source cfg SOURCE_ENTRY_POINT_PATH"
    using assms(1) by (simp_all add: chain_ok_def)
  from engine_run_ok [OF g assms(3)] obtain h where h: "engine_ok cfg h st" by blast
  note fin = engine_final_complete [OF h assms(4)]
  note inv = engine_run_values [OF assms(1-3)]
  have "i \<in> dag_nodes (eng_ctx st)" if "i \<in> demanded cfg" for i
    using that
  proof (induction rule: demanded.induct)
    case (demanded_entry i)
    then show ?case using inv by (auto simp: sources_ok_def)
  next
    case (demanded_source i p j)
    then have "i \<in> dag_finished (eng_ctx st)" using fin(1) by simp
    with demanded_source(2,3) inv show ?case unfolding sources_ok_def by blast
  qed
  then have nodes: "dag_nodes (eng_ctx st) = demanded cfg" using inv by (auto simp: sources_ok_def)
  have "map_of (resolved_node_values (eng_ctx st)) i =
      (if i \<in> demanded cfg then Some (denote cfg (chain_at (execution_graph_of cfg) i)) else None)" for i
  proof (cases "map_of (resolved_node_values (eng_ctx st)) i")
    case None
    then show ?thesis using fin(3) nodes map_of_None_keys [of "resolved_node_values (eng_ctx st)" i] by simp
  next
    case (Some r)
    with map_of_Some_keys [OF Some] fin(3) nodes inv show ?thesis by (simp add: values_ok_def)
  qed
  with nodes show ?thesis by auto
qed

section \<open>Compiled graphs\<close>

text \<open>
  A name is compiled with the assignments seen so far and looked up at run time in all of them, so
  the two agree when no key is assigned twice, which the validator of stored names guarantees.
\<close>

definition link_ok :: "(string, chain) dict \<Rightarrow> ast_node \<Rightarrow> chain \<Rightarrow> bool" where
  "link_ok am d e \<longleftrightarrow>
     (case loaded_name d of Some k \<Rightarrow> map_of am k = Some e | None \<Rightarrow> \<not> is_name d \<and> executor_node e = d)"

definition linked :: "const_kwargs \<Rightarrow> (string, chain) dict \<Rightarrow> chain \<Rightarrow> bool" where
  "linked ck am x \<longleftrightarrow>
     (\<exists>ds. get_dependent_nodes ck (executor_node x) = Some ds \<and> list_all2 (link_ok am) ds (dependent_on x))"

fun unique_targets :: "string set \<Rightarrow> ast_node list \<Rightarrow> bool" where
  "unique_targets ks [] = True"
| "unique_targets ks (s # ss) = (target_key s \<inter> ks = {} \<and> unique_targets (ks \<union> target_key s) ss)"

lemma link_ok_mono: "map_of am \<subseteq>\<^sub>m map_of am' \<Longrightarrow> link_ok am d e \<Longrightarrow> link_ok am' d e"
  by (auto simp: link_ok_def map_le_def dom_def split: option.splits)

lemma linked_mono: "map_of am \<subseteq>\<^sub>m map_of am' \<Longrightarrow> linked ck am x \<Longrightarrow> linked ck am' x"
  unfolding linked_def by (erule exE) (auto elim!: list_all2_mono dest: link_ok_mono)

lemma build_link: "build_chain ck am d = Inr e \<Longrightarrow> link_ok am d e"
  using build_chain_cases [of ck am d e] by (auto simp: link_ok_def)

lemma build_linked:
  assumes "build_chain ck am (executor_node x) = Inr x" and "\<And>y. y \<in> ran (map_of am) \<Longrightarrow> linked ck am y"
  shows "linked ck am x"
  using build_chain_cases [OF assms(1)]
proof (elim disjE exE conjE)
  fix k assume "map_of am k = Some x"
  then show ?thesis using assms(2) by (auto intro: ranI)
next
  fix ds cs assume "get_dependent_nodes ck (executor_node x) = Some ds"
    "list_all2 (\<lambda>d c. build_chain ck am d = Inr c) ds cs" "x = Chain (executor_node x) cs"
  moreover from this(2) have "list_all2 (link_ok am) ds cs" by (rule list_all2_mono) (rule build_link)
  ultimately show ?thesis unfolding linked_def by (metis chain.sel(2))
qed

lemma add_statements_linked:
  assumes "add_statements ck ss g = Inr g'"
    and "unique_targets (set (keys (assignment_executor_mapping g))) ss"
    and "\<forall>x \<in> graph_chains g. linked ck (assignment_executor_mapping g) x"
  shows "\<forall>x \<in> graph_chains g'. linked ck (assignment_executor_mapping g') x"
  using assms
proof (induction ss arbitrary: g)
  case (Cons s ss)
  let ?am = "assignment_executor_mapping g"
  from Cons.prems(1) obtain c where c: "build_chain ck ?am s = Inr c"
    "add_statements ck ss (add_statement s c g) = Inr g'" by (auto simp: bindR_Inr_conv)
  let ?am' = "assignment_executor_mapping (add_statement s c g)"
  have le: "map_of ?am \<subseteq>\<^sub>m map_of ?am'"
  proof (unfold map_le_def, rule ballI)
    fix k assume "k \<in> dom (map_of ?am)"
    then have "k \<in> set (keys ?am)" using map_of_Some_keys [of ?am k] by (auto simp: dom_def simp del: set_map)
    with Cons.prems(2) have "k \<notin> target_key s" by auto
    then show "map_of ?am k = map_of ?am' k" by (simp add: assignment_mapping_add_statement)
  qed
  have am: "linked ck ?am y" if "y \<in> ran (map_of ?am)" for y
  proof -
    have "y \<in> graph_chains g" unfolding graph_chains_def using that by (intro UN_I [of y]) simp_all
    then show ?thesis using Cons.prems(3) by blast
  qed
  have "linked ck ?am x" if "x \<in> graph_chains (add_statement s c g)" for x
  proof (cases "x \<in> graph_chains g")
    case False
    with that graph_chains_add_statement [of s c g] have "x \<in> set (subchains c)" by blast
    with build_subchains [OF c(1)] False have "build_chain ck ?am (executor_node x) = Inr x"
      by (auto simp: graph_chains_def)
    then show ?thesis using am by (rule build_linked)
  qed (use Cons.prems(3) in blast)
  then have "\<forall>x \<in> graph_chains (add_statement s c g). linked ck ?am' x" using linked_mono [OF le] by blast
  moreover have "unique_targets (set (keys ?am')) ss"
    using Cons.prems(2) by (simp add: assignment_keys_add_statement del: set_map)
  ultimately show ?case using Cons.IH [OF c(2)] by blast
qed simp

lemma linked_reads:
  assumes "linked (kwargs_of cfg) (assignment_executor_mapping (execution_graph_of cfg)) c"
  shows "reads_dependencies cfg c"
proof -
  let ?am = "assignment_executor_mapping (execution_graph_of cfg)"
  from assms obtain ds where ds: "get_dependent_nodes (kwargs_of cfg) (executor_node c) = Some ds"
    "list_all2 (link_ok ?am) ds (dependent_on c)" by (auto simp: linked_def)
  have "read_node cfg d = Inr (executor_node e)" if "link_ok ?am d e" for d e
    using that by (cases d) (auto simp: link_ok_def read_node_def get_name_node_def loaded_name_def
        is_name_def split: option.splits)
  with ds list_all2_target [OF ds(2)] show ?thesis unfolding reads_dependencies_def by blast
qed

text \<open>What the validators and the parser guarantee of the sources that are compiled.\<close>

definition valid_sources :: "config \<Rightarrow> source list \<Rightarrow> source list \<Rightarrow> bool" where
  "valid_sources cfg sorted_srcs srcs \<longleftrightarrow>
     distinct (map fst (chain_dedupe [] sorted_srcs srcs)) \<and>
     distinct (tree_ids (ordered_statements (chain_dedupe [] sorted_srcs srcs))) \<and>
     unique_targets {} (ordered_statements (chain_dedupe [] sorted_srcs srcs)) \<and>
     SOURCE_ENTRY_POINT_PATH \<in> fst ` (set sorted_srcs \<union> set srcs)"

lemma compiled_chain_ok:
  assumes "compile_execution_graph (kwargs_of cfg) sorted_srcs srcs = Inr (execution_graph_of cfg)"
    and "valid_sources cfg sorted_srcs srcs"
  shows "chain_ok cfg"
proof -
  let ?g = "execution_graph_of cfg"
  from assms(2) have valid: "distinct (map fst (chain_dedupe [] sorted_srcs srcs))"
    "distinct (tree_ids (ordered_statements (chain_dedupe [] sorted_srcs srcs)))"
    "unique_targets {} (ordered_statements (chain_dedupe [] sorted_srcs srcs))"
    "SOURCE_ENTRY_POINT_PATH \<in> fst ` (set sorted_srcs \<union> set srcs)"
    by (simp_all add: valid_sources_def)
  have sub: "all_chains ?g \<subseteq> graph_chains ?g"
    using compiled_chains_cases [OF assms(1) valid(1)] by (auto simp: all_chains_def ran_def)
  have "good_graph ?g"
    using compiled_chains_cases [OF assms(1) valid(1)] compiled_consistent [OF assms(1) valid(1,2)] sub
    by (auto simp: good_graph_def ran_def consistent_def intro: inj_on_subset)
  note good = this
  from compile_cases [OF assms(1) valid(1)] obtain g1 where
    g1: "add_statements (kwargs_of cfg) (ordered_statements (chain_dedupe [] sorted_srcs srcs)) empty_graph = Inr g1"
    "root_node_executor_mapping ?g = root_node_executor_mapping g1"
    "assignment_executor_mapping ?g = assignment_executor_mapping g1"
    and paths: "\<forall>p root. (p, root) \<in> set sorted_srcs \<union> set srcs \<longrightarrow> map_of (sorted_dependency_chains ?g) p =
       Some (topologically_sort_chains (statement_chains ?g root))" by blast
  have "\<forall>x \<in> graph_chains g1. linked (kwargs_of cfg) (assignment_executor_mapping g1) x"
    by (rule add_statements_linked [OF g1(1)]) (use valid(3) in \<open>simp_all add: empty_graph_def graph_chains_def\<close>)
  moreover have "graph_chains g1 = graph_chains ?g" using g1(2,3) by (simp add: graph_chains_def)
  ultimately have "\<forall>c \<in> all_chains ?g. linked (kwargs_of cfg) (assignment_executor_mapping ?g) c"
    using sub g1(3) by auto
  then have "\<forall>c \<in> all_chains ?g. reads_dependencies cfg c" using linked_reads by blast
  moreover have "known_source cfg SOURCE_ENTRY_POINT_PATH"
    using valid(4) paths by (fastforce simp: known_source_def)
  ultimately show ?thesis using good by (simp add: chain_ok_def)
qed

lemma compiled_execution:
  assumes "compile_execution_graph (kwargs_of cfg) sorted_srcs srcs = Inr (execution_graph_of cfg)"
    and "valid_sources cfg sorted_srcs srcs" and "\<forall>c \<in> all_chains (execution_graph_of cfg). udf_local cfg c"
  shows "\<exists>ctx. execute cfg = Some (Inr ctx) \<and>
    map_of (resolved_node_values ctx) =
      (\<lambda>i. if i \<in> demanded cfg then Some (denote cfg (chain_at (execution_graph_of cfg) i)) else None) \<and>
    source_ids cfg SOURCE_ENTRY_POINT_PATH \<subseteq> demanded cfg"
proof -
  note ok = compiled_chain_ok [OF assms(1,2)]
  then have "good_graph (execution_graph_of cfg)" "known_source cfg SOURCE_ENTRY_POINT_PATH"
    by (simp_all add: chain_ok_def)
  from execute_ok [OF this] obtain ctx where e: "execute cfg = Some (Inr ctx)"
    "engine_run cfg (start_engine ctx)" "engine_final (start_engine ctx)" by blast
  from final_values [OF ok assms(3) e(2,3)] e(1) demanded_entry show ?thesis by auto
qed

section \<open>Properties\<close>

text \<open>
  (C2) The executor refines the specification in every schedule: when a run ends, exactly the
  demanded chains are resolved and each has the value the specification gives it. So the result
  does not depend on the order in which asynchronous nodes finish.
\<close>

theorem schedule_independent:
  assumes "chain_ok cfg" and "\<forall>c \<in> all_chains (execution_graph_of cfg). udf_local cfg c"
    and "engine_run cfg st" and "engine_final st"
  shows "map_of (resolved_node_values (eng_ctx st)) =
    (\<lambda>i. if i \<in> demanded cfg then Some (denote cfg (chain_at (execution_graph_of cfg) i)) else None)"
  using final_values [OF assms] by blast

text \<open>
  (C3) From sources to results: if the sources compile, have distinct paths and nodes, assign no
  name twice and include the entry point, then executing the compiled graph without a pool
  terminates, and the value of every chain of the entry point is the one of the specification.
\<close>

theorem compiled_execution_correct:
  assumes "compile_execution_graph (kwargs_of cfg) sorted_srcs srcs = Inr (execution_graph_of cfg)"
    and "valid_sources cfg sorted_srcs srcs" and "\<forall>c \<in> all_chains (execution_graph_of cfg). udf_local cfg c"
  shows "\<exists>ctx. execute cfg = Some (Inr ctx) \<and>
    map_of (resolved_node_values ctx) =
      (\<lambda>i. if i \<in> demanded cfg then Some (denote cfg (chain_at (execution_graph_of cfg) i)) else None) \<and>
    source_ids cfg SOURCE_ENTRY_POINT_PATH \<subseteq> demanded cfg"
  by (rule compiled_execution [OF assms])

section \<open>A concrete run\<close>

lemma demo_compiled:
  "compile_execution_graph (kwargs_of demo_config) [demo_lib] [demo_main, demo_lib] =
     Inr (execution_graph_of demo_config)"
  using demo_egraph_eval by (simp add: kwargs_of_def [abs_def] demo_config_def demo_udf_def)

lemma demo_valid: "valid_sources demo_config [demo_lib] [demo_main, demo_lib]"
  unfolding valid_sources_def by (intro conjI; code_simp)

lemma demo_local: "\<forall>c \<in> all_chains (execution_graph_of demo_config). udf_local demo_config c"
  by (simp add: udf_local_def demo_config_def demo_udf_def)

theorem compiled_execution_correct_witness:
  "\<exists>ctx. execute demo_config = Some (Inr ctx) \<and> source_ids demo_config SOURCE_ENTRY_POINT_PATH \<subseteq> demanded demo_config"
  using compiled_execution_correct [OF demo_compiled demo_valid demo_local] by blast

theorem schedule_independent_witness:
  "\<exists>ctx. execute demo_config = Some (Inr ctx) \<and> map_of (resolved_node_values ctx) =
     (\<lambda>i. if i \<in> demanded demo_config
           then Some (denote demo_config (chain_at (execution_graph_of demo_config) i)) else None)"
proof -
  note ok = compiled_chain_ok [OF demo_compiled demo_valid]
  from execute_ok [OF demo_good_graph demo_known] obtain ctx where e: "execute demo_config = Some (Inr ctx)"
    "engine_run demo_config (start_engine ctx)" "engine_final (start_engine ctx)" by blast
  from schedule_independent [OF ok demo_local e(2,3)] e(1) show ?thesis by auto
qed

end
