(* ===== verification/Graph.thy ===== *)
theory Graph
  imports Prelude
begin

text \<open>
  The directed graph of \<open>utils/graph.py\<close> and its depth-first \<open>topological_sort\<close>, which the
  validator of imports uses, and that validator's error report
  (\<open>validators/imports_must_not_have_cycles.py\<close>). A Python set is modelled by the list of its
  elements in iteration order; no result depends on that order.
\<close>

section \<open>Graphs\<close>

type_synonym 'n graph = "('n, 'n list) dict"

definition add_node :: "'n \<Rightarrow> 'n graph \<Rightarrow> 'n graph" where
  "add_node v g = (if map_of g v = None then AList.update v [] g else g)"

definition iter_edges :: "'n graph \<Rightarrow> 'n \<Rightarrow> 'n list" where
  "iter_edges g v = (case map_of g v of None \<Rightarrow> [] | Some es \<Rightarrow> es)"

definition add_edge :: "'n \<Rightarrow> 'n \<Rightarrow> 'n graph \<Rightarrow> 'n graph" where
  "add_edge v e g =
     (let g1 = add_node v (add_node e g);
          es = iter_edges g1 v
      in AList.update v (if e \<in> set es then es else es @ [e]) g1)"

definition iter_nodes :: "'n graph \<Rightarrow> 'n list" where
  "iter_nodes g = keys g"

section \<open>Topological sort\<close>

text \<open>
  The variables of \<open>topological_sort\<close>. \<open>path\<close> and \<open>sorted_path\<close> are kept apart as in the code: the
  first is the set that is searched, the second the list that is reported.
\<close>

record 'n sort_state =
  path_set :: "'n list"
  sorted_path :: "'n list"
  visited :: "'n list"
  sorted_nodes :: "'n list"

datatype 'n sort_error =
  CyclicDependencyError "'n list"
| SortAssertionError

definition enter :: "'n \<Rightarrow> 'n sort_state \<Rightarrow> 'n sort_state" where
  "enter v st = st\<lparr>visited := v # visited st, path_set := v # path_set st,
     sorted_path := sorted_path st @ [v]\<rparr>"

definition leave :: "'n \<Rightarrow> 'n sort_state \<Rightarrow> 'n sort_error + 'n sort_state" where
  "leave v st =
     (if sorted_path st = [] \<or> last (sorted_path st) \<noteq> v then Inl SortAssertionError
      else Inr (st\<lparr>sorted_path := butlast (sorted_path st), path_set := remove1 v (path_set st),
                  sorted_nodes := sorted_nodes st @ [v]\<rparr>))"

text \<open>
  The loop of \<open>visit\<close> over the edges of a node, with the recursive call of \<open>visit\<close> unfolded: an
  edge to a visited node returns at once.
\<close>

function visit_edges :: "'n graph \<Rightarrow> 'n list \<Rightarrow> 'n sort_state \<Rightarrow> 'n sort_error + 'n sort_state" where
  "visit_edges g [] st = Inr st"
| "visit_edges g (e # es) st =
     (if e \<in> set (path_set st) then Inl (CyclicDependencyError (sorted_path st))
      else if e \<in> set (visited st) then visit_edges g es st
      else case visit_edges g (iter_edges g e) (enter e st) of
             Inl err \<Rightarrow> Inl err
           | Inr st1 \<Rightarrow> (case leave e st1 of
                 Inl err \<Rightarrow> Inl err
               | Inr st2 \<Rightarrow> visit_edges g es st2))"
  by pat_completeness auto

lemma enter_simps [simp]:
  "path_set (enter v st) = v # path_set st" "sorted_path (enter v st) = sorted_path st @ [v]"
  "visited (enter v st) = v # visited st" "sorted_nodes (enter v st) = sorted_nodes st"
  by (simp_all add: enter_def)

lemma leave_Inr:
  "leave v st = Inr st' \<Longrightarrow> sorted_path st = sorted_path st' @ [v] \<and> visited st' = visited st \<and>
     path_set st' = remove1 v (path_set st) \<and> sorted_nodes st' = sorted_nodes st @ [v]"
  by (auto simp: leave_def split: if_splits)

lemma visit_edges_visited_p:
  assumes "visit_edges_dom (g, es, st)"
  shows "visit_edges g es st = Inr st' \<Longrightarrow> set (visited st) \<subseteq> set (visited st')"
  using assms
proof (induction arbitrary: st' rule: visit_edges.pinduct)
  case (1 g st)
  then show ?case by (simp add: visit_edges.psimps)
next
  case (2 g e es st)
  note eq = 2(5) [unfolded visit_edges.psimps(2) [OF 2(1)]]
  show ?case
  proof (cases "e \<in> set (path_set st) \<or> e \<in> set (visited st)")
    case True
    with eq 2(2) show ?thesis by (auto split: if_splits)
  next
    case False
    with eq obtain st1 st2 where st: "visit_edges g (iter_edges g e) (enter e st) = Inr st1"
      "leave e st1 = Inr st2" "visit_edges g es st2 = Inr st'" by (auto split: sum.splits)
    with 2(3) [OF _ _ st(1)] 2(4) [OF _ _ st(1,2,3)] False leave_Inr [OF st(2)] show ?thesis
      by auto
  qed
qed

definition unvisited :: "'n graph \<Rightarrow> 'n sort_state \<Rightarrow> 'n set" where
  "unvisited g st = set (iter_nodes g) - set (visited st)"

lemma finite_unvisited [simp]: "finite (unvisited g st)"
  by (simp add: unvisited_def iter_nodes_def)

lemma iter_edges_unknown: "v \<notin> set (iter_nodes g) \<Longrightarrow> iter_edges g v = []"
  by (simp add: iter_edges_def iter_nodes_def map_of_None_keys option.case_eq_if del: set_map)

termination visit_edges
proof (relation "measures [\<lambda>(g, es, st). card (unvisited g st), \<lambda>(g, es, st). length es]")
  fix g :: "'n graph" and e es and st :: "'n sort_state"
  assume "e \<notin> set (visited st)"
  show "((g, iter_edges g e, enter e st), g, e # es, st)
      \<in> measures [\<lambda>(g, es, st). card (unvisited g st), \<lambda>(g, es, st). length es]"
  proof (cases "e \<in> set (iter_nodes g)")
    case True
    with \<open>e \<notin> set (visited st)\<close> have "unvisited g (enter e st) \<subset> unvisited g st"
      by (auto simp: unvisited_def)
    then have "card (unvisited g (enter e st)) < card (unvisited g st)"
      by (rule psubset_card_mono [OF finite_unvisited])
    then show ?thesis by simp
  next
    case False
    then have "unvisited g (enter e st) = unvisited g st" by (auto simp: unvisited_def)
    with False show ?thesis by (simp add: iter_edges_unknown)
  qed
next
  fix g :: "'n graph" and e es and st st1 st2 :: "'n sort_state"
  assume "visit_edges_dom (g, iter_edges g e, enter e st)"
    and "visit_edges g (iter_edges g e) (enter e st) = Inr st1" and "leave e st1 = Inr st2"
  from visit_edges_visited_p [OF this(1,2)] leave_Inr [OF this(3)]
  have "unvisited g st2 \<subseteq> unvisited g st" by (auto simp: unvisited_def)
  then have "card (unvisited g st2) \<le> card (unvisited g st)" by (rule card_mono [OF finite_unvisited])
  then show "((g, es, st2), g, e # es, st)
      \<in> measures [\<lambda>(g, es, st). card (unvisited g st), \<lambda>(g, es, st). length es]" by auto
qed (auto)

definition visit :: "'n graph \<Rightarrow> 'n \<Rightarrow> 'n sort_state \<Rightarrow> 'n sort_error + 'n sort_state" where
  "visit g v st =
     (if v \<in> set (visited st) then Inr st
      else case visit_edges g (iter_edges g v) (enter v st) of
             Inl err \<Rightarrow> Inl err
           | Inr st1 \<Rightarrow> leave v st1)"

text \<open>The loop of \<open>visit\<close> over its edges is what the code writes: \<open>visit\<close> for each edge in turn.\<close>

lemma visit_edges_Cons:
  "visit_edges g (e # es) st =
     (if e \<in> set (path_set st) then Inl (CyclicDependencyError (sorted_path st))
      else case visit g e st of Inl err \<Rightarrow> Inl err | Inr st1 \<Rightarrow> visit_edges g es st1)"
  by (simp add: visit_def split: sum.split)

fun visit_all :: "'n graph \<Rightarrow> 'n list \<Rightarrow> 'n sort_state \<Rightarrow> 'n sort_error + 'n sort_state" where
  "visit_all g [] st = Inr st"
| "visit_all g (v # vs) st =
     (case visit g v st of Inl err \<Rightarrow> Inl err | Inr st1 \<Rightarrow> visit_all g vs st1)"

definition sort_start :: "'n sort_state" where
  "sort_start = \<lparr>path_set = [], sorted_path = [], visited = [], sorted_nodes = []\<rparr>"

definition topological_sort :: "'n graph \<Rightarrow> 'n sort_error + 'n list" where
  "topological_sort g =
     (case visit_all g (iter_nodes g) sort_start of
        Inl err \<Rightarrow> Inl err
      | Inr st \<Rightarrow> Inr (sorted_nodes st))"

section \<open>Correctness of the sort\<close>

definition is_edge :: "'n graph \<Rightarrow> 'n \<Rightarrow> 'n \<Rightarrow> bool" where
  "is_edge g u v \<longleftrightarrow> v \<in> set (iter_edges g u)"

definition edge_rel :: "'n graph \<Rightarrow> ('n \<times> 'n) set" where
  "edge_rel g = {(u, v). is_edge g u v}"

definition sort_inv :: "'n graph \<Rightarrow> 'n sort_state \<Rightarrow> bool" where
  "sort_inv g st \<longleftrightarrow>
     distinct (sorted_path st @ sorted_nodes st) \<and>
     set (visited st) \<subseteq> set (iter_nodes g) \<union> Range (edge_rel g) \<and>
     set (visited st) = set (sorted_path st) \<union> set (sorted_nodes st) \<and>
     distinct (path_set st) \<and> set (path_set st) = set (sorted_path st) \<and>
     successively (is_edge g) (sorted_path st) \<and>
     (\<forall>v e. v \<in> set (sorted_nodes st) \<longrightarrow> is_edge g v e \<longrightarrow> before (sorted_nodes st) e v)"

text \<open>A path whose last node has an edge back into the path.\<close>

definition cycle_report :: "'n graph \<Rightarrow> 'n list \<Rightarrow> bool" where
  "cycle_report g p \<longleftrightarrow> p \<noteq> [] \<and> distinct p \<and> successively (is_edge g) p \<and>
     (\<exists>e \<in> set p. is_edge g (last p) e)"

lemma sort_inv_enter:
  assumes "sort_inv g st" and "v \<notin> set (visited st)"
    and "if sorted_path st = [] then v \<in> set (iter_nodes g) else is_edge g (last (sorted_path st)) v"
  shows "sort_inv g (enter v st)"
  using assms by (auto simp: sort_inv_def successively_append_iff edge_rel_def split: if_splits)

lemma sort_inv_leave:
  assumes "sort_inv g st1" and "sorted_path st1 = p @ [v]"
    and "set (iter_edges g v) \<subseteq> set (sorted_nodes st1)"
  shows "\<exists>st2. leave v st1 = Inr st2 \<and> sort_inv g st2 \<and> sorted_path st2 = p \<and>
    sorted_nodes st2 = sorted_nodes st1 @ [v] \<and> visited st2 = visited st1"
proof -
  define st2 where "st2 = st1\<lparr>sorted_path := p, path_set := remove1 v (path_set st1),
    sorted_nodes := sorted_nodes st1 @ [v]\<rparr>"
  have "leave v st1 = Inr st2" using assms(2) by (simp add: leave_def st2_def)
  moreover have "before (sorted_nodes st1 @ [v]) e u"
    if "u \<in> set (sorted_nodes st1 @ [v])" "is_edge g u e" for u e
  proof (cases "u \<in> set (sorted_nodes st1)")
    case True
    with that(2) assms(1) have "before (sorted_nodes st1) e u" by (simp add: sort_inv_def)
    then show ?thesis by (rule before_append1)
  next
    case False
    with that assms(3) show ?thesis by (auto simp: is_edge_def intro: before_snoc)
  qed
  then have "sort_inv g st2"
    using assms(1,2) by (auto simp: sort_inv_def st2_def successively_append_iff)
  ultimately show ?thesis by (auto simp: st2_def)
qed

lemma visit_edges_ok:
  assumes "sort_inv g st" and "sorted_path st \<noteq> []"
    and "\<And>e. e \<in> set es \<Longrightarrow> is_edge g (last (sorted_path st)) e"
  shows "case visit_edges g es st of
      Inr st' \<Rightarrow> sort_inv g st' \<and> sorted_path st' = sorted_path st \<and>
        set es \<union> set (sorted_nodes st) \<subseteq> set (sorted_nodes st')
    | Inl err \<Rightarrow> (\<exists>p. err = CyclicDependencyError p \<and> cycle_report g p)"
  using assms
proof (induction g es st rule: visit_edges.induct)
  case (2 g e es st)
  consider (cycle) "e \<in> set (path_set st)" | (old) "e \<notin> set (path_set st)" "e \<in> set (visited st)"
    | (new) "e \<notin> set (path_set st)" "e \<notin> set (visited st)" by blast
  then show ?case
  proof cases
    case cycle
    with 2(4-6) show ?thesis by (auto simp: sort_inv_def cycle_report_def)
  next
    case old
    with 2(4) have "e \<in> set (sorted_nodes st)" by (auto simp: sort_inv_def)
    with old 2(1) [OF old] 2(4-6) show ?thesis by (auto split: sum.splits)
  next
    case new
    have inv1: "sort_inv g (enter e st)" using sort_inv_enter [OF 2(4) new(2)] 2(5,6) by simp
    note deep = 2(2) [OF new inv1]
    show ?thesis
    proof (cases "visit_edges g (iter_edges g e) (enter e st)")
      case (Inl err)
      with deep new show ?thesis by (simp add: is_edge_def)
    next
      case (Inr st1)
      with deep have st1: "sort_inv g st1" "sorted_path st1 = sorted_path st @ [e]"
        "set (iter_edges g e) \<union> set (sorted_nodes st) \<subseteq> set (sorted_nodes st1)"
        by (simp_all add: is_edge_def)
      from sort_inv_leave [OF st1(1,2)] st1(3) obtain st2 where st2: "leave e st1 = Inr st2"
        "sort_inv g st2" "sorted_path st2 = sorted_path st" "sorted_nodes st2 = sorted_nodes st1 @ [e]"
        by auto
      with 2(3) [OF new Inr st2(1)] 2(5,6) Inr new st1(3) show ?thesis
        by (auto split: sum.splits)
    qed
  qed
qed simp

lemma visit_ok:
  assumes "sort_inv g st" and "sorted_path st = []" and "v \<in> set (iter_nodes g)"
  shows "case visit g v st of
      Inr st' \<Rightarrow> sort_inv g st' \<and> sorted_path st' = [] \<and>
        insert v (set (sorted_nodes st)) \<subseteq> set (sorted_nodes st')
    | Inl err \<Rightarrow> (\<exists>p. err = CyclicDependencyError p \<and> cycle_report g p)"
proof (cases "v \<in> set (visited st)")
  case True
  with assms show ?thesis by (auto simp: visit_def sort_inv_def)
next
  case False
  have inv1: "sort_inv g (enter v st)" using sort_inv_enter [OF assms(1) False] assms(2,3) by simp
  note deep = visit_edges_ok [OF inv1, of "iter_edges g v"]
  show ?thesis
  proof (cases "visit_edges g (iter_edges g v) (enter v st)")
    case (Inl err)
    with deep False show ?thesis by (simp add: is_edge_def visit_def)
  next
    case (Inr st1)
    with deep have st1: "sort_inv g st1" "sorted_path st1 = [] @ [v]"
      "set (iter_edges g v) \<union> set (sorted_nodes st) \<subseteq> set (sorted_nodes st1)"
      using assms(2) by (simp_all add: is_edge_def)
    from sort_inv_leave [OF st1(1,2)] st1(3) False Inr show ?thesis
      by (auto simp: visit_def)
  qed
qed

lemma visit_all_ok:
  assumes "sort_inv g st" and "sorted_path st = []" and "set vs \<subseteq> set (iter_nodes g)"
  shows "case visit_all g vs st of
      Inr st' \<Rightarrow> sort_inv g st' \<and> sorted_path st' = [] \<and>
        set vs \<union> set (sorted_nodes st) \<subseteq> set (sorted_nodes st')
    | Inl err \<Rightarrow> (\<exists>p. err = CyclicDependencyError p \<and> cycle_report g p)"
  using assms
proof (induction vs arbitrary: st)
  case (Cons v vs)
  from Cons.prems(3) have v: "v \<in> set (iter_nodes g)" by simp
  show ?case
  proof (cases "visit g v st")
    case (Inl err)
    with visit_ok [OF Cons.prems(1,2) v] show ?thesis by simp
  next
    case (Inr st1)
    with visit_ok [OF Cons.prems(1,2) v] have st1: "sort_inv g st1" "sorted_path st1 = []"
      "insert v (set (sorted_nodes st)) \<subseteq> set (sorted_nodes st1)" by simp_all
    from Cons.IH [OF st1(1,2)] Cons.prems(3) st1(3) Inr show ?thesis by (auto split: sum.splits)
  qed
qed simp

lemma topological_sort_cases:
  "case topological_sort g of
      Inr order \<Rightarrow> distinct order \<and> set order = set (iter_nodes g) \<union> Range (edge_rel g) \<and>
        (\<forall>u v. is_edge g u v \<longrightarrow> before order v u)
    | Inl err \<Rightarrow> (\<exists>p. err = CyclicDependencyError p \<and> cycle_report g p)"
proof -
  have "sort_inv g sort_start" "sorted_path sort_start = []"
    by (simp_all add: sort_inv_def sort_start_def)
  note ok = visit_all_ok [OF this subset_refl]
  show ?thesis
  proof (cases "visit_all g (iter_nodes g) sort_start")
    case (Inl err)
    with ok show ?thesis by (simp add: topological_sort_def)
  next
    case (Inr st)
    with ok have inv: "sort_inv g st" "sorted_path st = []"
      and all: "set (iter_nodes g) \<subseteq> set (sorted_nodes st)" by simp_all
    have bef: "before (sorted_nodes st) v u" if "is_edge g u v" for u v
    proof -
      have "u \<in> set (iter_nodes g)"
        using that iter_edges_unknown [of u g] unfolding is_edge_def by (metis list.set(1) emptyE)
      with all inv that show ?thesis by (auto simp: sort_inv_def)
    qed
    then have "Range (edge_rel g) \<subseteq> set (sorted_nodes st)"
      using before_in_set by (force simp: edge_rel_def)
    with all bef inv Inr show ?thesis by (auto simp: topological_sort_def sort_inv_def)
  qed
qed

lemma before_acyclic:
  assumes "distinct xs" and "\<And>u v. (u, v) \<in> R \<Longrightarrow> before xs v u"
  shows "acyclic R"
proof -
  have "before xs x y" if "(x, y) \<in> (R\<inverse>)\<^sup>+" for x y
    using that
  proof (induction rule: trancl_induct)
    case (step y z)
    then show ?case using assms distinct_before_trans [of xs x y z] by blast
  qed (use assms(2) in blast)
  then have "acyclic (R\<inverse>)" using distinct_before_asym [OF assms(1)] unfolding acyclic_def by blast
  then show ?thesis by (simp add: acyclic_converse)
qed

lemma successively_trancl:
  assumes "successively P (xs @ [z])" and "y \<in> set xs" and "\<And>a b. P a b \<Longrightarrow> (a, b) \<in> R"
  shows "(y, z) \<in> R\<^sup>+"
  using assms(1,2)
proof (induction xs arbitrary: y)
  case (Cons x xs)
  show ?case
  proof (cases xs)
    case Nil
    with Cons.prems assms(3) show ?thesis by auto
  next
    case (Cons w ws)
    with Cons.prems have "P x w" "successively P (xs @ [z])" by auto
    then have "(x, w) \<in> R" "\<And>u. u \<in> set xs \<Longrightarrow> (u, z) \<in> R\<^sup>+"
      using assms(3) Cons.IH by auto
    with Cons.prems(2) Cons show ?thesis by (auto intro: trancl_into_trancl2)
  qed
qed simp

lemma cycle_report_cyclic:
  assumes "cycle_report g p"
  shows "\<not> acyclic (edge_rel g)"
proof -
  from assms obtain e xs where p: "p = xs @ [last p]" "e \<in> set p" "is_edge g (last p) e"
    "successively (is_edge g) p" by (auto simp: cycle_report_def intro: append_butlast_last_id [symmetric])
  have "(e, last p) \<in> (edge_rel g)\<^sup>*"
  proof (cases "e = last p")
    case False
    with p(2) have "e \<in> set xs" by (subst (asm) p(1)) auto
    with successively_trancl [of "is_edge g" xs "last p" e "edge_rel g"] p show ?thesis
      by (auto simp: edge_rel_def intro: trancl_into_rtrancl)
  qed simp
  moreover have "(last p, e) \<in> edge_rel g" using p(3) by (simp add: edge_rel_def)
  ultimately have "(last p, last p) \<in> (edge_rel g)\<^sup>+" by (meson rtrancl_into_trancl2)
  then show ?thesis by (auto simp: acyclic_def)
qed

section \<open>Graphs built edge by edge\<close>

lemma iter_edges_update: "iter_edges (AList.update v es g) u = (if u = v then es else iter_edges g u)"
  by (simp add: iter_edges_def dict_simps)

lemma iter_edges_add_node [simp]: "iter_edges (add_node v g) u = iter_edges g u"
  by (simp add: add_node_def iter_edges_update) (simp add: iter_edges_def)

lemma iter_nodes_add_node: "set (iter_nodes (add_node v g)) = insert v (set (iter_nodes g))"
  using map_of_None_keys [of g v] set_keys_update [of v "[]" g]
  by (auto simp: add_node_def iter_nodes_def simp del: set_map)

lemma is_edge_add_edge: "is_edge (add_edge v e g) a b \<longleftrightarrow> is_edge g a b \<or> a = v \<and> b = e"
  by (auto simp: add_edge_def is_edge_def iter_edges_update Let_def)

lemma iter_nodes_add_edge: "set (iter_nodes (add_edge v e g)) = insert v (insert e (set (iter_nodes g)))"
  using iter_nodes_add_node [of v "add_node e g"] iter_nodes_add_node [of e g]
    set_keys_update [of v _ "add_node v (add_node e g)"]
  by (simp add: add_edge_def Let_def iter_nodes_def insert_commute del: set_map)

section \<open>The import-cycle validator\<close>

text \<open>
  A call node of a source, through the UDF it resolved to: an \<open>Import\<close> carries the sources it
  imports with the spans of the import.
\<close>

datatype ('s, 'sp) call_udf = ImportUdf "('s \<times> 'sp) list" | OtherUdf

record ('s, 'sp) import_state =
  import_graph :: "'s graph"
  import_pairs :: "('s \<times> 's, 'sp) dict"

fun add_imports :: "'s \<Rightarrow> ('s \<times> 'sp) list \<Rightarrow> ('s, 'sp) import_state \<Rightarrow> ('s, 'sp) import_state" where
  "add_imports src [] st = st"
| "add_imports src ((edge, span) # es) st =
     add_imports src es (st\<lparr>import_graph := add_edge src edge (import_graph st),
       import_pairs := AList.update (src, edge) span (import_pairs st)\<rparr>)"

fun validate_import_source :: "'s \<Rightarrow> ('s, 'sp) call_udf list \<Rightarrow> ('s, 'sp) import_state \<Rightarrow>
    ('s, 'sp) import_state" where
  "validate_import_source src [] st = st"
| "validate_import_source src (ImportUdf es # calls) st =
     validate_import_source src calls (add_imports src es st)"
| "validate_import_source src (OtherUdf # calls) st = validate_import_source src calls st"

fun validate_import_sources :: "('s \<times> ('s, 'sp) call_udf list) list \<Rightarrow> ('s, 'sp) import_state \<Rightarrow>
    ('s, 'sp) import_state" where
  "validate_import_sources [] st = st"
| "validate_import_sources ((src, calls) # srcs) st =
     validate_import_sources srcs (validate_import_source src calls st)"

text \<open>The loop over the reported path; a missing pair is a \<open>KeyError\<close>.\<close>

fun cycle_spans :: "('s \<times> 's, 'sp) dict \<Rightarrow> 's list \<Rightarrow> 'sp list result" where
  "cycle_spans pairs (a # b # p) =
     (case map_of pairs (a, b) of
        None \<Rightarrow> Inl KeyError
      | Some sp \<Rightarrow> bindR (cycle_spans pairs (b # p)) (\<lambda>sps. Inr (sp # sps)))"
| "cycle_spans pairs p = Inr []"

datatype ('s, 'sp) import_outcome =
  SortedImports "'s list"
| ImportCycle 'sp "'sp list"

definition run_import_validator :: "('s \<times> ('s, 'sp) call_udf list) list \<Rightarrow>
    ('s, 'sp) import_outcome result" where
  "run_import_validator srcs =
     (let st = validate_import_sources srcs \<lparr>import_graph = [], import_pairs = []\<rparr> in
      case topological_sort (import_graph st) of
        Inr order \<Rightarrow> Inr (SortedImports order)
      | Inl SortAssertionError \<Rightarrow> Inl (AssertionError ''sorted_path'')
      | Inl (CyclicDependencyError p) \<Rightarrow>
          bindR (cycle_spans (import_pairs st) p) (\<lambda>spans.
            if p = [] then Inl IndexError
            else case map_of (import_pairs st) (last p, hd p) of
              None \<Rightarrow> Inl KeyError
            | Some sp \<Rightarrow>
                (case spans @ [sp] of
                   [] \<Rightarrow> Inl (ValueError ''not enough values to unpack'')
                 | s # ss \<Rightarrow> Inr (ImportCycle s ss))))"

text \<open>The imports the sources ask for.\<close>

definition call_imports :: "('s, 'sp) call_udf \<Rightarrow> 's set" where
  "call_imports c = (case c of ImportUdf es \<Rightarrow> fst ` set es | OtherUdf \<Rightarrow> {})"

definition imports_of :: "('s \<times> ('s, 'sp) call_udf list) list \<Rightarrow> ('s \<times> 's) set" where
  "imports_of srcs = (\<Union>(a, calls) \<in> set srcs. \<Union>c \<in> set calls. {a} \<times> call_imports c)"

definition import_inv :: "('s \<times> 's) set \<Rightarrow> ('s, 'sp) import_state \<Rightarrow> bool" where
  "import_inv E st \<longleftrightarrow> edge_rel (import_graph st) = E \<and>
     set (iter_nodes (import_graph st)) = Domain E \<union> Range E \<and> dom (map_of (import_pairs st)) = E"

lemma import_inv_step:
  assumes "import_inv E st"
  shows "import_inv (insert (a, b) E) (st\<lparr>import_graph := add_edge a b (import_graph st),
       import_pairs := AList.update (a, b) sp (import_pairs st)\<rparr>)"
  using assms
  by (auto simp: import_inv_def edge_rel_def is_edge_add_edge iter_nodes_add_edge dict_simps
      split: if_splits)

lemma add_imports_inv: "import_inv E st \<Longrightarrow> import_inv (E \<union> {a} \<times> fst ` set es) (add_imports a es st)"
proof (induction es arbitrary: E st)
  case (Cons x es)
  obtain b sp where x: "x = (b, sp)" by (cases x)
  have "insert (a, b) E \<union> {a} \<times> fst ` set es = E \<union> {a} \<times> fst ` set (x # es)" using x by auto
  with Cons.IH [OF import_inv_step [OF Cons.prems]] x show ?case by (metis add_imports.simps(2))
qed simp

lemma validate_import_source_inv:
  "import_inv E st \<Longrightarrow>
     import_inv (E \<union> (\<Union>c \<in> set calls. {a} \<times> call_imports c)) (validate_import_source a calls st)"
proof (induction a calls st arbitrary: E rule: validate_import_source.induct)
  case (2 a es calls st)
  from "2.IH" [OF add_imports_inv [OF "2.prems"]] show ?case
    by (simp add: call_imports_def Un_assoc)
qed (auto simp: call_imports_def)

lemma validate_import_sources_inv:
  "import_inv E st \<Longrightarrow> import_inv (E \<union> imports_of srcs) (validate_import_sources srcs st)"
proof (induction srcs st arbitrary: E rule: validate_import_sources.induct)
  case (2 a calls srcs st)
  from "2.IH" [OF validate_import_source_inv [OF "2.prems"]] show ?case
    by (simp add: imports_of_def Un_assoc)
qed (simp add: imports_of_def)

lemma import_state_inv:
  "import_inv (imports_of srcs) (validate_import_sources srcs \<lparr>import_graph = [], import_pairs = []\<rparr>)"
proof -
  have "import_inv {} \<lparr>import_graph = [], import_pairs = []\<rparr>"
    by (auto simp: import_inv_def edge_rel_def is_edge_def iter_edges_def iter_nodes_def)
  from validate_import_sources_inv [OF this, of srcs] show ?thesis by simp
qed

lemma cycle_spans_ok:
  "successively (\<lambda>a b. (a, b) \<in> dom (map_of pairs)) p \<Longrightarrow>
     \<exists>sps. cycle_spans pairs p = Inr sps \<and> length sps = length p - 1"
  by (induction pairs p rule: cycle_spans.induct) auto

text \<open>
  The outcome of the validator on a reported path: the span of every import of the path, and
  of the import from its last source to its first one, if there is such an import.
\<close>

lemma run_import_validator_cases:
  "case topological_sort (import_graph (validate_import_sources srcs
        \<lparr>import_graph = [], import_pairs = []\<rparr>)) of
      Inr order \<Rightarrow> run_import_validator srcs = Inr (SortedImports order) \<and>
        acyclic (imports_of srcs) \<and> distinct order \<and>
        set order = Domain (imports_of srcs) \<union> Range (imports_of srcs) \<and>
        (\<forall>(a, b) \<in> imports_of srcs. before order b a)
    | Inl err \<Rightarrow> \<not> acyclic (imports_of srcs) \<and> (\<exists>p. err = CyclicDependencyError p \<and> p \<noteq> [] \<and>
        successively (\<lambda>a b. (a, b) \<in> imports_of srcs) p \<and>
        (if (last p, hd p) \<in> imports_of srcs
         then \<exists>s ss. run_import_validator srcs = Inr (ImportCycle s ss) \<and> length ss + 1 = length p
         else run_import_validator srcs = Inl KeyError))"
proof -
  define st where "st = validate_import_sources srcs \<lparr>import_graph = [], import_pairs = []\<rparr>"
  have inv: "edge_rel (import_graph st) = imports_of srcs"
    "set (iter_nodes (import_graph st)) = Domain (imports_of srcs) \<union> Range (imports_of srcs)"
    "dom (map_of (import_pairs st)) = imports_of srcs"
    using import_state_inv [of srcs] by (simp_all add: import_inv_def st_def)
  have ie: "is_edge (import_graph st) a b \<longleftrightarrow> (a, b) \<in> imports_of srcs" for a b
    using inv(1) by (auto simp: edge_rel_def)
  note spec = topological_sort_cases [of "import_graph st"]
  show ?thesis
  proof (cases "topological_sort (import_graph st)")
    case (Inr order)
    with spec have "distinct order" "\<And>a b. (a, b) \<in> imports_of srcs \<Longrightarrow> before order b a"
      by (auto simp: ie)
    with before_acyclic [of order "imports_of srcs"] Inr spec inv show ?thesis
      by (auto simp: run_import_validator_def ie simp flip: st_def)
  next
    case (Inl err)
    with spec obtain p where p: "err = CyclicDependencyError p" "cycle_report (import_graph st) p"
      by auto
    then have rep: "p \<noteq> []" "successively (\<lambda>a b. (a, b) \<in> imports_of srcs) p"
      by (auto simp: cycle_report_def ie cong: successively_cong)
    from cycle_spans_ok [of "import_pairs st" p] rep(2) inv(3) obtain sps where
      sps: "cycle_spans (import_pairs st) p = Inr sps" "length sps = length p - 1" by auto
    have run: "run_import_validator srcs =
        (case map_of (import_pairs st) (last p, hd p) of None \<Rightarrow> Inl KeyError
         | Some sp \<Rightarrow> (case sps @ [sp] of [] \<Rightarrow> Inl (ValueError ''not enough values to unpack'')
                       | s # ss \<Rightarrow> Inr (ImportCycle s ss)))"
      using Inl p(1) rep(1) sps(1) by (simp add: run_import_validator_def flip: st_def)
    have "\<exists>s ss. run_import_validator srcs = Inr (ImportCycle s ss) \<and> length ss + 1 = length p"
      if "(last p, hd p) \<in> imports_of srcs"
    proof -
      from that inv(3) obtain sp where "map_of (import_pairs st) (last p, hd p) = Some sp" by auto
      moreover have "length p = length sps + 1" using sps(2) rep(1) by (cases p) auto
      ultimately show ?thesis using run by (cases sps) auto
    qed
    moreover have "run_import_validator srcs = Inl KeyError" if "(last p, hd p) \<notin> imports_of srcs"
      using that inv(3) run by (auto simp: domIff split: option.splits)
    moreover have "\<not> acyclic (imports_of srcs)" using cycle_report_cyclic [OF p(2)] inv(1) by simp
    ultimately show ?thesis using Inl p(1) rep by (simp flip: st_def)
  qed
qed

section \<open>Properties\<close>

text \<open>
  \<open>topological_sort\<close> terminates on every graph. It returns every node exactly once, each
  after the nodes its edges point to, when the graph has no cycle; otherwise, and only then,
  it raises \<open>CyclicDependencyError\<close> with a path of the graph whose last node has an edge
  back into the path. The assertion of \<open>visit\<close> never fails.
\<close>

theorem topological_sort_correct:
  "case topological_sort g of
      Inr order \<Rightarrow> acyclic (edge_rel g) \<and> distinct order \<and>
        set order = set (iter_nodes g) \<union> Range (edge_rel g) \<and>
        (\<forall>u v. is_edge g u v \<longrightarrow> before order v u)
    | Inl err \<Rightarrow> \<not> acyclic (edge_rel g) \<and>
        (\<exists>p. err = CyclicDependencyError p \<and> cycle_report g p)"
proof (cases "topological_sort g")
  case (Inl err)
  with topological_sort_cases [of g] cycle_report_cyclic show ?thesis by auto
next
  case (Inr order)
  with topological_sort_cases [of g] before_acyclic [of order "edge_rel g"] show ?thesis
    by (auto simp: edge_rel_def)
qed

text \<open>
  Sources whose imports have no cycle are ordered so that every source comes after the
  sources it imports, which is the order the execution graph is compiled in.
\<close>

theorem import_order_correct:
  assumes "acyclic (imports_of srcs)"
  shows "\<exists>order. run_import_validator srcs = Inr (SortedImports order) \<and> distinct order \<and>
    set order = Domain (imports_of srcs) \<union> Range (imports_of srcs) \<and>
    (\<forall>(a, b) \<in> imports_of srcs. before order b a)"
  using run_import_validator_cases [of srcs] assms by (auto split: sum.splits)

text \<open>
  Cyclic imports are never accepted. They are reported with the span of every import of
  the path the sort stopped at when that path closes at its first source; when the cycle is
  entered from a source outside of it the lookup of the closing import fails and the
  validator crashes with a \<open>KeyError\<close> instead of reporting the cycle.
\<close>

theorem import_cycle_report:
  assumes "\<not> acyclic (imports_of srcs)"
  shows "\<exists>p. p \<noteq> [] \<and> successively (\<lambda>a b. (a, b) \<in> imports_of srcs) p \<and>
    (if (last p, hd p) \<in> imports_of srcs
     then \<exists>s ss. run_import_validator srcs = Inr (ImportCycle s ss) \<and> length ss + 1 = length p
     else run_import_validator srcs = Inl KeyError)"
  using run_import_validator_cases [of srcs] assms by (auto split: sum.splits)

section \<open>Concrete inputs\<close>

definition demo_graph :: "nat graph" where
  "demo_graph = add_edge 2 3 (add_edge 1 2 [])"

theorem topological_sort_correct_witness:
  "topological_sort demo_graph = Inr [3, 2, 1] \<and> acyclic (edge_rel demo_graph) \<and> is_edge demo_graph 1 2 \<and>
     before [3, 2, 1 :: nat] 2 1"
proof -
  have "topological_sort demo_graph = Inr [3, 2, 1]" "is_edge demo_graph 1 2" by code_simp+
  with topological_sort_correct [of demo_graph] show ?thesis by auto
qed

definition demo_imports :: "(nat \<times> (nat, nat) call_udf list) list" where
  "demo_imports = [(0, [ImportUdf [(1, 10)]]), (1, [OtherUdf, ImportUdf [(2, 20)]]), (2, [])]"

theorem import_order_correct_witness:
  "\<exists>order. run_import_validator demo_imports = Inr (SortedImports order) \<and> before order 2 1"
proof -
  have e: "imports_of demo_imports = {(0, 1), (1, 2)}"
    by (auto simp: imports_of_def demo_imports_def call_imports_def)
  have "imports_of demo_imports \<subseteq> measure id" by (simp add: e)
  then have "acyclic (imports_of demo_imports)" using wf_acyclic [OF wf_measure] acyclic_subset by blast
  from import_order_correct [OF this] show ?thesis by (auto simp: e)
qed

text \<open>\<open>main\<close> imports 1, 1 imports 2, and 2 imports itself: the sort reports the path 1, 2.\<close>

definition demo_import_cycle :: "(nat \<times> (nat, nat) call_udf list) list" where
  "demo_import_cycle = [(0, [ImportUdf [(1, 10)]]), (1, [ImportUdf [(2, 20)]]), (2, [ImportUdf [(2, 30)]])]"

theorem import_cycle_report_witness:
  "\<not> acyclic (imports_of demo_import_cycle) \<and> run_import_validator demo_import_cycle = Inl KeyError \<and>
     (\<exists>p. p \<noteq> [] \<and> successively (\<lambda>a b. (a, b) \<in> imports_of demo_import_cycle) p \<and>
        (last p, hd p) \<notin> imports_of demo_import_cycle)"
proof -
  have e: "imports_of demo_import_cycle = {(0, 1), (1, 2), (2, 2)}"
    by (auto simp: imports_of_def demo_import_cycle_def call_imports_def)
  then have "\<not> acyclic (imports_of demo_import_cycle)" by (auto simp: acyclic_def)
  moreover have "run_import_validator demo_import_cycle = Inl KeyError" by code_simp
  ultimately show ?thesis using import_cycle_report [of demo_import_cycle]
    by (auto split: if_splits)
qed

end
