(* ===== verification/Validators.thy ===== *)
theory Validators
  imports Validation Evaluation Graph
begin

text \<open>
  The validators that look at names, calls and imports (\<open>ast_validator/validators\<close>:
  \<open>UniqueStoredNames\<close>, \<open>NoUnusedLocals\<close>, \<open>ValidateCallRValue\<close>, \<open>VariablesMustBeDefined\<close>) and the
  constructor of the \<open>Import\<close> function (\<open>stdlib/udfs/import_.py\<close>). Each is a function of the sources
  that returns the errors it adds and its result. Annotations, which a name may carry after type
  checking, contain neither names nor calls, so the traversals here are over the tree alone. The
  edit distance of the \<open>Levenshtein\<close> package is a parameter.
\<close>

text \<open>Errors name the class of the validator that emitted them.\<close>

type_synonym verror = "string message"

section \<open>Traversal with parents\<close>

text \<open>\<open>iter_nodes\<close> where every node comes with its \<open>parent\<close>.\<close>

function iter_parented :: "ast_node option \<Rightarrow> ast_node \<Rightarrow> (ast_node option \<times> ast_node) list" where
  "iter_parented par n = (par, n) # concat (map (iter_parented (Some n)) (child_nodes n))"
  by pat_completeness auto
termination by (relation "measure (size \<circ> snd)") (simp_all add: child_size)

declare iter_parented.simps [simp del]

lemma iter_parented_nodes: "map snd (iter_parented par n) = iter_tree n"
proof (induction par n rule: iter_parented.induct)
  case (1 par n)
  then show ?case
    by (subst iter_parented.simps, subst iter_tree.simps) (simp add: map_concat comp_def cong: map_cong)
qed

lemma iter_parented_self [simp]: "(par, n) \<in> set (iter_parented par n)"
  by (subst iter_parented.simps) simp

lemma iter_parented_child:
  "c \<in> set (child_nodes n) \<Longrightarrow> set (iter_parented (Some n) c) \<subseteq> set (iter_parented par n)"
  by (subst (2) iter_parented.simps) auto

section \<open>Unique stored names\<close>

type_synonym name_ref = "meta \<times> string"

fun as_stored :: "ast_node \<Rightarrow> name_ref option" where
  "as_stored (Name m i Store) = Some (m, i)"
| "as_stored _ = None"

definition stored_names :: "ast_node \<Rightarrow> name_ref list" where
  "stored_names root = List.map_filter as_stored (iter_tree root)"

text \<open>
  A \<open>defaultdict(list)\<close> whose lists are only ever appended to: the value is the first element and
  the others, as the loops over it unpack it.
\<close>

definition append_to :: "'k \<Rightarrow> 'a \<Rightarrow> ('k, 'a \<times> 'a list) dict \<Rightarrow> ('k, 'a \<times> 'a list) dict" where
  "append_to k x d =
     AList.update k (case map_of d k of None \<Rightarrow> (x, []) | Some (y, ys) \<Rightarrow> (y, ys @ [x])) d"

type_synonym occurrences = "(string, span \<times> span list) dict"

record stored_index =
  stored_global_names :: occurrences
  stored_local_names_by_file :: "(string, occurrences) dict"

definition collect_name :: "name_ref \<Rightarrow> stored_index \<Rightarrow> stored_index" where
  "collect_name = (\<lambda>(m, i) st.
     if is_local i then
       (let path = span_source (node_span m);
            names = (case map_of (stored_local_names_by_file st) path of None \<Rightarrow> [] | Some d \<Rightarrow> d)
        in st\<lparr>stored_local_names_by_file :=
                AList.update path (append_to i (node_span m) names) (stored_local_names_by_file st)\<rparr>)
     else st\<lparr>stored_global_names := append_to i (node_span m) (stored_global_names st)\<rparr>)"

definition collect_names :: "name_ref list \<Rightarrow> stored_index" where
  "collect_names ns = fold collect_name ns \<lparr>stored_global_names = [], stored_local_names_by_file = []\<rparr>"

text \<open>The loops over the collected names: one error for every name with additional spans.\<close>

definition duplicate_errors :: "string \<Rightarrow> string \<Rightarrow> occurrences \<Rightarrow> verror list" where
  "duplicate_errors msg h d = List.map_filter
     (\<lambda>(i, sp, rest). if rest = [] then None
        else Some (validation_message msg sp h ''such as:'' rest)) d"

definition identifier_index :: "occurrences \<Rightarrow> (string, span) dict" where
  "identifier_index d = List.map_filter (\<lambda>(i, sp, rest). if rest = [] then Some (i, sp) else None) d"

definition unique_stored_names :: "source list \<Rightarrow> verror list \<times> (string, span) dict" where
  "unique_stored_names srcs =
     (let st = collect_names (concat (map (stored_names \<circ> snd) srcs)) in
      (duplicate_errors ''features must be unique across all rule files''
         ''this feature is defined in multiple locations'' (stored_global_names st) @
       concat (map (duplicate_errors ''local variables must be unique in their file''
         ''this local variable is defined in multiple locations in this file'')
           (dvalues (stored_local_names_by_file st))),
       identifier_index (stored_global_names st)))"

section \<open>Unused local variables\<close>

fun as_name :: "ast_node \<Rightarrow> (meta \<times> string \<times> ctx) option" where
  "as_name (Name m i c) = Some (m, i, c)"
| "as_name _ = None"

type_synonym seen_locals = "(string, nat \<times> meta) dict"

definition count_local :: "meta \<times> string \<times> ctx \<Rightarrow> seen_locals \<Rightarrow> seen_locals" where
  "count_local = (\<lambda>(m, i, c) seen.
     (case c of
        Store \<Rightarrow> (case map_of seen i of None \<Rightarrow> AList.update i (0, m) seen | Some _ \<Rightarrow> seen)
      | Load \<Rightarrow> (case map_of seen i of None \<Rightarrow> seen
                 | Some (n, p) \<Rightarrow> AList.update i (n + 1, p) seen)))"

definition local_names :: "ast_node \<Rightarrow> (meta \<times> string \<times> ctx) list" where
  "local_names root = filter (\<lambda>(m, i, c). is_local i) (List.map_filter as_name (iter_tree root))"

definition no_unused_locals :: "ast_node \<Rightarrow> verror list" where
  "no_unused_locals root = List.map_filter
     (\<lambda>(i, n, m). if n > 0 then None
        else Some (validation_message (''unused local variable: `'' @ i @ ''`'') (node_span m)
          ''this variable is not used anywhere, and thus has no effect. either delete or comment it out'' [] []))
     (fold count_local (local_names root) [])"

section \<open>Results of calls\<close>

text \<open>
  \<open>validate_call_node\<close>: \<open>has_res\<close> is \<open>has_result()\<close> of the class registered for a function name, or
  \<open>None\<close> when the registry has none. The hints are examples built from the names.
\<close>

definition used_result_error :: "string \<Rightarrow> string" where
  "used_result_error f = ''this must must not be used as a statement within the source root, e.g.:'' @ [char_of (10::nat)] @
     ''- `Foo = '' @ f @ ''(...)` is OK'' @ [char_of (10::nat)] @
     ''- `SomeOtherFunction(argument='' @ f @ ''(...))` is OK'' @ [char_of (10::nat)] @
     ''- `'' @ f @ ''(...)` is not OK''"

definition stored_result_error :: "string \<Rightarrow> string \<Rightarrow> string" where
  "stored_result_error f target = ''this cannot appear to the right of a `=`, e.g.:'' @ [char_of (10::nat)] @
     ''- `'' @ f @ ''(...)` is OK'' @ [char_of (10::nat)] @
     ''- `'' @ target @ '' = '' @ f @ ''(...)` is not OK''"

definition no_result_error :: "string \<Rightarrow> string" where
  "no_result_error f = ''this function has no result, and thus its result cannot be used:'' @ [char_of (10::nat)] @
     ''- `'' @ f @ ''(...)` is OK, however:'' @ [char_of (10::nat)] @
     ''- `Foo = Bar + '' @ f @ ''(...)` and'' @ [char_of (10::nat)] @
     ''- `Bar(qux='' @ f @ ''(...))` are not OK'' @ [char_of (10::nat)]"

definition validate_call_node :: "(string \<Rightarrow> bool option) \<Rightarrow> ast_node \<Rightarrow> ast_node option \<Rightarrow> ast_node \<Rightarrow>
    verror list" where
  "validate_call_node has_res root par n =
     (case n of
        Call m (Name fm f fc) args \<Rightarrow>
          (case has_res f of
             None \<Rightarrow> []
           | Some True \<Rightarrow>
               if par = Some root
               then [validation_message ''you must use the result of this function call'' (node_span m)
                       (used_result_error f) [] []]
               else []
           | Some False \<Rightarrow>
               if par = Some root then []
               else (case par of
                 Some (Assign _ (Name _ target _) _ _) \<Rightarrow>
                   [validation_message
                     ''you cannot store the result of this function call because it has no return value''
                     (node_span m) (stored_result_error f target) [] []]
               | _ \<Rightarrow>
                   [validation_message
                     ''you cannot use the result of this function call because it has no return value''
                     (node_span m) (no_result_error f) [] []]))
      | _ \<Rightarrow> [])"

text \<open>\<open>validate_source\<close>: the assertion on the class of \<open>func\<close> comes after the call was checked.\<close>

fun call_rvalue_errors :: "(string \<Rightarrow> bool option) \<Rightarrow> ast_node \<Rightarrow> (ast_node option \<times> ast_node) list \<Rightarrow>
    verror list result" where
  "call_rvalue_errors has_res root [] = Inr []"
| "call_rvalue_errors has_res root ((par, n) # ns) =
     (case n of
        Call m f args \<Rightarrow>
          if is_name f
          then bindR (call_rvalue_errors has_res root ns)
                 (\<lambda>es. Inr (validate_call_node has_res root par n @ es))
          else Inl (AssertionError [])
      | _ \<Rightarrow> call_rvalue_errors has_res root ns)"

definition validate_call_rvalue :: "(string \<Rightarrow> bool option) \<Rightarrow> ast_node \<Rightarrow> verror list result" where
  "validate_call_rvalue has_res root = call_rvalue_errors has_res root (iter_parented None root)"

section \<open>Imports\<close>

text \<open>
  The constructor of \<open>Import\<close>. \<open>paths\<close> are the paths of the source collection; \<open>suggestion\<close> is the
  statement printed with the sorted list in place of the given one.
\<close>

record import_scan =
  sources_and_spans :: "(string \<times> span) list"
  import_source_names :: "string list"
  import_spans_by_name :: "(string, span \<times> span list) dict"
  scan_errors :: "verror list"

fun import_item :: "string list \<Rightarrow> ast_node \<Rightarrow> import_scan \<Rightarrow> import_scan result" where
  "import_item paths (StringLit m p) st =
     Inr (st\<lparr>import_source_names := import_source_names st @ [p],
             scan_errors := scan_errors st @
               (if p \<in> set paths then []
                else [validation_message (''imported file: '' @ p @ '' not found'') (node_span m)
                        ''import attempted here'' [] []]),
             sources_and_spans := sources_and_spans st @ (if p \<in> set paths then [(p, node_span m)] else []),
             import_spans_by_name := append_to p (node_span m) (import_spans_by_name st)\<rparr>)"
| "import_item paths _ st = Inl (AssertionError [])"

fun import_items :: "string list \<Rightarrow> ast_node list \<Rightarrow> import_scan \<Rightarrow> import_scan result" where
  "import_items paths [] st = Inr st"
| "import_items paths (n # ns) st = bindR (import_item paths n st) (import_items paths ns)"

definition import_duplicates :: "(string, span \<times> span list) dict \<Rightarrow> verror list" where
  "import_duplicates d = List.map_filter
     (\<lambda>(p, sp, rest). if rest = [] then None
        else Some (validation_message (''import has a duplicated items for rule: '' @ p) sp
               ''first import attempted here''
               (nat_digits (length rest) @ '' duplicate(s) found here'') rest)) d"

fun insort_str :: "string \<Rightarrow> string list \<Rightarrow> string list" where
  "insort_str s [] = [s]"
| "insort_str s (t # ts) = (if str_less t s then t # insort_str s ts else s # t # ts)"

definition sorted_strs :: "string list \<Rightarrow> string list" where
  "sorted_strs ss = foldr insort_str ss []"

definition import_init :: "(string list \<Rightarrow> string) \<Rightarrow> string list \<Rightarrow> ast_node \<Rightarrow>
    (verror list \<times> (string, span) call_udf) result" where
  "import_init suggestion paths literal =
     (case literal of
        ListLit m items \<Rightarrow>
          bindR (import_items paths items \<lparr>sources_and_spans = [], import_source_names = [],
                   import_spans_by_name = [], scan_errors = []\<rparr>) (\<lambda>st.
            let srt = sorted_strs (import_source_names st) in
            Inr (scan_errors st @ import_duplicates (import_spans_by_name st) @
                   (if import_source_names st \<noteq> srt
                    then [validation_message ''import rules are not sorted'' (node_span m)
                            (''sort imports lexicographically:'' @ [char_of (10::nat)] @ ''`'' @ suggestion srt @ ''`'') [] []]
                    else []),
                 ImportUdf (sources_and_spans st)))
      | _ \<Rightarrow> Inl (AssertionError []))"

section \<open>Names must be defined\<close>

text \<open>
  \<open>get_closest_string_within_threshold\<close>: \<open>min\<close> returns the first candidate of the least distance.
  Identifiers are lowered in the ASCII range.
\<close>

definition lower_char :: "char \<Rightarrow> char" where
  "lower_char c = (let n = of_char c :: nat in if 65 \<le> n \<and> n \<le> 90 then char_of (n + 32) else c)"

fun min_by :: "('a \<Rightarrow> nat) \<Rightarrow> 'a \<Rightarrow> 'a list \<Rightarrow> 'a" where
  "min_by f x [] = x"
| "min_by f x (y # ys) = min_by f (if f y < f x then y else x) ys"

definition get_closest_string_within_threshold ::
  "(string \<Rightarrow> string \<Rightarrow> nat) \<Rightarrow> string \<Rightarrow> string list \<Rightarrow> nat \<Rightarrow> string option" where
  "get_closest_string_within_threshold distance s candidates threshold =
     (if length s \<le> threshold then None
      else case candidates of
        [] \<Rightarrow> None
      | c # cs \<Rightarrow>
          (let f = (\<lambda>t. distance (map lower_char s) (map lower_char t)); closest = min_by f c cs in
           if f closest \<le> threshold then Some closest else None))"

definition is_import :: "ast_node \<Rightarrow> bool" where
  "is_import n = (case n of Call _ (Name _ f _) _ \<Rightarrow> f = ''Import'' | _ \<Rightarrow> False)"

definition is_function_call :: "ast_node option \<Rightarrow> ast_node \<Rightarrow> bool" where
  "is_function_call par n = (case par of Some (Call _ f _) \<Rightarrow> f = n | _ \<Rightarrow> False)"

type_synonym udf_mapping = "(nat, (string, span) call_udf) dict"

text \<open>\<open>get_imported_sources\<close> looks the call up in the result of \<open>ValidateCallKwargs\<close>.\<close>

definition get_imported_sources :: "udf_mapping \<Rightarrow> ast_node \<Rightarrow> string list result" where
  "get_imported_sources udfs n =
     (case map_of udfs (nid n) of
        None \<Rightarrow> Inl KeyError
      | Some (ImportUdf es) \<Rightarrow> Inr (map fst es)
      | Some OtherUdf \<Rightarrow> Inl (AssertionError []))"

definition identifiers_by_source :: "(string, span) dict \<Rightarrow> string \<Rightarrow> string list" where
  "identifiers_by_source index path = map fst (filter (\<lambda>(i, sp). span_source sp = path) index)"

definition first_some :: "'a option \<Rightarrow> 'a option \<Rightarrow> 'a option" where
  "first_some a b = (case a of Some x \<Rightarrow> Some x | None \<Rightarrow> b)"

text \<open>The error for a loaded name that is not known: the branches of the code in their order.\<close>

definition unknown_identifier_error ::
  "(string \<Rightarrow> string \<Rightarrow> nat) \<Rightarrow> (string, span) dict \<Rightarrow> string list \<Rightarrow> meta \<Rightarrow> string \<Rightarrow> verror" where
  "unknown_identifier_error distance index known m i =
     (case map_of index i of
        Some found \<Rightarrow>
          validation_message ''unknown identifier'' (node_span m)
            ''this identifier was not imported into this file'' ''however, it was found here:'' [found]
      | None \<Rightarrow>
          (case first_some (get_closest_string_within_threshold distance i known 3)
                  (get_closest_string_within_threshold distance i (keys index) 3) of
             Some closest \<Rightarrow>
               (case map_of index closest of
                  None \<Rightarrow>
                    validation_message ''unknown identifier'' (node_span m)
                      (''unknown name `'' @ i @ ''`, did you mean `'' @ closest @ ''`?'') [] []
                | Some maybe_found \<Rightarrow>
                    validation_message ''unknown identifier'' (node_span m) ''this identifier not found''
                      (if closest \<in> set known then ''however, a similar in-scope identifier was found here:''
                       else ''however, a similar identifier was found here:'') [maybe_found])
           | None \<Rightarrow>
               if is_local i
               then validation_message ''unknown local variable'' (node_span m)
                 (''`'' @ i @ ''` does not exist in this file'' @ [char_of (10::nat)] @
                  ''variables that start with `_` can only be used in the file they're declared in'') [] []
               else validation_message ''unknown identifier'' (node_span m)
                 (''`'' @ i @ ''` does not exist in any rule files. typo, perhaps?'') [] []))"

text \<open>The loads of the target within its own assignment.\<close>

definition self_reference_errors :: "meta \<Rightarrow> string \<Rightarrow> ast_node \<Rightarrow> verror list" where
  "self_reference_errors tm target v = List.map_filter
     (\<lambda>n. case n of
        Name m i Load \<Rightarrow>
          if i = target
          then Some (validation_message ''cannot both store and load the same value within an assignment''
                 (node_span m) ''you cannot use the identifier you are assigning to in its assignment''
                 ''assignment happens here:'' [node_span tm])
          else None
      | _ \<Rightarrow> None) (iter_tree v)"

definition variables_node ::
  "(string \<Rightarrow> string \<Rightarrow> nat) \<Rightarrow> udf_mapping \<Rightarrow> (string, span) dict \<Rightarrow> string list \<Rightarrow> ast_node option \<Rightarrow> ast_node \<Rightarrow>
   (string list \<times> verror list) result" where
  "variables_node distance udfs index known par n =
     (if is_import n then
        bindR (get_imported_sources udfs n) (\<lambda>paths.
          Inr (known @ concat (map (identifiers_by_source index) paths), []))
      else case n of
        Name m i Store \<Rightarrow> Inr (known @ [i], [])
      | Name m i Load \<Rightarrow>
          Inr (known, if is_function_call par n \<or> i \<in> set known then []
                      else [unknown_identifier_error distance index known m i])
      | Assign m (Name tm target tc) v a \<Rightarrow> Inr (known, self_reference_errors tm target v)
      | _ \<Rightarrow> Inr (known, []))"

fun variables_nodes ::
  "(string \<Rightarrow> string \<Rightarrow> nat) \<Rightarrow> udf_mapping \<Rightarrow> (string, span) dict \<Rightarrow> string list \<Rightarrow>
   (ast_node option \<times> ast_node) list \<Rightarrow> (string list \<times> verror list) result" where
  "variables_nodes distance udfs index known [] = Inr (known, [])"
| "variables_nodes distance udfs index known ((par, n) # ns) =
     bindR (variables_node distance udfs index known par n) (\<lambda>(known1, es1).
       bindR (variables_nodes distance udfs index known1 ns) (\<lambda>(known2, es2). Inr (known2, es1 @ es2)))"

text \<open>\<open>run\<close>: the errors of all sources and the identifiers known at the end of each.\<close>

fun variables_must_be_defined ::
  "(string \<Rightarrow> string \<Rightarrow> nat) \<Rightarrow> udf_mapping \<Rightarrow> (string, span) dict \<Rightarrow> string list \<Rightarrow> source list \<Rightarrow>
   (verror list \<times> (string, string list) dict) result" where
  "variables_must_be_defined distance udfs index global_names [] = Inr ([], [])"
| "variables_must_be_defined distance udfs index global_names ((path, root) # srcs) =
     bindR (variables_nodes distance udfs index global_names (iter_parented None root)) (\<lambda>(known, es1).
       bindR (variables_must_be_defined distance udfs index global_names srcs) (\<lambda>(es2, rest).
         Inr (es1 @ es2, (path, known) # rest)))"

section \<open>Duplicates\<close>

text \<open>What a \<open>defaultdict(list)\<close> holds for a key after a loop: the elements with that key, in order.\<close>

definition grouped :: "'a list \<Rightarrow> ('a \<times> 'a list) option" where
  "grouped xs = (case xs of [] \<Rightarrow> None | x # ys \<Rightarrow> Some (x, ys))"

lemma grouped_snoc: "grouped (xs @ [x]) = Some (case grouped xs of None \<Rightarrow> (x, []) | Some (y, ys) \<Rightarrow> (y, ys @ [x]))"
  by (cases xs) (simp_all add: grouped_def)

lemma append_to_map:
  assumes "\<And>k. map_of d k = grouped (g k)"
  shows "map_of (append_to k x d) k' = grouped (if k' = k then g k @ [x] else g k')"
  using assms by (simp add: append_to_def dict_simps grouped_snoc)

lemma append_to_keys: "distinct (keys d) \<Longrightarrow> distinct (keys (append_to k x d))"
  unfolding append_to_def by (rule distinct_keys_update)

abbreviation name_span :: "name_ref \<Rightarrow> span" where
  "name_span n \<equiv> node_span (fst n)"

definition global_spans :: "name_ref list \<Rightarrow> string \<Rightarrow> span list" where
  "global_spans ns i = map name_span (filter (\<lambda>n. \<not> is_local (snd n) \<and> snd n = i) ns)"

definition local_spans :: "name_ref list \<Rightarrow> string \<Rightarrow> string \<Rightarrow> span list" where
  "local_spans ns p i =
     map name_span (filter (\<lambda>n. is_local (snd n) \<and> span_source (name_span n) = p \<and> snd n = i) ns)"

definition locals_ok :: "name_ref list \<Rightarrow> string \<Rightarrow> occurrences option \<Rightarrow> bool" where
  "locals_ok ns p x = (case x of
     None \<Rightarrow> \<forall>i. local_spans ns p i = []
   | Some d \<Rightarrow> distinct (keys d) \<and> (\<forall>i. map_of d i = grouped (local_spans ns p i)))"

definition index_ok :: "name_ref list \<Rightarrow> stored_index \<Rightarrow> bool" where
  "index_ok ns st \<longleftrightarrow> distinct (keys (stored_global_names st)) \<and>
     distinct (keys (stored_local_names_by_file st)) \<and>
     (\<forall>i. map_of (stored_global_names st) i = grouped (global_spans ns i)) \<and>
     (\<forall>p. locals_ok ns p (map_of (stored_local_names_by_file st) p))"

lemma locals_ok_cong: "(\<And>i. local_spans ns p i = local_spans ns' p i) \<Longrightarrow> locals_ok ns p = locals_ok ns' p"
  by (auto simp: locals_ok_def fun_eq_iff split: option.splits)

lemma spans_snoc:
  "global_spans (ns @ [n]) i =
     (if \<not> is_local (snd n) \<and> snd n = i then global_spans ns i @ [name_span n] else global_spans ns i)"
  "local_spans (ns @ [n]) p i =
     (if is_local (snd n) \<and> span_source (name_span n) = p \<and> snd n = i
      then local_spans ns p i @ [name_span n] else local_spans ns p i)"
  by (auto simp: global_spans_def local_spans_def)

lemma collect_name_global:
  assumes "index_ok ns st" and "\<not> is_local i"
  shows "index_ok (ns @ [(m, i)]) (collect_name (m, i) st)"
proof -
  have g: "map_of (stored_global_names st) = (\<lambda>k. grouped (global_spans ns k))" using assms(1) by (auto simp: index_ok_def)
  have "map_of (append_to i (node_span m) (stored_global_names st)) k =
      grouped (global_spans (ns @ [(m, i)]) k)" for k
    using append_to_map [of "stored_global_names st" "global_spans ns" i "node_span m" k] g assms(2)
    by (simp add: spans_snoc)
  moreover have "locals_ok (ns @ [(m, i)]) p = locals_ok ns p" for p
    using assms(2) by (intro locals_ok_cong) (simp add: spans_snoc)
  ultimately show ?thesis
    using assms by (simp add: index_ok_def collect_name_def append_to_keys)
qed

lemma collect_name_local:
  assumes "index_ok ns st" and "is_local i"
  shows "index_ok (ns @ [(m, i)]) (collect_name (m, i) st)"
proof -
  define p where "p = span_source (node_span m)"
  define d where "d = (case map_of (stored_local_names_by_file st) p of None \<Rightarrow> [] | Some d \<Rightarrow> d)"
  have d: "distinct (keys d) \<and> (\<forall>k. map_of d k = grouped (local_spans ns p k))"
    using assms(1) unfolding index_ok_def d_def
    by (cases "map_of (stored_local_names_by_file st) p")
      (auto simp: grouped_def locals_ok_def dest!: spec [of _ p])
  have "map_of (append_to i (node_span m) d) k = grouped (local_spans (ns @ [(m, i)]) p k)" for k
    using append_to_map [of d "local_spans ns p" i "node_span m" k] d assms(2)
    by (simp add: spans_snoc p_def)
  then have "locals_ok (ns @ [(m, i)]) p (Some (append_to i (node_span m) d))"
    using d by (simp add: locals_ok_def append_to_keys)
  moreover have "global_spans (ns @ [(m, i)]) j = global_spans ns j" for j
    using assms(2) by (simp add: spans_snoc)
  moreover have "locals_ok (ns @ [(m, i)]) q = locals_ok ns q" if "q \<noteq> p" for q
    using that by (intro locals_ok_cong) (auto simp: spans_snoc p_def)
  moreover have "collect_name (m, i) st = st\<lparr>stored_local_names_by_file :=
      AList.update p (append_to i (node_span m) d) (stored_local_names_by_file st)\<rparr>"
    using assms(2) by (simp add: collect_name_def p_def d_def Let_def)
  ultimately show ?thesis
    using assms(1) by (auto simp: index_ok_def dict_simps)
qed

lemma collect_names_ok: "index_ok ns (collect_names ns)"
proof -
  have "index_ok (ns0 @ ns) (fold collect_name ns st)" if "index_ok ns0 st" for ns0 st
    using that
  proof (induction ns arbitrary: ns0 st)
    case (Cons n ns)
    have "index_ok (ns0 @ [n]) (collect_name n st)"
      using collect_name_global collect_name_local Cons.prems by (cases n, cases "is_local (snd n)") auto
    from Cons.IH [OF this] show ?case by simp
  qed simp
  moreover have "index_ok [] \<lparr>stored_global_names = [], stored_local_names_by_file = []\<rparr>"
    by (simp add: index_ok_def locals_ok_def global_spans_def local_spans_def grouped_def)
  ultimately show ?thesis unfolding collect_names_def by (metis append_Nil)
qed

definition all_stored :: "source list \<Rightarrow> name_ref list" where
  "all_stored srcs = concat (map (stored_names \<circ> snd) srcs)"

text \<open>Global names share one name space, local names have one per file.\<close>

definition storage_key :: "name_ref \<Rightarrow> string option \<times> string" where
  "storage_key n = (if is_local (snd n) then Some (span_source (name_span n)) else None, snd n)"

lemma distinct_map_groups: "distinct (map f xs) \<longleftrightarrow> (\<forall>k. length (filter (\<lambda>x. f x = k) xs) \<le> 1)"
proof (induction xs)
  case (Cons x xs)
  have "f x \<in> set (map f xs) \<longleftrightarrow> filter (\<lambda>y. f y = f x) xs \<noteq> []"
    by (simp add: filter_empty_conv image_iff) (metis (full_types))
  then have "(\<forall>k. length (filter (\<lambda>y. f y = k) (x # xs)) \<le> 1) \<longleftrightarrow>
      f x \<notin> set (map f xs) \<and> (\<forall>k. length (filter (\<lambda>y. f y = k) xs) \<le> 1)"
    by (auto simp: le_Suc_eq dest: spec [of _ "f x"] split: if_splits)
  with Cons show ?case by simp
qed simp

lemma map_filter_Nil: "List.map_filter f xs = [] \<longleftrightarrow> (\<forall>x \<in> set xs. f x = None)"
  by (induction xs) (auto simp: List.map_filter_simps split: option.splits)

lemma duplicate_errors_Nil:
  assumes "distinct (keys d)" and "\<And>i. map_of d i = grouped (g i)"
  shows "duplicate_errors msg h d = [] \<longleftrightarrow> (\<forall>i. length (g i) \<le> 1)"
proof -
  have "duplicate_errors msg h d = [] \<longleftrightarrow> (\<forall>(i, sp, rest) \<in> set d. rest = [])"
    by (auto simp: duplicate_errors_def map_filter_Nil split: if_splits)
  also have "\<dots> \<longleftrightarrow> (\<forall>i sp rest. map_of d i = Some (sp, rest) \<longrightarrow> rest = [])"
    using map_of_eq_Some_iff [OF assms(1)] by (auto dest: map_of_SomeD)
  also have "\<dots> \<longleftrightarrow> (\<forall>i. length (g i) \<le> 1)"
  proof (rule iff_allI)
    fix i
    show "(\<forall>sp rest. map_of d i = Some (sp, rest) \<longrightarrow> rest = []) \<longleftrightarrow> length (g i) \<le> 1"
      unfolding assms(2) grouped_def by (cases "g i") auto
  qed
  finally show ?thesis .
qed

lemma storage_groups:
  "filter (\<lambda>n. storage_key n = (None, i)) ns = filter (\<lambda>n. \<not> is_local (snd n) \<and> snd n = i) ns"
  "filter (\<lambda>n. storage_key n = (Some p, i)) ns =
     filter (\<lambda>n. is_local (snd n) \<and> span_source (name_span n) = p \<and> snd n = i) ns"
  by (auto simp: storage_key_def intro!: filter_cong)

lemma dvalues_all:
  "distinct (keys d) \<Longrightarrow> (\<forall>v \<in> set (dvalues d). P v) \<longleftrightarrow> (\<forall>k v. map_of d k = Some v \<longrightarrow> P v)"
  using map_of_eq_Some_iff by fastforce

lemma unique_stored_names_Nil:
  "fst (unique_stored_names srcs) = [] \<longleftrightarrow> distinct (map storage_key (all_stored srcs))"
proof -
  define ns where "ns = all_stored srcs"
  define st where "st = collect_names ns"
  have ok: "index_ok ns st" unfolding st_def by (rule collect_names_ok)
  have global: "duplicate_errors msg h (stored_global_names st) = [] \<longleftrightarrow> (\<forall>i. length (global_spans ns i) \<le> 1)"
    for msg h using ok by (intro duplicate_errors_Nil) (auto simp: index_ok_def)
  have loc: "(\<forall>d \<in> set (dvalues (stored_local_names_by_file st)). duplicate_errors msg h d = []) \<longleftrightarrow>
      (\<forall>p i. length (local_spans ns p i) \<le> 1)" for msg h
  proof -
    have "(\<forall>d \<in> set (dvalues (stored_local_names_by_file st)). duplicate_errors msg h d = []) \<longleftrightarrow>
        (\<forall>p d. map_of (stored_local_names_by_file st) p = Some d \<longrightarrow> duplicate_errors msg h d = [])"
      using ok by (intro dvalues_all) (simp add: index_ok_def)
    also have "\<dots> \<longleftrightarrow> (\<forall>p i. length (local_spans ns p i) \<le> 1)"
    proof (intro iff_allI)
      fix p
      have "locals_ok ns p (map_of (stored_local_names_by_file st) p)" using ok by (simp add: index_ok_def)
      then show "(\<forall>d. map_of (stored_local_names_by_file st) p = Some d \<longrightarrow> duplicate_errors msg h d = []) \<longleftrightarrow>
          (\<forall>i. length (local_spans ns p i) \<le> 1)"
        using duplicate_errors_Nil [of _ "local_spans ns p"]
        by (cases "map_of (stored_local_names_by_file st) p") (auto simp: locals_ok_def)
    qed
    finally show ?thesis .
  qed
  have "fst (unique_stored_names srcs) = [] \<longleftrightarrow>
      (\<forall>i. length (global_spans ns i) \<le> 1) \<and> (\<forall>p i. length (local_spans ns p i) \<le> 1)"
    using global loc by (simp add: unique_stored_names_def Let_def ns_def [unfolded all_stored_def, symmetric]
        st_def [symmetric])
  also have "\<dots> \<longleftrightarrow> (\<forall>k. length (filter (\<lambda>n. storage_key n = k) ns) \<le> 1)"
    by (simp add: split_paired_All global_spans_def local_spans_def storage_groups split_option_all)
  also have "\<dots> \<longleftrightarrow> distinct (map storage_key ns)" by (simp add: distinct_map_groups)
  finally show ?thesis by (simp add: ns_def)
qed

lemma identifier_index_Cons:
  "identifier_index ((j, sp, rest) # d) = (if rest = [] then [(j, sp)] else []) @ identifier_index d"
  by (simp add: identifier_index_def List.map_filter_simps)

lemma map_of_identifier_index:
  "distinct (keys d) \<Longrightarrow>
     map_of (identifier_index d) i = (case map_of d i of Some (sp, []) \<Rightarrow> Some sp | _ \<Rightarrow> None)"
proof (induction d)
  case Nil
  show ?case by (simp add: identifier_index_def List.map_filter_simps)
next
  case (Cons q d)
  obtain j sp rest where q: "q = (j, sp, rest)" by (cases q)
  show ?case
  proof (cases "j = i")
    case True
    then have "map_of d i = None" using Cons.prems q by (simp add: map_of_None_keys)
    with Cons True q show ?thesis by (cases rest) (simp_all add: identifier_index_Cons)
  next
    case False
    with Cons q show ?thesis by (simp add: identifier_index_Cons)
  qed
qed

lemma identifier_index_lookup:
  "map_of (snd (unique_stored_names srcs)) i = Some sp \<longleftrightarrow> global_spans (all_stored srcs) i = [sp]"
proof -
  define st where "st = collect_names (all_stored srcs)"
  have ok: "index_ok (all_stored srcs) st" unfolding st_def by (rule collect_names_ok)
  have "map_of (snd (unique_stored_names srcs)) i =
      (case grouped (global_spans (all_stored srcs) i) of Some (sp, []) \<Rightarrow> Some sp | _ \<Rightarrow> None)"
    using ok map_of_identifier_index [of "stored_global_names st" i]
    by (simp add: unique_stored_names_def Let_def all_stored_def [symmetric] st_def [symmetric] index_ok_def)
  then show ?thesis by (auto simp: grouped_def split: list.splits)
qed

section \<open>Parsed sources\<close>

text \<open>
  What the transformer of the parser guarantees of a tree: assignments store a name, every name of
  a value is loaded, names lie in the file of the source and contain no slash. An attribute access
  has no executor; \<open>ValidateStaticTypes\<close> rejects it.
\<close>

definition value_node :: "ast_node \<Rightarrow> bool" where
  "value_node n = (case n of Name _ _ c \<Rightarrow> c = Load | Attribute _ _ _ _ \<Rightarrow> False | _ \<Rightarrow> True)"

definition value_ok :: "ast_node \<Rightarrow> bool" where
  "value_ok v \<longleftrightarrow> wf_expr v \<and> list_all value_node (iter_tree v)"

definition parsed_stmt :: "ast_node \<Rightarrow> bool" where
  "parsed_stmt s = (case s of
     Assign _ (Name _ _ Store) v a \<Rightarrow> value_ok v \<and> (case a of None \<Rightarrow> True | Some x \<Rightarrow> wf_annotation x)
   | Call _ _ _ \<Rightarrow> value_ok s
   | _ \<Rightarrow> False)"

definition located :: "string \<Rightarrow> ast_node \<Rightarrow> bool" where
  "located path n = (case n of Name m i c \<Rightarrow> span_source (node_span m) = path \<and> CHR ''/'' \<notin> set i | _ \<Rightarrow> True)"

definition parsed_source :: "source \<Rightarrow> bool" where
  "parsed_source src = (case snd src of
     Root m ss \<Rightarrow> list_all parsed_stmt ss \<and> list_all (located (fst src)) (iter_tree (snd src))
   | _ \<Rightarrow> False)"

fun stmt_target :: "ast_node \<Rightarrow> name_ref list" where
  "stmt_target (Assign _ (Name tm i Store) _ _) = [(tm, i)]"
| "stmt_target _ = []"

lemma map_filter_append [simp]: "List.map_filter f (xs @ ys) = List.map_filter f xs @ List.map_filter f ys"
  by (simp add: List.map_filter_def)

lemma map_filter_concat: "List.map_filter f (concat xss) = concat (map (List.map_filter f) xss)"
  by (induction xss) (simp_all add: List.map_filter_simps)

lemma stored_names_value: "list_all value_node (iter_tree v) \<Longrightarrow> stored_names v = []"
proof -
  assume v: "list_all value_node (iter_tree v)"
  have "as_stored n = None" if "value_node n" for n
    using that by (cases n rule: as_stored.cases) (auto simp: value_node_def)
  with v show ?thesis by (auto simp: stored_names_def map_filter_Nil list_all_iff)
qed

lemma annotation_names: "wf_annotation a \<Longrightarrow> n \<in> set (iter_tree a) \<Longrightarrow> as_name n = None \<and> as_stored n = None"
proof (induction a arbitrary: n rule: wf_annotation.induct)
  case (1 m i)
  then show ?case by (subst (asm) iter_tree.simps) simp
next
  case (2 m i vs)
  from 2(3) have "n = AnnotationWithVariants m i vs \<or> (\<exists>v \<in> set vs. n \<in> set (iter_tree v))"
    by (subst (asm) iter_tree.simps) auto
  with 2 show ?case by (auto simp: list_all_iff)
qed simp_all

lemma stored_names_stmt:
  assumes "parsed_stmt s"
  shows "stored_names s = stmt_target s"
proof (cases "is_call s")
  case True
  then have "value_ok s" "stmt_target s = []" using assms by (cases s; simp add: parsed_stmt_def is_call_def)+
  then show ?thesis by (simp add: value_ok_def stored_names_value)
next
  case False
  then obtain m tm i v a where s: "s = Assign m (Name tm i Store) v a" and v: "value_ok v"
    and a: "\<And>x. a = Some x \<Longrightarrow> wf_annotation x"
    using assms by (auto simp: parsed_stmt_def is_call_def split: ast_node.splits ctx.splits option.splits)
  have "stored_names v = []" using v by (simp add: value_ok_def stored_names_value)
  moreover have "stored_names x = []" if "a = Some x" for x
    using annotation_names [OF a [OF that]] by (auto simp: stored_names_def map_filter_Nil)
  ultimately show ?thesis unfolding s
    by (subst stored_names_def, subst iter_tree.simps)
      (auto simp: stored_names_def [symmetric] List.map_filter_simps iter_tree.simps [of "Name tm i Store"]
        split: option.splits)
qed

lemma stored_names_source:
  assumes "parsed_source src"
  shows "stored_names (snd src) = concat (map stmt_target (statements_of (snd src)))"
proof -
  obtain m ss where root: "snd src = Root m ss" and ss: "list_all parsed_stmt ss"
    using assms by (auto simp: parsed_source_def split: ast_node.splits)
  have "stored_names (Root m ss) = concat (map stored_names ss)"
    unfolding stored_names_def
    by (subst iter_tree.simps) (simp add: List.map_filter_simps map_filter_concat comp_def)
  also have "\<dots> = concat (map stmt_target ss)"
    using ss by (intro arg_cong [of _ _ concat] map_cong) (simp_all add: stored_names_stmt list_all_iff)
  finally show ?thesis by (simp add: root statements_of_def)
qed

lemma all_stored_statements:
  assumes "list_all parsed_source srcs"
  shows "all_stored srcs = concat (map stmt_target (ordered_statements srcs))"
  using assms by (induction srcs) (simp_all add: all_stored_def ordered_statements_def stored_names_source)

section \<open>Keys of names\<close>

lemma slash_split:
  assumes "p @ CHR ''/'' # i = q @ CHR ''/'' # j" and "CHR ''/'' \<notin> set i" and "CHR ''/'' \<notin> set j"
  shows "p = q \<and> i = j"
proof -
  have e: "rev i @ CHR ''/'' # rev p = rev j @ CHR ''/'' # rev q"
    using arg_cong [OF assms(1), of rev] by simp
  have "takeWhile (\<lambda>c. c \<noteq> CHR ''/'') (rev k @ CHR ''/'' # r) = rev k" if "CHR ''/'' \<notin> set k" for k r
    using that by (subst takeWhile_append2) auto
  from this [OF assms(2), of "rev p"] this [OF assms(3), of "rev q"] have "rev i = rev j" by (simp add: e)
  with e show ?thesis by simp
qed

definition ref_key :: "name_ref \<Rightarrow> string" where
  "ref_key n = identifier_key (fst n) (snd n)"

lemma ref_key_storage:
  assumes "ref_key n = ref_key n'" and "CHR ''/'' \<notin> set (snd n)" and "CHR ''/'' \<notin> set (snd n')"
  shows "storage_key n = storage_key n'"
proof (cases "is_local (snd n) = is_local (snd n')")
  case True
  with assms slash_split [of "span_source (name_span n)" "snd n" "span_source (name_span n')" "snd n'"]
  show ?thesis by (auto simp: ref_key_def identifier_key_def storage_key_def split: if_splits)
next
  case False
  then have "CHR ''/'' \<in> set (ref_key n) \<longleftrightarrow> CHR ''/'' \<notin> set (ref_key n')"
    using assms(2,3) by (auto simp: ref_key_def identifier_key_def)
  with assms(1) show ?thesis by simp
qed

lemma distinct_ref_keys:
  assumes "distinct (map storage_key ns)" and "\<forall>n \<in> set ns. CHR ''/'' \<notin> set (snd n)"
  shows "distinct (map ref_key ns)"
  using assms(1) unfolding distinct_map inj_on_def
  by (meson assms(2) ref_key_storage)

lemma target_key_stmt: "parsed_stmt s \<Longrightarrow> target_key s = ref_key ` set (stmt_target s)"
  by (auto simp: target_key_def parsed_stmt_def ref_key_def split: ast_node.splits ctx.splits)

lemma unique_targets_distinct:
  assumes "list_all parsed_stmt ss" and "distinct (map ref_key (concat (map stmt_target ss)))"
    and "ref_key ` set (concat (map stmt_target ss)) \<inter> ks = {}"
  shows "unique_targets ks ss"
  using assms
proof (induction ss arbitrary: ks)
  case (Cons s ss)
  have "unique_targets (ks \<union> target_key s) ss"
    using Cons.prems by (intro Cons.IH) (auto simp: target_key_stmt)
  moreover have "target_key s \<inter> ks = {}" using Cons.prems by (auto simp: target_key_stmt)
  ultimately show ?case by simp
qed simp

section \<open>Known names can be compiled\<close>

text \<open>The names that a tree reads: loaded, and not in the place of a called function.\<close>

definition reads :: "ast_node option \<Rightarrow> ast_node \<Rightarrow> name_ref set" where
  "reads par n = {(m, i). \<exists>q. (q, Name m i Load) \<in> set (iter_parented par n) \<and>
     \<not> is_function_call q (Name m i Load)}"

lemma not_function_call: "\<not> is_call q \<Longrightarrow> \<not> is_function_call (Some q) n"
  by (cases q) (simp_all add: is_function_call_def is_call_def)

lemma iter_tree_parented: "x \<in> set (iter_tree n) \<longleftrightarrow> x \<in> snd ` set (iter_parented par n)"
  using iter_parented_nodes [of par n] by (metis list.set_map)

lemma subtree_facts:
  assumes "set (iter_parented (Some q) d) \<subseteq> set (iter_parented par n)"
  shows "reads (Some q) d \<subseteq> reads par n" and "set (iter_tree d) \<subseteq> set (iter_tree n)"
  using assms image_mono [OF assms, of snd]
  by (auto simp: reads_def subset_iff iter_tree_parented [of _ d "Some q"] iter_tree_parented [of _ n par])

definition dependents_ok :: "ast_node option \<Rightarrow> ast_node \<Rightarrow> ast_node list \<Rightarrow> bool" where
  "dependents_ok par n ds \<longleftrightarrow> (\<forall>d \<in> set ds. wf_expr d \<and>
     (\<exists>q. \<not> is_call q \<and> set (iter_parented (Some q) d) \<subseteq> set (iter_parented par n)))"

lemma dependents_children:
  assumes "\<not> is_call n" and "set ds \<subseteq> set (child_nodes n)" and "list_all wf_expr ds"
  shows "dependents_ok par n ds"
  using assms iter_parented_child unfolding dependents_ok_def by (metis (full_types) list_all_iff subset_code(1))

lemma dependents_call:
  assumes "wf_expr (Call m f args)"
  shows "dependents_ok par (Call m f args) (dvalues (get_dependent_node_dict p args))"
proof -
  have "wf_expr d \<and> (\<exists>q. \<not> is_call q \<and> set (iter_parented (Some q) d) \<subseteq> set (iter_parented par (Call m f args)))"
    if "d \<in> set (dvalues (get_dependent_node_dict p args))" for d
  proof -
    from that have "d \<in> set (dvalues (argument_dict args []))"
      by (auto simp: get_dependent_node_dict_def)
    with argument_dict_values [of args "[]"] obtain km k where k: "Keyword km k d \<in> set args" by auto
    then have "wf_expr d" using assms by (auto simp: list_all_iff)
    moreover have "set (iter_parented (Some (Keyword km k d)) d) \<subseteq> set (iter_parented (Some (Call m f args)) (Keyword km k d))"
      by (rule iter_parented_child) simp
    moreover have "set (iter_parented (Some (Call m f args)) (Keyword km k d)) \<subseteq> set (iter_parented par (Call m f args))"
      using k by (intro iter_parented_child) simp
    moreover have "\<not> is_call (Keyword km k d)" by (simp add: is_call_def)
    ultimately show ?thesis by blast
  qed
  then show ?thesis by (simp add: dependents_ok_def)
qed

lemma is_name_Name [simp]: "is_name (Name m i c)"
  by (simp add: is_name_def)

lemma is_name_wf: "is_name n \<Longrightarrow> wf_expr n"
  by (cases n) (simp_all add: is_name_def)

lemma dependents_exist:
  assumes "wf_expr n" and "value_node n" and "\<not> is_name n"
  shows "\<exists>ds. get_dependent_nodes ck n = Some ds \<and> dependents_ok par n ds"
proof (cases "is_call n")
  case True
  then obtain m f args where n: "n = Call m f args" by (cases n) (simp_all add: is_call_def)
  with assms dependents_call show ?thesis by (simp add: get_dependent_nodes_def)
next
  case False
  have "\<exists>ds. get_dependent_nodes ck n = Some ds \<and> set ds \<subseteq> set (child_nodes n) \<and> list_all wf_expr ds"
    using assms False
    by (cases n) (auto simp: get_dependent_nodes_def value_node_def is_name_def [of n] is_call_def list_all_iff
        intro: is_name_wf)
  with dependents_children [OF False] show ?thesis by blast
qed

lemma resolvable_value:
  "wf_expr n \<Longrightarrow> list_all value_node (iter_tree n) \<Longrightarrow> \<not> is_function_call par n \<Longrightarrow>
     \<forall>(m, i) \<in> reads par n. identifier_key m i \<in> ks \<Longrightarrow> resolvable ck ks n"
proof (induction "size n" arbitrary: n par rule: less_induct)
  case less
  have vn: "value_node n" using less.prems(2) by (subst (asm) iter_tree.simps) simp
  show ?case
  proof (cases "is_name n")
    case True
    then obtain m i where n: "n = Name m i Load" using vn by (cases n) (simp_all add: is_name_def value_node_def)
    have "(m, i) \<in> reads par n"
      using n less.prems(3) iter_parented_self [of par n] unfolding reads_def by blast
    with less.prems(4) n show ?thesis by (auto simp: resolvable.simps loaded_name_def)
  next
    case False
    then have ln: "loaded_name n = None" by (cases n) (simp_all add: loaded_name_def is_name_def)
    from dependents_exist [OF less.prems(1) vn False]
    obtain ds where ds: "get_dependent_nodes ck n = Some ds" "dependents_ok par n ds" by blast
    have "resolvable ck ks d" if "d \<in> set ds" for d
    proof -
      from that ds(2) obtain q where q: "wf_expr d" "\<not> is_call q"
          "set (iter_parented (Some q) d) \<subseteq> set (iter_parented par n)" by (auto simp: dependents_ok_def)
      show ?thesis
      proof (rule less.hyps)
        show "size d < size n" using dependent_size [OF ds(1) that] .
        show "\<not> is_function_call (Some q) d" using q(2) by (rule not_function_call)
        show "list_all value_node (iter_tree d)"
          using less.prems(2) subtree_facts(2) [OF q(3)] by (auto simp: list_all_iff)
        show "\<forall>(m, i) \<in> reads (Some q) d. identifier_key m i \<in> ks"
          using less.prems(4) subtree_facts(1) [OF q(3)] by blast
      qed (rule q(1))
    qed
    with ln False ds(1) show ?thesis by (subst resolvable.simps) (simp add: list_all_iff)
  qed
qed

section \<open>Soundness of the check for defined names\<close>

definition imported_by :: "udf_mapping \<Rightarrow> ast_node \<Rightarrow> string set" where
  "imported_by udfs n = (case map_of udfs (nid n) of Some (ImportUdf es) \<Rightarrow> fst ` set es | _ \<Rightarrow> {})"

definition imported_names :: "udf_mapping \<Rightarrow> (string, span) dict \<Rightarrow> (ast_node option \<times> ast_node) list \<Rightarrow> string set" where
  "imported_names udfs index ns =
     (\<Union>(q, n) \<in> set ns. if is_import n then \<Union>p \<in> imported_by udfs n. set (identifiers_by_source index p) else {})"

lemma imported_namesE:
  assumes "i \<in> set [] \<union> imported_names udfs index ns"
  obtains par n q where "(par, n) \<in> set ns" and "is_import n" and "q \<in> imported_by udfs n"
    and "i \<in> set (identifiers_by_source index q)"
  using assms by (auto simp: imported_names_def split: if_splits)

lemma variables_nodes_append:
  "variables_nodes d u ix k (xs @ ys) = Inr (k', []) \<longleftrightarrow>
     (\<exists>k1. variables_nodes d u ix k xs = Inr (k1, []) \<and> variables_nodes d u ix k1 ys = Inr (k', []))"
  by (induction xs arbitrary: k) (fastforce simp: bindR_Inr_conv)+

lemma variables_node_cases:
  assumes "variables_node d u ix k q n = Inr (k', [])"
  shows "set k' = set k \<union> snd ` set_option (as_stored n) \<union> imported_names u ix [(q, n)]"
    and "n = Name m i Load \<Longrightarrow> is_function_call q n \<or> i \<in> set k'"
    and "n = Assign am (Name tm t tc) v a \<Longrightarrow> self_reference_errors tm t v = []"
proof -
  show "set k' = set k \<union> snd ` set_option (as_stored n) \<union> imported_names u ix [(q, n)]"
  proof (cases "is_import n")
    case True
    moreover from this have "as_stored n = None" by (cases n) (simp_all add: is_import_def)
    ultimately show ?thesis using assms
      by (auto simp: variables_node_def imported_names_def imported_by_def get_imported_sources_def bindR_Inr_conv
          split: option.splits call_udf.splits) (metis fst_conv)
  next
    case False
    then show ?thesis using assms
      by (cases n rule: as_stored.cases)
        (auto simp: variables_node_def imported_names_def split: ast_node.splits ctx.splits if_splits)
  qed
  show "n = Name m i Load \<Longrightarrow> is_function_call q n \<or> i \<in> set k'"
    using assms by (auto simp: variables_node_def is_import_def split: if_splits)
  show "n = Assign am (Name tm t tc) v a \<Longrightarrow> self_reference_errors tm t v = []"
    using assms by (simp add: variables_node_def is_import_def)
qed

definition vars_ok :: "string set \<Rightarrow> (ast_node option \<times> ast_node) list \<Rightarrow> bool" where
  "vars_ok k ns \<longleftrightarrow> (\<forall>(q, n) \<in> set ns.
     (\<forall>m i. n = Name m i Load \<longrightarrow> is_function_call q n \<or> i \<in> k) \<and>
     (\<forall>am tm t tc v a. n = Assign am (Name tm t tc) v a \<longrightarrow>
        self_reference_errors tm t v = []))"

lemma self_reference_Nil:
  "self_reference_errors tm t v = [] \<longleftrightarrow> (\<forall>m. Name m t Load \<notin> set (iter_tree v))"
  by (auto simp: self_reference_errors_def map_filter_Nil split: ast_node.splits ctx.splits)

lemma variables_nodes_ok:
  assumes "variables_nodes d u ix k ns = Inr (k', [])"
  shows "set k' = set k \<union> snd ` (\<Union>x \<in> set ns. set_option (as_stored (snd x))) \<union> imported_names u ix ns"
    and "vars_ok (set k') ns"
proof -
  have "set k' = set k \<union> snd ` (\<Union>x \<in> set ns. set_option (as_stored (snd x))) \<union> imported_names u ix ns \<and>
      vars_ok (set k') ns"
    using assms
  proof (induction ns arbitrary: k)
    case Nil
    then show ?case by (simp add: imported_names_def vars_ok_def)
  next
    case (Cons x ns)
    obtain q n where x: "x = (q, n)" by (cases x)
    from Cons.prems x obtain k1 where n: "variables_node d u ix k q n = Inr (k1, [])"
      and ns: "variables_nodes d u ix k1 ns = Inr (k', [])" by (auto simp: bindR_Inr_conv)
    note n1 = variables_node_cases [OF n]
    from Cons.IH [OF ns] have IH: "set k' = set k1 \<union> snd ` (\<Union>x \<in> set ns. set_option (as_stored (snd x))) \<union>
        imported_names u ix ns" "vars_ok (set k') ns" by blast+
    have "imported_names u ix (x # ns) = imported_names u ix [(q, n)] \<union> imported_names u ix ns"
      by (auto simp: imported_names_def x)
    with n1(1) IH(1) x have "set k' = set k \<union> snd ` (\<Union>x \<in> set (x # ns). set_option (as_stored (snd x))) \<union>
        imported_names u ix (x # ns)" by auto
    moreover have "vars_ok (set k') (x # ns)"
      using IH n1(2,3) x self_reference_Nil unfolding vars_ok_def by fastforce
    ultimately show ?case by blast
  qed
  then show "set k' = set k \<union> snd ` (\<Union>x \<in> set ns. set_option (as_stored (snd x))) \<union> imported_names u ix ns"
    and "vars_ok (set k') ns" by blast+
qed

text \<open>The key of a name in the file \<open>path\<close>.\<close>

definition key_in :: "string \<Rightarrow> string \<Rightarrow> string" where
  "key_in path i = (if is_local i then path @ ''/'' @ i else i)"

lemma located_key: "located path (Name m i c) \<Longrightarrow> identifier_key m i = key_in path i"
  by (simp add: located_def identifier_key_def key_in_def)

lemma parsed_stmt_cases:
  assumes "parsed_stmt s"
  obtains (assign) m tm i v a where "s = Assign m (Name tm i Store) v a" and "value_ok v"
  | (call) m f args where "s = Call m f args" and "value_ok s"
  using assms by (cases s) (auto simp: parsed_stmt_def split: ast_node.splits ctx.splits)

lemma set_map_filter_option: "set (List.map_filter f xs) = (\<Union>x \<in> set xs. set_option (f x))"
  by (induction xs) (auto simp: List.map_filter_simps split: option.splits)

lemma vars_ok_assign:
  "vars_ok k ns \<Longrightarrow> (q, Assign am (Name tm t tc) v a) \<in> set ns \<Longrightarrow> self_reference_errors tm t v = []"
  unfolding vars_ok_def by (drule (1) bspec) simp

lemma stored_in_stmt:
  assumes "parsed_stmt s"
  shows "(\<Union>x \<in> set (iter_parented q s). set_option (as_stored (snd x))) = set (stmt_target s)"
proof -
  have "(\<Union>x \<in> set (iter_parented q s). set_option (as_stored (snd x))) =
      (\<Union>n \<in> set (iter_tree s). set_option (as_stored n))"
    unfolding iter_parented_nodes [of q s, symmetric] by simp
  also have "\<dots> = set (stored_names s)"
    by (simp add: stored_names_def set_map_filter_option)
  finally show ?thesis using stored_names_stmt [OF assms] by simp
qed

lemma stmt_resolvable:
  assumes s: "parsed_stmt s" and vars: "variables_nodes d u ix k (iter_parented (Some root) s) = Inr (k', [])"
    and located: "list_all (located path) (iter_tree s)" and root: "\<not> is_call root"
    and known: "\<forall>i \<in> set k \<union> imported_names u ix (iter_parented (Some root) s). key_in path i \<in> ks"
  shows "resolvable ck ks s"
proof -
  note k' = variables_nodes_ok [OF vars, unfolded stored_in_stmt [OF s]]
  have read: "i \<in> set k'" "identifier_key m i = key_in path i"
    if "(m, i) \<in> reads q n" "set (iter_parented q n) \<subseteq> set (iter_parented (Some root) s)" for m i q n
  proof -
    from that obtain r where r: "(r, Name m i Load) \<in> set (iter_parented (Some root) s)"
      "\<not> is_function_call r (Name m i Load)" by (auto simp: reads_def)
    then show "i \<in> set k'" using k'(2) by (auto simp: vars_ok_def)
    have "Name m i Load \<in> set (iter_tree s)" using r(1) by (force simp: iter_tree_parented [of _ s "Some root"])
    with located have "located path (Name m i Load)" by (simp add: list_all_iff)
    then show "identifier_key m i = key_in path i" by (rule located_key)
  qed
  from s show ?thesis
  proof (cases rule: parsed_stmt_cases)
    case (assign m tm i v a)
    have sub: "set (iter_parented (Some s) v) \<subseteq> set (iter_parented (Some root) s)"
      using assign by (intro iter_parented_child) simp
    have no_self: "j \<noteq> i" if "(mj, j) \<in> reads (Some s) v" for mj j
    proof -
      have "self_reference_errors tm i v = []"
        using vars_ok_assign [OF k'(2)] iter_parented_self [of "Some root" s] assign(1) by blast
      moreover from that have "Name mj j Load \<in> set (iter_tree v)"
        by (force simp: reads_def iter_tree_parented [of _ v "Some s"])
      ultimately show ?thesis by (auto simp: self_reference_Nil)
    qed
    have "resolvable ck ks v"
    proof (rule resolvable_value)
      show "wf_expr v" "list_all value_node (iter_tree v)" using assign by (simp_all add: value_ok_def)
      show "\<not> is_function_call (Some s) v" using assign by (simp add: is_function_call_def)
      show "\<forall>(mj, j) \<in> reads (Some s) v. identifier_key mj j \<in> ks"
      proof (clarify)
        fix mj j assume j: "(mj, j) \<in> reads (Some s) v"
        have "set k' = set k \<union> {i} \<union> imported_names u ix (iter_parented (Some root) s)"
          using k'(1) assign(1) by simp
        with read(1) [OF j sub] no_self [OF j] known have "key_in path j \<in> ks" by blast
        then show "identifier_key mj j \<in> ks" using read(2) [OF j sub] by simp
      qed
    qed
    then show ?thesis using assign by (subst resolvable.simps) (simp add: loaded_name_def is_name_def get_dependent_nodes_def)
  next
    case (call m f args)
    show ?thesis
    proof (rule resolvable_value)
      show "wf_expr s" "list_all value_node (iter_tree s)" using call by (simp_all add: value_ok_def)
      show "\<not> is_function_call (Some root) s" using root by (rule not_function_call)
      show "\<forall>(mj, j) \<in> reads (Some root) s. identifier_key mj j \<in> ks"
      proof (clarify)
        fix mj j assume j: "(mj, j) \<in> reads (Some root) s"
        have "set k' = set k \<union> imported_names u ix (iter_parented (Some root) s)"
          using k'(1) call(1) by simp
        with read(1) [OF j subset_refl] known have "key_in path j \<in> ks" by blast
        then show "identifier_key mj j \<in> ks" using read(2) [OF j subset_refl] by simp
      qed
    qed
  qed
qed

lemma imported_names_append:
  "imported_names u ix (xs @ ys) = imported_names u ix xs \<union> imported_names u ix ys"
  by (simp add: imported_names_def)

lemma stmt_target_located:
  assumes "parsed_stmt s" and "list_all (located path) (iter_tree s)"
  shows "target_key s = key_in path ` snd ` set (stmt_target s)"
  using assms(1)
proof (cases rule: parsed_stmt_cases)
  case (assign m tm i v a)
  have "Name tm i Store \<in> set (iter_tree s)"
    using assign(1) by (subst iter_tree.simps) (simp add: iter_tree.simps [of "Name tm i Store"])
  with assms(2) have "located path (Name tm i Store)" by (simp add: list_all_iff)
  from located_key [OF this] assign show ?thesis by (simp add: target_key_def)
qed (simp add: target_key_def)

lemma statements_compilable:
  assumes "variables_nodes d u ix k (concat (map (iter_parented (Some root)) ss)) = Inr (k', [])"
    and "list_all parsed_stmt ss" and "\<forall>s \<in> set ss. list_all (located path) (iter_tree s)" and "\<not> is_call root"
    and "\<forall>i \<in> set k \<union> imported_names u ix (concat (map (iter_parented (Some root)) ss)). key_in path i \<in> ks"
  shows "compilable ck ks ss"
  using assms
proof (induction ss arbitrary: k ks)
  case (Cons s ss)
  from Cons.prems(1) obtain k1 where s: "variables_nodes d u ix k (iter_parented (Some root) s) = Inr (k1, [])"
    and ss: "variables_nodes d u ix k1 (concat (map (iter_parented (Some root)) ss)) = Inr (k', [])"
    by (auto simp: variables_nodes_append)
  have "resolvable ck ks s"
    using Cons.prems by (intro stmt_resolvable [OF _ s]) (auto simp: imported_names_append)
  moreover have "compilable ck (ks \<union> target_key s) ss"
  proof (rule Cons.IH [OF ss])
    have "set k1 = set k \<union> snd ` set (stmt_target s) \<union> imported_names u ix (iter_parented (Some root) s)"
      using variables_nodes_ok(1) [OF s] stored_in_stmt Cons.prems(2) by simp
    then show "\<forall>i \<in> set k1 \<union> imported_names u ix (concat (map (iter_parented (Some root)) ss)).
        key_in path i \<in> ks \<union> target_key s"
      using Cons.prems stmt_target_located [of s path] by (auto simp: imported_names_append)
  qed (use Cons.prems in auto)
  ultimately show ?case by simp
qed simp

section \<open>The order of the sources\<close>

text \<open>
  \<open>ImportsMustNotHaveCycles\<close> on the sources: the functions of their calls, looked up in the result
  of \<open>ValidateCallKwargs\<close>, are what its traversal sees.
\<close>

definition source_calls :: "udf_mapping \<Rightarrow> source \<Rightarrow> (string \<times> (string, span) call_udf list) result" where
  "source_calls udfs src =
     bindR (mapR (\<lambda>n. case map_of udfs (nid n) of None \<Rightarrow> Inl KeyError | Some c \<Rightarrow> Inr c)
              (filter is_call (iter_tree (snd src)))) (\<lambda>cs. Inr (fst src, cs))"

definition imports_must_not_have_cycles :: "udf_mapping \<Rightarrow> source list \<Rightarrow> (string, span) import_outcome result" where
  "imports_must_not_have_cycles udfs srcs = bindR (mapR (source_calls udfs) srcs) run_import_validator"

definition sources_at :: "source list \<Rightarrow> string list \<Rightarrow> source list" where
  "sources_at srcs order = List.map_filter (\<lambda>p. map_option (Pair p) (map_of srcs p)) order"

definition imports_known :: "udf_mapping \<Rightarrow> source list \<Rightarrow> bool" where
  "imports_known udfs srcs \<longleftrightarrow> list_all (\<lambda>(k, c). case c of
     ImportUdf es \<Rightarrow> list_all (\<lambda>e. fst e \<in> set (map fst srcs)) es | OtherUdf \<Rightarrow> True) udfs"

lemma import_items_known:
  assumes "import_items paths ns st = Inr st'" and "fst ` set (sources_and_spans st) \<subseteq> set paths"
  shows "fst ` set (sources_and_spans st') \<subseteq> set paths"
  using assms
proof (induction ns arbitrary: st)
  case (Cons n ns)
  from Cons.prems(1) obtain st1 where n: "import_item paths n st = Inr st1" and ns: "import_items paths ns st1 = Inr st'"
    by (auto simp: bindR_Inr_conv)
  from n have "set (sources_and_spans st1) \<subseteq> set (sources_and_spans st) \<union> {e. fst e \<in> set paths}"
    by (cases n) (auto split: if_splits)
  with Cons.prems(2) have "fst ` set (sources_and_spans st1) \<subseteq> set paths" by blast
  with ns show ?case by (rule Cons.IH)
qed simp

text \<open>The constructor of \<open>Import\<close> only ever stores sources that exist.\<close>

lemma import_init_known:
  assumes "import_init suggestion paths literal = Inr (es, ImportUdf ss)"
  shows "fst ` set ss \<subseteq> set paths"
proof -
  from assms obtain m items st where "import_items paths items \<lparr>sources_and_spans = [], import_source_names = [],
      import_spans_by_name = [], scan_errors = []\<rparr> = Inr st" and "ss = sources_and_spans st"
    by (cases literal) (auto simp: import_init_def bindR_Inr_conv Let_def)
  with import_items_known show ?thesis by fastforce
qed

lemma sources_at_order:
  assumes "set order \<subseteq> set (map fst srcs)"
  shows "map fst (sources_at srcs order) = order \<and> set (sources_at srcs order) \<subseteq> set srcs"
  using assms
proof (induction order)
  case (Cons p order)
  then have "p \<in> set (map fst srcs)" by simp
  then obtain r where r: "map_of srcs p = Some r" using keys_map_of [of p srcs] by blast
  then have "(p, r) \<in> set srcs" by (rule map_of_SomeD)
  with r Cons show ?case by (simp add: sources_at_def List.map_filter_simps)
qed (simp add: sources_at_def List.map_filter_simps)

lemma chain_dedupe_prefix:
  "distinct xs \<Longrightarrow> set xs \<inter> set seen = {} \<Longrightarrow> \<exists>rest. chain_dedupe seen xs ys = xs @ rest"
proof (induction xs arbitrary: seen)
  case (Cons x xs)
  then have "\<exists>rest. chain_dedupe (x # seen) xs ys = xs @ rest" by (intro Cons.IH) auto
  with Cons.prems show ?case by auto
qed simp

lemma mapR_target: "mapR f xs = Inr ys \<Longrightarrow> x \<in> set xs \<Longrightarrow> \<exists>y \<in> set ys. f x = Inr y"
  unfolding mapR_Inr_conv by (rule list_all2_target)

lemma mapR_source: "mapR f xs = Inr ys \<Longrightarrow> y \<in> set ys \<Longrightarrow> \<exists>x \<in> set xs. f x = Inr y"
  unfolding mapR_Inr_conv by (rule list_all2_source)

lemma source_calls_import:
  assumes "mapR (source_calls udfs) srcs = Inr inp" and "src \<in> set srcs" and "n \<in> set (iter_tree (snd src))"
    and "is_import n" and "q \<in> imported_by udfs n"
  shows "(fst src, q) \<in> imports_of inp"
proof -
  have call: "is_call n" using assms(4) by (cases n) (simp_all add: is_import_def is_call_def)
  from mapR_target [OF assms(1,2)] obtain x where x: "x \<in> set inp" "source_calls udfs src = Inr x" by blast
  then obtain cs where cs: "x = (fst src, cs)" "mapR (\<lambda>n. case map_of udfs (nid n) of None \<Rightarrow> Inl KeyError | Some c \<Rightarrow> Inr c)
      (filter is_call (iter_tree (snd src))) = Inr cs" by (auto simp: source_calls_def bindR_Inr_conv)
  from assms(3) call have "n \<in> set (filter is_call (iter_tree (snd src)))" by simp
  from mapR_target [OF cs(2) this] obtain c where "c \<in> set cs" "map_of udfs (nid n) = Some c"
    by (auto split: option.splits)
  moreover from this assms(5) have "q \<in> call_imports c"
    by (auto simp: imported_by_def call_imports_def split: call_udf.splits)
  ultimately show ?thesis using x(1) cs(1) by (auto simp: imports_of_def)
qed

lemma imports_knownD:
  assumes "imports_known udfs srcs" and "(k, c) \<in> set udfs"
  shows "call_imports c \<subseteq> set (map fst srcs)"
  using bspec [OF assms(1) [unfolded imports_known_def list_all_iff] assms(2)]
  by (auto simp: call_imports_def list_all_iff split: call_udf.splits)

lemma imports_of_known:
  assumes "mapR (source_calls udfs) srcs = Inr inp" and "imports_known udfs srcs"
  shows "Domain (imports_of inp) \<union> Range (imports_of inp) \<subseteq> set (map fst srcs)"
proof -
  have "p \<in> set (map fst srcs) \<and> q \<in> set (map fst srcs)" if "(p, q) \<in> imports_of inp" for p q
  proof -
    from that obtain calls c where c: "(p, calls) \<in> set inp" "c \<in> set calls" "q \<in> call_imports c"
      by (auto simp: imports_of_def)
    from mapR_source [OF assms(1) c(1)]
    obtain src where src: "src \<in> set srcs" "source_calls udfs src = Inr (p, calls)" by blast
    then have calls: "fst src = p" "mapR (\<lambda>n. case map_of udfs (nid n) of None \<Rightarrow> Inl KeyError | Some c \<Rightarrow> Inr c)
        (filter is_call (iter_tree (snd src))) = Inr calls" by (auto simp: source_calls_def bindR_Inr_conv)
    from mapR_source [OF calls(2) c(2)] obtain n where "map_of udfs (nid n) = Some c"
      by (auto split: option.splits)
    then have "(nid n, c) \<in> set udfs" by (rule map_of_SomeD)
    from imports_knownD [OF assms(2) this] c(3) have "q \<in> set (map fst srcs)" by blast
    with src(1) calls(1) show ?thesis by force
  qed
  then show ?thesis by blast
qed

section \<open>From validation to compilation\<close>

definition targets_of :: "source list \<Rightarrow> string set" where
  "targets_of srcs = (\<Union>s \<in> set (ordered_statements srcs). target_key s)"

lemma compilable_append:
  "compilable ck ks (ss @ ts) \<longleftrightarrow> compilable ck ks ss \<and> compilable ck (ks \<union> (\<Union>s \<in> set ss. target_key s)) ts"
  by (induction ss arbitrary: ks) (auto simp: Un_assoc)

lemma compilable_sources:
  assumes "\<And>pre src post. srcs = pre @ src # post \<Longrightarrow> compilable ck (targets_of pre) (statements_of (snd src))"
  shows "compilable ck {} (ordered_statements srcs)"
  using assms
proof (induction srcs rule: rev_induct)
  case (snoc src srcs)
  have "compilable ck {} (ordered_statements srcs)"
  proof (rule snoc.IH)
    fix pre s post assume "srcs = pre @ s # post"
    then show "compilable ck (targets_of pre) (statements_of (snd s))" using snoc.prems [of pre s "post @ [src]"] by simp
  qed
  moreover have "compilable ck (targets_of srcs) (statements_of (snd src))" using snoc.prems [of srcs src "[]"] by simp
  ultimately show ?case by (simp add: ordered_statements_def compilable_append targets_of_def)
qed (simp add: ordered_statements_def)

lemma variables_source:
  assumes "variables_must_be_defined d u ix gs srcs = Inr ([], ks)" and "(p, root) \<in> set srcs"
  shows "\<exists>k'. variables_nodes d u ix gs (iter_parented None root) = Inr (k', [])"
  using assms
proof (induction srcs arbitrary: ks)
  case (Cons s srcs)
  obtain q r where s: "s = (q, r)" by (cases s)
  from Cons.prems(1) s obtain k' ks' where "variables_nodes d u ix gs (iter_parented None r) = Inr (k', [])"
    "variables_must_be_defined d u ix gs srcs = Inr ([], ks')" by (auto simp: bindR_Inr_conv)
  with Cons s show ?case by auto
qed simp

lemma identifier_index_keys:
  "distinct (keys d) \<Longrightarrow> distinct (keys (identifier_index d)) \<and> set (keys (identifier_index d)) \<subseteq> set (keys d)"
proof (induction d)
  case Nil
  show ?case by (simp add: identifier_index_def List.map_filter_simps)
next
  case (Cons q d)
  obtain j sp rest where "q = (j, sp, rest)" by (cases q)
  with Cons show ?case by (auto simp: identifier_index_Cons)
qed

text \<open>An identifier that a source offers to its importers is a global name that it assigns.\<close>

lemma offered_target:
  assumes srcs: "list_all parsed_source srcs" and index: "index = snd (unique_stored_names srcs)"
    and i: "i \<in> set (identifiers_by_source index q)"
  shows "\<not> is_local i \<and> (\<exists>r. (q, r) \<in> set srcs \<and> i \<in> targets_of [(q, r)])"
proof -
  have "distinct (keys index)"
  proof -
    have "distinct (keys (stored_global_names (collect_names (all_stored srcs))))"
      using collect_names_ok [of "all_stored srcs"] by (simp add: index_ok_def)
    from identifier_index_keys [OF this] show ?thesis
      unfolding index unique_stored_names_def Let_def all_stored_def by simp
  qed
  moreover obtain sp where sp: "(i, sp) \<in> set index" "span_source sp = q"
    using i by (auto simp: identifiers_by_source_def)
  ultimately have "global_spans (all_stored srcs) i = [sp]"
    using identifier_index_lookup [of srcs i sp] by (simp add: index)
  then have "sp \<in> set (global_spans (all_stored srcs) i)" by simp
  then obtain m where m: "(m, i) \<in> set (all_stored srcs)" "\<not> is_local i" "node_span m = sp"
    by (auto simp: global_spans_def)
  then obtain p r where src: "(p, r) \<in> set srcs" "(m, i) \<in> set (stored_names r)"
    by (auto simp: all_stored_def)
  with srcs have parsed: "parsed_source (p, r)" by (auto simp: list_all_iff)
  have "Name m i Store \<in> set (iter_tree r)"
    using src(2) by (auto simp: stored_names_def set_map_filter_option elim!: as_stored.elims)
  moreover have "list_all (located p) (iter_tree r)" using parsed by (simp add: parsed_source_def split: ast_node.splits)
  ultimately have p: "p = q" using m(3) sp(2) by (fastforce simp: list_all_iff located_def)
  have "(m, i) \<in> set (concat (map stmt_target (statements_of r)))"
    using stored_names_source [OF parsed] src(2) by simp
  moreover have "list_all parsed_stmt (statements_of r)"
    using parsed by (simp add: parsed_source_def statements_of_def split: ast_node.splits)
  ultimately obtain s where "s \<in> set (statements_of r)" "(m, i) \<in> set (stmt_target s)" "parsed_stmt s"
    by (auto simp: list_all_iff)
  then have "i \<in> targets_of [(p, r)]"
    using m(2) by (force simp: targets_of_def ordered_statements_def target_key_stmt ref_key_def identifier_key_def)
  with p src(1) m(2) show ?thesis by blast
qed

definition validated :: "(string \<Rightarrow> string \<Rightarrow> nat) \<Rightarrow> udf_mapping \<Rightarrow> source list \<Rightarrow> string list \<Rightarrow> bool" where
  "validated distance udfs srcs order \<longleftrightarrow>
     fst (unique_stored_names srcs) = [] \<and>
     (case variables_must_be_defined distance udfs (snd (unique_stored_names srcs)) [] srcs of
        Inr (es, _) \<Rightarrow> es = [] | Inl _ \<Rightarrow> False) \<and>
     imports_must_not_have_cycles udfs srcs = Inr (SortedImports order)"

lemma import_order:
  assumes "imports_must_not_have_cycles udfs srcs = Inr (SortedImports order)"
  shows "\<exists>inp. mapR (source_calls udfs) srcs = Inr inp \<and> distinct order \<and>
    set order = Domain (imports_of inp) \<union> Range (imports_of inp) \<and>
    (\<forall>(a, b) \<in> imports_of inp. before order b a)"
proof -
  from assms obtain inp where inp: "mapR (source_calls udfs) srcs = Inr inp"
      "run_import_validator inp = Inr (SortedImports order)"
    by (auto simp: imports_must_not_have_cycles_def bindR_Inr_conv)
  with run_import_validator_cases [of inp] show ?thesis by (auto split: sum.splits if_splits)
qed

lemma before_map:
  assumes "before (map f xs) (f a) (f b)" and "distinct (map f xs)" and "a \<in> set xs" and "b \<in> set xs"
  shows "before xs a b"
proof -
  from assms(1) obtain i j where ij: "i < j" "j < length xs" "f (xs ! i) = f a" "f (xs ! j) = f b"
    by (auto simp: before_nth)
  moreover have "xs ! i = a" "xs ! j = b"
    using ij assms(2-4) by (auto simp: distinct_map inj_on_def)
  ultimately show ?thesis unfolding before_nth by blast
qed

lemma ordered_sources:
  assumes "distinct (map fst srcs)" and "distinct order" and "set order \<subseteq> set (map fst srcs)"
  defines "ordered \<equiv> chain_dedupe [] (sources_at srcs order) srcs"
  shows "distinct ordered" and "set ordered = set srcs" and "distinct (map fst ordered)"
    and "\<exists>rest. ordered = sources_at srcs order @ rest"
proof -
  note at = sources_at_order [OF assms(3)]
  have "distinct (sources_at srcs order)" using at assms(2) by (metis distinct_map)
  then show "\<exists>rest. ordered = sources_at srcs order @ rest" unfolding ordered_def by (intro chain_dedupe_prefix) auto
  show d: "distinct ordered" and s: "set ordered = set srcs"
    unfolding ordered_def using chain_dedupe_ok [of "[]" "sources_at srcs order" srcs] at by auto
  show "distinct (map fst ordered)" using d s assms(1) by (metis distinct_map)
qed

lemma mset_concat_map: "mset (concat (map h xs)) = \<Sum>\<^sub># (image_mset (\<lambda>x. mset (h x)) (mset xs))"
  by (induction xs) simp_all

lemma parsed_sourceE:
  assumes "parsed_source src"
  obtains m ss where "snd src = Root m ss" and "list_all parsed_stmt ss"
    and "list_all (located (fst src)) (iter_tree (snd src))"
  using assms by (cases "snd src") (simp_all add: parsed_source_def)

lemma validated_targets:
  assumes srcs: "list_all parsed_source srcs" and unique: "fst (unique_stored_names srcs) = []"
    and perm: "distinct srcs" "distinct ordered" "set ordered = set srcs"
  shows "unique_targets {} (ordered_statements ordered)"
proof (rule unique_targets_distinct)
  have parsed: "list_all parsed_source ordered" using srcs perm(3) by (simp add: list_all_iff)
  show "list_all parsed_stmt (ordered_statements ordered)"
    unfolding list_all_iff
  proof
    fix s assume "s \<in> set (ordered_statements ordered)"
    then obtain src where src: "src \<in> set ordered" "s \<in> set (statements_of (snd src))"
      by (auto simp: ordered_statements_def)
    with parsed have "parsed_source src" by (simp add: list_all_iff)
    then show "parsed_stmt s" using src(2) by (auto elim!: parsed_sourceE simp: statements_of_def list_all_iff)
  qed
  have "mset ordered = mset srcs" using perm by (simp add: set_eq_iff_mset_eq_distinct)
  then have "mset (map storage_key (all_stored ordered)) = mset (map storage_key (all_stored srcs))"
    by (simp add: all_stored_def map_concat mset_concat_map del: mset_map)
  then have "distinct (map storage_key (all_stored ordered))"
    using unique_stored_names_Nil [of srcs] unique by (metis mset_eq_imp_distinct_iff)
  moreover have "\<forall>n \<in> set (all_stored ordered). CHR ''/'' \<notin> set (snd n)"
  proof
    fix n assume "n \<in> set (all_stored ordered)"
    then obtain src where src: "src \<in> set ordered" "n \<in> set (stored_names (snd src))" by (auto simp: all_stored_def)
    then have "Name (fst n) (snd n) Store \<in> set (iter_tree (snd src))"
      by (auto simp: stored_names_def set_map_filter_option elim!: as_stored.elims)
    moreover have "list_all (located (fst src)) (iter_tree (snd src))"
      using src(1) parsed by (meson list_all_iff parsed_sourceE)
    ultimately show "CHR ''/'' \<notin> set (snd n)" by (fastforce simp: list_all_iff located_def)
  qed
  ultimately show "distinct (map ref_key (concat (map stmt_target (ordered_statements ordered))))"
    using all_stored_statements [OF parsed] distinct_ref_keys by metis
qed simp

lemma validated_compilable:
  assumes srcs: "list_all parsed_source srcs" "distinct (map fst srcs)" and known: "imports_known udfs srcs"
    and ok: "validated distance udfs srcs order"
  shows "compilable ck {} (ordered_statements (chain_dedupe [] (sources_at srcs order) srcs))"
proof (rule compilable_sources)
  fix pre src post
  assume split: "chain_dedupe [] (sources_at srcs order) srcs = pre @ src # post"
  let ?index = "snd (unique_stored_names srcs)"
  from ok import_order [of udfs srcs order] obtain inp where inp: "mapR (source_calls udfs) srcs = Inr inp"
      "distinct order" "set order = Domain (imports_of inp) \<union> Range (imports_of inp)"
      "\<forall>(a, b) \<in> imports_of inp. before order b a" by (auto simp: validated_def)
  have order: "set order \<subseteq> set (map fst srcs)" using imports_of_known [OF inp(1) known] inp(3) by simp
  note ord = ordered_sources [OF srcs(2) inp(2) order, unfolded split]
  have in_srcs: "src \<in> set srcs" using ord(2) by auto
  then obtain m ss where root: "snd src = Root m ss" and ss: "list_all parsed_stmt ss"
      "list_all (located (fst src)) (iter_tree (snd src))"
    using srcs(1) parsed_sourceE [of src] by (auto simp: list_all_iff)
  obtain ks where "variables_must_be_defined distance udfs ?index [] srcs = Inr ([], ks)"
    using ok by (auto simp: validated_def split: sum.splits)
  from variables_source [OF this, of "fst src" "snd src"] in_srcs obtain k'
    where "variables_nodes distance udfs ?index [] (iter_parented None (snd src)) = Inr (k', [])" by auto
  then have vars: "variables_nodes distance udfs ?index [] (concat (map (iter_parented (Some (Root m ss))) ss)) = Inr (k', [])"
    unfolding root by (subst (asm) iter_parented.simps) (auto simp: variables_node_def is_import_def bindR_Inr_conv)
  have "compilable ck (targets_of pre) ss"
  proof (rule statements_compilable [OF vars ss(1), of "fst src"])
    show "\<forall>s \<in> set ss. list_all (located (fst src)) (iter_tree s)"
      using ss(2) unfolding root by (subst (asm) iter_tree.simps) (auto simp: list_all_iff)
    show "\<not> is_call (Root m ss)" by (simp add: is_call_def)
    show "\<forall>i \<in> set [] \<union> imported_names udfs ?index (concat (map (iter_parented (Some (Root m ss))) ss)).
        key_in (fst src) i \<in> targets_of pre"
    proof
      fix i assume "i \<in> set [] \<union> imported_names udfs ?index (concat (map (iter_parented (Some (Root m ss))) ss))"
      then obtain par n q where n: "(par, n) \<in> set (concat (map (iter_parented (Some (Root m ss))) ss))"
          "is_import n" "q \<in> imported_by udfs n" "i \<in> set (identifiers_by_source ?index q)"
        by (rule imported_namesE)
      from n(1) have "(par, n) \<in> set (iter_parented None (snd src))"
        unfolding root by (subst iter_parented.simps) simp
      then have "n \<in> set (iter_tree (snd src))" by (force simp: iter_tree_parented [of _ "snd src" None])
      from source_calls_import [OF inp(1) in_srcs this n(2,3)] have imp: "(fst src, q) \<in> imports_of inp" .
      from offered_target [OF srcs(1) refl n(4)] obtain r
        where r: "\<not> is_local i" "(q, r) \<in> set srcs" "i \<in> targets_of [(q, r)]" by blast
      have "before (map fst (pre @ src # post)) q (fst src)"
      proof -
        have "before order q (fst src)" using imp inp(4) by blast
        moreover obtain rest where "pre @ src # post = sources_at srcs order @ rest" using ord(4) by blast
        ultimately show ?thesis using sources_at_order [OF order] before_append1 [of order q "fst src"] by simp
      qed
      moreover have "(q, r) \<in> set (pre @ src # post)" using ord(2) r(2) by simp
      ultimately have "before (pre @ src # post) (q, r) src"
        using ord(3) by (intro before_map [of fst]) auto
      then have "(q, r) \<in> set pre"
        using ord(1) by (auto simp: before_def append_eq_append_conv2 append_eq_Cons_conv Cons_eq_append_conv)
      then have "targets_of [(q, r)] \<subseteq> targets_of pre" by (force simp: targets_of_def ordered_statements_def)
      with r show "key_in (fst src) i \<in> targets_of pre" by (auto simp: key_in_def)
    qed
  qed
  then show "compilable ck (targets_of pre) (statements_of (snd src))" by (simp add: root statements_of_def)
qed

lemma validated_compiles:
  assumes "list_all parsed_source srcs" and "distinct (map fst srcs)" and "imports_known udfs srcs"
    and "validated distance udfs srcs order"
  defines "ordered \<equiv> chain_dedupe [] (sources_at srcs order) srcs"
  shows "\<exists>g. compile_execution_graph ck (sources_at srcs order) srcs = Inr g"
    and "distinct (map fst ordered)" and "unique_targets {} (ordered_statements ordered)"
    and "set ordered = set srcs"
proof -
  from assms(4) import_order [of udfs srcs order] obtain inp where inp: "mapR (source_calls udfs) srcs = Inr inp"
      "distinct order" "set order = Domain (imports_of inp) \<union> Range (imports_of inp)" by (auto simp: validated_def)
  have "set order \<subseteq> set (map fst srcs)" using imports_of_known [OF inp(1) assms(3)] inp(3) by simp
  note ord = ordered_sources [OF assms(2) inp(2) this, folded ordered_def]
  show "distinct (map fst ordered)" and "set ordered = set srcs" by (rule ord)+
  show "unique_targets {} (ordered_statements ordered)"
    using assms(1,2,4) ord by (intro validated_targets) (auto simp: validated_def distinct_map)
  have "compilable ck {} (ordered_statements ordered)"
    unfolding ordered_def by (rule validated_compilable [OF assms(1-4)])
  then obtain g where "add_statements ck (ordered_statements ordered) empty_graph = Inr g"
    using add_statements_iff [of ck "ordered_statements ordered" empty_graph] by (auto simp: empty_graph_def)
  moreover from this have "\<exists>g'. sort_sources ordered g = Inr g'"
    using sort_sources_ok [of ordered g] add_statements_roots ord(3) by fastforce
  ultimately show "\<exists>g. compile_execution_graph ck (sources_at srcs order) srcs = Inr g"
    by (auto simp: compile_execution_graph_def add_sources_statements Let_def simp flip: ordered_def)
qed

section \<open>Unused locals, exactly\<close>

text \<open>The counter of a local: how often it is loaded after its first store.\<close>

fun loads_after_store :: "string \<Rightarrow> (meta \<times> string \<times> ctx) list \<Rightarrow> nat option" where
  "loads_after_store i [] = None"
| "loads_after_store i ((m, j, c) # ns) =
     (if j = i \<and> c = Store then Some (length (filter (\<lambda>(m, j, c). j = i \<and> c = Load) ns))
      else loads_after_store i ns)"

lemma count_local_lookup:
  "map_of (count_local (m, j, c) seen) i =
     (if j \<noteq> i then map_of seen i
      else case map_of seen i of
        None \<Rightarrow> (if c = Store then Some (0, m) else None)
      | Some (n, p) \<Rightarrow> Some (if c = Load then n + 1 else n, p))"
  by (cases c) (auto simp: count_local_def dict_simps split: option.splits)

lemma fold_count_local_seen:
  "map_of seen i = Some (n, p) \<Longrightarrow> map_of (fold count_local ns seen) i =
     Some (n + length (filter (\<lambda>(m, j, c). j = i \<and> c = Load) ns), p)"
proof (induction ns arbitrary: seen n)
  case (Cons x ns)
  obtain m j c where x: "x = (m, j, c)" by (cases x)
  have "map_of (count_local x seen) i = Some (if j = i \<and> c = Load then n + 1 else n, p)"
    using Cons.prems by (simp add: x count_local_lookup)
  from Cons.IH [OF this] show ?case by (simp add: x)
qed simp

lemma fold_count_local:
  "map_of seen i = None \<Longrightarrow> map_option fst (map_of (fold count_local ns seen) i) = loads_after_store i ns"
proof (induction ns arbitrary: seen)
  case (Cons x ns)
  obtain m j c where x: "x = (m, j, c)" by (cases x)
  show ?case
  proof (cases "j = i \<and> c = Store")
    case True
    with Cons.prems have "map_of (count_local x seen) i = Some (0, m)" by (simp add: x count_local_lookup)
    from fold_count_local_seen [OF this, of ns] True show ?thesis by (simp add: x)
  next
    case False
    with Cons.prems have "map_of (count_local x seen) i = None" by (auto simp: x count_local_lookup)
    from Cons.IH [OF this] False show ?thesis by (auto simp: x)
  qed
qed simp

lemma count_local_keys: "distinct (keys seen) \<Longrightarrow> distinct (keys (count_local x seen))"
  by (auto simp: count_local_def distinct_keys_update split: prod.splits ctx.splits option.splits)

lemma fold_count_local_keys: "distinct (keys seen) \<Longrightarrow> distinct (keys (fold count_local ns seen))"
  by (induction ns arbitrary: seen) (simp_all add: count_local_keys)

lemma no_unused_locals_Nil:
  "no_unused_locals root = [] \<longleftrightarrow> (\<forall>i. loads_after_store i (local_names root) \<noteq> Some 0)"
proof -
  define seen where "seen = fold count_local (local_names root) []"
  have "no_unused_locals root = [] \<longleftrightarrow> (\<forall>(i, n, m) \<in> set seen. n > 0)"
    by (auto simp: no_unused_locals_def map_filter_Nil seen_def [symmetric] split: if_splits)
  also have "\<dots> \<longleftrightarrow> (\<forall>i n m. map_of seen i = Some (n, m) \<longrightarrow> n > 0)"
    using map_of_eq_Some_iff [of seen] fold_count_local_keys [of "[]" "local_names root"]
    by (auto simp: seen_def [symmetric])
  also have "\<dots> \<longleftrightarrow> (\<forall>i. map_option fst (map_of seen i) \<noteq> Some 0)"
    by (auto simp: map_option_case split: option.splits)
  finally show ?thesis using fold_count_local [of "[]" _ "local_names root"] by (simp add: seen_def)
qed

definition unused_split :: "string \<Rightarrow> (meta \<times> string \<times> ctx) list \<Rightarrow> bool" where
  "unused_split i ns \<longleftrightarrow> (\<exists>pre m post. ns = pre @ (m, i, Store) # post \<and>
     (i, Store) \<notin> snd ` set pre \<and> (i, Load) \<notin> snd ` set post)"

lemma unused_split_Cons:
  "unused_split i (x # ns) \<longleftrightarrow> (if snd x = (i, Store) then (i, Load) \<notin> snd ` set ns else unused_split i ns)"
proof
  assume "unused_split i (x # ns)"
  then obtain pre m post where s: "x # ns = pre @ (m, i, Store) # post" "(i, Store) \<notin> snd ` set pre"
      "(i, Load) \<notin> snd ` set post" unfolding unused_split_def by blast
  show "if snd x = (i, Store) then (i, Load) \<notin> snd ` set ns else unused_split i ns"
  proof (cases pre)
    case Nil
    with s show ?thesis by simp
  next
    case (Cons y pre')
    with s have "snd x \<noteq> (i, Store)" "ns = pre' @ (m, i, Store) # post" "(i, Store) \<notin> snd ` set pre'" by auto
    with s(3) show ?thesis unfolding unused_split_def by auto
  qed
next
  assume h: "if snd x = (i, Store) then (i, Load) \<notin> snd ` set ns else unused_split i ns"
  show "unused_split i (x # ns)"
  proof (cases "snd x = (i, Store)")
    case True
    with h have "x # ns = [] @ (fst x, i, Store) # ns" "(i, Load) \<notin> snd ` set ns"
      by (auto simp: prod_eq_iff)
    then show ?thesis unfolding unused_split_def by (metis empty_iff image_empty list.set(1))
  next
    case False
    with h obtain pre m post where s: "ns = pre @ (m, i, Store) # post" "(i, Store) \<notin> snd ` set pre"
        "(i, Load) \<notin> snd ` set post" unfolding unused_split_def by auto
    then have "x # ns = (x # pre) @ (m, i, Store) # post" "(i, Store) \<notin> snd ` set (x # pre)"
      using False by auto
    with s(3) show ?thesis unfolding unused_split_def by blast
  qed
qed

lemma loads_after_store_split: "loads_after_store i ns = Some 0 \<longleftrightarrow> unused_split i ns"
proof (induction ns)
  case Nil
  show ?case by (simp add: unused_split_def)
next
  case (Cons x ns)
  obtain m j c where x: "x = (m, j, c)" by (cases x)
  have "filter (\<lambda>(m, j, c). j = i \<and> c = Load) ns = [] \<longleftrightarrow> (i, Load) \<notin> snd ` set ns"
    by (force simp: filter_empty_conv)
  with Cons show ?case by (simp add: x unused_split_Cons)
qed

section \<open>Properties\<close>


text \<open>
  \<open>UniqueStoredNames\<close> reports an error exactly when two stored names collide, where local names
  collide within a file and all others everywhere, and its index holds exactly the global names
  that are stored once.
\<close>

theorem unique_stored_names_exact:
  "(fst (unique_stored_names srcs) = [] \<longleftrightarrow> distinct (map storage_key (all_stored srcs))) \<and>
   (\<forall>i sp. map_of (snd (unique_stored_names srcs)) i = Some sp \<longleftrightarrow> global_spans (all_stored srcs) i = [sp])"
  using unique_stored_names_Nil identifier_index_lookup by blast

text \<open>
  \<open>NoUnusedLocals\<close> accepts a source exactly when every local variable is loaded somewhere after
  its first store, in the order of the traversal.
\<close>

theorem no_unused_locals_exact:
  "no_unused_locals root = [] \<longleftrightarrow>
     (\<forall>pre m i post. local_names root = pre @ (m, i, Store) # post \<longrightarrow> (i, Store) \<notin> snd ` set pre \<longrightarrow>
        (i, Load) \<in> snd ` set post)"
  unfolding no_unused_locals_Nil loads_after_store_split unused_split_def by blast

definition call_ok :: "(string \<Rightarrow> bool option) \<Rightarrow> ast_node \<Rightarrow> ast_node option \<Rightarrow> ast_node \<Rightarrow> bool" where
  "call_ok has_res root par n = (case n of
     Call _ (Name _ f _) _ \<Rightarrow> (case has_res f of None \<Rightarrow> True | Some r \<Rightarrow> r \<longleftrightarrow> par \<noteq> Some root)
   | Call _ _ _ \<Rightarrow> False | _ \<Rightarrow> True)"

lemma validate_call_node_Nil:
  "is_name f \<Longrightarrow> validate_call_node has_res root par (Call m f args) = [] \<longleftrightarrow> call_ok has_res root par (Call m f args)"
  by (cases f) (auto simp: is_name_def validate_call_node_def call_ok_def split: option.splits bool.splits ast_node.splits)

lemma call_rvalue_errors_Nil:
  "call_rvalue_errors has_res root ns = Inr [] \<longleftrightarrow> (\<forall>x \<in> set ns. call_ok has_res root (fst x) (snd x))"
proof (induction ns)
  case (Cons x ns)
  obtain par n where x: "x = (par, n)" by (cases x)
  show ?case
  proof (cases "is_call n")
    case True
    then obtain m f args where n: "n = Call m f args" by (cases n) (simp_all add: is_call_def)
    show ?thesis
    proof (cases "is_name f")
      case True
      with Cons n x validate_call_node_Nil [OF True] show ?thesis by (auto simp: bindR_Inr_conv)
    next
      case False
      then have "\<not> call_ok has_res root par n" by (cases f) (auto simp: call_ok_def n is_name_def)
      with False n x show ?thesis by simp
    qed
  next
    case False
    then have "call_ok has_res root par n" by (cases n) (simp_all add: call_ok_def is_call_def)
    with False Cons x show ?thesis by (cases n) (simp_all add: is_call_def)
  qed
qed simp

text \<open>
  \<open>ValidateCallRValue\<close> accepts a source exactly when every call names a function directly, calls of
  functions with a result are not statements, and calls of functions without one are.
\<close>

theorem call_rvalue_exact:
  "validate_call_rvalue has_res root = Inr [] \<longleftrightarrow>
     (\<forall>x \<in> set (iter_parented None root). call_ok has_res root (fst x) (snd x))"
  unfolding validate_call_rvalue_def by (rule call_rvalue_errors_Nil)

section \<open>Concrete sources\<close>

definition at :: "string \<Rightarrow> nat \<Rightarrow> meta" where
  "at path k = \<lparr>node_id = k, node_span = \<lparr>span_source = path, start_line = int k, start_pos = 0\<rparr>\<rparr>"

text \<open>\<open>lib.sml\<close> defines a feature through a local variable, \<open>main.sml\<close> imports it.\<close>

definition checked_lib :: source where
  "checked_lib = (let a = at ''lib.sml'' in (''lib.sml'', Root (a 1)
     [Assign (a 2) (Name (a 3) ''_base'' Store) (Number (a 4) (IntN 1)) None,
      Assign (a 5) (Name (a 6) ''X'' Store) (Name (a 7) ''_base'' Load) None]))"

definition import_call :: ast_node where
  "import_call = (let a = at ''main.sml'' in
     Call (a 12) (Name (a 13) ''Import'' Load)
       [Keyword (a 14) ''rules'' (ListLit (a 15) [StringLit (a 16) ''lib.sml''])])"

definition checked_main :: source where
  "checked_main = (let a = at ''main.sml'' in (''main.sml'', Root (a 11)
     [import_call,
      Assign (a 21) (Name (a 22) ''Y'' Store)
        (BinaryOperation (a 23) (Name (a 24) ''X'' Load) (Number (a 25) (IntN 2)) (Operator (a 26) Add)) None]))"

definition checked_udfs :: udf_mapping where
  "checked_udfs = (case import_init (\<lambda>_. []) [''main.sml'', ''lib.sml'']
       (ListLit (at ''main.sml'' 15) [StringLit (at ''main.sml'' 16) ''lib.sml'']) of
     Inr (_, c) \<Rightarrow> [(12, c)] | Inl _ \<Rightarrow> [])"


theorem no_unused_locals_exact_witness:
  "no_unused_locals (snd checked_lib) = [] \<and>
   local_names (snd checked_lib) = [] @ (at ''lib.sml'' 3, ''_base'', Store) # [(at ''lib.sml'' 7, ''_base'', Load)] \<and>
   (''_base'', Load) \<in> snd ` set [(at ''lib.sml'' 7, ''_base'', Load)]"
proof -
  have e: "no_unused_locals (snd checked_lib) = []" by code_simp
  have l: "local_names (snd checked_lib) = [] @ (at ''lib.sml'' 3, ''_base'', Store) # [(at ''lib.sml'' 7, ''_base'', Load)]"
    by code_simp
  from iffD1 [OF no_unused_locals_exact e, rule_format, OF l] e l show ?thesis by auto
qed

theorem call_rvalue_exact_witness:
  "validate_call_rvalue (\<lambda>f. Some (f \<noteq> ''Import'')) (snd checked_main) = Inr [] \<and>
   call_ok (\<lambda>f. Some (f \<noteq> ''Import'')) (snd checked_main) (Some (snd checked_main)) import_call"
proof -
  have e: "validate_call_rvalue (\<lambda>f. Some (f \<noteq> ''Import'')) (snd checked_main) = Inr []" by code_simp
  have "(Some (snd checked_main), import_call) \<in> set (iter_parented None (snd checked_main))" by code_simp
  from iffD1 [OF call_rvalue_exact e, rule_format, OF this] e show ?thesis by simp
qed

end
