(* ===== verification/Query_Language.thy ===== *)
theory Query_Language
  imports Validation Node_Executors Labels
begin

text \<open>
  The query language (\<open>query_language/ast_druid_translator.py\<close>, \<open>query_language/ast_validator.py\<close> and
  \<open>query_language/udfs\<close>): a query is one rule expression over the features of stored events and is
  translated into a filter of the Druid database. What Druid selects with a filter is not part of
  the repository: it is a parameter, with the documented meaning of each filter type as a named
  hypothesis.
\<close>

section \<open>Filters\<close>

text \<open>The dictionaries that are sent to Druid, one constructor per filter type.\<close>

datatype druid_filter =
  DAnd "druid_filter list"
| DOr "druid_filter list"
| DNot druid_filter
| DSelector string pyval
| DColumnComparison string string
| DSearch string string
| DIn string "pyval list"
| DBound string string "(pyval \<times> bool) option" "(pyval \<times> bool) option"
  \<comment> \<open>dimension, ordering, and \<open>lower\<close> and \<open>upper\<close> with their strictness\<close>
| DRegex string string
| DLike string string
| DArrayContainsElement string string string

definition transform_exception :: "string \<Rightarrow> py_exc" where
  "transform_exception msg = OtherException (''DruidQueryTransformException: '' @ msg)"

section \<open>Query functions\<close>

definition ENTITY_LABEL_MUTATION_DIMENSION_NAME :: string where
  "ENTITY_LABEL_MUTATION_DIMENSION_NAME = ''__entity_label_mutations''"

definition VERDICT_DIMENSION_NAME :: string where
  "VERDICT_DIMENSION_NAME = ''__verdicts''"

definition ENTITY_LABEL_MUTATION_DIMENSION_VALUE :: "string \<Rightarrow> string \<Rightarrow> LabelStatus \<Rightarrow> string" where
  "ENTITY_LABEL_MUTATION_DIMENSION_VALUE ety lbl st =
     ety @ ''/'' @ lbl @ ''/'' @ nat_digits (status_value st)"

datatype query_udf =
  DidDeclareVerdict string
| DidAddLabel string string
| DidRemoveLabel string string
| RegexMatch string string
| NotAQueryUdf

fun to_druid_query :: "query_udf \<Rightarrow> druid_filter option" where
  "to_druid_query (DidDeclareVerdict v) =
     Some (DArrayContainsElement VERDICT_DIMENSION_NAME ''STRING'' v)"
| "to_druid_query (DidAddLabel ety lbl) =
     Some (DLike ENTITY_LABEL_MUTATION_DIMENSION_NAME
       (''%'' @ ENTITY_LABEL_MUTATION_DIMENSION_VALUE ety lbl ADDED @ ''%''))"
| "to_druid_query (DidRemoveLabel ety lbl) =
     Some (DLike ENTITY_LABEL_MUTATION_DIMENSION_NAME
       (''%'' @ ENTITY_LABEL_MUTATION_DIMENSION_VALUE ety lbl REMOVED @ ''%''))"
| "to_druid_query (RegexMatch item regex) = Some (DRegex item regex)"
| "to_druid_query NotAQueryUdf = None"

section \<open>Negated literals\<close>

text \<open>
  \<open>OspreyUnaryExecutor\<close>: the value of a negated number, and the node afterwards, whose operand now
  holds the negated value.
\<close>

definition number_value :: "number \<Rightarrow> pyval" where
  "number_value n = (case n of IntN i \<Rightarrow> VInt i | FloatN w \<Rightarrow> VFloat w)"

definition number_of :: "pyval \<Rightarrow> number option" where
  "number_of v = (case v of VInt i \<Rightarrow> Some (IntN i) | VFloat w \<Rightarrow> Some (FloatN w) | _ \<Rightarrow> None)"

definition execute_unary_operation :: "py_env \<Rightarrow> ast_node \<Rightarrow> (pyval \<times> ast_node) result" where
  "execute_unary_operation env n =
     (case n of
        UnaryOperation m (Number nm v) (UnaryOperator om USub) \<Rightarrow>
          bindR (unary_operator_value env USub (number_value v)) (\<lambda>r.
            Inr (r, case number_of r of
                      Some v' \<Rightarrow> UnaryOperation m (Number nm v') (UnaryOperator om USub)
                    | None \<Rightarrow> n))
      | _ \<Rightarrow> Inl (OtherException ''Validation error when executing UnaryOperation.''))"

section \<open>Translation\<close>

fun get_ast_node_value :: "py_env \<Rightarrow> ast_node \<Rightarrow> pyval result" where
  "get_ast_node_value env (UnaryOperation m x op) =
     bindR (execute_unary_operation env (UnaryOperation m x op)) (\<lambda>r. Inr (fst r))"
| "get_ast_node_value env (ListLit m items) =
     bindR (mapR (get_ast_node_value env) items) (\<lambda>vs. Inr (VList vs))"
| "get_ast_node_value env (NoneLit m) = Inr VNone"
| "get_ast_node_value env (StringLit m s) = Inr (VStr s)"
| "get_ast_node_value env (Number m v) = Inr (number_value v)"
| "get_ast_node_value env (Boolean m b) = Inr (VBool b)"
| "get_ast_node_value env _ = Inl (transform_exception ''Node has no known value attribute'')"

definition is_unary :: "ast_node \<Rightarrow> bool" where
  "is_unary n = (case n of UnaryOperation _ _ _ \<Rightarrow> True | _ \<Rightarrow> False)"

definition get_comparison_dimension :: "ast_node \<Rightarrow> ast_node \<Rightarrow> string result" where
  "get_comparison_dimension l r =
     (case l of
        Name _ i _ \<Rightarrow> Inr i
      | _ \<Rightarrow> (case r of
          Name _ i _ \<Rightarrow> Inr i
        | _ \<Rightarrow> Inl (transform_exception ''Binary Comparator must contain at least one column'')))"

text \<open>When neither side is a literal the function falls off its end and returns \<open>None\<close>.\<close>

definition get_comparison_value :: "py_env \<Rightarrow> ast_node \<Rightarrow> ast_node \<Rightarrow> pyval result" where
  "get_comparison_value env l r =
     (if is_literal l \<or> is_unary l then get_ast_node_value env l
      else if is_literal r \<or> is_unary r then get_ast_node_value env r
      else Inr VNone)"

definition get_in_query_by_value_type :: "string \<Rightarrow> pyval \<Rightarrow> druid_filter result" where
  "get_in_query_by_value_type dimension v =
     (case v of
        VStr s \<Rightarrow> Inr (DSearch dimension s)
      | VList vs \<Rightarrow> Inr (DIn dimension vs)
      | _ \<Rightarrow> Inl (transform_exception ''Invalid in comparison value type, must be string or list''))"

text \<open>A boolean is an \<open>int\<close>.\<close>

definition get_value_bound_ordering :: "pyval \<Rightarrow> string result" where
  "get_value_bound_ordering v =
     (case v of
        VInt _ \<Rightarrow> Inr ''numeric'' | VBool _ \<Rightarrow> Inr ''numeric'' | VFloat _ \<Rightarrow> Inr ''numeric''
      | VStr _ \<Rightarrow> Inr ''lexicographic''
      | _ \<Rightarrow> Inl (TypeError ''Cannot compare''))"

definition get_druid_bound_query_props ::
  "comparator \<Rightarrow> pyval \<Rightarrow> ((pyval \<times> bool) option \<times> (pyval \<times> bool) option) result" where
  "get_druid_bound_query_props c v =
     (case c of
        LessThan \<Rightarrow> Inr (None, Some (v, True))
      | LessThanEquals \<Rightarrow> Inr (None, Some (v, False))
      | GreaterThan \<Rightarrow> Inr (Some (v, True), None)
      | GreaterThanEquals \<Rightarrow> Inr (Some (v, False), None)
      | _ \<Rightarrow> Inl (transform_exception ''Unknown Binary Comparator''))"

definition transform_BinaryComparison :: "py_env \<Rightarrow> ast_node \<Rightarrow> ast_node \<Rightarrow> comparator \<Rightarrow> druid_filter result" where
  "transform_BinaryComparison env l r c =
     (case (l, r) of
        (Name _ i _, Name _ j _) \<Rightarrow>
          (case c of
             Equals \<Rightarrow> Inr (DColumnComparison i j)
           | NotEquals \<Rightarrow> Inr (DNot (DColumnComparison i j))
           | _ \<Rightarrow> Inl (transform_exception
                 ''When comparing two features, only the `==` and `!=` operators are supported''))
      | _ \<Rightarrow>
          bindR (get_comparison_dimension l r) (\<lambda>dimension.
          bindR (get_comparison_value env l r) (\<lambda>v.
            case c of
              Equals \<Rightarrow> Inr (DSelector dimension v)
            | In \<Rightarrow> get_in_query_by_value_type dimension v
            | NotEquals \<Rightarrow> Inr (DNot (DSelector dimension v))
            | NotIn \<Rightarrow> bindR (get_in_query_by_value_type dimension v) (\<lambda>f. Inr (DNot f))
            | _ \<Rightarrow>
                bindR (get_value_bound_ordering v) (\<lambda>ordering.
                bindR (get_druid_bound_query_props c v) (\<lambda>(lo, up).
                  Inr (DAnd [DNot (DSelector dimension VNone), DBound dimension ordering lo up]))))))"

type_synonym query_udfs = "(nat, query_udf) dict"

definition transform_Call :: "query_udfs \<Rightarrow> ast_node \<Rightarrow> druid_filter result" where
  "transform_Call udfs n =
     (case map_of udfs (nid n) of
        None \<Rightarrow> Inl KeyError
      | Some u \<Rightarrow> (case to_druid_query u of
          None \<Rightarrow> Inl (transform_exception ''Unknown function call type'')
        | Some f \<Rightarrow> Inr f))"

fun transform_query :: "py_env \<Rightarrow> query_udfs \<Rightarrow> ast_node \<Rightarrow> druid_filter result" where
  "transform_query env udfs (BooleanOperation m vs op) =
     (case op of
        BooleanOperand _ b \<Rightarrow>
          bindR (mapR (transform_query env udfs) vs) (\<lambda>fs. Inr (if b = And then DAnd fs else DOr fs))
      | _ \<Rightarrow> Inl (AssertionError []))"
| "transform_query env udfs (BinaryComparison m l r op) =
     (case op of
        Comparator _ c \<Rightarrow> transform_BinaryComparison env l r c
      | _ \<Rightarrow> Inl (transform_exception ''Unknown Binary Comparator''))"
| "transform_query env udfs (UnaryOperation m x op) =
     (case op of
        UnaryOperator _ NotOp \<Rightarrow> bindR (transform_query env udfs x) (\<lambda>f. Inr (DNot f))
      | _ \<Rightarrow> Inl (transform_exception ''Unknown Unary Operator''))"
| "transform_query env udfs (Call m f args) = transform_Call udfs (Call m f args)"
| "transform_query env udfs _ = Inl (transform_exception ''Unknown AST Expression'')"

text \<open>\<open>DruidQueryTransformer\<close>: the value assigned by the first statement of the entry point.\<close>

definition druid_query :: "py_env \<Rightarrow> query_udfs \<Rightarrow> ast_node \<Rightarrow> druid_filter result" where
  "druid_query env udfs root =
     (case root of
        Root _ (Assign _ _ v _ # _) \<Rightarrow> transform_query env udfs v
      | Root _ [] \<Rightarrow> Inl IndexError
      | _ \<Rightarrow> Inl (AssertionError []))"

section \<open>Query validators\<close>

fun class_name :: "ast_node \<Rightarrow> string" where
  "class_name (Root _ _) = ''Root''"
| "class_name (Name _ _ _) = ''Name''"
| "class_name (StringLit _ _) = ''String''"
| "class_name (Number _ _) = ''Number''"
| "class_name (Boolean _ _) = ''Boolean''"
| "class_name (NoneLit _) = ''None_''"
| "class_name (Assign _ _ _ _) = ''Assign''"
| "class_name (Call _ _ _) = ''Call''"
| "class_name (Keyword _ _ _) = ''Keyword''"
| "class_name (Operator _ op) = (case op of
     Add \<Rightarrow> ''Add'' | Subtract \<Rightarrow> ''Subtract'' | Multiply \<Rightarrow> ''Multiply'' | Divide \<Rightarrow> ''Divide''
   | FloorDivide \<Rightarrow> ''FloorDivide'' | Modulo \<Rightarrow> ''Modulo'' | PowOp \<Rightarrow> ''Pow'' | LeftShift \<Rightarrow> ''LeftShift''
   | RightShift \<Rightarrow> ''RightShift'' | BitwiseOr \<Rightarrow> ''BitwiseOr'' | BitwiseXor \<Rightarrow> ''BitwiseXor'' | BitwiseAnd \<Rightarrow> ''BitwiseAnd'')"
| "class_name (BinaryOperation _ _ _ _) = ''BinaryOperation''"
| "class_name (UnaryOperator _ op) = (case op of NotOp \<Rightarrow> ''Not'' | USub \<Rightarrow> ''USub'')"
| "class_name (UnaryOperation _ _ _) = ''UnaryOperation''"
| "class_name (Comparator _ c) = (case c of
     Equals \<Rightarrow> ''Equals'' | NotEquals \<Rightarrow> ''NotEquals'' | LessThan \<Rightarrow> ''LessThan'' | LessThanEquals \<Rightarrow> ''LessThanEquals''
   | GreaterThan \<Rightarrow> ''GreaterThan'' | GreaterThanEquals \<Rightarrow> ''GreaterThanEquals'' | In \<Rightarrow> ''In'' | NotIn \<Rightarrow> ''NotIn'')"
| "class_name (BinaryComparison _ _ _ _) = ''BinaryComparison''"
| "class_name (BooleanOperand _ b) = (case b of And \<Rightarrow> ''And'' | Or \<Rightarrow> ''Or'')"
| "class_name (BooleanOperation _ _ _) = ''BooleanOperation''"
| "class_name (Attribute _ _ _ _) = ''Attribute''"
| "class_name (ListLit _ _) = ''List''"
| "class_name (FormatString _ _ _) = ''FormatString''"
| "class_name (Annotation _ _) = ''Annotation''"
| "class_name (AnnotationWithVariants _ _ _) = ''AnnotationWithVariants''"

definition allowed_node :: "ast_node \<Rightarrow> bool" where
  "allowed_node n \<longleftrightarrow> is_literal n \<or> (case n of
     Annotation _ _ \<Rightarrow> True | AnnotationWithVariants _ _ _ \<Rightarrow> True | BinaryComparison _ _ _ _ \<Rightarrow> True
   | BooleanOperand _ _ \<Rightarrow> True | BooleanOperation _ _ _ \<Rightarrow> True | Call _ _ _ \<Rightarrow> True | Comparator _ _ \<Rightarrow> True
   | Keyword _ _ _ \<Rightarrow> True | Name _ _ _ \<Rightarrow> True | UnaryOperation _ _ _ \<Rightarrow> True | UnaryOperator _ _ \<Rightarrow> True
   | _ \<Rightarrow> False)"

definition root_statements :: "ast_node \<Rightarrow> ast_node list" where
  "root_statements r = (case r of Root _ ss \<Rightarrow> ss | _ \<Rightarrow> [])"

definition only_query_ast_nodes :: "ast_node \<Rightarrow> 'v message list result" where
  "only_query_ast_nodes root =
     (case root_statements root of
        [] \<Rightarrow> Inr []
      | Assign _ _ v _ # _ \<Rightarrow>
          Inr (map (\<lambda>n. validation_message (''unexpected node type: `'' @ class_name n @ ''`'') (span_of n) [] [] [])
                 (filter (\<lambda>n. \<not> allowed_node n) (iter_tree v)))
      | _ \<Rightarrow> Inl (AssertionError []))"

definition only_one_statement :: "ast_node \<Rightarrow> 'v message list" where
  "only_one_statement root = map (\<lambda>n. validation_message ''unexpected Node'' (span_of n)
     ''you cannot define additional statements within the query'' [] []) (tl (root_statements root))"

fun original_comparator :: "comparator \<Rightarrow> string" where
  "original_comparator Equals = ''==''"
| "original_comparator NotEquals = ''!=''"
| "original_comparator LessThan = ''<''"
| "original_comparator LessThanEquals = ''<=''"
| "original_comparator GreaterThan = ''>''"
| "original_comparator GreaterThanEquals = ''>=''"
| "original_comparator In = ''in''"
| "original_comparator NotIn = ''not in''"

definition literal_span :: "ast_node \<Rightarrow> span_ref" where
  "literal_span n = SpanWithHint (span_of n) ''this is a literal value''"

definition comparison_not_all_literal :: "ast_node \<Rightarrow> 'v message list" where
  "comparison_not_all_literal root = List.map_filter
     (\<lambda>n. case n of
        BinaryComparison m l r (Comparator _ c) \<Rightarrow>
          if is_literal l \<and> is_literal r
          then Some ((validation_message ''cannot compare a literal to another literal'' (node_span m)
                 (''one side of the `'' @ original_comparator c @
                  ''` comparison must be a non-literal (non-constant) value'') [] [])
                 \<lparr>additional_spans := [literal_span l, literal_span r]\<rparr>)
          else None
      | _ \<Rightarrow> None) (iter_tree root)"

definition boolean_not_all_literal :: "ast_node \<Rightarrow> 'v message list" where
  "boolean_not_all_literal root = List.map_filter
     (\<lambda>n. case n of
        BooleanOperation m vs (BooleanOperand _ b) \<Rightarrow>
          if list_all is_literal vs
          then Some ((validation_message ''one value must be a literal'' (node_span m)
                 (''one side of the `'' @ (case b of And \<Rightarrow> ''and'' | Or \<Rightarrow> ''or'') @
                  ''` must be a non-literal (non-constant) value'') [] [])
                 \<lparr>additional_spans := map literal_span vs\<rparr>)
          else None
      | _ \<Rightarrow> None) (iter_tree root)"

text \<open>The hint of this one shows the representation of the operand, a parameter.\<close>

definition unary_not_literal :: "(ast_node \<Rightarrow> string) \<Rightarrow> ast_node \<Rightarrow> 'v message list" where
  "unary_not_literal node_repr root = List.map_filter
     (\<lambda>n. case n of
        UnaryOperation m x (UnaryOperator _ NotOp) \<Rightarrow>
          if is_literal x
          then Some ((validation_message ''the operand must not be a literal'' (node_span m)
                 (''the right side of the `'' @ node_repr x @ ''` must be a non-literal (non-constant) value'') [] [])
                 \<lparr>additional_spans := [literal_span x]\<rparr>)
          else None
      | _ \<Rightarrow> None) (iter_tree root)"

definition query_root_kind :: "ast_node \<Rightarrow> 'v message list result" where
  "query_root_kind root =
     (case root_statements root of
        [] \<Rightarrow> Inl IndexError
      | Assign _ _ v _ # _ \<Rightarrow>
          Inr (case v of
             BooleanOperation _ _ _ \<Rightarrow> [] | BinaryComparison _ _ _ _ \<Rightarrow> [] | Call _ _ _ \<Rightarrow> [] | UnaryOperation _ _ _ \<Rightarrow> []
           | _ \<Rightarrow> [validation_message
               ''the query must be a `BooleanOperation`, `BinaryComparison`, `UnaryOperation`, or a `Call`'' (span_of v)
               (''you have provided a `'' @ class_name v @ ''`, try something like `ActionName != True`'') [] []])
      | _ \<Rightarrow> Inl (AssertionError []))"

section \<open>What a query means\<close>

type_synonym event = "string \<Rightarrow> pyval"

text \<open>
  The comparisons of the database: equality of values, the order of the two orderings of bound
  filters, and the search for a substring; and what the query functions mean.
\<close>

record druid =
  same :: "pyval \<Rightarrow> pyval \<Rightarrow> bool"
  less :: "string \<Rightarrow> pyval \<Rightarrow> pyval \<Rightarrow> bool"
  contains :: "pyval \<Rightarrow> string \<Rightarrow> bool"
  udf_holds :: "event \<Rightarrow> query_udf \<Rightarrow> bool"

definition bound_holds :: "druid \<Rightarrow> string \<Rightarrow> (pyval \<times> bool) option \<Rightarrow> (pyval \<times> bool) option \<Rightarrow> pyval \<Rightarrow> bool" where
  "bound_holds D ord lo up x \<longleftrightarrow>
     (case lo of None \<Rightarrow> True | Some (v, strict) \<Rightarrow> if strict then less D ord v x else \<not> less D ord x v) \<and>
     (case up of None \<Rightarrow> True | Some (v, strict) \<Rightarrow> if strict then less D ord x v else \<not> less D ord v x)"

text \<open>The documented meaning of the filter types.\<close>

definition druid_semantics :: "druid \<Rightarrow> (event \<Rightarrow> druid_filter \<Rightarrow> bool) \<Rightarrow> bool" where
  "druid_semantics D M \<longleftrightarrow>
     (\<forall>a b. same D a b = same D b a) \<and>
     (\<forall>ev fs. M ev (DAnd fs) = list_all (M ev) fs) \<and>
     (\<forall>ev fs. M ev (DOr fs) = list_ex (M ev) fs) \<and>
     (\<forall>ev f. M ev (DNot f) = (\<not> M ev f)) \<and>
     (\<forall>ev d v. M ev (DSelector d v) = same D (ev d) v) \<and>
     (\<forall>ev a b. M ev (DColumnComparison a b) = same D (ev a) (ev b)) \<and>
     (\<forall>ev d s. M ev (DSearch d s) = contains D (ev d) s) \<and>
     (\<forall>ev d vs. M ev (DIn d vs) = list_ex (same D (ev d)) vs) \<and>
     (\<forall>ev d ord lo up. M ev (DBound d ord lo up) = bound_holds D ord lo up (ev d)) \<and>
     (\<forall>ev u f. to_druid_query u = Some f \<longrightarrow> M ev f = udf_holds D ev u)"

text \<open>
  The meaning of a comparison of two values, of which \<open>feat\<close> is the value of a feature and \<open>lit\<close> the
  literal one: a feature that is missing is in no order, a string is searched in a value, a value is
  looked up in a list.
\<close>

definition order_of :: "pyval \<Rightarrow> string" where
  "order_of v = (case get_value_bound_ordering v of Inr ord \<Rightarrow> ord | Inl _ \<Rightarrow> [])"

definition present :: "druid \<Rightarrow> pyval \<Rightarrow> bool" where
  "present D v \<longleftrightarrow> \<not> same D v VNone"

definition holds_in :: "druid \<Rightarrow> pyval \<Rightarrow> pyval \<Rightarrow> bool" where
  "holds_in D a b = (case b of VList vs \<Rightarrow> list_ex (same D a) vs
     | _ \<Rightarrow> (case a of VStr s \<Rightarrow> contains D b s | _ \<Rightarrow> False))"

definition comparison_holds :: "druid \<Rightarrow> pyval \<Rightarrow> pyval \<Rightarrow> comparator \<Rightarrow> pyval \<Rightarrow> pyval \<Rightarrow> bool" where
  "comparison_holds D feat lit c a b =
     (case c of
        Equals \<Rightarrow> same D a b
      | NotEquals \<Rightarrow> \<not> same D a b
      | In \<Rightarrow> holds_in D a b
      | NotIn \<Rightarrow> \<not> holds_in D a b
      | LessThan \<Rightarrow> present D feat \<and> less D (order_of lit) a b
      | LessThanEquals \<Rightarrow> present D feat \<and> \<not> less D (order_of lit) b a
      | GreaterThan \<Rightarrow> present D feat \<and> less D (order_of lit) b a
      | GreaterThanEquals \<Rightarrow> present D feat \<and> \<not> less D (order_of lit) a b)"

definition literal_value :: "py_env \<Rightarrow> ast_node \<Rightarrow> pyval option" where
  "literal_value env n =
     (if is_literal n \<or> is_unary n
      then (case get_ast_node_value env n of Inr v \<Rightarrow> Some v | Inl _ \<Rightarrow> None) else None)"

fun query_holds :: "druid \<Rightarrow> py_env \<Rightarrow> query_udfs \<Rightarrow> event \<Rightarrow> ast_node \<Rightarrow> bool" where
  "query_holds D env udfs ev (BooleanOperation m vs op) =
     (case op of
        BooleanOperand _ And \<Rightarrow> list_all (query_holds D env udfs ev) vs
      | _ \<Rightarrow> list_ex (query_holds D env udfs ev) vs)"
| "query_holds D env udfs ev (UnaryOperation m x op) = (\<not> query_holds D env udfs ev x)"
| "query_holds D env udfs ev (Call m f args) =
     (case map_of udfs (node_id m) of Some u \<Rightarrow> udf_holds D ev u | None \<Rightarrow> False)"
| "query_holds D env udfs ev (BinaryComparison m l r op) =
     (case op of
        Comparator _ c \<Rightarrow>
          (case (l, r) of
             (Name _ i _, Name _ j _) \<Rightarrow> comparison_holds D (ev i) VNone c (ev i) (ev j)
           | (Name _ i _, _) \<Rightarrow>
               (case literal_value env r of Some v \<Rightarrow> comparison_holds D (ev i) v c (ev i) v | None \<Rightarrow> False)
           | (_, Name _ j _) \<Rightarrow>
               (case literal_value env l of Some v \<Rightarrow> comparison_holds D (ev j) v c v (ev j) | None \<Rightarrow> False)
           | _ \<Rightarrow> False)
      | _ \<Rightarrow> False)"
| "query_holds D env udfs ev _ = False"

section \<open>Correctness of the translation\<close>

definition is_order :: "comparator \<Rightarrow> bool" where
  "is_order c \<longleftrightarrow> c \<in> {LessThan, LessThanEquals, GreaterThan, GreaterThanEquals}"

definition has_order :: "pyval \<Rightarrow> bool" where
  "has_order v = (case v of VInt _ \<Rightarrow> True | VBool _ \<Rightarrow> True | VFloat _ \<Rightarrow> True | VStr _ \<Rightarrow> True | _ \<Rightarrow> False)"

definition is_VStr :: "pyval \<Rightarrow> bool" where "is_VStr v = (case v of VStr _ \<Rightarrow> True | _ \<Rightarrow> False)"
definition is_VList :: "pyval \<Rightarrow> bool" where "is_VList v = (case v of VList _ \<Rightarrow> True | _ \<Rightarrow> False)"

text \<open>
  The comparisons that are translated as they read: two features are tested for equality, a feature
  on the left is compared with a literal, and a literal on the left is tested for equality or
  searched as a string.
\<close>

definition oriented_comparison :: "py_env \<Rightarrow> ast_node \<Rightarrow> ast_node \<Rightarrow> comparator \<Rightarrow> bool" where
  "oriented_comparison env l r c =
     (if is_name l \<and> is_name r then c \<in> {Equals, NotEquals}
      else if is_name l then
        (case literal_value env r of
           None \<Rightarrow> False
         | Some v \<Rightarrow> (c \<in> {In, NotIn} \<longrightarrow> is_VList v) \<and> (is_order c \<longrightarrow> has_order v))
      else if is_name r then
        (case literal_value env l of
           None \<Rightarrow> False
         | Some v \<Rightarrow> \<not> is_order c \<and> (c \<in> {In, NotIn} \<longrightarrow> is_VStr v))
      else False)"

fun oriented :: "py_env \<Rightarrow> query_udfs \<Rightarrow> ast_node \<Rightarrow> bool" where
  "oriented env udfs (BooleanOperation m vs op) =
     ((case op of BooleanOperand _ _ \<Rightarrow> True | _ \<Rightarrow> False) \<and> list_all (oriented env udfs) vs)"
| "oriented env udfs (UnaryOperation m x op) =
     ((case op of UnaryOperator _ NotOp \<Rightarrow> True | _ \<Rightarrow> False) \<and> oriented env udfs x)"
| "oriented env udfs (Call m f args) =
     (case map_of udfs (node_id m) of Some u \<Rightarrow> to_druid_query u \<noteq> None | None \<Rightarrow> False)"
| "oriented env udfs (BinaryComparison m l r op) =
     (case op of Comparator _ c \<Rightarrow> oriented_comparison env l r c | _ \<Rightarrow> False)"
| "oriented env udfs _ = False"

definition translated :: "druid \<Rightarrow> (event \<Rightarrow> druid_filter \<Rightarrow> bool) \<Rightarrow> py_env \<Rightarrow> query_udfs \<Rightarrow> event \<Rightarrow> ast_node \<Rightarrow> bool" where
  "translated D M env udfs ev q \<longleftrightarrow>
     (\<exists>f. transform_query env udfs q = Inr f \<and> (M ev f \<longleftrightarrow> query_holds D env udfs ev q))"

lemma literal_value_SomeD:
  "literal_value env n = Some v \<Longrightarrow> (is_literal n \<or> is_unary n) \<and> get_ast_node_value env n = Inr v"
  by (auto simp: literal_value_def split: if_splits sum.splits)

lemma name_not_literal: "is_name n \<Longrightarrow> \<not> is_literal n \<and> \<not> is_unary n"
  by (cases n) (simp_all add: is_name_def is_literal_def is_unary_def)

lemma is_nameE:
  assumes "is_name n"
  obtains m i c where "n = Name m i c"
  using assms by (cases n) (simp_all add: is_name_def)

text \<open>The filter for a feature and a literal value depends only on the two and the comparator.\<close>

definition value_filter :: "comparator \<Rightarrow> string \<Rightarrow> pyval \<Rightarrow> druid_filter result" where
  "value_filter c d v =
     (case c of
        Equals \<Rightarrow> Inr (DSelector d v)
      | In \<Rightarrow> get_in_query_by_value_type d v
      | NotEquals \<Rightarrow> Inr (DNot (DSelector d v))
      | NotIn \<Rightarrow> bindR (get_in_query_by_value_type d v) (\<lambda>f. Inr (DNot f))
      | _ \<Rightarrow>
          bindR (get_value_bound_ordering v) (\<lambda>ordering.
          bindR (get_druid_bound_query_props c v) (\<lambda>(lo, up).
            Inr (DAnd [DNot (DSelector d VNone), DBound d ordering lo up]))))"

lemma comparison_left:
  assumes "literal_value env r = Some v"
  shows "transform_BinaryComparison env (Name m i c) r cmp = value_filter cmp i v"
proof -
  from literal_value_SomeD [OF assms] have r: "is_literal r \<or> is_unary r" "get_ast_node_value env r = Inr v" by auto
  moreover have "\<not> is_literal (Name m i c)" "\<not> is_unary (Name m i c)" by (simp_all add: is_literal_def is_unary_def)
  moreover have "\<not> is_name r" using r(1) name_not_literal by blast
  ultimately show ?thesis
    by (cases r) (simp_all add: transform_BinaryComparison_def get_comparison_dimension_def
        get_comparison_value_def value_filter_def is_name_def)
qed

lemma comparison_right:
  assumes "literal_value env l = Some v"
  shows "transform_BinaryComparison env l (Name m i c) cmp = value_filter cmp i v"
proof -
  from literal_value_SomeD [OF assms] have l: "is_literal l \<or> is_unary l" "get_ast_node_value env l = Inr v" by auto
  moreover have "\<not> is_name l" using l(1) name_not_literal by blast
  ultimately show ?thesis
    by (cases l) (simp_all add: transform_BinaryComparison_def get_comparison_dimension_def
        get_comparison_value_def value_filter_def is_name_def)
qed

lemma value_filter_left:
  assumes "druid_semantics D M" and "c \<in> {In, NotIn} \<Longrightarrow> is_VList v" and "is_order c \<Longrightarrow> has_order v"
  shows "\<exists>f. value_filter c d v = Inr f \<and> (M ev f \<longleftrightarrow> comparison_holds D (ev d) v c (ev d) v)"
proof (cases "is_order c")
  case True
  then show ?thesis using assms(1,3)
    by (cases v; cases c) (auto simp: value_filter_def is_order_def has_order_def get_value_bound_ordering_def
        get_druid_bound_query_props_def comparison_holds_def druid_semantics_def bound_holds_def present_def order_of_def)
next
  case False
  then show ?thesis using assms(1,2)
    by (cases v; cases c) (auto simp: value_filter_def is_order_def is_VList_def get_in_query_by_value_type_def
        comparison_holds_def druid_semantics_def holds_in_def)
qed

lemma value_filter_right:
  assumes "druid_semantics D M" and "\<not> is_order c" and "c \<in> {In, NotIn} \<Longrightarrow> is_VStr v"
    and "c \<in> {In, NotIn} \<Longrightarrow> \<not> is_VList (ev d)"
  shows "\<exists>f. value_filter c d v = Inr f \<and> (M ev f \<longleftrightarrow> comparison_holds D (ev d) v c v (ev d))"
proof -
  have sym: "same D v (ev d) = same D (ev d) v" using assms(1) by (simp add: druid_semantics_def)
  show ?thesis
  proof (cases "c \<in> {In, NotIn}")
    case True
    then obtain s where v: "v = VStr s" using assms(3) by (auto simp: is_VStr_def split: pyval.splits)
    have "holds_in D v (ev d) = contains D (ev d) s"
      using assms(4) [OF True] by (cases "ev d") (simp_all add: holds_in_def v is_VList_def)
    with True assms(1) v show ?thesis
      by (auto simp: value_filter_def get_in_query_by_value_type_def comparison_holds_def druid_semantics_def)
  next
    case False
    with assms(1,2) sym show ?thesis
      by (cases c) (auto simp: value_filter_def is_order_def comparison_holds_def druid_semantics_def)
  qed
qed

definition scalar_event :: "event \<Rightarrow> bool" where
  "scalar_event ev \<longleftrightarrow> (\<forall>d. \<not> is_VList (ev d))"

lemma comparison_translated:
  assumes sem: "druid_semantics D M" and ev: "scalar_event ev" and o: "oriented_comparison env l r c"
  shows "translated D M env udfs ev (BinaryComparison m l r (Comparator cm c))"
proof -
  consider (both) "is_name l" "is_name r" | (left) v where "is_name l" "\<not> is_name r" "literal_value env r = Some v"
    | (right) v where "\<not> is_name l" "is_name r" "literal_value env l = Some v"
    using o by (auto simp: oriented_comparison_def split: if_splits option.splits)
  then show ?thesis
  proof cases
    case both
    from both(1) obtain lm i lc where l: "l = Name lm i lc" by (rule is_nameE)
    from both(2) obtain rm j rc where r: "r = Name rm j rc" by (rule is_nameE)
    from o both have "c = Equals \<or> c = NotEquals" by (auto simp: oriented_comparison_def)
    with sem show ?thesis
      by (auto simp: translated_def l r transform_BinaryComparison_def comparison_holds_def druid_semantics_def)
  next
    case (left v)
    from left(1) obtain lm i lc where l: "l = Name lm i lc" by (rule is_nameE)
    have "c \<in> {In, NotIn} \<longrightarrow> is_VList v" "is_order c \<longrightarrow> has_order v"
      using o left by (simp_all add: oriented_comparison_def)
    then obtain f where f: "value_filter c i v = Inr f" "M ev f \<longleftrightarrow> comparison_holds D (ev i) v c (ev i) v"
      using value_filter_left [OF sem] by blast
    have "query_holds D env udfs ev (BinaryComparison m l r (Comparator cm c)) = comparison_holds D (ev i) v c (ev i) v"
      using left(2,3) by (cases r) (simp_all add: l is_name_def)
    with f comparison_left [OF left(3)] show ?thesis by (simp add: translated_def l)
  next
    case (right v)
    from right(2) obtain rm i rc where r: "r = Name rm i rc" by (rule is_nameE)
    have "\<not> is_order c" "c \<in> {In, NotIn} \<longrightarrow> is_VStr v"
      using o right by (simp_all add: oriented_comparison_def)
    then obtain f where f: "value_filter c i v = Inr f" "M ev f \<longleftrightarrow> comparison_holds D (ev i) v c v (ev i)"
      using value_filter_right [OF sem, of c v ev i] ev by (auto simp: scalar_event_def)
    have "query_holds D env udfs ev (BinaryComparison m l r (Comparator cm c)) = comparison_holds D (ev i) v c v (ev i)"
      using right(1,3) by (cases l) (simp_all add: r is_name_def)
    with f comparison_right [OF right(3)] show ?thesis by (simp add: translated_def r)
  qed
qed

lemma boolean_translated:
  assumes sem: "druid_semantics D M" and vs: "\<And>v. v \<in> set vs \<Longrightarrow> translated D M env udfs ev v"
  shows "translated D M env udfs ev (BooleanOperation m vs (BooleanOperand bm b))"
proof -
  from vs have "\<exists>fs. mapR (transform_query env udfs) vs = Inr fs"
    by (intro mapR_all_Inr) (auto simp: translated_def)
  then obtain fs where fs: "mapR (transform_query env udfs) vs = Inr fs" by blast
  then have all2: "list_all2 (\<lambda>v f. transform_query env udfs v = Inr f) vs fs" by (simp add: mapR_Inr_conv)
  have "list_all2 (\<lambda>v f. M ev f \<longleftrightarrow> query_holds D env udfs ev v) vs fs"
  proof (rule list_all2_all_nthI)
    show "length vs = length fs" using all2 by (rule list_all2_lengthD)
    fix n assume n: "n < length vs"
    then have "transform_query env udfs (vs ! n) = Inr (fs ! n)" using list_all2_nthD [OF all2] by simp
    moreover have "translated D M env udfs ev (vs ! n)" using vs n by simp
    ultimately show "M ev (fs ! n) \<longleftrightarrow> query_holds D env udfs ev (vs ! n)" by (simp add: translated_def)
  qed
  then have "list_all (M ev) fs = list_all (query_holds D env udfs ev) vs \<and>
      list_ex (M ev) fs = list_ex (query_holds D env udfs ev) vs"
    by (induction rule: list_all2_induct) auto
  with sem fs show ?thesis
    by (cases b) (auto simp: translated_def druid_semantics_def)
qed

lemma query_translated:
  assumes "druid_semantics D M" and "scalar_event ev"
  shows "oriented env udfs q \<Longrightarrow> translated D M env udfs ev q"
proof (induction env udfs q rule: oriented.induct)
  case (1 env udfs m vs op)
  then obtain bm b where "op = BooleanOperand bm b" by (cases op) simp_all
  with 1 assms(1) show ?case by (auto intro!: boolean_translated simp: list_all_iff)
next
  case (2 env udfs m x op)
  then obtain om where op: "op = UnaryOperator om NotOp" by (cases op) (auto split: unary_operator.splits)
  from 2 obtain f where "transform_query env udfs x = Inr f" "M ev f \<longleftrightarrow> query_holds D env udfs ev x"
    by (auto simp: translated_def)
  with op assms(1) show ?case by (simp add: translated_def druid_semantics_def)
next
  case (3 env udfs m f args)
  then obtain u g where "map_of udfs (node_id m) = Some u" "to_druid_query u = Some g" by (auto split: option.splits)
  with assms(1) show ?case by (auto simp: translated_def transform_Call_def nid_def druid_semantics_def)
next
  case (4 env udfs m l r op)
  then obtain cm c where op: "op = Comparator cm c" by (cases op) simp_all
  with 4 show ?case using comparison_translated [OF assms] by simp
qed simp_all

section \<open>Properties\<close>


text \<open>
  An order test with the literal on the left is translated as if the sides were exchanged without
  turning the comparison round: \<open>3 < X\<close> gives the filter of \<open>X < 3\<close>. So an event with a greater value,
  for which the query holds, is not selected.
\<close>

theorem mirrored_comparison_wrong:
  assumes "druid_semantics D M" and "literal_value env l = Some v" and "has_order v"
    and "present D (ev i)" and "less D (order_of v) v (ev i)" and "\<not> less D (order_of v) (ev i) v"
  shows "\<exists>f. transform_query env udfs (BinaryComparison m l (Name nm i nc) (Comparator cm LessThan)) = Inr f \<and>
    transform_query env udfs (BinaryComparison m (Name nm i nc) l (Comparator cm LessThan)) = Inr f \<and>
    query_holds D env udfs ev (BinaryComparison m l (Name nm i nc) (Comparator cm LessThan)) \<and> \<not> M ev f"
proof -
  obtain f where f: "value_filter LessThan i v = Inr f"
      "M ev f \<longleftrightarrow> comparison_holds D (ev i) v LessThan (ev i) v"
    using value_filter_left [OF assms(1), of LessThan v i ev] assms(3) by auto
  have "\<not> is_name l" using literal_value_SomeD [OF assms(2)] name_not_literal by blast
  then have "query_holds D env udfs ev (BinaryComparison m l (Name nm i nc) (Comparator cm LessThan))"
    using assms(2,4,5) by (cases l) (simp_all add: is_name_def comparison_holds_def)
  moreover have "\<not> M ev f" using f(2) assms(6) by (simp add: comparison_holds_def)
  ultimately show ?thesis
    using f(1) comparison_right [OF assms(2), of nm i nc LessThan] comparison_left [OF assms(2), of nm i nc LessThan]
    by simp
qed

section \<open>A concrete database\<close>

definition int_less :: "string \<Rightarrow> pyval \<Rightarrow> pyval \<Rightarrow> bool" where
  "int_less ord a b = (case (as_int a, as_int b) of (Some i, Some j) \<Rightarrow> i < j | _ \<Rightarrow> False)"

definition str_contains :: "pyval \<Rightarrow> string \<Rightarrow> bool" where
  "str_contains v s = (case v of VStr t \<Rightarrow> is_substring s t | _ \<Rightarrow> False)"

definition demo_druid :: druid where
  "demo_druid = \<lparr>same = (=), less = int_less, contains = str_contains, udf_holds = (\<lambda>_ _. False)\<rparr>"

fun demo_matches :: "event \<Rightarrow> druid_filter \<Rightarrow> bool" where
  "demo_matches ev (DAnd fs) = list_all (demo_matches ev) fs"
| "demo_matches ev (DOr fs) = list_ex (demo_matches ev) fs"
| "demo_matches ev (DNot f) = (\<not> demo_matches ev f)"
| "demo_matches ev (DSelector d v) = (ev d = v)"
| "demo_matches ev (DColumnComparison a b) = (ev a = ev b)"
| "demo_matches ev (DSearch d s) = str_contains (ev d) s"
| "demo_matches ev (DIn d vs) = list_ex (\<lambda>v. ev d = v) vs"
| "demo_matches ev (DBound d ord lo up) = bound_holds demo_druid ord lo up (ev d)"
| "demo_matches ev _ = False"

lemma demo_semantics: "druid_semantics demo_druid demo_matches"
proof -
  have "\<not> demo_matches ev f" if "to_druid_query u = Some f" for ev u f
    using that by (cases u) auto
  then show ?thesis by (auto simp: druid_semantics_def demo_druid_def)
qed

definition query_env :: py_env where
  "query_env = \<lparr>float_op = (\<lambda>_ _ _. Inl (TypeError [])), float_neg = Inr, float_eq = (=),
     float_cmp = (\<lambda>_ _ _. Inr False), obj_str = (\<lambda>_. []), format_field = (\<lambda>_ _. Inr [])\<rparr>"

definition qm :: "nat \<Rightarrow> meta" where
  "qm k = \<lparr>node_id = k, node_span = \<lparr>span_source = ''main.sml'', start_line = 1, start_pos = int k\<rparr>\<rparr>"

text \<open>\<open>X >= -1 and not 'spam' in Text\<close>.\<close>

definition demo_query :: ast_node where
  "demo_query = BooleanOperation (qm 1)
     [BinaryComparison (qm 2) (Name (qm 3) ''X'' Load)
        (UnaryOperation (qm 4) (Number (qm 5) (IntN 1)) (UnaryOperator (qm 6) USub)) (Comparator (qm 7) GreaterThanEquals),
      UnaryOperation (qm 8)
        (BinaryComparison (qm 9) (StringLit (qm 10) ''spam'') (Name (qm 11) ''Text'' Load) (Comparator (qm 12) In))
        (UnaryOperator (qm 13) NotOp)]
     (BooleanOperand (qm 14) And)"

definition demo_event :: event where
  "demo_event = (\<lambda>d. if d = ''X'' then VInt 5 else if d = ''Text'' then VStr ''hello'' else VNone)"


theorem mirrored_comparison_wrong_witness:
  "\<exists>f. transform_query query_env []
      (BinaryComparison (qm 1) (Number (qm 2) (IntN 3)) (Name (qm 3) ''X'' Load) (Comparator (qm 4) LessThan)) = Inr f \<and>
    query_holds demo_druid query_env [] demo_event
      (BinaryComparison (qm 1) (Number (qm 2) (IntN 3)) (Name (qm 3) ''X'' Load) (Comparator (qm 4) LessThan)) \<and>
    \<not> demo_matches demo_event f"
proof -
  have "literal_value query_env (Number (qm 2) (IntN 3)) = Some (VInt 3)" "has_order (VInt 3)"
    "present demo_druid (demo_event ''X'')" "less demo_druid (order_of (VInt 3)) (VInt 3) (demo_event ''X'')"
    "\<not> less demo_druid (order_of (VInt 3)) (demo_event ''X'') (VInt 3)" by code_simp+
  from mirrored_comparison_wrong [where ev = demo_event and i = "''X''", OF demo_semantics this] show ?thesis by blast
qed

section \<open>Further consequences\<close>

text \<open>The other side of a comparison is lost when it is a call: the feature is tested for absence.\<close>

lemma called_operand_ignored:
  "transform_query env udfs (BinaryComparison m (Name nm i nc) (Call cm f args) (Comparator om Equals)) =
     Inr (DSelector i VNone)"
  by (simp add: transform_BinaryComparison_def get_comparison_dimension_def get_comparison_value_def
      is_literal_def is_unary_def)

text \<open>Executing a negated literal twice gives the literal itself: the node was changed in between.\<close>

lemma negation_executed_twice:
  assumes "execute_unary_operation env (UnaryOperation m (Number nm (IntN i)) (UnaryOperator om USub)) = Inr (v, n')"
  shows "v = VInt (- i) \<and> (\<exists>n''. execute_unary_operation env n' = Inr (VInt i, n''))"
  using assms by (auto simp: execute_unary_operation_def unary_operator_value_def number_value_def number_of_def as_int_def)

end
