(* ===== verification/Py_Types.thy ===== *)
theory Py_Types
  imports Node_Executors
begin

text \<open>
  The types of the rule language as the code sees them: objects of Python's \<open>typing\<close> module.
  This theory models \<open>udf/type_helpers.py\<close>, \<open>udf/type_evaluator.py\<close> and
  \<open>language_types/post_execution_convertible.py\<close>: how a type is displayed, when a value of one type
  is accepted where another is expected, and how the type variable of a generic function is
  resolved. Classes are known by name; what \<open>issubclass\<close>, \<open>__parameters__\<close> and the base classes
  say of them is a parameter. Unions are \<open>typing.Union\<close>; tuples, callables and class variables, which no
  function of the engine takes, are left out.
\<close>

section \<open>Types\<close>

datatype ty =
  AnyT
| NoneObj  \<comment> \<open>the object \<open>None\<close> in the place of a type\<close>
| ClassT string
| GenT string "ty list"  \<comment> \<open>\<open>List[int]\<close>, \<open>Entity[str]\<close>, \<open>ConstExpr[str]\<close>; the bare \<open>List\<close> has no arguments\<close>
| UnionT "ty list"
| VarT string

abbreviation IntT :: ty where "IntT \<equiv> ClassT ''int''"
abbreviation FloatT :: ty where "FloatT \<equiv> ClassT ''float''"
abbreviation BoolT :: ty where "BoolT \<equiv> ClassT ''bool''"
abbreviation StrT :: ty where "StrT \<equiv> ClassT ''str''"
abbreviation NoneT :: ty where "NoneT \<equiv> ClassT ''NoneType''"
abbreviation ListT :: "ty \<Rightarrow> ty" where "ListT t \<equiv> GenT ''List'' [t]"
abbreviation EntityT :: "ty \<Rightarrow> ty" where "EntityT t \<equiv> GenT ''Entity'' [t]"
abbreviation ConstExprT :: "ty \<Rightarrow> ty" where "ConstExprT t \<equiv> GenT ''ConstExpr'' [t]"

text \<open>What the code asks of a class.\<close>

record class_table =
  is_subclass :: "string \<Rightarrow> string \<Rightarrow> bool"
  class_parameters :: "string \<Rightarrow> string list"
  invariant_generic :: "string \<Rightarrow> bool"
  converts_to :: "string \<Rightarrow> ty option"

datatype type_exc = UnsupportedTypeError string string | Uncaught py_exc

fun get_args :: "ty \<Rightarrow> ty list" where
  "get_args (GenT _ ts) = ts"
| "get_args (UnionT ts) = ts"
| "get_args _ = []"

fun get_normalized_origin :: "ty \<Rightarrow> string option" where
  "get_normalized_origin (GenT c _) = Some c"
| "get_normalized_origin (UnionT _) = Some ''typing.Union''"
| "get_normalized_origin _ = None"

fun type_variables :: "ty \<Rightarrow> string list" where
  "type_variables (VarT v) = [v]"
| "type_variables (GenT _ ts) = concat (map type_variables ts)"
| "type_variables (UnionT ts) = concat (map type_variables ts)"
| "type_variables _ = []"

text \<open>\<open>get_parameters\<close>: a type variable by itself has none.\<close>

definition get_parameters :: "class_table \<Rightarrow> ty \<Rightarrow> string list" where
  "get_parameters ct t = (case t of
     VarT _ \<Rightarrow> [] | ClassT c \<Rightarrow> class_parameters ct c | _ \<Rightarrow> remdups (type_variables t))"

definition is_typevar :: "ty \<Rightarrow> bool" where
  "is_typevar t = (case t of VarT _ \<Rightarrow> True | _ \<Rightarrow> False)"

definition is_list :: "ty \<Rightarrow> bool" where
  "is_list t \<longleftrightarrow> get_normalized_origin t = Some ''List''"

lemma arg_size: "(t :: ty) \<in> set ts \<Longrightarrow> size t < Suc (size_list size ts)"
  using size_list_estimation' [of t ts "size t" size] by simp

text \<open>Equality of types: two unions are equal when they have the same members.\<close>

function same_type :: "ty \<Rightarrow> ty \<Rightarrow> bool" where
  "same_type t u =
     (case (t, u) of
        (UnionT ts, UnionT us) \<Rightarrow>
          list_all (\<lambda>x. list_ex (\<lambda>y. same_type x y) us) ts \<and> list_all (\<lambda>y. list_ex (\<lambda>x. same_type x y) ts) us
      | (GenT c ts, GenT d us) \<Rightarrow> c = d \<and> length ts = length us \<and> list_all (\<lambda>(x, y). same_type x y) (zip ts us)
      | _ \<Rightarrow> t = u)"
  by pat_completeness auto
termination by (relation "measure (\<lambda>(t, u). size t)") (auto intro: arg_size dest!: set_zip_leftD)

declare same_type.simps [simp del]

section \<open>Display\<close>

fun join :: "string \<Rightarrow> string list \<Rightarrow> string" where
  "join sep [] = []"
| "join sep [s] = s"
| "join sep (s # ss) = s @ sep @ join sep ss"

definition is_none_type :: "ty \<Rightarrow> bool" where
  "is_none_type t \<longleftrightarrow> t = NoneT"

text \<open>
  \<open>_to_display_str\<close>. The test for a type variable looks at the outer type, so a nested variable is
  displayed by its \<open>repr\<close>.
\<close>

function display_inner :: "bool \<Rightarrow> ty \<Rightarrow> string" where
  "display_inner outer_var AnyT = ''Any''"
| "display_inner outer_var NoneObj = ''None''"
| "display_inner outer_var (ClassT c) = (if c = ''NoneType'' then ''None'' else c)"
| "display_inner outer_var (VarT v) = (if outer_var then v else ''~'' @ v)"
| "display_inner outer_var (GenT c ts) = c @ ''['' @ join '', '' (map (display_inner outer_var) ts) @ '']''"
| "display_inner outer_var (UnionT ts) =
     (case filter (\<lambda>t. \<not> is_none_type t) ts of
        [t] \<Rightarrow> if length ts = 2 then ''Optional['' @ display_inner outer_var t @ '']''
               else ''Union['' @ join '', '' (map (display_inner outer_var) ts) @ '']''
      | _ \<Rightarrow> ''Union['' @ join '', '' (map (display_inner outer_var) ts) @ '']'')"
  by pat_completeness auto
termination
proof (relation "measure (\<lambda>(b, t). size t)")
  fix b :: bool and ts t us
  assume "filter (\<lambda>t. \<not> is_none_type t) ts = t # us"
  then have "t \<in> set ts" by (metis filter_is_subset list.set_intros(1) subsetD)
  then show "((b, t), b, UnionT ts) \<in> measure (\<lambda>(b, t). size t)" by (simp add: arg_size)
qed (auto intro: arg_size)

definition to_display_str_plain :: "ty \<Rightarrow> string" where
  "to_display_str_plain t = display_inner (is_typevar t) t"

definition to_display_str :: "ty \<Rightarrow> string" where
  "to_display_str t = ''`'' @ to_display_str_plain t @ ''`''"

section \<open>Inner types\<close>

text \<open>The origin of a list is the alias \<open>List\<close>, which is displayed as a generic without arguments.\<close>

definition origin_display :: "ty \<Rightarrow> string" where
  "origin_display t = (case get_normalized_origin t of
     None \<Rightarrow> ''None'' | Some c \<Rightarrow> if c = ''List'' then ''List[]'' else c)"

definition get_single_inner_type :: "ty \<Rightarrow> type_exc + ty" where
  "get_single_inner_type t =
     (case get_args t of
        [] \<Rightarrow> Inl (UnsupportedTypeError (''`'' @ origin_display t @ ''` types must specify their item type'')
                (''eg `'' @ origin_display t @ ''[int]`; if you want a `'' @ origin_display t @
                 ''` of `Any` type use `'' @ origin_display t @ ''[Any]`''))
      | [u] \<Rightarrow> Inr u
      | us \<Rightarrow> Inl (UnsupportedTypeError (''`'' @ origin_display t @ ''` types must have exactly one item type, got '' @
                nat_digits (length us) @ '' types'') []))"

lemma get_single_inner_type_Inr: "get_single_inner_type t = Inr u \<longleftrightarrow> get_args t = [u]"
  by (auto simp: get_single_inner_type_def split: list.splits)

lemma args_size: "u \<in> set (get_args t) \<Longrightarrow> size u < size t"
  by (cases t) (auto intro: arg_size)

text \<open>
  \<open>get_typevar_substitution\<close>. The messages show the types by their \<open>repr\<close>, which is a parameter.
\<close>

definition args_excluding_nonetype :: "ty \<Rightarrow> ty list" where
  "args_excluding_nonetype t = filter (\<lambda>u. \<not> is_none_type u) (get_args t)"

definition get_typevar_substitution :: "(ty \<Rightarrow> string) \<Rightarrow> class_table \<Rightarrow> ty \<Rightarrow> ty \<Rightarrow> type_exc + ty" where
  "get_typevar_substitution rep ct generic_type resolved_type =
     (if get_parameters ct resolved_type \<noteq> [] then
        Inl (UnsupportedTypeError (''resolved type must be fully specified, got '' @ rep resolved_type @
          '', which has typevar parameters'') [])
      else if is_typevar generic_type then Inr resolved_type
      else if length (get_parameters ct generic_type) \<noteq> 1 then
        Inl (UnsupportedTypeError (''generic type '' @ rep generic_type @ '' should only have 1 typevar'') [])
      else case (args_excluding_nonetype generic_type, args_excluding_nonetype resolved_type) of
        ([g], [r]) \<Rightarrow>
          if \<not> is_typevar g then
            Inl (UnsupportedTypeError (''generic type '' @ rep generic_type @
              '' must have exactly one typevar nested at most one level deep'') [])
          else if get_normalized_origin generic_type \<noteq> get_normalized_origin resolved_type then
            Inl (UnsupportedTypeError (''generic type '' @ rep generic_type @ '' and concrete type '' @
              rep resolved_type @ '' have different origins'') [])
          else Inr r
      | _ \<Rightarrow> Inl (UnsupportedTypeError (''both generic type '' @ rep generic_type @ '' and resolved type '' @
              rep resolved_type @ '' can only have one argument'') []))"

section \<open>Compatibility\<close>

definition is_single_arg_invariant_generic :: "class_table \<Rightarrow> ty \<Rightarrow> bool" where
  "is_single_arg_invariant_generic ct t =
     (case t of GenT c _ \<Rightarrow> c = ''List'' \<or> invariant_generic ct c | _ \<Rightarrow> False)"

definition is_parameterized_generic :: "class_table \<Rightarrow> ty \<Rightarrow> bool" where
  "is_parameterized_generic ct t = (case t of
     ClassT c \<Rightarrow> class_parameters ct c \<noteq> []
   | GenT c _ \<Rightarrow> c = ''List'' \<or> class_parameters ct c \<noteq> []
   | _ \<Rightarrow> False)"

definition is_union_type :: "ty \<Rightarrow> bool" where
  "is_union_type t = (case t of UnionT _ \<Rightarrow> True | _ \<Rightarrow> False)"

definition is_simple_type :: "class_table \<Rightarrow> ty \<Rightarrow> bool" where
  "is_simple_type ct t \<longleftrightarrow> \<not> is_parameterized_generic ct t \<and> \<not> is_union_type t"

definition coerce_none_type :: "ty \<Rightarrow> ty" where
  "coerce_none_type t = (if t = NoneObj then NoneT else t)"

definition get_type_candidates :: "class_table \<Rightarrow> ty \<Rightarrow> type_exc + ty list" where
  "get_type_candidates ct t =
     (if is_simple_type ct t then Inr [coerce_none_type t]
      else if is_union_type t then
        mapR (\<lambda>arg. if is_simple_type ct arg then Inr (coerce_none_type arg)
                     else Inl (UnsupportedTypeError (''cannot get type candidates for '' @ to_display_str t @
                       '', arg '' @ to_display_str arg @ '' is not a simple type'') [])) (get_args t)
      else Inl (UnsupportedTypeError (''cannot get type candidates for '' @ to_display_str t @
             '', is an unknown generic'') []))"

text \<open>\<open>issubclass\<close> raises when an argument is not a class.\<close>

definition py_issubclass :: "class_table \<Rightarrow> ty \<Rightarrow> ty \<Rightarrow> type_exc + bool" where
  "py_issubclass ct c a = (case (c, a) of
     (ClassT x, ClassT y) \<Rightarrow> Inr (is_subclass ct x y)
   | _ \<Rightarrow> Inl (Uncaught (TypeError ''issubclass() arg must be a class'')))"

definition candidate_accepted :: "class_table \<Rightarrow> ty \<Rightarrow> ty \<Rightarrow> type_exc + bool" where
  "candidate_accepted ct c a =
     (if c = AnyT \<or> a = AnyT then Inr True
      else bindR (py_issubclass ct c a) (\<lambda>b.
        Inr (b \<and> \<not> (a = IntT \<and> c = BoolT) \<or> a = FloatT \<and> c = IntT)))"

text \<open>\<open>any\<close> over the accepted types and \<open>all\<close> over the candidates stop at the first that decides.\<close>

fun is_acceptable_candidate :: "class_table \<Rightarrow> ty \<Rightarrow> ty list \<Rightarrow> type_exc + bool" where
  "is_acceptable_candidate ct c [] = Inr False"
| "is_acceptable_candidate ct c (a # as) =
     bindR (candidate_accepted ct c a) (\<lambda>b. if b then Inr True else is_acceptable_candidate ct c as)"

fun all_acceptable :: "class_table \<Rightarrow> ty list \<Rightarrow> ty list \<Rightarrow> type_exc + bool" where
  "all_acceptable ct [] as = Inr True"
| "all_acceptable ct (c # cs) as =
     bindR (is_acceptable_candidate ct c as) (\<lambda>b. if b then all_acceptable ct cs as else Inr False)"

definition is_const_expr :: "ty \<Rightarrow> bool" where
  "is_const_expr t \<longleftrightarrow> get_normalized_origin t = Some ''ConstExpr''"

definition unwrap_const_expr :: "ty \<Rightarrow> type_exc + ty" where
  "unwrap_const_expr t = (if is_const_expr t then get_single_inner_type t else Inr t)"

lemma unwrap_const_expr_size: "unwrap_const_expr t = Inr u \<Longrightarrow> size u \<le> size t"
  using args_size [of u t] by (auto simp: unwrap_const_expr_def get_single_inner_type_Inr split: if_splits)

definition unspecified_generic :: "ty \<Rightarrow> type_exc" where
  "unspecified_generic t = UnsupportedTypeError ''generics must be specified''
     (''got '' @ to_display_str t @ '', which has a type variable in it'')"

text \<open>\<open>_is_compatible_type\<close>.\<close>

function compatible :: "class_table \<Rightarrow> ty \<Rightarrow> ty \<Rightarrow> type_exc + bool" where
  "compatible ct type_t accepted_by_t =
     (if type_t = AnyT \<or> accepted_by_t = AnyT then Inr True
      else bindR (unwrap_const_expr type_t) (\<lambda>t. bindR (unwrap_const_expr accepted_by_t) (\<lambda>a.
        if is_single_arg_invariant_generic ct t \<or> is_single_arg_invariant_generic ct a then
          if get_normalized_origin t \<noteq> get_normalized_origin a then Inr False
          else if get_parameters ct t \<noteq> [] then Inl (unspecified_generic t)
          else if get_parameters ct a \<noteq> [] then Inl (unspecified_generic a)
          else bindR (get_single_inner_type t) (\<lambda>t_item. bindR (get_single_inner_type a) (\<lambda>a_item.
            compatible ct t_item a_item))
        else bindR (get_type_candidates ct t) (\<lambda>cs. bindR (get_type_candidates ct a) (\<lambda>as.
          all_acceptable ct cs as)))))"
  by pat_completeness auto
termination
proof (relation "measure (\<lambda>(ct, t, a). size t)")
  fix ct :: class_table and type_t accepted_by_t t a t_item a_item :: ty
  assume "unwrap_const_expr type_t = Inr t" and "get_single_inner_type t = Inr t_item"
  then show "((ct, t_item, a_item), ct, type_t, accepted_by_t) \<in> measure (\<lambda>(ct, t, a). size t)"
    using unwrap_const_expr_size [of type_t t] args_size [of t_item t] by (simp add: get_single_inner_type_Inr)
qed simp

declare compatible.simps [simp del]

section \<open>Conversion after execution\<close>

text \<open>
  \<open>PostExecutionConvertible.maybe_post_execution_type\<close>. \<open>converts_to\<close> is the argument of the base
  class \<open>PostExecutionConvertible\<close>; an entity converts to its own argument.
\<close>

definition maybe_post_execution_type :: "class_table \<Rightarrow> ty \<Rightarrow> type_exc + ty option" where
  "maybe_post_execution_type ct t =
     (case t of
        GenT c ts \<Rightarrow> if c = ''Entity'' then (case ts of [] \<Rightarrow> Inl (Uncaught IndexError) | u # _ \<Rightarrow> Inr (Some u))
                      else Inr (converts_to ct c)
      | ClassT c \<Rightarrow> if c = ''Entity'' then Inl (Uncaught IndexError) else Inr (converts_to ct c)
      | _ \<Rightarrow> Inr None)"

text \<open>
  The result of \<open>is_compatible_type\<close>: \<open>Compatible (Some u)\<close> when the value has to be unwrapped to \<open>u\<close>,
  \<open>Unsupported\<close> for the \<open>Err\<close> case. Other exceptions are raised.
\<close>

datatype compatibility = Compatible "ty option" | Incompatible | Unsupported string string

definition caught :: "type_exc + compatibility \<Rightarrow> compatibility result" where
  "caught r = (case r of
     Inl (UnsupportedTypeError m h) \<Rightarrow> Inr (Unsupported m h)
   | Inl (Uncaught e) \<Rightarrow> Inl e
   | Inr c \<Rightarrow> Inr c)"

definition is_compatible_type :: "class_table \<Rightarrow> ty \<Rightarrow> ty \<Rightarrow> bool \<Rightarrow> compatibility result" where
  "is_compatible_type ct type_t accepted_by_t allow_unwrap =
     caught (bindR (compatible ct type_t accepted_by_t) (\<lambda>b.
       if b then Inr (Compatible None)
       else if allow_unwrap then
         bindR (maybe_post_execution_type ct type_t) (\<lambda>unwrapped.
           (case unwrapped of
              None \<Rightarrow> Inr Incompatible
            | Some u \<Rightarrow> bindR (compatible ct u accepted_by_t) (\<lambda>b.
                Inr (if b then Compatible (Some u) else Incompatible))))
       else Inr Incompatible))"

section \<open>Values of a type\<close>

text \<open>The class of an object that is none of the values with a constructor of their own.\<close>

definition object_class :: "string \<Rightarrow> string" where
  "object_class c =
     (if c \<in> {''NoneType'', ''bool'', ''int'', ''float'', ''str'', ''list''} then ''object'' else c)"

lemma object_class_neq [simp]:
  "object_class c \<noteq> ''NoneType''" "object_class c \<noteq> ''bool''" "object_class c \<noteq> ''int''"
  "object_class c \<noteq> ''float''" "object_class c \<noteq> ''str''" "object_class c \<noteq> ''list''"
  by (simp_all add: object_class_def)

fun class_of :: "pyval \<Rightarrow> string" where
  "class_of VNone = ''NoneType''"
| "class_of (VBool _) = ''bool''"
| "class_of (VInt _) = ''int''"
| "class_of (VFloat _) = ''float''"
| "class_of (VStr _) = ''str''"
| "class_of (VList _) = ''list''"
| "class_of (VConv c _) = object_class c"
| "class_of (VObj c _) = object_class c"

definition isinstance :: "class_table \<Rightarrow> pyval \<Rightarrow> string \<Rightarrow> bool" where
  "isinstance ct v c \<longleftrightarrow> is_subclass ct (class_of v) c"

text \<open>
  An integer counts as a float and a boolean does not count as a number, as the dynamic check of
  \<open>InstanceTypeChecker\<close> has it.
\<close>

definition instance_check :: "class_table \<Rightarrow> string \<Rightarrow> pyval \<Rightarrow> bool" where
  "instance_check ct valid_type obj =
     (let is_bool_for_num = valid_type \<in> {''int'', ''float''} \<and> isinstance ct obj ''bool'';
          is_int_for_float = valid_type = ''float'' \<and> isinstance ct obj ''int''
      in \<not> is_bool_for_num \<and> (is_int_for_float \<or> isinstance ct obj valid_type))"

text \<open>
  \<open>conforms any ct t v\<close>: the value belongs to the type. \<open>Any\<close> is read in two ways: in a type that is
  expected it accepts every value (\<open>any = True\<close>); in a type that was inferred it only stands for the
  items of an empty list, so it has no values (\<open>any = False\<close>).
\<close>

function conforms :: "bool \<Rightarrow> class_table \<Rightarrow> ty \<Rightarrow> pyval \<Rightarrow> bool" where
  "conforms any ct AnyT v = any"
| "conforms any ct NoneObj v = (v = VNone)"
| "conforms any ct (ClassT c) v = instance_check ct c v"
| "conforms any ct (VarT _) v = False"
| "conforms any ct (UnionT ts) v = list_ex (\<lambda>t. conforms any ct t v) ts"
| "conforms any ct (GenT c ts) v =
     (case ts of
        [t] \<Rightarrow>
          if c = ''List'' then (case v of VList xs \<Rightarrow> list_all (conforms any ct t) xs | _ \<Rightarrow> False)
          else if c = ''Entity'' then (case v of VConv d w \<Rightarrow> d = ''Entity'' \<and> conforms any ct t w | _ \<Rightarrow> False)
          else if c = ''ConstExpr'' then conforms any ct t v
          else isinstance ct v c
      | _ \<Rightarrow> False)"
  by pat_completeness auto
termination by (relation "measure (\<lambda>(any, ct, t, v). size t)") (auto intro: arg_size)

section \<open>Compatible types share their values\<close>

text \<open>The laws of Python's class hierarchy that the type system relies on.\<close>

locale class_hierarchy =
  fixes ct :: class_table
  assumes sub_refl: "is_subclass ct c c"
    and sub_trans: "is_subclass ct c d \<Longrightarrow> is_subclass ct d e \<Longrightarrow> is_subclass ct c e"
    and sub_object: "is_subclass ct c ''object''"
    and object_sub: "is_subclass ct ''object'' d \<Longrightarrow> d = ''object''"
    and int_sub: "is_subclass ct ''int'' d \<Longrightarrow> d \<in> {''int'', ''object''}"
    and float_sub: "is_subclass ct ''float'' d \<Longrightarrow> d \<in> {''float'', ''object''}"
    and sub_int: "is_subclass ct c ''int'' \<Longrightarrow> c \<in> {''int'', ''bool''}"
    and sub_final: "is_subclass ct c d \<Longrightarrow> d \<in> {''NoneType'', ''bool'', ''float'', ''str'', ''list''} \<Longrightarrow> c = d"
    and bool_sub_int: "is_subclass ct ''bool'' ''int''"
    and union_no_class: "\<not> invariant_generic ct ''typing.Union''"
begin

lemma isinstance_final:
  "d \<in> {''NoneType'', ''bool'', ''float'', ''str'', ''list''} \<Longrightarrow> isinstance ct v d \<longleftrightarrow> class_of v = d"
  using sub_final [of "class_of v" d] sub_refl unfolding isinstance_def by blast

lemma isinstance_int: "isinstance ct v ''int'' \<longleftrightarrow> class_of v \<in> {''int'', ''bool''}"
  using sub_int [of "class_of v"] sub_refl bool_sub_int unfolding isinstance_def by auto

lemma instance_check_values:
  "instance_check ct ''int'' v \<longleftrightarrow> (\<exists>i. v = VInt i)"
  "instance_check ct ''float'' v \<longleftrightarrow> (\<exists>i. v = VInt i) \<or> (\<exists>w. v = VFloat w)"
  "instance_check ct ''bool'' v \<longleftrightarrow> (\<exists>b. v = VBool b)"
  "instance_check ct ''str'' v \<longleftrightarrow> (\<exists>s. v = VStr s)"
  "instance_check ct ''NoneType'' v \<longleftrightarrow> v = VNone"
  unfolding instance_check_def isinstance_int Let_def by (cases v; simp add: isinstance_final)+

lemma instance_check_other:
  "c \<notin> {''int'', ''float''} \<Longrightarrow> instance_check ct c v \<longleftrightarrow> isinstance ct v c"
  by (auto simp: instance_check_def Let_def)

lemma instance_check_sub:
  assumes "is_subclass ct x y \<and> \<not> (y = ''int'' \<and> x = ''bool'') \<or> y = ''float'' \<and> x = ''int''"
    and "instance_check ct x v"
  shows "instance_check ct y v"
proof -
  have obj: "instance_check ct ''object'' v" using sub_object by (simp add: instance_check_other isinstance_def)
  consider "y = ''float'' \<and> x = ''int''" | "x = ''int''" "is_subclass ct x y" | "x = ''float''" "is_subclass ct x y"
    | "x \<notin> {''int'', ''float''}" "is_subclass ct x y" "\<not> (y = ''int'' \<and> x = ''bool'')"
    using assms(1) by blast
  then show ?thesis
  proof cases
    case 1
    then show ?thesis using assms(2) by (simp add: instance_check_values)
  next
    case 2
    then show ?thesis using int_sub obj assms(2) by blast
  next
    case 3
    then show ?thesis using float_sub obj assms(2) by blast
  next
    case 4
    have "y \<noteq> ''int''" using 4 sub_int [of x] by blast
    moreover have "y \<noteq> ''float''" using 4 sub_final [of x "''float''"] by blast
    ultimately have "y \<notin> {''int'', ''float''}" by blast
    with 4 assms(2) sub_trans [of "class_of v" x y] show ?thesis by (simp add: instance_check_other isinstance_def)
  qed
qed

lemma candidate_sound:
  assumes "candidate_accepted ct c a = Inr True" and "conforms False ct c v"
  shows "conforms True ct a v"
  using assms instance_check_sub
  by (auto simp: candidate_accepted_def py_issubclass_def bindR_Inr_conv split: if_splits ty.splits)

lemma acceptable_sound:
  "is_acceptable_candidate ct c as = Inr True \<Longrightarrow> conforms False ct c v \<Longrightarrow> \<exists>a \<in> set as. conforms True ct a v"
  by (induction as) (auto simp: bindR_Inr_conv split: if_splits dest: candidate_sound)

lemma all_acceptable_sound:
  "all_acceptable ct cs as = Inr True \<Longrightarrow> c \<in> set cs \<Longrightarrow> is_acceptable_candidate ct c as = Inr True"
  by (induction cs) (auto simp: bindR_Inr_conv split: if_splits)

lemma conforms_none [simp]: "conforms any ct (coerce_none_type t) v \<longleftrightarrow> conforms any ct t v"
  by (simp add: coerce_none_type_def instance_check_values)

lemma candidates_conform:
  assumes "get_type_candidates ct t = Inr cs"
  shows "conforms any ct t v \<longleftrightarrow> (\<exists>c \<in> set cs. conforms any ct c v)"
proof (cases "is_simple_type ct t")
  case False
  with assms obtain ts where t: "t = UnionT ts"
    by (auto simp: get_type_candidates_def is_union_type_def split: if_splits ty.splits)
  with False assms have "list_all2 (\<lambda>x c. c = coerce_none_type x) ts cs"
    unfolding get_type_candidates_def is_union_type_def
    by (auto simp: mapR_Inr_conv elim!: list_all2_mono split: if_splits)
  then have "cs = map coerce_none_type ts" by (induction rule: list_all2_induct) simp_all
  then show ?thesis by (simp add: t list_ex_iff)
qed (use assms in \<open>auto simp: get_type_candidates_def\<close>)

lemma conforms_unwrap: "unwrap_const_expr t = Inr u \<Longrightarrow> conforms any ct u v \<longleftrightarrow> conforms any ct t v"
  by (cases t) (auto simp: unwrap_const_expr_def is_const_expr_def get_single_inner_type_Inr split: if_splits)

lemma compatible_sound:
  "compatible ct t a = Inr True \<Longrightarrow> conforms False ct t v \<Longrightarrow> conforms True ct a v"
proof (induction t arbitrary: a v rule: measure_induct_rule [where f = size])
  case (less type_t)
  show ?case
  proof (cases "type_t = AnyT \<or> a = AnyT")
    case True
    then show ?thesis using less.prems by auto
  next
    case False
    then obtain t b where tb: "unwrap_const_expr type_t = Inr t" "unwrap_const_expr a = Inr b"
      using less.prems(1) by (subst (asm) compatible.simps) (auto simp: bindR_Inr_conv)
    have t: "conforms False ct t v" using less.prems(2) conforms_unwrap [OF tb(1)] by simp
    have "conforms True ct b v"
    proof (cases "is_single_arg_invariant_generic ct t \<or> is_single_arg_invariant_generic ct b")
      case True
      with less.prems(1) False tb obtain t1 b1 where inner: "get_args t = [t1]" "get_args b = [b1]"
        "compatible ct t1 b1 = Inr True" "get_normalized_origin t = get_normalized_origin b"
        by (subst (asm) compatible.simps) (auto simp: bindR_Inr_conv get_single_inner_type_Inr split: if_splits)
      then obtain c where c: "t = GenT c [t1]" "b = GenT c [b1]"
        using True union_no_class by (cases t; cases b) (auto simp: is_single_arg_invariant_generic_def)
      have "size t1 < size type_t" using args_size [of t1 t] unwrap_const_expr_size [OF tb(1)] inner(1) by simp
      with less.IH inner(3) have "conforms False ct t1 w \<Longrightarrow> conforms True ct b1 w" for w by blast
      with t c show ?thesis by (auto simp: list_all_iff split: pyval.splits if_splits)
    next
      case other: False
      with less.prems(1) False tb obtain cs as where cs: "get_type_candidates ct t = Inr cs"
        "get_type_candidates ct b = Inr as" "all_acceptable ct cs as = Inr True"
        by (subst (asm) compatible.simps) (auto simp: bindR_Inr_conv)
      with t candidates_conform [OF cs(1)] obtain c where "c \<in> set cs" "conforms False ct c v" by blast
      then show ?thesis using acceptable_sound [OF all_acceptable_sound [OF cs(3)]] candidates_conform [OF cs(2)] by blast
    qed
    then show ?thesis using conforms_unwrap [OF tb(2)] by simp
  qed
qed

end

section \<open>The classes of the engine\<close>

text \<open>
  The classes of \<open>language_types\<close> with their proper base classes, except \<open>object\<close> and those of the
  standard library.
\<close>

definition ancestors :: "string \<Rightarrow> string list" where
  "ancestors c =
     (case map_of
        [(''bool'', [''int'']),
         (''RuleT'', [''PostExecutionConvertible'']),
         (''TimeDeltaT'', [''PostExecutionConvertible'']),
         (''ExperimentT'', [''PostExecutionConvertible'']),
         (''Entity'', [''OspreyInvariantGeneric'', ''PostExecutionConvertible'']),
         (''EffectToCustomExtractedFeatureBase'', [''EffectBase'']),
         (''VerdictEffect'', [''EffectToCustomExtractedFeatureBase'', ''EffectBase'']),
         (''LabelEffect'', [''EffectToCustomExtractedFeatureBase'', ''EffectBase''])] c
      of None \<Rightarrow> [] | Some cs \<Rightarrow> cs)"

definition osprey_classes :: class_table where
  "osprey_classes =
     \<lparr>is_subclass = (\<lambda>c d. c = d \<or> d = ''object'' \<or> d \<in> set (ancestors c)),
      class_parameters = (\<lambda>c. if c \<in> {''Entity'', ''OspreyInvariantGeneric'', ''PostExecutionConvertible'', ''ConstExpr''}
        then [''T''] else if c = ''EffectToCustomExtractedFeatureBase'' then [''SerializableT''] else []),
      invariant_generic = (\<lambda>c. c \<in> {''Entity'', ''OspreyInvariantGeneric''}),
      converts_to = map_of [(''RuleT'', BoolT), (''TimeDeltaT'', FloatT), (''ExperimentT'', ListT StrT)]\<rparr>"

lemma ancestors_member:
  "d \<in> set (ancestors c) \<longleftrightarrow>
     c = ''bool'' \<and> d = ''int'' \<or>
     c \<in> {''RuleT'', ''TimeDeltaT'', ''ExperimentT''} \<and> d = ''PostExecutionConvertible'' \<or>
     c = ''Entity'' \<and> d \<in> {''OspreyInvariantGeneric'', ''PostExecutionConvertible''} \<or>
     c = ''EffectToCustomExtractedFeatureBase'' \<and> d = ''EffectBase'' \<or>
     c \<in> {''VerdictEffect'', ''LabelEffect''} \<and> d \<in> {''EffectToCustomExtractedFeatureBase'', ''EffectBase''}"
  by (simp add: ancestors_def)

interpretation osprey: class_hierarchy osprey_classes
proof
  show "is_subclass osprey_classes c e" if "is_subclass osprey_classes c d" "is_subclass osprey_classes d e" for c d e
    using that by (auto simp: osprey_classes_def ancestors_member)
qed (auto simp: osprey_classes_def ancestors_member)

end
