(* ===== verification/Type_Checkers.thy ===== *)
theory Type_Checkers
  imports Py_Types
begin

text \<open>
  The run-time type checkers of \<open>udf/rvalue_type_checker.py\<close>: how an annotation is turned into a
  checker or refused, what a checker accepts, the type it stands for, and how it coerces a value.
  The constructors of \<open>str\<close>, \<open>int\<close> and \<open>float\<close>, which \<open>coerce\<close> calls on a value, are a parameter.
\<close>

section \<open>Checkers\<close>

datatype wrapper_kind = ExtractLiteralW | SecretW | ExtractSecretW

datatype checker =
  InstanceTypeChecker string
| UnionTypeChecker "checker list"
| WrapperTypeChecker wrapper_kind checker
| ListTypeChecker checker
| EntityTypeChecker checker

fun checker_check :: "class_table \<Rightarrow> checker \<Rightarrow> pyval \<Rightarrow> bool" where
  "checker_check ct (InstanceTypeChecker c) obj = instance_check ct c obj"
| "checker_check ct (UnionTypeChecker inner) obj = list_ex (\<lambda>c. checker_check ct c obj) inner"
| "checker_check ct (WrapperTypeChecker _ inner) obj = checker_check ct inner obj"
| "checker_check ct (ListTypeChecker item) obj =
     (case obj of VList xs \<Rightarrow> list_all (checker_check ct item) xs | _ \<Rightarrow> False)"
| "checker_check ct (EntityTypeChecker inner) obj =
     (case obj of VConv d w \<Rightarrow> d = ''Entity'' \<and> checker_check ct inner w | _ \<Rightarrow> False)"

text \<open>\<open>Union[...]\<close>: nested unions are flattened, duplicates removed, and one member is no union.\<close>

fun union_members :: "ty \<Rightarrow> ty list" where
  "union_members (UnionT ts) = ts"
| "union_members NoneObj = [NoneT]"
| "union_members t = [t]"

definition union_of :: "ty list \<Rightarrow> ty" where
  "union_of ts = (case remdups (concat (map union_members ts)) of [t] \<Rightarrow> t | us \<Rightarrow> UnionT us)"

fun to_typing_type :: "checker \<Rightarrow> ty" where
  "to_typing_type (InstanceTypeChecker c) = ClassT c"
| "to_typing_type (UnionTypeChecker inner) = union_of (map to_typing_type inner)"
| "to_typing_type (WrapperTypeChecker _ inner) = to_typing_type inner"
| "to_typing_type (ListTypeChecker item) = ListT (to_typing_type item)"
| "to_typing_type (EntityTypeChecker inner) = EntityT (to_typing_type inner)"

section \<open>Coercion\<close>

definition cannot_coerce :: "checker \<Rightarrow> py_exc" where
  "cannot_coerce c = TypeError (''Cannot coerce to '' @ to_display_str (to_typing_type c))"

text \<open>\<open>_find_working_inner_type\<close>.\<close>

definition find_working_inner_type :: "class_table \<Rightarrow> checker list \<Rightarrow> pyval \<Rightarrow> checker option" where
  "find_working_inner_type ct cs obj = find (\<lambda>c. checker_check ct c obj) cs"

lemma checker_size: "(c :: checker) \<in> set cs \<Longrightarrow> size c < Suc (size_list size cs)"
  using size_list_estimation' [of c cs "size c" size] by simp

lemma find_working_size:
  "find_working_inner_type ct cs obj = Some c \<Longrightarrow> size c < Suc (size_list size cs)"
  by (auto simp: find_working_inner_type_def find_Some_iff intro: checker_size)

text \<open>The loop of \<open>UnionTypeChecker.coerce\<close>: only a \<open>TypeError\<close> moves on to the next member.\<close>

fun first_coerced :: "(checker \<Rightarrow> pyval result) \<Rightarrow> py_exc \<Rightarrow> checker list \<Rightarrow> pyval result" where
  "first_coerced f e [] = Inl e"
| "first_coerced f e (c # cs) =
     (case f c of Inl (TypeError _) \<Rightarrow> first_coerced f e cs | r \<Rightarrow> r)"

lemma first_coerced_cong [fundef_cong]:
  "e = e' \<Longrightarrow> cs = cs' \<Longrightarrow> (\<And>c. c \<in> set cs' \<Longrightarrow> f c = g c) \<Longrightarrow> first_coerced f e cs = first_coerced g e' cs'"
  by (induction cs arbitrary: cs') (auto split: sum.splits py_exc.splits)

definition coerce_instance :: "class_table \<Rightarrow> (string \<Rightarrow> pyval \<Rightarrow> pyval result) \<Rightarrow> string \<Rightarrow> pyval \<Rightarrow> pyval result" where
  "coerce_instance ct construct valid_type obj =
     (if instance_check ct valid_type obj then Inr obj
      else if valid_type = ''NoneType'' then Inl (TypeError ''Cannot coerce non-None to `None`'')
      else if obj = VNone \<and> valid_type \<noteq> ''bool'' then Inl (cannot_coerce (InstanceTypeChecker valid_type))
      else if valid_type \<in> {''int'', ''float''} \<and> isinstance ct obj ''bool''
        then Inl (cannot_coerce (InstanceTypeChecker valid_type))
      else if valid_type = ''bool'' then Inr (VBool (truthy obj))
      else construct valid_type obj)"

function coerce :: "class_table \<Rightarrow> (string \<Rightarrow> pyval \<Rightarrow> pyval result) \<Rightarrow> checker \<Rightarrow> pyval \<Rightarrow> pyval result" where
  "coerce ct construct (InstanceTypeChecker c) obj = coerce_instance ct construct c obj"
| "coerce ct construct (UnionTypeChecker inner) obj =
     (case find_working_inner_type ct inner obj of
        Some c \<Rightarrow> coerce ct construct c obj
      | None \<Rightarrow> first_coerced (\<lambda>c. coerce ct construct c obj) (cannot_coerce (UnionTypeChecker inner)) inner)"
| "coerce ct construct (WrapperTypeChecker k inner) obj =
     (if checker_check ct (WrapperTypeChecker k inner) obj then Inr obj
      else Inl (cannot_coerce (WrapperTypeChecker k inner)))"
| "coerce ct construct (ListTypeChecker item) obj =
     (if checker_check ct (ListTypeChecker item) obj then Inr obj
      else case obj of
        VList xs \<Rightarrow> bindR (mapR (coerce ct construct item) xs) (\<lambda>ys. Inr (VList ys))
      | _ \<Rightarrow> Inl (TypeError ''Cannot coerce non-Sequence to `List`''))"
| "coerce ct construct (EntityTypeChecker inner) obj =
     (if checker_check ct (EntityTypeChecker inner) obj then Inr obj else Inl (cannot_coerce (EntityTypeChecker inner)))"
  by pat_completeness auto
termination by (relation "measure (\<lambda>(ct, f, c, obj). size c)") (auto intro: checker_size find_working_size)

section \<open>From annotations to checkers\<close>

record annotation_error =
  ae_message :: string
  ae_span :: span
  ae_hint :: string
  ae_additional_spans :: "span list"
  ae_additional_spans_message :: string

datatype annotation_exc = AnnotationConversionError annotation_error | AnnotationCrash py_exc

definition annotation_error_of :: "string \<Rightarrow> span \<Rightarrow> string \<Rightarrow> annotation_exc" where
  "annotation_error_of msg sp h = AnnotationConversionError
     \<lparr>ae_message = msg, ae_span = sp, ae_hint = h, ae_additional_spans = [], ae_additional_spans_message = []\<rparr>"

text \<open>The registry, with the generic names in sorted order.\<close>

definition non_generic_types :: "(string \<times> checker) list" where
  "non_generic_types = map (\<lambda>c. (c, InstanceTypeChecker c)) [''str'', ''bool'', ''int'', ''float''] @
     [(''None'', InstanceTypeChecker ''NoneType'')]"

definition generic_names :: "string list" where
  "generic_names = [''Entity'', ''ExtractLiteral'', ''ExtractSecret'', ''List'', ''Optional'', ''Secret'', ''Union'']"

definition default_error_message :: string where
  "default_error_message = ''can only check dynamic return values of simple types or '' @
     join '', '' (map (\<lambda>n. ''`'' @ n @ ''`'') generic_names) @ '' generics''"

definition convert_simple_annotation :: "string option \<Rightarrow> ast_node \<Rightarrow> annotation_exc + checker" where
  "convert_simple_annotation error_message node =
     (case node of
        Annotation m ident \<Rightarrow>
          (case map_of non_generic_types ident of
             Some c \<Rightarrow> Inr c
           | None \<Rightarrow> Inl (annotation_error_of (case error_message of Some s \<Rightarrow> s | None \<Rightarrow> default_error_message)
               (node_span m)
               (if ident \<in> set generic_names
                then ''`'' @ ident @ ''` is generic, try `'' @ ident @ ''[T]` where `T` is a type like `str` or `int`''
                else ''got unknown non-generic type `'' @ ident @ ''`'')))
      | _ \<Rightarrow> Inl (AnnotationCrash (AssertionError ''expected simple annotation'')))"

text \<open>The loop of \<open>UnionTypeChecker.parse\<close>; \<open>seen\<close> is \<open>seen_types\<close>.\<close>

fun union_variants :: "(string, span) dict \<Rightarrow> ast_node list \<Rightarrow> annotation_exc + checker list" where
  "union_variants seen [] = Inr []"
| "union_variants seen (v # vs) =
     (case map_of seen (annotation_identifier v) of
        Some sp \<Rightarrow> Inl (AnnotationConversionError
          \<lparr>ae_message = ''duplicated type `'' @ annotation_identifier v @ ''` seen in `Union[...]`'', ae_span = span_of v,
           ae_hint = [], ae_additional_spans = [sp],
           ae_additional_spans_message = ''union variant already specified here:''\<rparr>)
      | None \<Rightarrow>
          bindR (convert_simple_annotation (Some ''expected simple type in `Union`'') v) (\<lambda>c.
          bindR (union_variants (AList.update (annotation_identifier v) (span_of v) seen) vs) (\<lambda>cs.
            Inr (c # cs))))"

definition parse_union :: "string option \<Rightarrow> meta \<Rightarrow> ast_node list \<Rightarrow> annotation_exc + checker" where
  "parse_union assigned m vs =
     (case vs of
        [v] \<Rightarrow> Inl (annotation_error_of ''a `Union` of one item should be represented as the item by itself'' (node_span m)
          (case assigned of
             Some target \<Rightarrow> ''assign it to a variable as `'' @ target @ '': '' @ annotation_identifier v @ '' = ...` instead''
           | None \<Rightarrow> ''use `'' @ annotation_identifier v @ ''` instead''))
      | _ \<Rightarrow> bindR (union_variants [] vs) (\<lambda>cs.
          if length cs > 1 then Inr (UnionTypeChecker cs)
          else Inl (AnnotationCrash (AssertionError ''Tried to create union'')))) "

definition one_argument_error :: "string \<Rightarrow> meta \<Rightarrow> ast_node list \<Rightarrow> annotation_exc" where
  "one_argument_error name m vs = annotation_error_of (''`'' @ name @ ''` must have exactly one argument'') (node_span m)
     (''got '' @ nat_digits (length vs) @ '' arguments'')"

definition parse_optional :: "meta \<Rightarrow> ast_node list \<Rightarrow> annotation_exc + checker" where
  "parse_optional m vs =
     (case vs of
        [v] \<Rightarrow> bindR (convert_simple_annotation (Some ''expected simple type in `Optional`'') v) (\<lambda>c.
          Inr (UnionTypeChecker [c, InstanceTypeChecker ''NoneType'']))
      | _ \<Rightarrow> Inl (one_argument_error ''Optional'' m vs))"

definition parse_list :: "ast_node list \<Rightarrow> annotation_exc + checker" where
  "parse_list vs =
     (case vs of
        [] \<Rightarrow> Inl (AnnotationCrash (ValueError ''not enough values to unpack''))
      | [v] \<Rightarrow> bindR (convert_simple_annotation (Some ''expected simple type in `List`'') v) (\<lambda>c. Inr (ListTypeChecker c))
      | _ # first # rest \<Rightarrow> Inl (AnnotationConversionError
          \<lparr>ae_message = ''unexpected additional variants to `List[...]`'', ae_span = span_of first, ae_hint = [],
           ae_additional_spans = map span_of rest,
           ae_additional_spans_message = (if rest = [] then [] else ''also:'')\<rparr>))"

definition parse_entity :: "meta \<Rightarrow> ast_node list \<Rightarrow> annotation_exc + checker" where
  "parse_entity m vs =
     (case vs of
        [v] \<Rightarrow>
          if annotation_identifier v \<notin> {''str'', ''int''} then
            Inl (annotation_error_of ''`Entity` only supports `str` and `int` IDs currently'' (span_of v)
              (''got `'' @ annotation_identifier v @ ''` ID type''))
          else bindR (convert_simple_annotation (Some ''expected simple type in `Entity`'') v) (\<lambda>c.
            Inr (EntityTypeChecker c))
      | _ \<Rightarrow> Inl (one_argument_error ''Entity'' m vs))"

definition wrapper_of :: "string \<Rightarrow> wrapper_kind option" where
  "wrapper_of name = map_of [(ExtractLiteral, ExtractLiteralW), (Secret, SecretW), (ExtractSecret, ExtractSecretW)] name"

text \<open>
  \<open>_convert_annotation_with_variants_to_typechecker\<close>; \<open>assigned\<close> is the target when the parent of the
  annotation is an assignment. A wrapper converts its argument itself when that has variants.
\<close>

fun convert_annotation_with_variants :: "string option \<Rightarrow> ast_node \<Rightarrow> annotation_exc + checker" where
  "convert_annotation_with_variants assigned (AnnotationWithVariants m ident vs) =
     (if ident = ''Union'' then parse_union assigned m vs
      else if ident = ''Optional'' then parse_optional m vs
      else if ident = ''List'' then parse_list vs
      else if ident = ''Entity'' then parse_entity m vs
      else case wrapper_of ident of
        None \<Rightarrow> Inl (annotation_error_of default_error_message (node_span m) (''got unknown generic type `'' @ ident @ ''[...]`''))
      | Some k \<Rightarrow>
          (case vs of
             [v] \<Rightarrow> bindR (case v of
                 AnnotationWithVariants _ _ _ \<Rightarrow> convert_annotation_with_variants None v
               | _ \<Rightarrow> convert_simple_annotation (Some (''expected simple type in `'' @ ident @ ''`'')) v) (\<lambda>c.
                 Inr (WrapperTypeChecker k c))
           | _ \<Rightarrow> Inl (one_argument_error ident m vs)))"
| "convert_annotation_with_variants assigned _ = Inl (AnnotationCrash (OtherException ''AttributeError''))"

definition convert_ast_annotation_to_type_checker :: "string option \<Rightarrow> ast_node \<Rightarrow> annotation_exc + checker" where
  "convert_ast_annotation_to_type_checker assigned node =
     (case node of
        Annotation _ _ \<Rightarrow> convert_simple_annotation None node
      | _ \<Rightarrow> convert_annotation_with_variants assigned node)"

section \<open>Data from the action\<close>

text \<open>
  \<open>get_from_data\<close> of \<open>stdlib/udfs/json_utils.py\<close>; \<open>matches\<close> are the values that the JSON path finds.
  The exceptions of the class \<open>InvalidJsonType\<close> are type errors.
\<close>

definition invalid_json_type :: "string \<Rightarrow> checker \<Rightarrow> py_exc" where
  "invalid_json_type path c = TypeError (''Invalid type in Json data at path `'' @ path @ ''`, expected '' @
     to_display_str (to_typing_type c))"

definition get_from_data :: "class_table \<Rightarrow> (string \<Rightarrow> pyval \<Rightarrow> pyval result) \<Rightarrow> string \<Rightarrow> pyval list \<Rightarrow>
    bool \<Rightarrow> bool \<Rightarrow> checker \<Rightarrow> pyval result" where
  "get_from_data ct construct path matches required coerce_type c =
     (case matches of
        [] \<Rightarrow>
          if checker_check ct c VNone then Inr VNone
          else if required then Inl (MissingJsonPath path)
          else Inl (ExpectedUdfException [])
      | v # _ \<Rightarrow>
          if \<not> checker_check ct c v then
            if v = VNone \<and> \<not> required then Inl (ExpectedUdfException [])
            else if coerce_type \<and> v \<noteq> VNone then
              (case coerce ct construct c v of
                 Inr w \<Rightarrow> Inr w
               | Inl (TypeError _) \<Rightarrow> Inl (invalid_json_type path c)
               | Inl (ValueError _) \<Rightarrow> Inl (invalid_json_type path c)
               | Inl e \<Rightarrow> Inl e)
            else Inl (invalid_json_type path c)
          else Inr v)"

text \<open>
  \<open>JsonData.execute\<close>: secret checkers read the secret data. \<open>find_path\<close> is the parsed JSON path.
\<close>

definition is_secret_checker :: "checker \<Rightarrow> bool" where
  "is_secret_checker c = (case c of WrapperTypeChecker k _ \<Rightarrow> k \<in> {SecretW, ExtractSecretW} | _ \<Rightarrow> False)"

definition json_data_execute :: "class_table \<Rightarrow> (string \<Rightarrow> pyval \<Rightarrow> pyval result) \<Rightarrow> string \<Rightarrow> ('d \<Rightarrow> pyval list) \<Rightarrow>
    'd \<Rightarrow> 'd \<Rightarrow> checker option \<Rightarrow> bool \<Rightarrow> bool \<Rightarrow> pyval result" where
  "json_data_execute ct construct path find_path data secret_data rvalue_type_checker required coerce_type =
     (case rvalue_type_checker of
        None \<Rightarrow> Inl (AssertionError ''Should have been set before getting here, or failed validation'')
      | Some c \<Rightarrow> get_from_data ct construct path (find_path (if is_secret_checker c then secret_data else data))
                    required coerce_type c)"

text \<open>The constructor of \<open>EntityT\<close> refuses an identifier that is neither a string nor an integer.\<close>

definition new_entity :: "pyval \<Rightarrow> pyval result" where
  "new_entity ident =
     (if class_of ident \<in> {''str'', ''int''} then Inr (VConv ''Entity'' ident)
      else Inl (TypeError (''Can only have `str` or `int` entities, got `'' @ class_of ident @ ''`'')))"

text \<open>\<open>EntityJson.execute\<close>.\<close>

definition entity_json_execute :: "class_table \<Rightarrow> (string \<Rightarrow> pyval \<Rightarrow> pyval result) \<Rightarrow> string \<Rightarrow> ('d \<Rightarrow> pyval list) \<Rightarrow>
    'd \<Rightarrow> checker option \<Rightarrow> bool \<Rightarrow> bool \<Rightarrow> pyval result" where
  "entity_json_execute ct construct path find_path data rvalue_type_checker required coerce_type =
     (case rvalue_type_checker of
        Some (EntityTypeChecker inner) \<Rightarrow>
          bindR (get_from_data ct construct path (find_path data) required coerce_type inner) new_entity
      | _ \<Rightarrow> Inl (AssertionError []))"

section \<open>Checking agrees with typing\<close>

context class_hierarchy
begin

lemma union_members_conform: "list_ex (\<lambda>u. conforms any ct u v) (union_members t) \<longleftrightarrow> conforms any ct t v"
  by (cases t) (simp_all add: instance_check_values)

lemma union_of_conforms: "conforms any ct (union_of ts) v \<longleftrightarrow> list_ex (\<lambda>t. conforms any ct t v) ts"
proof -
  define us where "us = remdups (concat (map union_members ts))"
  have "list_ex (\<lambda>t. conforms any ct t v) ts \<longleftrightarrow> (\<exists>t \<in> set ts. list_ex (\<lambda>u. conforms any ct u v) (union_members t))"
    using union_members_conform by (simp add: list_ex_iff)
  also have "\<dots> \<longleftrightarrow> (\<exists>u \<in> set us. conforms any ct u v)" by (auto simp: us_def list_ex_iff)
  also have "\<dots> \<longleftrightarrow> conforms any ct (union_of ts) v"
    unfolding union_of_def us_def [symmetric]
    by (cases us rule: remdups_adj.cases) (simp_all add: list_ex_iff)
  finally show ?thesis by simp
qed

lemma check_exact: "checker_check ct c v \<longleftrightarrow> conforms any ct (to_typing_type c) v"
proof (induction c arbitrary: v)
  case (UnionTypeChecker cs)
  then show ?case by (simp add: union_of_conforms list_ex_iff)
qed (auto simp: list_all_iff split: pyval.splits)

text \<open>
  What \<open>coerce\<close> returns passes the check, if the constructors return instances of their class.
\<close>

lemma first_coerced_Inr: "first_coerced f e cs = Inr w \<Longrightarrow> \<exists>c \<in> set cs. f c = Inr w"
  by (induction cs) (auto split: sum.splits py_exc.splits)

lemma coerce_checks:
  assumes "\<And>c v w. construct c v = Inr w \<Longrightarrow> instance_check ct c w"
  shows "coerce ct construct c v = Inr w \<Longrightarrow> checker_check ct c w"
proof (induction c arbitrary: v w)
  case (InstanceTypeChecker c)
  then show ?case using assms
    by (auto simp: coerce_instance_def instance_check_values split: if_splits)
next
  case (UnionTypeChecker cs)
  then have "\<exists>c \<in> set cs. coerce ct construct c v = Inr w"
    by (auto simp: find_working_inner_type_def find_Some_iff split: option.splits dest: first_coerced_Inr)
  with UnionTypeChecker.IH show ?case by (auto simp: list_ex_iff)
next
  case (ListTypeChecker c)
  show ?case
  proof (cases "checker_check ct (ListTypeChecker c) v")
    case False
    with ListTypeChecker.prems obtain xs ys where xs: "v = VList xs" "w = VList ys" "mapR (coerce ct construct c) xs = Inr ys"
      by (auto simp: bindR_Inr_conv split: pyval.splits)
    from xs(3) have "list_all2 (\<lambda>x y. coerce ct construct c x = Inr y) xs ys" by (simp add: mapR_Inr_conv)
    then have "list_all (checker_check ct c) ys"
      using ListTypeChecker.IH by (induction rule: list_all2_induct) auto
    then show ?thesis by (simp add: xs(2))
  qed (use ListTypeChecker.prems in simp)
qed (simp_all split: if_splits)

lemma get_from_data_checks:
  assumes "\<And>c v w. construct c v = Inr w \<Longrightarrow> instance_check ct c w"
    and "get_from_data ct construct path matches required coerce_type c = Inr v"
  shows "checker_check ct c v"
  using assms(2) coerce_checks [OF assms(1)]
  by (auto simp: get_from_data_def split: list.splits if_splits sum.splits py_exc.splits)

end


text \<open>
  (C34) Whatever \<open>JsonData\<close> returns, coerced or not, from the data or from the secret data, belongs to
  the type that the annotation of its feature stands for.
\<close>

theorem json_data_typed:
  assumes "\<And>c v w. construct c v = Inr w \<Longrightarrow> instance_check osprey_classes c w"
    and "json_data_execute osprey_classes construct path find_path data secret (Some c) required coerce_type = Inr v"
  shows "conforms False osprey_classes (to_typing_type c) v"
  using osprey.get_from_data_checks [of construct path _ required coerce_type c v] assms
  by (simp add: json_data_execute_def osprey.check_exact [symmetric])

text \<open>An annotation nested in a list or a union stops the validation with an assertion.\<close>

lemma nested_annotation_crash:
  "convert_ast_annotation_to_type_checker (Some x)
     (AnnotationWithVariants m ''List'' [AnnotationWithVariants m' ident vs]) =
   Inl (AnnotationCrash (AssertionError ''expected simple annotation''))"
  by (simp add: convert_ast_annotation_to_type_checker_def parse_list_def convert_simple_annotation_def)

text \<open>The wrappers inherit the default \<open>coerce\<close>, which converts nothing.\<close>

lemma wrapper_never_coerces:
  "coerce ct construct (WrapperTypeChecker k c) v = Inr w \<Longrightarrow> w = v"
  by (simp split: if_splits)

section \<open>Concrete inputs\<close>

definition demo_construct :: "string \<Rightarrow> pyval \<Rightarrow> pyval result" where
  "demo_construct c v = (case v of
     VInt i \<Rightarrow> if c = ''str'' then Inr (VStr (nat_digits (nat i))) else Inl (ValueError [])
   | _ \<Rightarrow> Inl (ValueError []))"

lemma demo_construct_instance: "demo_construct c v = Inr w \<Longrightarrow> instance_check osprey_classes c w"
  by (auto simp: demo_construct_def osprey.instance_check_values split: pyval.splits if_splits)

theorem json_data_typed_witness:
  "json_data_execute osprey_classes demo_construct ''$.id'' id [VInt 7] [] (Some (ListTypeChecker (InstanceTypeChecker ''str'')))
     True True = Inl (invalid_json_type ''$.id'' (ListTypeChecker (InstanceTypeChecker ''str''))) \<and>
   json_data_execute osprey_classes demo_construct ''$.id'' id [VList [VInt 7]] []
     (Some (ListTypeChecker (InstanceTypeChecker ''str''))) True True = Inr (VList [VStr ''7'']) \<and>
   conforms False osprey_classes (ListT StrT) (VList [VStr ''7''])"
proof -
  have run: "json_data_execute osprey_classes demo_construct ''$.id'' id [VList [VInt 7]] []
     (Some (ListTypeChecker (InstanceTypeChecker ''str''))) True True = Inr (VList [VStr ''7''])" by code_simp
  have "json_data_execute osprey_classes demo_construct ''$.id'' id [VInt 7] []
      (Some (ListTypeChecker (InstanceTypeChecker ''str''))) True True =
    Inl (invalid_json_type ''$.id'' (ListTypeChecker (InstanceTypeChecker ''str'')))" by code_simp
  with run json_data_typed [OF demo_construct_instance run] show ?thesis by simp
qed

end
