(* ===== verification/Static_Types.thy ===== *)
theory Static_Types
  imports Validators Type_Checkers
begin

text \<open>
  The static type checker of rules (\<open>ast_validator/validators/validate_static_types.py\<close>) with what
  it takes from \<open>udf/base.py\<close> and \<open>udf/arguments.py\<close>. The state of the validator is passed
  explicitly: the types of names, the nodes whose values are unwrapped, the sources that were
  checked, the messages, and the annotations that checking a name stores in its node. An
  exception that is not turned into a message ends the validation with an error value. The
  argument types and the return type of a function, which the code reads from its class, are a
  parameter.
\<close>

section \<open>State\<close>

record type_and_span =
  ts_type :: ty
  ts_span :: span
  ts_should_extract :: bool
  ts_can_extract :: bool
  ts_source_annotation :: "ast_node option"

definition copy_with_type :: "ty \<Rightarrow> type_and_span \<Rightarrow> type_and_span" where
  "copy_with_type t ts = (if t = NoneObj then ts else ts\<lparr>ts_type := t\<rparr>)"

record tstate =
  name_types :: "(string, type_and_span) dict"
  unwrapped :: "nat list"
  checked_sources :: "string list"
  type_errors :: "verror list"
  type_warnings :: "verror list"
  node_annotations :: annotations

text \<open>The signature of the function of a call: the item types of its arguments class and its result.\<close>

record udf_signature =
  sig_name :: string
  sig_import :: "string list option"
  sig_items :: "(string, ty) dict"
  sig_rvalue :: ty
  sig_is_generic :: bool
  sig_arguments_generic :: bool
  sig_checker :: "checker option"

record tenv =
  te_classes :: class_table
  te_udfs :: "nat \<Rightarrow> udf_signature option"
  te_repr :: "ty \<Rightarrow> string"

definition type_error :: "verror \<Rightarrow> tstate \<Rightarrow> tstate" where
  "type_error m st = st\<lparr>type_errors := type_errors st @ [m]\<rparr>"

definition type_warning :: "verror \<Rightarrow> tstate \<Rightarrow> tstate" where
  "type_warning m st = st\<lparr>type_warnings := type_warnings st @ [m]\<rparr>"

definition unwrap_node :: "ast_node \<Rightarrow> tstate \<Rightarrow> tstate" where
  "unwrap_node n st = st\<lparr>unwrapped := List.insert (nid n) (unwrapped st)\<rparr>"

definition message_with :: "string \<Rightarrow> span \<Rightarrow> string \<Rightarrow> string \<Rightarrow> span_ref list \<Rightarrow> verror" where
  "message_with msg sp h am asp = \<lparr>message = msg, hint = h, msg_span = sp,
     additional_spans_message = am, additional_spans = asp, validator_class = None\<rparr>"

definition raised :: "type_exc + 'a \<Rightarrow> 'a result" where
  "raised r = (case r of
     Inl (UnsupportedTypeError _ _) \<Rightarrow> Inl (OtherException ''UnsupportedTypeError'')
   | Inl (Uncaught e) \<Rightarrow> Inl e
   | Inr x \<Rightarrow> Inr x)"

section \<open>Compatibility of a node\<close>

text \<open>\<open>_maybe_get_additional_span_for_identifier_definition\<close>.\<close>

definition identifier_definition :: "ast_node \<Rightarrow> string \<Rightarrow> tstate \<Rightarrow> span_ref list result" where
  "identifier_definition n type_str st =
     (case n of
        Name m i _ \<Rightarrow>
          (case map_of (name_types st) (identifier_key m i) of
             None \<Rightarrow> Inl KeyError
           | Some ts \<Rightarrow> Inr [SpanWithHint (ts_span ts)
               (''variable `'' @ i @ ''` with incompatible type '' @ type_str @ '' originally defined here'')])
      | _ \<Rightarrow> Inr [])"

definition check_compatible_type :: "tenv \<Rightarrow> ty \<Rightarrow> ty \<Rightarrow> string \<Rightarrow> ast_node \<Rightarrow> string \<Rightarrow> span_ref list \<Rightarrow>
    tstate \<Rightarrow> tstate result" where
  "check_compatible_type env type_t accepted_by_t msg node h spans st =
     bindR (is_compatible_type (te_classes env) type_t accepted_by_t True) (\<lambda>r.
       Inr (case r of
              Incompatible \<Rightarrow> type_error (message_with msg (span_of node) h [] spans) st
            | Compatible None \<Rightarrow> st
            | Compatible (Some _) \<Rightarrow> unwrap_node node st
            | Unsupported m uh \<Rightarrow> type_error (message_with m (span_of node) uh [] []) st))"

text \<open>\<open>.unwrap()\<close> of the result of \<open>is_compatible_type\<close>.\<close>

definition unwrap_compatibility :: "compatibility \<Rightarrow> ty option option result" where
  "unwrap_compatibility c = (case c of
     Compatible u \<Rightarrow> Inr (Some u) | Incompatible \<Rightarrow> Inr None
   | Unsupported _ _ \<Rightarrow> Inl (OtherException ''UnwrapError''))"

definition compat_info :: "tenv \<Rightarrow> ty \<Rightarrow> ty \<Rightarrow> bool \<Rightarrow> ty option option result" where
  "compat_info env t a allow_unwrap =
     bindR (is_compatible_type (te_classes env) t a allow_unwrap) unwrap_compatibility"

section \<open>Names, lists and functions\<close>

definition validate_name :: "meta \<Rightarrow> string \<Rightarrow> tstate \<Rightarrow> ty \<times> tstate" where
  "validate_name m i st =
     (case map_of (name_types st) (identifier_key m i) of
        Some ts \<Rightarrow> (ts_type ts, st\<lparr>node_annotations := (node_annotations st)
            (node_id m := (case ts_source_annotation ts of None \<Rightarrow> NoAnnotation | Some a \<Rightarrow> HasAnnotation a))\<rparr>)
      | None \<Rightarrow> (AnyT, st))"

text \<open>The set of the types of the items.\<close>

definition insert_type :: "ty \<Rightarrow> ty list \<Rightarrow> ty list" where
  "insert_type t ts = (if list_ex (same_type t) ts then ts else ts @ [t])"

definition validate_list :: "ast_node option \<Rightarrow> meta \<Rightarrow> ty list \<Rightarrow> tstate \<Rightarrow> ty \<times> tstate" where
  "validate_list par m child_types st =
     (case child_types of
        [] \<Rightarrow>
          (ListT AnyT,
           case par of
             Some (Assign am (Name _ target _) _ None) \<Rightarrow>
               type_error (message_with (''empty list literal has a dynamic item type, and thus must be assigned to a variable'' @
                   '' with a type annotation'') (node_span am)
                 (''give this variable a type annotation, eg:'' @ [char_of (10 :: nat)] @ ''`'' @ target @ '': List[str] = []`'')
                 [] []) st
           | _ \<Rightarrow> st)
      | [t] \<Rightarrow> (ListT (coerce_none_type t), st)
      | ts \<Rightarrow>
          (ListT AnyT,
           type_error (message_with ''found multiple different types in list literal, unable to infer type'' (node_span m)
             (''has types '' @ join '', '' (sorted_strs (map to_display_str ts))) [] []) st))"

definition is_optional_type :: "ty \<Rightarrow> bool" where
  "is_optional_type t = (case t of
     GenT c _ \<Rightarrow> c = ''Entity'' | UnionT ts \<Rightarrow> NoneT \<in> set ts | _ \<Rightarrow> False)"

text \<open>\<open>ArgumentsBase.get_generic_item_names\<close>.\<close>

fun generic_item_names :: "class_table \<Rightarrow> (string, ty) dict \<Rightarrow> type_exc + string list" where
  "generic_item_names ct [] = Inr []"
| "generic_item_names ct ((name, t) # items) =
     (if length (get_parameters ct t) > 1 then
        Inl (UnsupportedTypeError ''generic arguments item can only have one type param'' [])
      else bindR (generic_item_names ct items) (\<lambda>names.
        Inr ((if is_typevar t then [name] else []) @ (if length (get_parameters ct t) = 1 then [name] else []) @ names)))"

definition EXTRA_ARGS_ATTR :: string where "EXTRA_ARGS_ATTR = ''extra_arguments''"

definition is_extra_arguments_allowed :: "udf_signature \<Rightarrow> bool" where
  "is_extra_arguments_allowed sg \<longleftrightarrow> EXTRA_ARGS_ATTR \<in> set (keys (sig_items sg))"

definition extra_arguments_values_type :: "udf_signature \<Rightarrow> ty result" where
  "extra_arguments_values_type sg =
     (case map_of (sig_items sg) EXTRA_ARGS_ATTR of
        None \<Rightarrow> Inl (AssertionError ''check if is_extra_arguments_allowed() first'')
      | Some t \<Rightarrow>
          (case get_args t of
             [k, v] \<Rightarrow> if k = StrT then Inr v
                        else Inl (AssertionError ''extra_arguments keys must be of type string'')
           | _ \<Rightarrow> Inl (ValueError ''unpack'')))"

fun substitute_variable :: "ty \<Rightarrow> ty \<Rightarrow> ty" where
  "substitute_variable r (VarT _) = r"
| "substitute_variable r (GenT c ts) = GenT c (map (substitute_variable r) ts)"
| "substitute_variable r (UnionT ts) = union_of (map (substitute_variable r) ts)"
| "substitute_variable r t = t"

text \<open>\<open>UDFBase.has_dynamic_result\<close>, \<open>get_substituted_generic_rvalue_type\<close> and \<open>get_resolved_rvalue_type\<close>.\<close>

definition has_dynamic_result :: "udf_signature \<Rightarrow> bool" where
  "has_dynamic_result sg \<longleftrightarrow> sig_rvalue sg = AnyT \<or> sig_is_generic sg \<and> \<not> sig_arguments_generic sg"

definition get_substituted_generic_rvalue_type :: "udf_signature \<Rightarrow> ty \<Rightarrow> ty result" where
  "get_substituted_generic_rvalue_type sg r =
     (if \<not> sig_is_generic sg then Inl (AssertionError ''is_generic'')
      else if is_typevar (sig_rvalue sg) then Inr r
      else if type_variables (sig_rvalue sg) = [] then Inl (TypeError ''not a generic class'')
      else Inr (substitute_variable r (sig_rvalue sg)))"

definition get_resolved_rvalue_type :: "udf_signature \<Rightarrow> ty option \<Rightarrow> ty result" where
  "get_resolved_rvalue_type sg rtv =
     (if has_dynamic_result sg then
        if rtv \<noteq> None then Inl (AssertionError ''Should not have resolved generic type with dynamic result'')
        else (case sig_checker sg of
                None \<Rightarrow> Inl (AssertionError ''Should have set rvalue type checker if we have a dynamic result.'')
              | Some c \<Rightarrow> Inr (to_typing_type c))
      else (case rtv of
              Some r \<Rightarrow> get_substituted_generic_rvalue_type sg r
            | None \<Rightarrow> if sig_is_generic sg then Inl (AssertionError ''is_generic'') else Inr (sig_rvalue sg)))"

text \<open>
  One keyword argument of a call after its value was checked. The accumulator holds
  \<open>resolved_typevar_type\<close>, \<open>previous_generic_kwarg\<close> as its name and value, and the state.
\<close>

type_synonym call_acc = "ty option \<times> (string \<times> ast_node) option \<times> tstate"

definition next_typevar_type :: "tenv \<Rightarrow> ty \<Rightarrow> ty \<Rightarrow> ty option result" where
  "next_typevar_type env generic_arg arg_type =
     (if is_optional_type generic_arg then
        if arg_type = NoneT then Inr None
        else if is_optional_type arg_type
          then bindR (raised (get_typevar_substitution (te_repr env) (te_classes env) generic_arg arg_type)) (Inr \<circ> Some)
        else Inr (Some arg_type)
      else bindR (raised (get_typevar_substitution (te_repr env) (te_classes env) generic_arg arg_type)) (Inr \<circ> Some))"

definition generic_argument :: "tenv \<Rightarrow> udf_signature \<Rightarrow> string \<Rightarrow> ast_node \<Rightarrow> ty \<Rightarrow> call_acc \<Rightarrow> call_acc result" where
  "generic_argument env sg name value arg_type = (\<lambda>(rtv, prev, st).
     case map_of (sig_items sg) name of
       None \<Rightarrow> Inl KeyError
     | Some generic_arg \<Rightarrow>
         bindR (next_typevar_type env generic_arg arg_type) (\<lambda>nxt.
           case nxt of
             None \<Rightarrow> Inr (rtv, prev, st)
           | Some t \<Rightarrow>
               (case rtv of
                  Some r \<Rightarrow>
                    if same_type t r then Inr (Some t, Some (name, value), st)
                    else (case prev of
                      None \<Rightarrow> Inl (OtherException ''AttributeError'')
                    | Some (pname, pvalue) \<Rightarrow> Inr (rtv, prev, type_error (message_with ''conflicting generic types''
                        (span_of value) (''has type '' @ to_display_str t @ '', expected '' @ to_display_str r)
                        (''argument `'' @ pname @ ''` has type '' @ to_display_str r) [PlainSpan (span_of pvalue)]) st))
                | None \<Rightarrow> Inr (if t = NoneObj then None else Some t, Some (name, value), st))))"

definition parameter_type :: "udf_signature \<Rightarrow> string \<Rightarrow> ty result" where
  "parameter_type sg name =
     (if is_extra_arguments_allowed sg \<and> name \<notin> set (keys (sig_items sg)) then extra_arguments_values_type sg
      else case map_of (sig_items sg) name of None \<Rightarrow> Inl KeyError | Some t \<Rightarrow> Inr t)"

definition plain_argument :: "tenv \<Rightarrow> udf_signature \<Rightarrow> string \<Rightarrow> ast_node \<Rightarrow> ty \<Rightarrow> call_acc \<Rightarrow> call_acc result" where
  "plain_argument env sg name value arg_type = (\<lambda>(rtv, prev, st).
     bindR (parameter_type sg name) (\<lambda>param_type.
     bindR (identifier_definition value (to_display_str arg_type) st) (\<lambda>spans.
     bindR (check_compatible_type env arg_type param_type
         (''argument `'' @ name @ ''` to `'' @ sig_name sg @ ''` has incompatible type'') value
         (''has type '' @ to_display_str arg_type @ '', expected '' @ to_display_str param_type) spans st) (\<lambda>st1.
       Inr (rtv, prev, st1)))))"

definition call_argument :: "tenv \<Rightarrow> udf_signature \<Rightarrow> string list \<Rightarrow> string \<Rightarrow> ast_node \<Rightarrow> ty \<Rightarrow> call_acc \<Rightarrow> call_acc result" where
  "call_argument env sg generics name value arg_type =
     (if name \<in> set generics then generic_argument env sg name value arg_type
      else plain_argument env sg name value arg_type)"

section \<open>Operators\<close>

record transition =
  valid_left_type :: ty
  valid_right_type :: ty
  resulting_type :: ty

abbreviation tr :: "ty \<Rightarrow> ty \<Rightarrow> ty \<Rightarrow> transition" where
  "tr l r t \<equiv> \<lparr>valid_left_type = l, valid_right_type = r, resulting_type = t\<rparr>"

definition INT_OR_FLOAT_T :: ty where
  "INT_OR_FLOAT_T = UnionT [IntT, FloatT]"

definition number_type_transitions :: "transition list" where
  "number_type_transitions = [tr IntT IntT IntT, tr INT_OR_FLOAT_T INT_OR_FLOAT_T FloatT]"

definition binary_operation_transitions :: "operator \<Rightarrow> transition list" where
  "binary_operation_transitions op = (case op of
     Add \<Rightarrow> tr StrT StrT StrT # number_type_transitions
   | Subtract \<Rightarrow> number_type_transitions
   | Multiply \<Rightarrow> number_type_transitions @ [tr StrT IntT StrT, tr IntT StrT StrT]
   | Divide \<Rightarrow> [tr INT_OR_FLOAT_T INT_OR_FLOAT_T FloatT]
   | FloorDivide \<Rightarrow> number_type_transitions
   | Modulo \<Rightarrow> number_type_transitions
   | PowOp \<Rightarrow> number_type_transitions
   | _ \<Rightarrow> [tr IntT IntT IntT])"

definition binary_comparison_transitions :: "comparator \<Rightarrow> transition list" where
  "binary_comparison_transitions c = (case c of
     Equals \<Rightarrow> [tr AnyT AnyT BoolT]
   | NotEquals \<Rightarrow> [tr AnyT AnyT BoolT]
   | In \<Rightarrow> [tr StrT StrT BoolT, tr AnyT (ListT AnyT) BoolT]
   | NotIn \<Rightarrow> [tr StrT StrT BoolT, tr AnyT (ListT AnyT) BoolT]
   | _ \<Rightarrow> [tr INT_OR_FLOAT_T INT_OR_FLOAT_T BoolT])"

definition original_operator :: "operator \<Rightarrow> string" where
  "original_operator op = (case op of
     Add \<Rightarrow> ''+'' | Subtract \<Rightarrow> ''-'' | Multiply \<Rightarrow> ''*'' | Divide \<Rightarrow> ''/'' | FloorDivide \<Rightarrow> ''//''
   | Modulo \<Rightarrow> ''%'' | PowOp \<Rightarrow> ''**'' | LeftShift \<Rightarrow> ''<<'' | RightShift \<Rightarrow> ''>>'' | BitwiseOr \<Rightarrow> ''|''
   | BitwiseXor \<Rightarrow> ''^'' | BitwiseAnd \<Rightarrow> ''&'')"

definition original_comparator :: "comparator \<Rightarrow> string" where
  "original_comparator c = (case c of
     Equals \<Rightarrow> ''=='' | NotEquals \<Rightarrow> ''!='' | LessThan \<Rightarrow> ''<'' | LessThanEquals \<Rightarrow> ''<=''
   | GreaterThan \<Rightarrow> ''>'' | GreaterThanEquals \<Rightarrow> ''>='' | In \<Rightarrow> ''in'' | NotIn \<Rightarrow> ''not in'')"

definition original_operand :: "boolean_operand \<Rightarrow> string" where
  "original_operand op = (case op of And \<Rightarrow> ''and'' | Or \<Rightarrow> ''or'')"

definition unsupported_error :: "compatibility \<Rightarrow> ast_node \<Rightarrow> tstate \<Rightarrow> tstate" where
  "unsupported_error c n st = (case c of
     Unsupported m h \<Rightarrow> type_error (message_with m (span_of n) h [] []) st | _ \<Rightarrow> st)"

definition unwrap_operand :: "ty option \<Rightarrow> ast_node \<Rightarrow> ty \<times> tstate \<Rightarrow> ty \<times> tstate" where
  "unwrap_operand u n = (\<lambda>(t, st). case u of None \<Rightarrow> (t, st) | Some t' \<Rightarrow> (t', unwrap_node n st))"

type_synonym transition_hook = "ty \<Rightarrow> ty \<Rightarrow> tstate \<Rightarrow> tstate result"

text \<open>The loop over the transitions: \<open>None\<close> when none applies.\<close>

fun try_transitions :: "tenv \<Rightarrow> transition_hook \<Rightarrow> ast_node \<Rightarrow> ast_node \<Rightarrow> ty \<Rightarrow> ty \<Rightarrow> transition list \<Rightarrow>
    tstate \<Rightarrow> (ty \<times> tstate) option result" where
  "try_transitions env hook left right left_type right_type [] st = Inr None"
| "try_transitions env hook left right left_type right_type (x # xs) st =
     bindR (is_compatible_type (te_classes env) left_type (valid_left_type x) True) (\<lambda>left_result.
     bindR (is_compatible_type (te_classes env) right_type (valid_right_type x) True) (\<lambda>right_result.
       case (left_result, right_result) of
         (Compatible ul, Compatible ur) \<Rightarrow>
           (let (lt, st1) = unwrap_operand ul left (left_type, st);
                (rt, st2) = unwrap_operand ur right (right_type, st1)
            in bindR (hook lt rt st2) (\<lambda>st3. Inr (Some (resulting_type x, st3))))
       | (Unsupported _ _, _) \<Rightarrow>
           Inr (Some (AnyT, unsupported_error right_result right (unsupported_error left_result left st)))
       | (_, Unsupported _ _) \<Rightarrow> Inr (Some (AnyT, unsupported_error right_result right st))
       | _ \<Rightarrow> try_transitions env hook left right left_type right_type xs st))"

definition unsupported_operands :: "span \<Rightarrow> string \<Rightarrow> ast_node \<Rightarrow> ast_node \<Rightarrow> ty \<Rightarrow> ty \<Rightarrow> tstate \<Rightarrow> (ty \<times> tstate) result" where
  "unsupported_operands sp transitioner left right left_type right_type st =
     bindR (identifier_definition left (to_display_str left_type) st) (\<lambda>ls.
     bindR (identifier_definition right (to_display_str right_type) st) (\<lambda>rs.
       Inr (AnyT, type_error (message_with (''unsupported operand types for `'' @ transitioner @ ''`'') sp
         (''no implementation for `'' @ to_display_str_plain left_type @ '' '' @ transitioner @ '' '' @
            to_display_str_plain right_type @ ''`'') []
         (SpanWithHint (span_of left) (''has type '' @ to_display_str left_type) # ls @
          SpanWithHint (span_of right) (''has type '' @ to_display_str right_type) # rs)) st)))"

text \<open>\<open>_validate_two_arg_type_transitions\<close>, after both sides were checked.\<close>

definition two_arg_transitions :: "tenv \<Rightarrow> transition_hook \<Rightarrow> bool \<Rightarrow> span \<Rightarrow> string \<Rightarrow> transition list \<Rightarrow>
    ast_node \<Rightarrow> ast_node \<Rightarrow> ty \<Rightarrow> ty \<Rightarrow> tstate \<Rightarrow> (ty \<times> tstate) result" where
  "two_arg_transitions env hook allow_any sp transitioner xs left right left_type right_type st =
     (if allow_any \<or> left_type \<noteq> AnyT \<and> right_type \<noteq> AnyT then
        bindR (try_transitions env hook left right left_type right_type xs st) (\<lambda>r.
          case r of Some p \<Rightarrow> Inr p
          | None \<Rightarrow> unsupported_operands sp transitioner left right left_type right_type st)
      else unsupported_operands sp transitioner left right left_type right_type st)"

definition validate_binary_operation :: "tenv \<Rightarrow> meta \<Rightarrow> operator \<Rightarrow> ast_node \<Rightarrow> ast_node \<Rightarrow> ty \<Rightarrow> ty \<Rightarrow>
    tstate \<Rightarrow> (ty \<times> tstate) result" where
  "validate_binary_operation env m op left right left_type right_type st =
     two_arg_transitions env (\<lambda>_ _ st. Inr st) False (node_span m) (original_operator op)
       (binary_operation_transitions op) left right left_type right_type st"

text \<open>
  \<open>_validate_unary_operation\<close>. The two tests of the unwrapped type are kept as they are written:
  \<open>isinstance(x, type(bool))\<close> holds of every type, \<open>isinstance(x, (int, float))\<close> of none.
\<close>

definition check_operand :: "tenv \<Rightarrow> ty \<Rightarrow> ty \<Rightarrow> string \<Rightarrow> string \<Rightarrow> ast_node \<Rightarrow> ast_node \<Rightarrow> tstate \<Rightarrow> tstate result" where
  "check_operand env operand_type accepted msg h operation operand st =
     bindR (identifier_definition operand (to_display_str operand_type) st) (\<lambda>spans.
       check_compatible_type env operand_type accepted msg operation h
         (SpanWithHint (span_of operand) (''has type '' @ to_display_str operand_type) # spans) st)"

definition validate_unary_operation :: "tenv \<Rightarrow> unary_operator \<Rightarrow> ast_node \<Rightarrow> ast_node \<Rightarrow> ty \<Rightarrow> tstate \<Rightarrow> (ty \<times> tstate) result" where
  "validate_unary_operation env op operation operand operand_type st =
     (case op of
        NotOp \<Rightarrow>
          bindR (compat_info env operand_type BoolT True) (\<lambda>compat_item.
            let has_valid_transition = (case compat_item of Some (Some _) \<Rightarrow> True | _ \<Rightarrow> False);
                without_unwrap = (compat_item = Some None)
            in if \<not> has_valid_transition then
                 bindR (check_operand env operand_type BoolT ''`not` only works on `bool` types''
                   ''`not` should be used on `bool` types like `not (X == Y)`'' operation operand st) (\<lambda>st1. Inr (BoolT, st1))
               else if \<not> without_unwrap then Inr (BoolT, unwrap_node operand st)
               else Inr (BoolT, st))
      | USub \<Rightarrow>
          bindR (compat_info env operand_type INT_OR_FLOAT_T True) (\<lambda>compat_item.
            bindR (check_operand env operand_type INT_OR_FLOAT_T
                (''bad operand type for unary -: `'' @ te_repr env operand_type @ ''`'')
                ''unary `-` should be used on `int` types or `float` types like `-3`'' operation operand st) (\<lambda>st1.
              Inr (operand_type, st1))))"

text \<open>The hook of \<open>_validate_binary_comparison\<close> for \<open>==\<close> and \<open>!=\<close>.\<close>

definition none_warning :: "ast_node \<Rightarrow> ast_node \<Rightarrow> span \<Rightarrow> ty \<Rightarrow> ty \<Rightarrow> tstate \<Rightarrow> tstate result" where
  "none_warning left right sp left_type right_type st =
     (let (t, n) = (if left_type \<noteq> NoneT then (left_type, left) else (right_type, right)) in
      bindR (identifier_definition n (to_display_str t) st) (\<lambda>spans.
        Inr (type_warning (message_with (''type '' @ to_display_str t @ '' incompatible with None'') sp
          (''has type '' @ to_display_str t) [] spans) st)))"

definition incompatible_sides :: "string \<Rightarrow> string \<Rightarrow> string \<Rightarrow> span \<Rightarrow> ast_node \<Rightarrow> ast_node \<Rightarrow> ty \<Rightarrow> ty \<Rightarrow> ty \<Rightarrow> string \<Rightarrow>
    tstate \<Rightarrow> tstate result" where
  "incompatible_sides msg always_value right_text sp left right left_type shown_right right_type left_text st =
     bindR (identifier_definition left (to_display_str left_type) st) (\<lambda>ls.
     bindR (identifier_definition right (to_display_str right_type) st) (\<lambda>rs.
       Inr (type_error (message_with msg sp (''comparison will always result in `'' @ always_value @ ''`'') []
         (SpanWithHint (span_of left) (left_text @ to_display_str left_type) # ls @
          SpanWithHint (span_of right) (right_text @ to_display_str shown_right) # rs)) st)))"

definition equality_hook :: "tenv \<Rightarrow> comparator \<Rightarrow> span \<Rightarrow> ast_node \<Rightarrow> ast_node \<Rightarrow> transition_hook" where
  "equality_hook env c sp left right left_type right_type st =
     bindR (compat_info env left_type right_type True) (\<lambda>compat_left_item.
     bindR (compat_info env right_type left_type True) (\<lambda>compat_item_left.
       let is_comparing_none = (left_type = NoneT \<or> right_type = NoneT);
           is_invalid_none_comparison =
             (is_comparing_none \<and> \<not> (is_optional_type left_type \<or> is_optional_type right_type));
           has_valid_transition = (compat_left_item \<noteq> None \<or> compat_item_left \<noteq> None \<or> is_comparing_none);
           without_unwrap = (is_comparing_none \<or> compat_left_item = Some None \<or> compat_item_left = Some None)
       in bindR (if is_invalid_none_comparison then none_warning left right sp left_type right_type st else Inr st) (\<lambda>st1.
            if \<not> has_valid_transition then
              incompatible_sides ''left and right sides have incompatible types''
                (if c = Equals then ''False'' else ''True'') ''has type '' sp left right left_type right_type right_type
                ''has type '' st1
            else if \<not> without_unwrap then
              Inr (case compat_left_item of Some (Some _) \<Rightarrow> unwrap_node left st1 | _ \<Rightarrow> unwrap_node right st1)
            else Inr st1)))"

definition membership_hook :: "tenv \<Rightarrow> comparator \<Rightarrow> span \<Rightarrow> ast_node \<Rightarrow> ast_node \<Rightarrow> transition_hook" where
  "membership_hook env c sp left right left_type right_type st =
     (if is_list right_type then
        bindR (raised (get_single_inner_type right_type)) (\<lambda>item_type.
        bindR (compat_info env left_type item_type True) (\<lambda>compat_left_item.
        bindR (compat_info env item_type left_type False) (\<lambda>compat_item_left.
          if compat_left_item = None \<and> compat_item_left = None then
            incompatible_sides ''item has incompatible type with list elements''
              (if c = In then ''False'' else ''True'') ''list items have type '' sp left right left_type item_type right_type
              ''has type '' st
          else if compat_item_left = None \<and> compat_left_item \<noteq> Some None then Inr (unwrap_node left st)
          else Inr st)))
      else Inr st)"

definition comparison_hook :: "tenv \<Rightarrow> comparator \<Rightarrow> span \<Rightarrow> ast_node \<Rightarrow> ast_node \<Rightarrow> transition_hook" where
  "comparison_hook env c sp left right =
     (if c \<in> {Equals, NotEquals} then equality_hook env c sp left right
      else if c \<in> {In, NotIn} then membership_hook env c sp left right
      else (\<lambda>_ _ st. Inr st))"

definition validate_binary_comparison :: "tenv \<Rightarrow> meta \<Rightarrow> comparator \<Rightarrow> ast_node \<Rightarrow> ast_node \<Rightarrow> ty \<Rightarrow> ty \<Rightarrow>
    tstate \<Rightarrow> (ty \<times> tstate) result" where
  "validate_binary_comparison env m c left right left_type right_type st =
     two_arg_transitions env (comparison_hook env c (node_span m) left right) True (node_span m) (original_comparator c)
       (binary_comparison_transitions c) left right left_type right_type st"

section \<open>Narrowing\<close>

definition get_non_none_type :: "ty \<Rightarrow> ty option" where
  "get_non_none_type t =
     (case t of
        UnionT ts \<Rightarrow>
          if NoneT \<in> set ts then
            (case filter (\<lambda>u. \<not> is_none_type u) ts of [] \<Rightarrow> None | [u] \<Rightarrow> Some u | us \<Rightarrow> Some (union_of us))
          else None
      | _ \<Rightarrow> None)"

text \<open>The name that a comparison with \<open>None\<close> is about.\<close>

definition null_checked_name :: "ast_node \<Rightarrow> ast_node \<Rightarrow> (meta \<times> string) option" where
  "null_checked_name left right =
     (case (left, right) of
        (NoneLit _, Name m i _) \<Rightarrow> Some (m, i)
      | (Name m i _, NoneLit _) \<Rightarrow> Some (m, i)
      | _ \<Rightarrow> None)"

definition type_narrowing :: "ast_node \<Rightarrow> boolean_operand \<Rightarrow> tstate \<Rightarrow> (string, ty) dict" where
  "type_narrowing e op st =
     (case e of
        BinaryComparison _ left right (Comparator _ c) \<Rightarrow>
          if op = And \<and> c = NotEquals \<or> op \<noteq> And \<and> c = Equals then
            (case null_checked_name left right of
               None \<Rightarrow> []
             | Some (m, i) \<Rightarrow>
                 (case map_of (name_types st) (identifier_key m i) of
                    None \<Rightarrow> []
                  | Some ts \<Rightarrow> (case get_non_none_type (ts_type ts) of
                      None \<Rightarrow> [] | Some t \<Rightarrow> [(identifier_key m i, t)])))
          else []
      | _ \<Rightarrow> [])"

definition apply_narrowings :: "(string, ty) dict \<Rightarrow> tstate \<Rightarrow> (string, type_and_span) dict \<times> tstate" where
  "apply_narrowings narrowed st =
     foldl (\<lambda>(original, st) (k, t).
        case map_of (name_types st) k of
          None \<Rightarrow> (original, st)
        | Some ts \<Rightarrow> (AList.update k ts original,
                      st\<lparr>name_types := AList.update k (copy_with_type t ts) (name_types st)\<rparr>))
       ([], st) narrowed"

definition restore_types :: "(string, type_and_span) dict \<Rightarrow> tstate \<Rightarrow> tstate" where
  "restore_types original st =
     st\<lparr>name_types := foldl (\<lambda>d (k, ts). AList.update k ts d) (name_types st) original\<rparr>"

definition update_all :: "('k, 'v) dict \<Rightarrow> ('k, 'v) dict \<Rightarrow> ('k, 'v) dict" where
  "update_all d new = foldl (\<lambda>d (k, v). AList.update k v d) d new"

text \<open>One operand of a boolean operation, checked by \<open>check\<close> under the narrowings so far.\<close>

definition validate_operand :: "tenv \<Rightarrow> boolean_operand \<Rightarrow> (tstate \<Rightarrow> (ty \<times> tstate) result) \<Rightarrow> ast_node \<Rightarrow>
    (string, ty) dict \<times> tstate \<Rightarrow> ((string, ty) dict \<times> tstate) result" where
  "validate_operand env op check value = (\<lambda>(narrowed, st).
     let (original, st1) = apply_narrowings narrowed st in
     bindR (check st1) (\<lambda>(value_type, st2).
     bindR (identifier_definition value (to_display_str value_type) st2) (\<lambda>spans.
     bindR (check_compatible_type env value_type BoolT
         (''unsupported operand type for `'' @ original_operand op @ ''`'') value
         (''has type '' @ to_display_str value_type @ '', expected `bool`'') spans st2) (\<lambda>st3.
       Inr (update_all narrowed (type_narrowing value op st3), restore_types original st3)))))"

lemma validate_operand_cong [fundef_cong]:
  assumes "env = env'" "op = op'" "v = v'" "p = p'"
    and "\<And>st. check st = check' st"
  shows "validate_operand env op check v p = validate_operand env' op' check' v' p'"
  using assms by (cases p') (simp add: validate_operand_def)

section \<open>Expressions\<close>

text \<open>The names of a format string, after \<open>check\<close> has looked at the name.\<close>

definition format_types :: ty where
  "format_types = UnionT [IntT, FloatT, BoolT, StrT]"

definition validate_format_name :: "tenv \<Rightarrow> ast_node \<Rightarrow> ty \<times> tstate \<Rightarrow> tstate result" where
  "validate_format_name env name = (\<lambda>(name_type, st).
     bindR (identifier_definition name (to_display_str name_type) st) (\<lambda>spans.
     bindR (check_compatible_type env name_type format_types ''unsupported type for f-string substitution'' name
         (''has type '' @ to_display_str name_type @ '', expected one of '' @
            join '', '' (map to_display_str [IntT, FloatT, BoolT, StrT])) spans st) (\<lambda>st1.
       case name of
         Name m i _ \<Rightarrow>
           (case map_of (name_types st1) (identifier_key m i) of
              None \<Rightarrow> Inl KeyError
            | Some ts \<Rightarrow> Inr (if ts_can_extract ts then st1
                else type_error (message_with ''format strings can not include non-extractable features'' (node_span m)
                  (''name '' @ [char_of (39 :: nat)] @ i @ [char_of (39 :: nat)] @ '' is marked as non-extractable'') [] []) st1))
       | _ \<Rightarrow> Inl (OtherException ''AttributeError''))))"

lemma node_in_size: "(x :: ast_node) \<in> set xs \<Longrightarrow> size x < Suc (size_list size xs)"
  using size_list_estimation' [of x xs "size x" size] by simp

function validate_expression :: "tenv \<Rightarrow> (string \<Rightarrow> tstate \<Rightarrow> tstate result) \<Rightarrow> ast_node option \<Rightarrow> ast_node \<Rightarrow>
    tstate \<Rightarrow> (ty \<times> tstate) result" where
  "validate_expression env imp par n st =
     (case n of
        Name m i _ \<Rightarrow> Inr (validate_name m i st)
      | StringLit _ _ \<Rightarrow> Inr (StrT, st)
      | Number _ k \<Rightarrow> Inr (case k of IntN _ \<Rightarrow> IntT | FloatN _ \<Rightarrow> FloatT, st)
      | Boolean _ _ \<Rightarrow> Inr (BoolT, st)
      | NoneLit _ \<Rightarrow> Inr (NoneT, st)
      | ListLit m items \<Rightarrow>
          bindR (loopR (\<lambda>item (ts, st). bindR (validate_expression env imp (Some n) item st) (\<lambda>(t, st1).
                   Inr (insert_type t ts, st1))) items ([], st)) (\<lambda>(ts, st1). Inr (validate_list par m ts st1))
      | Call m f args \<Rightarrow>
          (case te_udfs env (node_id m) of
             None \<Rightarrow> Inl KeyError
           | Some sg \<Rightarrow>
               bindR (case sig_import sg of None \<Rightarrow> Inr st | Some paths \<Rightarrow> loopR imp paths st) (\<lambda>st0.
               bindR (raised (generic_item_names (te_classes env) (sig_items sg))) (\<lambda>generics.
               bindR (loopR (\<lambda>k (rtv, prev, st).
                   case k of
                     Keyword _ name value \<Rightarrow>
                       bindR (validate_expression env imp (Some k) value st) (\<lambda>(t, st1).
                         call_argument env sg generics name value t (rtv, prev, st1))
                   | _ \<Rightarrow> Inl (OtherException ''AttributeError'')) args (None, None, st0)) (\<lambda>(rtv, prev, st1).
               bindR (get_resolved_rvalue_type sg rtv) (\<lambda>t. Inr (t, st1))))))
      | BinaryOperation m left right (Operator _ op) \<Rightarrow>
          bindR (validate_expression env imp (Some n) left st) (\<lambda>(lt, st1).
          bindR (validate_expression env imp (Some n) right st1) (\<lambda>(rt, st2).
            validate_binary_operation env m op left right lt rt st2))
      | UnaryOperation m operand (UnaryOperator _ op) \<Rightarrow>
          bindR (validate_expression env imp (Some n) operand st) (\<lambda>(t, st1).
            validate_unary_operation env op n operand t st1)
      | BinaryComparison m left right (Comparator _ c) \<Rightarrow>
          bindR (validate_expression env imp (Some n) left st) (\<lambda>(lt, st1).
          bindR (validate_expression env imp (Some n) right st1) (\<lambda>(rt, st2).
            validate_binary_comparison env m c left right lt rt st2))
      | BooleanOperation m vs (BooleanOperand _ op) \<Rightarrow>
          bindR (loopR (\<lambda>value. validate_operand env op (\<lambda>st. validate_expression env imp (Some n) value st) value) vs
            ([], st)) (\<lambda>(narrowed, st1). Inr (BoolT, st1))
      | Attribute m _ _ _ \<Rightarrow>
          Inr (AnyT, type_error (message_with (''attributes aren'' @ [char_of (39 :: nat)] @ ''t supported yet'') (node_span m) [] [] []) st)
      | FormatString m fmt names \<Rightarrow>
          bindR (loopR (\<lambda>name st. bindR (validate_expression env imp (Some n) name st) (validate_format_name env name)) names st)
            (\<lambda>st1. Inr (StrT, st1))
      | Annotation _ _ \<Rightarrow> Inl (AssertionError ''Should not encounter Annotation'')
      | AnnotationWithVariants _ _ _ \<Rightarrow> Inl (AssertionError ''Should not encounter AnnotationWithVariants'')
      | _ \<Rightarrow> Inl (TypeError ''Unknown expression type''))"
  by pat_completeness auto
termination by (relation "measure (\<lambda>(env, imp, par, n, st). size n)") (auto dest: node_in_size)

declare validate_expression.simps [simp del]

section \<open>Statements and sources\<close>

definition conversion_error :: "annotation_error \<Rightarrow> verror" where
  "conversion_error e = message_with (ae_message e) (ae_span e) (ae_hint e) (ae_additional_spans_message e)
     (map PlainSpan (ae_additional_spans e))"

text \<open>The type an assignment stores for its target.\<close>

definition assigned_type :: "tenv \<Rightarrow> string \<Rightarrow> ast_node \<Rightarrow> ast_node option \<Rightarrow> ty \<Rightarrow> tstate \<Rightarrow> (ty \<times> tstate) result" where
  "assigned_type env target value annotation value_type st =
     (case annotation of
        None \<Rightarrow> Inr (value_type, st)
      | Some a \<Rightarrow>
          (case convert_ast_annotation_to_type_checker (Some target) a of
             Inl (AnnotationConversionError e) \<Rightarrow> Inr (value_type, type_error (conversion_error e) st)
           | Inl (AnnotationCrash e) \<Rightarrow> Inl e
           | Inr c \<Rightarrow>
               (let annotation_type = to_typing_type c in
                bindR (identifier_definition value (to_display_str value_type) st) (\<lambda>spans.
                bindR (check_compatible_type env value_type annotation_type ''incompatible types in assignment'' value
                    (''has type '' @ to_display_str value_type @ '', expected '' @ to_display_str annotation_type)
                    (SpanWithHint (span_of a) (''expected '' @ to_display_str annotation_type @ '' due to this'') # spans) st)
                  (\<lambda>st1. Inr (annotation_type, st1))))))"

definition secret_annotation :: "ast_node option \<Rightarrow> bool" where
  "secret_annotation a = (case a of None \<Rightarrow> False | Some x \<Rightarrow> annotation_identifier x \<in> {Secret, ExtractSecret})"

definition validate_assign :: "tenv \<Rightarrow> (string \<Rightarrow> tstate \<Rightarrow> tstate result) \<Rightarrow> ast_node \<Rightarrow> tstate \<Rightarrow> tstate result" where
  "validate_assign env imp n st =
     (case n of
        Assign m (Name tm target tc) value annotation \<Rightarrow>
          bindR (validate_expression env imp (Some n) value st) (\<lambda>(value_type, st1).
          bindR (assigned_type env target value annotation value_type st1) (\<lambda>(stored_type, st2).
          bindR (can_extract (node_annotations st2) n) (\<lambda>can.
            let st3 = (if \<not> can \<and> \<not> secret_annotation annotation then
                 type_error (message_with
                   ''assignments can not include non-extractable features if they are not marked Secret'' (node_span m)
                   (''name '' @ [char_of (39 :: nat)] @ target @ [char_of (39 :: nat)] @ '' is not marked as non-extractable'') [] []) st2
                 else st2)
            in bindR (should_extract (node_annotations st3) n) (\<lambda>should.
                 Inr (st3\<lparr>name_types := AList.update (identifier_key tm target)
                   \<lparr>ts_type = stored_type, ts_span = node_span m, ts_should_extract = should, ts_can_extract = can,
                    ts_source_annotation = annotation\<rparr> (name_types st3)\<rparr>)))))
      | _ \<Rightarrow> Inl (OtherException ''AttributeError''))"

definition validate_statement :: "tenv \<Rightarrow> (string \<Rightarrow> tstate \<Rightarrow> tstate result) \<Rightarrow> ast_node \<Rightarrow> tstate \<Rightarrow> tstate result" where
  "validate_statement env imp n st =
     (case n of
        Assign _ _ _ _ \<Rightarrow> validate_assign env imp n st
      | Call _ _ _ \<Rightarrow> bindR (validate_expression env imp None n st) (\<lambda>(t, st1). Inr st1)
      | _ \<Rightarrow> Inl (TypeError ''Unknown statement type''))"

text \<open>
  \<open>validate_source\<close>. A source is marked before its statements are looked at, so the depth of nested
  imports is bounded by the number of sources; the fuel is that depth.
\<close>

fun validate_source :: "nat \<Rightarrow> tenv \<Rightarrow> source list \<Rightarrow> string \<Rightarrow> tstate \<Rightarrow> tstate result" where
  "validate_source 0 env srcs path st = Inl (OtherException ''fuel'')"
| "validate_source (Suc n) env srcs path st =
     (if path \<in> set (checked_sources st) then Inr st
      else case map_of srcs path of
        None \<Rightarrow> Inl KeyError
      | Some root \<Rightarrow>
          loopR (validate_statement env (validate_source n env srcs)) (statements_of root)
            (st\<lparr>checked_sources := path # checked_sources st\<rparr>))"

definition initial_tstate :: "(string, type_and_span) dict \<Rightarrow> tstate" where
  "initial_tstate input = \<lparr>name_types = input, unwrapped = [], checked_sources = [], type_errors = [],
     type_warnings = [], node_annotations = (\<lambda>_. Unset)\<rparr>"

text \<open>\<open>SourceValidator.run\<close>; \<open>input\<close> are the types of an earlier run, for queries.\<close>

definition validate_static_types :: "tenv \<Rightarrow> source list \<Rightarrow> (string, type_and_span) dict \<Rightarrow> tstate result" where
  "validate_static_types env srcs input =
     loopR (validate_source (Suc (length srcs)) env srcs) (map fst srcs) (initial_tstate input)"

text \<open>\<open>to_post_execution_types\<close>.\<close>

definition to_post_execution_types :: "class_table \<Rightarrow> (string, type_and_span) dict \<Rightarrow> (string, type_and_span) dict result" where
  "to_post_execution_types ct types =
     mapR (\<lambda>(name, ts).
        bindR (raised (maybe_post_execution_type ct (ts_type ts))) (\<lambda>post.
          Inr (name, copy_with_type (case post of None \<Rightarrow> ts_type ts | Some t \<Rightarrow> t) ts))) types"

end
