(* ===== verification/Type_Soundness.thy ===== *)
theory Type_Soundness
  imports Static_Types
begin

text \<open>
  What the static type checker promises about execution. The value of an expression is defined by
  recursion over its tree with the node executors; names and calls, whose values come from other
  chains, are a parameter. A declarative typing judgement sits between the two: the checker only
  accepts expressions that have it, and expressions that have it evaluate to values of their type
  and never raise a type error.
\<close>

section \<open>The value of an expression\<close>

text \<open>
  What a parent reads from a child (\<open>ExecutionContext.resolved\<close>): a failed child raises or is \<open>None\<close>,
  and the value of a node in \<open>nodes_to_unwrap\<close> is converted.
\<close>

definition read_outcome :: "(nat \<Rightarrow> bool) \<Rightarrow> ast_node \<Rightarrow> pyval result \<Rightarrow> bool \<Rightarrow> pyval result" where
  "read_outcome U x r return_none =
     (case r of
        Inr v \<Rightarrow> unwrap_value (U (nid x)) v
      | Inl _ \<Rightarrow> if return_none then Inr VNone else Inl NodeFailurePropagationException)"

function eval_expr :: "py_env \<Rightarrow> (nat \<Rightarrow> bool) \<Rightarrow> (ast_node \<Rightarrow> pyval result) \<Rightarrow> ast_node \<Rightarrow> pyval result" where
  "eval_expr E U ext n =
     (if is_name n \<or> is_call n then ext n
      else execute_pure E
        (\<lambda>x b. read_outcome U x (if x \<in> set (child_nodes n) then eval_expr E U ext x else Inl KeyError) b) n)"
  by pat_completeness auto
termination by (relation "measure (\<lambda>(E, U, ext, n). size n)") (simp_all add: child_size)

declare eval_expr.simps [simp del]

definition read_child :: "py_env \<Rightarrow> (nat \<Rightarrow> bool) \<Rightarrow> (ast_node \<Rightarrow> pyval result) \<Rightarrow> resolver" where
  "read_child E U ext x b = read_outcome U x (eval_expr E U ext x) b"

lemma eval_pure:
  assumes "\<not> is_name n" and "\<not> is_call n" and "get_dependent_nodes (\<lambda>_ _. False) n \<noteq> None"
    and "set (the (get_dependent_nodes (\<lambda>_ _. False) n)) \<subseteq> set (child_nodes n)"
  shows "eval_expr E U ext n = execute_pure E (read_child E U ext) n"
proof -
  from assms(3) obtain ds where ds: "get_dependent_nodes (\<lambda>_ _. False) n = Some ds" by blast
  have "execute_pure E (\<lambda>x b. read_outcome U x (if x \<in> set (child_nodes n) then eval_expr E U ext x else Inl KeyError) b) n =
      execute_pure E (read_child E U ext) n"
    by (rule execute_pure_cong [OF ds]) (use assms(4) ds in \<open>auto simp: read_child_def\<close>)
  with assms(1,2) show ?thesis by (subst eval_expr.simps) simp
qed

lemma eval_simps:
  "eval_expr E U ext (StringLit m s) = Inr (VStr s)"
  "eval_expr E U ext (Number m k) = Inr (case k of IntN i \<Rightarrow> VInt i | FloatN w \<Rightarrow> VFloat w)"
  "eval_expr E U ext (Boolean m b) = Inr (VBool b)"
  "eval_expr E U ext (NoneLit m) = Inr VNone"
  "eval_expr E U ext (Name m i c) = ext (Name m i c)"
  "eval_expr E U ext (Call m f args) = ext (Call m f args)"
  by (simp_all add: eval_expr.simps is_name_def is_call_def execute_pure_def)

lemma eval_operator_simps:
  "eval_expr E U ext (ListLit m items) = execute_pure E (read_child E U ext) (ListLit m items)"
  "eval_expr E U ext (BinaryOperation m l r op) = execute_pure E (read_child E U ext) (BinaryOperation m l r op)"
  "eval_expr E U ext (UnaryOperation m x uop) = execute_pure E (read_child E U ext) (UnaryOperation m x uop)"
  "eval_expr E U ext (BinaryComparison m l r cop) = execute_pure E (read_child E U ext) (BinaryComparison m l r cop)"
  "eval_expr E U ext (BooleanOperation m vs bop) = execute_pure E (read_child E U ext) (BooleanOperation m vs bop)"
  "eval_expr E U ext (FormatString m fmt names) = execute_pure E (read_child E U ext) (FormatString m fmt names)"
  by (rule eval_pure; auto simp: is_name_def is_call_def get_dependent_nodes_def)+

section \<open>Values of a type and typed expressions\<close>

text \<open>An object of a class that converts after execution carries a value of the type it converts to.\<close>

definition proper :: "class_table \<Rightarrow> pyval \<Rightarrow> bool" where
  "proper ct v \<longleftrightarrow> (\<forall>c u. is_subclass ct (class_of v) c \<longrightarrow> converts_to ct c = Some u \<longrightarrow>
     (\<exists>d w. v = VConv d w \<and> conforms False ct u w))"

definition inhabits :: "class_table \<Rightarrow> ty \<Rightarrow> pyval \<Rightarrow> bool" where
  "inhabits ct t v \<longleftrightarrow> proper ct v \<and> conforms False ct t v"

text \<open>Every value of type \<open>t\<close> of the node can be read as a value that \<open>a\<close> accepts.\<close>

definition reads_as :: "class_table \<Rightarrow> (nat \<Rightarrow> bool) \<Rightarrow> ast_node \<Rightarrow> ty \<Rightarrow> ty \<Rightarrow> bool" where
  "reads_as ct U x t a \<longleftrightarrow>
     (\<forall>v. inhabits ct t v \<longrightarrow> (\<exists>w. unwrap_value (U (nid x)) v = Inr w \<and> conforms True ct a w))"

inductive typed :: "class_table \<Rightarrow> (string \<Rightarrow> ty option) \<Rightarrow> (ast_node \<Rightarrow> ty \<Rightarrow> bool) \<Rightarrow> (nat \<Rightarrow> bool) \<Rightarrow> ast_node \<Rightarrow> ty \<Rightarrow> bool"
  for ct :: class_table and \<Gamma> :: "string \<Rightarrow> ty option" and \<Delta> :: "ast_node \<Rightarrow> ty \<Rightarrow> bool" and U :: "nat \<Rightarrow> bool" where
  t_Name: "\<Gamma> (identifier_key m i) = Some t \<Longrightarrow> typed ct \<Gamma> \<Delta> U (Name m i c) t"
| t_String: "typed ct \<Gamma> \<Delta> U (StringLit m s) StrT"
| t_Int: "typed ct \<Gamma> \<Delta> U (Number m (IntN i)) IntT"
| t_Float: "typed ct \<Gamma> \<Delta> U (Number m (FloatN w)) FloatT"
| t_Bool: "typed ct \<Gamma> \<Delta> U (Boolean m b) BoolT"
| t_None: "typed ct \<Gamma> \<Delta> U (NoneLit m) NoneT"
| t_List: "(\<forall>x \<in> set items. \<exists>u. typed ct \<Gamma> \<Delta> U x u \<and> \<not> U (nid x) \<and> (\<forall>v. conforms False ct u v \<longrightarrow> conforms False ct t v)) \<Longrightarrow>
    typed ct \<Gamma> \<Delta> U (ListLit m items) (ListT t)"
| t_Call: "\<Delta> (Call m f args) t \<Longrightarrow> (\<forall>k \<in> set args. \<exists>km name value u. k = Keyword km name value \<and> typed ct \<Gamma> \<Delta> U value u) \<Longrightarrow>
    typed ct \<Gamma> \<Delta> U (Call m f args) t"
| t_Binary: "typed ct \<Gamma> \<Delta> U l lt \<Longrightarrow> typed ct \<Gamma> \<Delta> U r rt \<Longrightarrow> x \<in> set (binary_operation_transitions op) \<Longrightarrow> op \<noteq> PowOp \<Longrightarrow>
    reads_as ct U l lt (valid_left_type x) \<Longrightarrow> reads_as ct U r rt (valid_right_type x) \<Longrightarrow>
    typed ct \<Gamma> \<Delta> U (BinaryOperation m l r (Operator om op)) (resulting_type x)"
| t_Not: "typed ct \<Gamma> \<Delta> U x t \<Longrightarrow> reads_as ct U x t AnyT \<Longrightarrow> typed ct \<Gamma> \<Delta> U (UnaryOperation m x (UnaryOperator om NotOp)) BoolT"
| t_USub: "typed ct \<Gamma> \<Delta> U x t \<Longrightarrow> reads_as ct U x t INT_OR_FLOAT_T \<Longrightarrow> \<not> U (nid x) \<Longrightarrow>
    typed ct \<Gamma> \<Delta> U (UnaryOperation m x (UnaryOperator om USub)) t"
| t_Comparison: "typed ct \<Gamma> \<Delta> U l lt \<Longrightarrow> typed ct \<Gamma> \<Delta> U r rt \<Longrightarrow> x \<in> set (binary_comparison_transitions c) \<Longrightarrow>
    reads_as ct U l lt (valid_left_type x) \<Longrightarrow> reads_as ct U r rt (valid_right_type x) \<Longrightarrow>
    typed ct \<Gamma> \<Delta> U (BinaryComparison m l r (Comparator om c)) BoolT"
| t_Boolean: "(\<forall>x \<in> set vs. \<exists>t. typed ct \<Gamma> \<Delta> U x t \<and> reads_as ct U x t AnyT) \<Longrightarrow>
    typed ct \<Gamma> \<Delta> U (BooleanOperation m vs (BooleanOperand om op)) BoolT"
| t_Format: "(\<forall>x \<in> set names. \<exists>t. typed ct \<Gamma> \<Delta> U x t \<and> reads_as ct U x t AnyT) \<Longrightarrow>
    typed ct \<Gamma> \<Delta> U (FormatString m fmt names) StrT"

declare conforms.simps(3) [simp del]

section \<open>Typed expressions do not go wrong\<close>

text \<open>An exception that is neither a type error nor a failed assertion of the executor.\<close>

definition calm :: "py_exc \<Rightarrow> bool" where
  "calm e = (case e of TypeError _ \<Rightarrow> False | AssertionError _ \<Rightarrow> False | _ \<Rightarrow> True)"

definition safe :: "'a result \<Rightarrow> bool" where
  "safe r = (case r of Inl e \<Rightarrow> calm e | Inr _ \<Rightarrow> True)"

lemma safe_simps [simp]: "safe (Inr v)" "safe (Inl e) = calm e"
  by (simp_all add: safe_def)

lemma calm_simps [simp]:
  "calm NodeFailurePropagationException" "calm ZeroDivisionError" "calm (ValueError s)" "calm KeyError" "calm IndexError"
  "\<not> calm (TypeError s)" "\<not> calm (AssertionError s)"
  by (simp_all add: calm_def)

lemma safe_bindR: "safe r \<Longrightarrow> (\<And>v. r = Inr v \<Longrightarrow> safe (f v)) \<Longrightarrow> safe (bindR r f)"
  by (cases r) simp_all

definition numeric :: "pyval \<Rightarrow> bool" where
  "numeric v = (case v of VInt _ \<Rightarrow> True | VFloat _ \<Rightarrow> True | _ \<Rightarrow> False)"

text \<open>
  What Python documents of floats: arithmetic on numbers, apart from powers, yields a float or an
  arithmetic error, and numbers can be ordered.
\<close>

definition arithmetic_env :: "py_env \<Rightarrow> bool" where
  "arithmetic_env E \<longleftrightarrow>
     (\<forall>op a b. op \<in> {Add, Subtract, Multiply, Divide, FloorDivide, Modulo} \<longrightarrow> numeric a \<longrightarrow> numeric b \<longrightarrow>
        safe (float_op E op a b) \<and> (\<forall>v. float_op E op a b = Inr v \<longrightarrow> (\<exists>w. v = VFloat w))) \<and>
     (\<forall>w. safe (float_neg E (VFloat w)) \<and> (\<forall>v. float_neg E (VFloat w) = Inr v \<longrightarrow> (\<exists>w. v = VFloat w))) \<and>
     (\<forall>c a b. numeric a \<longrightarrow> numeric b \<longrightarrow> safe (float_cmp E c a b)) \<and>
     (\<forall>fld args. safe (format_field E fld args))"

lemma arithmetic_envD:
  assumes "arithmetic_env E"
  shows "op \<in> {Add, Subtract, Multiply, Divide, FloorDivide, Modulo} \<Longrightarrow> numeric a \<Longrightarrow> numeric b \<Longrightarrow>
      safe (float_op E op a b) \<and> (\<forall>v. float_op E op a b = Inr v \<longrightarrow> (\<exists>w. v = VFloat w))"
    and "safe (float_neg E (VFloat w)) \<and> (\<forall>v. float_neg E (VFloat w) = Inr v \<longrightarrow> (\<exists>w. v = VFloat w))"
    and "numeric a \<Longrightarrow> numeric b \<Longrightarrow> safe (float_cmp E c a b)"
    and "safe (format_field E fld args)"
  using assms unfolding arithmetic_env_def by blast+

locale convertible_hierarchy = class_hierarchy +
  assumes builtin_plain: "converts_to ct c = Some u \<Longrightarrow>
    b \<in> {''NoneType'', ''bool'', ''int'', ''float'', ''str'', ''list''} \<Longrightarrow> \<not> is_subclass ct b c"
    and generic_plain: "converts_to ct ''List'' = None" "converts_to ct ''ConstExpr'' = None"
begin

lemma proper_builtin [simp]:
  "proper ct VNone" "proper ct (VBool b)" "proper ct (VInt i)" "proper ct (VFloat w)" "proper ct (VStr s)" "proper ct (VList xs)"
  using builtin_plain unfolding proper_def class_of.simps by blast+

lemma conforms_values:
  "conforms any ct IntT v \<longleftrightarrow> (\<exists>i. v = VInt i)"
  "conforms any ct FloatT v \<longleftrightarrow> numeric v"
  "conforms any ct BoolT v \<longleftrightarrow> (\<exists>b. v = VBool b)"
  "conforms any ct StrT v \<longleftrightarrow> (\<exists>s. v = VStr s)"
  "conforms any ct NoneT v \<longleftrightarrow> v = VNone"
  "conforms any ct INT_OR_FLOAT_T v \<longleftrightarrow> numeric v"
  by (auto simp: conforms.simps(3) instance_check_values numeric_def INT_OR_FLOAT_T_def split: pyval.splits)

text \<open>Numbers of the same kind belong to the same types.\<close>

lemma conforms_number:
  "conforms any ct t (VInt i) \<longleftrightarrow> conforms any ct t (VInt j)"
  "conforms any ct t (VFloat x) \<longleftrightarrow> conforms any ct t (VFloat y)"
proof (induction t rule: measure_induct_rule [where f = size])
  case (less t)
  {
    case 1
    show ?case
      using less(1) arg_size by (cases t) (auto simp: conforms.simps(3) list_ex_iff instance_check_def isinstance_def split: list.splits)
  next
    case 2
    show ?case
      using less(2) arg_size by (cases t) (auto simp: conforms.simps(3) list_ex_iff instance_check_def isinstance_def split: list.splits)
  }
qed

end

context convertible_hierarchy
begin

lemma int_operator_sound:
  assumes "op \<noteq> PowOp" and "op \<noteq> Divide"
  shows "safe (binary_operator E op (VInt i) (VInt j)) \<and>
    (\<forall>v. binary_operator E op (VInt i) (VInt j) = Inr v \<longrightarrow> inhabits ct IntT v)"
  using assms by (cases op) (auto simp: binary_operator_def as_int_def int_op_def inhabits_def conforms_values)

lemma number_operator_sound:
  assumes "arithmetic_env E" and "numeric a" and "numeric b"
    and "op \<in> {Add, Subtract, Multiply, Divide, FloorDivide, Modulo}"
  shows "safe (binary_operator E op a b) \<and> (\<forall>v. binary_operator E op a b = Inr v \<longrightarrow> inhabits ct FloatT v)"
proof (cases "op \<noteq> Divide \<and> (\<exists>i j. a = VInt i \<and> b = VInt j)")
  case True
  have int: "inhabits ct IntT v \<Longrightarrow> inhabits ct FloatT v" for v
    by (auto simp: inhabits_def conforms_values numeric_def)
  from True obtain i j where "a = VInt i" "b = VInt j" by blast
  with True assms(4) int_operator_sound [of op E i j] int show ?thesis by auto
next
  case False
  have "safe (float_op E op a b) \<and> (\<forall>v. float_op E op a b = Inr v \<longrightarrow> (\<exists>w. v = VFloat w))"
    using assms by (intro arithmetic_envD)
  moreover have "binary_operator E op a b = float_op E op a b \<or> binary_operator E op a b = Inl ZeroDivisionError"
    using False assms(2,3)
    by (cases a; cases b) (simp_all add: numeric_def binary_operator_def as_int_def is_float_def int_op_def)
  moreover have "inhabits ct FloatT (VFloat w)" for w by (simp add: inhabits_def conforms_values numeric_def)
  ultimately show ?thesis by (metis calm_simps(2) old.sum.distinct(1) safe_simps(2))
qed

lemma string_operator_sound:
  "safe (binary_operator E Add (VStr s) (VStr t)) \<and>
     (\<forall>v. binary_operator E Add (VStr s) (VStr t) = Inr v \<longrightarrow> inhabits ct StrT v)"
  "safe (binary_operator E Multiply (VStr s) (VInt i)) \<and>
     (\<forall>v. binary_operator E Multiply (VStr s) (VInt i) = Inr v \<longrightarrow> inhabits ct StrT v)"
  "safe (binary_operator E Multiply (VInt i) (VStr s)) \<and>
     (\<forall>v. binary_operator E Multiply (VInt i) (VStr s) = Inr v \<longrightarrow> inhabits ct StrT v)"
  by (simp_all add: binary_operator_def as_int_def is_float_def inhabits_def conforms_values)

text \<open>Every transition of an operator other than the power is sound.\<close>

lemma transition_kinds:
  assumes "x \<in> set (binary_operation_transitions op)" and "op \<noteq> PowOp"
  obtains "x = tr IntT IntT IntT" "op \<noteq> Divide"
  | "x = tr INT_OR_FLOAT_T INT_OR_FLOAT_T FloatT" "op \<in> {Add, Subtract, Multiply, Divide, FloorDivide, Modulo}"
  | "x = tr StrT StrT StrT" "op = Add"
  | "x = tr StrT IntT StrT" "op = Multiply"
  | "x = tr IntT StrT StrT" "op = Multiply"
  using assms by (cases op) (auto simp: binary_operation_transitions_def number_type_transitions_def)

lemma binary_operator_sound:
  assumes "arithmetic_env E" and "x \<in> set (binary_operation_transitions op)" and "op \<noteq> PowOp"
    and "conforms True ct (valid_left_type x) a" and "conforms True ct (valid_right_type x) b"
  shows "safe (binary_operator E op a b) \<and>
    (\<forall>v. binary_operator E op a b = Inr v \<longrightarrow> inhabits ct (resulting_type x) v)"
  using assms(2,3)
proof (cases rule: transition_kinds)
  case 1
  with assms(3-5) int_operator_sound [of op E] show ?thesis by (auto simp: conforms_values)
next
  case 2
  with assms(1,4,5) number_operator_sound show ?thesis by (simp add: conforms_values)
qed (use assms(4,5) string_operator_sound in \<open>auto simp: conforms_values\<close>)

lemma minus_sound:
  assumes "arithmetic_env E" and "numeric a" and "inhabits ct t a"
  shows "safe (unary_operator_value E USub a) \<and>
    (\<forall>v. unary_operator_value E USub a = Inr v \<longrightarrow> inhabits ct t v)"
proof (cases a)
  case (VInt i)
  with assms(3) conforms_number(1) [of False t "- i" i] show ?thesis
    by (simp add: unary_operator_value_def as_int_def inhabits_def)
next
  case (VFloat w)
  have "safe (float_neg E a)" "\<And>v. float_neg E a = Inr v \<Longrightarrow> \<exists>y. v = VFloat y"
    using arithmetic_envD(2) [OF assms(1), of w] VFloat by blast+
  with assms(3) VFloat conforms_number(2) [of False t _ w] show ?thesis
    by (auto simp: unary_operator_value_def as_int_def is_float_def inhabits_def)
qed (use assms(2) in \<open>simp_all add: numeric_def\<close>)

lemma order_sound:
  assumes "arithmetic_env E" and "numeric a" and "numeric b"
  shows "safe (py_order E c a b)"
  using arithmetic_envD(3) [OF assms] assms(2,3) by (subst py_order.simps)
    (auto simp: list_items_def scalar_order_def is_float_def as_int_def numeric_def split: pyval.splits)

lemma membership_sound:
  "conforms True ct StrT a \<or> a = VNone \<Longrightarrow> conforms True ct StrT b \<Longrightarrow> safe (in_operator E a b)"
  "conforms True ct (ListT AnyT) b \<Longrightarrow> safe (in_operator E a b)"
  by (auto simp: in_operator_def conforms_values split: pyval.splits)

lemma comparator_sound:
  assumes "arithmetic_env E" and "x \<in> set (binary_comparison_transitions c)"
    and "conforms True ct (valid_left_type x) a \<or> left_can_be_none c \<and> a = VNone"
    and "conforms True ct (valid_right_type x) b \<or> right_can_be_none c \<and> b = VNone"
  shows "safe (comparator_value E c a b)"
proof (cases "c \<in> {In, NotIn}")
  case True
  with assms(2-4) membership_sound [where a = a and b = b and E = E] have "safe (in_operator E a b)"
    by (auto simp: binary_comparison_transitions_def right_can_be_none_def simp del: conforms.simps)
  with True safe_bindR [of "in_operator E a b" "\<lambda>r. Inr (\<not> r)"] show ?thesis by (auto simp: comparator_value_def)
next
  case False
  with assms order_sound [OF assms(1)] show ?thesis
    by (cases c) (auto simp: comparator_value_def binary_comparison_transitions_def conforms_values
        left_can_be_none_def right_can_be_none_def simp del: conforms.simps)
qed

section \<open>Reading a typed child\<close>

lemma read_typed:
  assumes "reads_as ct U x t a" and "\<And>v. eval_expr E U ext x = Inr v \<Longrightarrow> inhabits ct t v"
  obtains w where "read_child E U ext x b = Inr w" "conforms True ct a w"
  | "b" "read_child E U ext x b = Inr VNone"
  | "\<not> b" "read_child E U ext x b = Inl NodeFailurePropagationException"
proof (cases "eval_expr E U ext x")
  case (Inl e)
  with that(2,3) show ?thesis by (cases b) (simp_all add: read_child_def read_outcome_def)
next
  case (Inr v)
  with assms obtain w where "unwrap_value (U (nid x)) v = Inr w" "conforms True ct a w"
    unfolding reads_as_def by blast
  with that(1) Inr show ?thesis by (simp add: read_child_def read_outcome_def)
qed

lemma read_safe:
  assumes "reads_as ct U x t a" and "\<And>v. eval_expr E U ext x = Inr v \<Longrightarrow> inhabits ct t v"
  shows "safe (read_child E U ext x b)"
  by (rule read_typed [where E = E and ext = ext and b = b, OF assms]) simp_all

lemma plain_read: "\<not> U (nid x) \<Longrightarrow> read_child E U ext x False = Inr v \<longleftrightarrow> eval_expr E U ext x = Inr v"
  by (cases "eval_expr E U ext x") (simp_all add: read_child_def read_outcome_def unwrap_value_def)

lemma plain_safe: "\<not> U (nid x) \<Longrightarrow> safe (read_child E U ext x b)"
  by (cases "eval_expr E U ext x") (simp_all add: read_child_def read_outcome_def unwrap_value_def)

lemma mapR_safe: "(\<And>x. x \<in> set xs \<Longrightarrow> safe (f x)) \<Longrightarrow> safe (mapR f xs)"
  by (induction xs) (auto intro!: safe_bindR)

lemma values_safe:
  assumes "\<And>x. x \<in> set xs \<Longrightarrow> safe (res x True)"
  shows "safe (all_values res xs)" "safe (any_value res xs)"
  using assms by (induction xs) (auto intro!: safe_bindR)

lemma format_safe:
  assumes "\<And>fld. safe (rep fld)"
  shows "safe (py_format rep s)"
proof (induction s rule: measure_induct_rule [where f = length])
  case (less s)
  show ?case
  proof (cases s)
    case (Cons c cs)
    have "length (drop 1 (dropWhile (\<lambda>x. x \<noteq> CHR ''}'') cs)) < length s"
      using length_dropWhile_le [of "\<lambda>x. x \<noteq> CHR ''}''" cs] by (simp add: Cons)
    note IH = less.IH [OF this]
    have "safe (py_format rep cs)" "\<And>d ds. cs = d # ds \<Longrightarrow> safe (py_format rep ds)"
      by (rule less.IH; simp add: Cons)+
    with IH assms show ?thesis unfolding Cons py_format.simps(2)
      by (auto intro!: safe_bindR simp del: dropWhile.simps split: list.splits)
  qed simp
qed

lemma replacement_safe: "arithmetic_env E \<Longrightarrow> safe (replacement_field E args fld)"
  by (auto simp: replacement_field_def arithmetic_envD(4) split: option.splits)

end

context convertible_hierarchy
begin

definition sound_at :: "py_env \<Rightarrow> (nat \<Rightarrow> bool) \<Rightarrow> (ast_node \<Rightarrow> pyval result) \<Rightarrow> ast_node \<Rightarrow> ty \<Rightarrow> bool" where
  "sound_at E U ext n t \<longleftrightarrow> (\<forall>v. eval_expr E U ext n = Inr v \<longrightarrow> inhabits ct t v) \<and>
     (is_name n \<or> is_call n \<or> safe (eval_expr E U ext n))"

lemma sound_atD: "sound_at E U ext n t \<Longrightarrow> eval_expr E U ext n = Inr v \<Longrightarrow> inhabits ct t v"
  by (simp add: sound_at_def)

lemma sound_read: "sound_at E U ext x t \<Longrightarrow> reads_as ct U x t a \<Longrightarrow> safe (read_child E U ext x b)"
  by (erule read_safe) (erule sound_atD)

lemma sound_list:
  assumes "\<forall>x \<in> set items. \<exists>u. sound_at E U ext x u \<and> \<not> U (nid x) \<and> (\<forall>v. conforms False ct u v \<longrightarrow> conforms False ct t v)"
  shows "sound_at E U ext (ListLit m items) (ListT t)"
proof -
  have each: "conforms False ct t v" if "x \<in> set items" "read_child E U ext x False = Inr v" for x v
  proof -
    from assms that(1) obtain u where u: "sound_at E U ext x u" "\<not> U (nid x)"
      "conforms False ct u v \<Longrightarrow> conforms False ct t v" by blast
    from that(2) u(2) have "eval_expr E U ext x = Inr v" by (simp add: plain_read)
    with u show ?thesis by (auto simp: inhabits_def dest: sound_atD)
  qed
  have "list_all (conforms False ct t) vs" if vs: "mapR (\<lambda>x. read_child E U ext x False) items = Inr vs" for vs
    unfolding list_all_iff
  proof
    fix v assume "v \<in> set vs"
    from list_all2_source [OF vs [unfolded mapR_Inr_conv] this] obtain x
      where "x \<in> set items" "read_child E U ext x False = Inr v" by blast
    then show "conforms False ct t v" by (rule each)
  qed
  moreover have "safe (mapR (\<lambda>x. read_child E U ext x False) items)"
    using assms plain_safe by (blast intro: mapR_safe)
  ultimately show ?thesis
    by (auto simp: sound_at_def eval_operator_simps execute_pure_def bindR_Inr_conv inhabits_def intro!: safe_bindR)
qed

lemma sound_binary:
  assumes "arithmetic_env E" and "sound_at E U ext l lt" and "sound_at E U ext r rt"
    and "x \<in> set (binary_operation_transitions op)" and "op \<noteq> PowOp"
    and "reads_as ct U l lt (valid_left_type x)" and "reads_as ct U r rt (valid_right_type x)"
  shows "sound_at E U ext (BinaryOperation m l r (Operator om op)) (resulting_type x)"
proof -
  let ?read = "\<lambda>y. read_child E U ext y False"
  have l: "?read l = Inl NodeFailurePropagationException \<or> (\<exists>a. ?read l = Inr a \<and> conforms True ct (valid_left_type x) a)"
    by (rule read_typed [where E = E and ext = ext and b = False, OF assms(6) sound_atD [OF assms(2)]]) auto
  have r: "?read r = Inl NodeFailurePropagationException \<or> (\<exists>b. ?read r = Inr b \<and> conforms True ct (valid_right_type x) b)"
    by (rule read_typed [where E = E and ext = ext and b = False, OF assms(7) sound_atD [OF assms(3)]]) auto
  from l r binary_operator_sound [OF assms(1,4,5)] show ?thesis
    by (auto simp: sound_at_def eval_operator_simps execute_pure_def)
qed

lemma sound_comparison:
  assumes "arithmetic_env E" and "sound_at E U ext l lt" and "sound_at E U ext r rt"
    and "x \<in> set (binary_comparison_transitions c)"
    and "reads_as ct U l lt (valid_left_type x)" and "reads_as ct U r rt (valid_right_type x)"
  shows "sound_at E U ext (BinaryComparison m l r (Comparator om c)) BoolT"
proof -
  let ?a = "read_child E U ext l (left_can_be_none c)" and ?b = "read_child E U ext r (right_can_be_none c)"
  have l: "?a = Inl NodeFailurePropagationException \<or>
      (\<exists>a. ?a = Inr a \<and> (conforms True ct (valid_left_type x) a \<or> left_can_be_none c \<and> a = VNone))"
    by (rule read_typed [where E = E and ext = ext and b = "left_can_be_none c", OF assms(5) sound_atD [OF assms(2)]]) auto
  have r: "?b = Inl NodeFailurePropagationException \<or>
      (\<exists>b. ?b = Inr b \<and> (conforms True ct (valid_right_type x) b \<or> right_can_be_none c \<and> b = VNone))"
    by (rule read_typed [where E = E and ext = ext and b = "right_can_be_none c", OF assms(6) sound_atD [OF assms(3)]]) auto
  have "inhabits ct BoolT (VBool b)" for b by (simp add: inhabits_def conforms_values)
  with l r comparator_sound [OF assms(1,4)] show ?thesis
    by (auto simp: sound_at_def eval_operator_simps execute_pure_def execute_binary_comparison_def bindR_Inr_conv
        intro!: safe_bindR)
qed

lemma sound_not:
  assumes "sound_at E U ext x t" and "reads_as ct U x t AnyT"
  shows "sound_at E U ext (UnaryOperation m x (UnaryOperator om NotOp)) BoolT"
  using sound_read [OF assms]
  by (auto simp: sound_at_def eval_operator_simps execute_pure_def unary_operator_value_def bindR_Inr_conv
      inhabits_def conforms_values intro!: safe_bindR)

lemma sound_minus:
  assumes "arithmetic_env E" and "sound_at E U ext x t" and "reads_as ct U x t INT_OR_FLOAT_T" and "\<not> U (nid x)"
  shows "sound_at E U ext (UnaryOperation m x (UnaryOperator om USub)) t"
proof -
  have "inhabits ct t a \<and> numeric a" if "read_child E U ext x False = Inr a" for a
    using that assms(2-4) by (auto simp: sound_at_def plain_read reads_as_def unwrap_value_def conforms_values)
  with minus_sound [OF assms(1)] plain_safe [of U x E ext False] assms(4) show ?thesis
    by (auto simp: sound_at_def eval_operator_simps execute_pure_def bindR_Inr_conv intro!: safe_bindR)
qed

lemma sound_boolean:
  assumes "\<forall>x \<in> set vs. \<exists>t. sound_at E U ext x t \<and> reads_as ct U x t AnyT"
  shows "sound_at E U ext (BooleanOperation m vs (BooleanOperand om op)) BoolT"
proof -
  have "safe (read_child E U ext x True)" if "x \<in> set vs" for x
    using assms that sound_read by blast
  with values_safe [of vs "read_child E U ext"] show ?thesis
    by (cases op) (auto simp: sound_at_def eval_operator_simps execute_pure_def execute_boolean_operation_def bindR_Inr_conv
        inhabits_def conforms_values intro!: safe_bindR)
qed

lemma sound_format:
  assumes "arithmetic_env E" and "\<forall>x \<in> set names. \<exists>t. sound_at E U ext x t \<and> reads_as ct U x t AnyT"
  shows "sound_at E U ext (FormatString m fmt names) StrT"
proof -
  have "safe (read_child E U ext x False)" if "x \<in> set names" for x
    using assms(2) that sound_read by blast
  then have "safe (execute_format_string E (read_child E U ext) fmt names)"
    unfolding execute_format_string_def
    by (intro safe_bindR mapR_safe format_safe replacement_safe [OF assms(1)]) simp_all
  then show ?thesis
    by (auto simp: sound_at_def eval_operator_simps execute_pure_def execute_format_string_def bindR_Inr_conv
        inhabits_def conforms_values)
qed

theorem typed_sound:
  assumes "arithmetic_env E"
    and "\<And>m i c v t. ext (Name m i c) = Inr v \<Longrightarrow> \<Gamma> (identifier_key m i) = Some t \<Longrightarrow> inhabits ct t v"
    and "\<And>m f args v t. ext (Call m f args) = Inr v \<Longrightarrow> \<Delta> (Call m f args) t \<Longrightarrow> inhabits ct t v"
  shows "typed ct \<Gamma> \<Delta> U n t \<Longrightarrow> sound_at E U ext n t"
proof (induction rule: typed.induct)
  case (t_Name m i t c)
  then show ?case using assms(2) by (auto simp: sound_at_def eval_simps is_name_def)
next
  case (t_Call m f args t)
  then show ?case using assms(3) by (auto simp: sound_at_def eval_simps is_call_def)
next
  case (t_List items t m)
  then show ?case by (blast intro: sound_list)
next
  case (t_Binary l lt r rt x op m om)
  then show ?case by (blast intro: sound_binary [OF assms(1)])
next
  case (t_Comparison l lt r rt x c m om)
  then show ?case by (blast intro: sound_comparison [OF assms(1)])
next
  case (t_USub x t m om)
  then show ?case by (blast intro: sound_minus [OF assms(1)])
next
  case (t_Boolean vs m om op)
  then show ?case by (blast intro: sound_boolean)
next
  case (t_Format names m fmt)
  then show ?case by (blast intro: sound_format [OF assms(1)])
next
  case (t_Not x t m om)
  then show ?case by (blast intro: sound_not)
qed (simp_all add: sound_at_def eval_simps inhabits_def conforms_values numeric_def)

end

section \<open>The classes of the engine convert\<close>

interpretation osprey_conv: convertible_hierarchy osprey_classes
  by unfold_locales (auto simp: osprey_classes_def ancestors_member split: if_splits)

end
