(* ===== verification/Typing_Run.thy ===== *)
theory Typing_Run
  imports Type_Soundness
begin

text \<open>
  A run of the static type checker that reports nothing establishes the typing judgement. The
  lemmas follow the state through the run: checking an expression leaves the types of names as
  they are, only adds messages, and only marks nodes below the expression for unwrapping.
\<close>

section \<open>Sub-expressions\<close>

fun keyword_value :: "ast_node \<Rightarrow> ast_node" where
  "keyword_value (Keyword _ _ v) = v"
| "keyword_value n = n"

fun expr_children :: "ast_node \<Rightarrow> ast_node list" where
  "expr_children (ListLit _ items) = items"
| "expr_children (Call _ _ args) = map keyword_value args"
| "expr_children (BinaryOperation _ l r _) = [l, r]"
| "expr_children (UnaryOperation _ x _) = [x]"
| "expr_children (BinaryComparison _ l r _) = [l, r]"
| "expr_children (BooleanOperation _ vs _) = vs"
| "expr_children (FormatString _ _ names) = names"
| "expr_children _ = []"

lemma keyword_value_size: "size (keyword_value k) \<le> size k"
  by (cases k) simp_all

lemma expr_child_size: "x \<in> set (expr_children n) \<Longrightarrow> size x < size n"
proof (cases n)
  case (Call m f args)
  assume "x \<in> set (expr_children n)"
  then obtain k where "k \<in> set args" "x = keyword_value k" by (auto simp: Call)
  then show ?thesis using keyword_value_size [of k] node_in_size [of k args] by (simp add: Call)
qed (auto dest: node_in_size)

function sub_exprs :: "ast_node \<Rightarrow> ast_node list" where
  "sub_exprs n = n # concat (map sub_exprs (expr_children n))"
  by pat_completeness auto
termination by (relation "measure size") (simp_all add: expr_child_size)

declare sub_exprs.simps [simp del]

definition proper_exprs :: "ast_node \<Rightarrow> ast_node list" where
  "proper_exprs n = concat (map sub_exprs (expr_children n))"

lemma sub_exprs_split: "sub_exprs n = n # proper_exprs n"
  by (subst sub_exprs.simps) (simp add: proper_exprs_def)

lemma sub_exprs_child: "x \<in> set (expr_children n) \<Longrightarrow> set (sub_exprs x) \<subseteq> set (proper_exprs n)"
  by (auto simp: proper_exprs_def)

definition ids :: "ast_node \<Rightarrow> nat set" where
  "ids n = nid ` set (sub_exprs n)"

definition is_usub :: "ast_node \<Rightarrow> bool" where
  "is_usub n = (case n of UnaryOperation _ _ (UnaryOperator _ USub) \<Rightarrow> True | _ \<Rightarrow> False)"

text \<open>The nodes that checking \<open>n\<close> may mark: those below it, and a unary minus itself.\<close>

definition own_ids :: "ast_node \<Rightarrow> nat set" where
  "own_ids n = nid ` set (proper_exprs n) \<union> (if is_usub n then {nid n} else {})"

lemma own_ids_child: "x \<in> set (expr_children n) \<Longrightarrow> ids x \<subseteq> own_ids n"
  using sub_exprs_child by (fastforce simp: ids_def own_ids_def)

lemma own_ids_ids: "own_ids n \<subseteq> ids n"
  by (auto simp: own_ids_def ids_def sub_exprs_split)

lemma nid_ids [simp]: "nid n \<in> ids n"
  by (simp add: ids_def sub_exprs_split)

section \<open>The fragment\<close>

text \<open>
  The expressions the theorem is about: no powers, whose result type depends on the sign of the
  exponent; no operand that is a test against \<open>None\<close> and narrows the type of a name for the
  operands after it, which are evaluated whether or not the test holds; no import below an
  expression.
\<close>

definition null_guard :: "boolean_operand \<Rightarrow> ast_node \<Rightarrow> bool" where
  "null_guard op e =
     (case e of
        BinaryComparison _ l r (Comparator _ c) \<Rightarrow>
          (op = And \<and> c = NotEquals \<or> op \<noteq> And \<and> c = Equals) \<and> null_checked_name l r \<noteq> None
      | _ \<Rightarrow> False)"

definition plain_node :: "tenv \<Rightarrow> ast_node \<Rightarrow> bool" where
  "plain_node env n =
     (case n of
        BinaryOperation _ _ _ (Operator _ op) \<Rightarrow> op \<noteq> PowOp
      | BooleanOperation _ vs (BooleanOperand _ op) \<Rightarrow> list_all (\<lambda>v. \<not> null_guard op v) vs
      | Call m _ _ \<Rightarrow> (case te_udfs env (node_id m) of None \<Rightarrow> True | Some sg \<Rightarrow> sig_import sg = None)
      | _ \<Rightarrow> True)"

definition plain_expr :: "tenv \<Rightarrow> ast_node \<Rightarrow> bool" where
  "plain_expr env n \<longleftrightarrow> list_all (plain_node env) (sub_exprs n)"

lemma plain_expr_child: "plain_expr env n \<Longrightarrow> x \<in> set (expr_children n) \<Longrightarrow> plain_expr env x"
  using sub_exprs_child [of x n] by (auto simp: plain_expr_def list_all_iff sub_exprs_split [of n])

lemma plain_expr_node: "plain_expr env n \<Longrightarrow> plain_node env n"
  by (simp add: plain_expr_def sub_exprs_split)

section \<open>What a run changes\<close>

lemma bindRE: "bindR m f = Inr y \<Longrightarrow> (\<And>x. m = Inr x \<Longrightarrow> f x = Inr y \<Longrightarrow> P) \<Longrightarrow> P"
  by (cases m) simp_all

definition extends :: "nat set \<Rightarrow> tstate \<Rightarrow> tstate \<Rightarrow> bool" where
  "extends I st st' \<longleftrightarrow> name_types st' = name_types st \<and> checked_sources st' = checked_sources st \<and>
     (\<exists>es. type_errors st' = type_errors st @ es) \<and>
     set (unwrapped st) \<subseteq> set (unwrapped st') \<and> set (unwrapped st') \<subseteq> set (unwrapped st) \<union> I"

lemma extends_refl [simp, intro]: "extends I st st"
  by (simp add: extends_def)

lemma extends_trans: "extends I a b \<Longrightarrow> extends J b c \<Longrightarrow> I \<union> J \<subseteq> K \<Longrightarrow> extends K a c"
  unfolding extends_def by auto blast

lemma extends_mono: "extends I a b \<Longrightarrow> I \<subseteq> J \<Longrightarrow> extends J a b"
  unfolding extends_def by blast

lemma extends_messages [simp, intro]:
  "extends I st (type_error m st)" "extends I st (type_warning m st)"
  by (simp_all add: extends_def type_error_def type_warning_def)

lemma extends_unwrap [simp, intro]: "nid n \<in> I \<Longrightarrow> extends I st (unwrap_node n st)"
  by (auto simp: extends_def unwrap_node_def)

lemma extends_no_error:
  "extends I a b \<Longrightarrow> extends J b c \<Longrightarrow> type_errors c = type_errors a \<Longrightarrow>
     type_errors b = type_errors a \<and> type_errors c = type_errors b"
proof -
  assume ab: "extends I a b" and bc: "extends J b c" and eq: "type_errors c = type_errors a"
  from ab bc obtain es es' where es: "type_errors b = type_errors a @ es" "type_errors c = type_errors b @ es'"
    unfolding extends_def by blast
  have "type_errors a @ (es @ es') = type_errors a" using es eq by simp
  then have "es = []" "es' = []" by simp_all
  with es show ?thesis by simp
qed

lemma errors_not_shrink: "extends I (type_error m st) st' \<Longrightarrow> type_errors st' \<noteq> type_errors st"
  unfolding extends_def type_error_def by clarsimp

lemma check_compatible_cases:
  assumes "check_compatible_type env t a msg node h spans st = Inr st'"
  obtains "is_compatible_type (te_classes env) t a True = Inr (Compatible None)" "st' = st"
  | u where "is_compatible_type (te_classes env) t a True = Inr (Compatible (Some u))" "st' = unwrap_node node st"
  | m where "st' = type_error m st"
proof -
  from assms obtain r where r: "is_compatible_type (te_classes env) t a True = Inr r"
    "st' = (case r of
              Incompatible \<Rightarrow> type_error (message_with msg (span_of node) h [] spans) st
            | Compatible None \<Rightarrow> st
            | Compatible (Some _) \<Rightarrow> unwrap_node node st
            | Unsupported m uh \<Rightarrow> type_error (message_with m (span_of node) uh [] []) st)"
    by (auto simp: check_compatible_type_def bindR_Inr_conv)
  show ?thesis
  proof (cases r)
    case (Compatible u)
    with r that(1,2) show ?thesis by (cases u) simp_all
  qed (use r that(3) in simp_all)
qed

lemma check_compatible_extends:
  "check_compatible_type env t a msg node h spans st = Inr st' \<Longrightarrow> extends {nid node} st st'"
  by (erule check_compatible_cases) auto

lemma check_compatible_ok:
  assumes "check_compatible_type env t a msg node h spans st = Inr st'" and "type_errors st' = type_errors st"
  obtains u where "is_compatible_type (te_classes env) t a True = Inr (Compatible u)"
    and "st' = (case u of None \<Rightarrow> st | Some _ \<Rightarrow> unwrap_node node st)"
  using assms(1)
proof (cases rule: check_compatible_cases)
  case 1
  then show ?thesis by (intro that [of None]) simp_all
next
  case (2 u)
  then show ?thesis by (intro that [of "Some u"]) simp_all
next
  case (3 m)
  with assms(2) show ?thesis by (simp add: type_error_def)
qed

lemma call_argument_extends:
  "call_argument env sg generics name value t (rtv, prev, st) = Inr (rtv', prev', st') \<Longrightarrow> extends {nid value} st st'"
  by (auto simp: call_argument_def generic_argument_def plain_argument_def
      split: if_splits option.splits elim!: bindRE dest: check_compatible_extends)

lemma validate_list_extends: "validate_list par m ts st = (t, st') \<Longrightarrow> extends I st st'"
  by (auto simp: validate_list_def split: list.splits option.splits ast_node.splits)

lemma check_operand_extends:
  "check_operand env t a msg h operation operand st = Inr st' \<Longrightarrow> extends {nid operation} st st'"
  by (auto simp: check_operand_def elim!: bindRE dest: check_compatible_extends)

lemma compat_info_conv:
  "compat_info env t a b = Inr (Some u) \<longleftrightarrow> is_compatible_type (te_classes env) t a b = Inr (Compatible u)"
  "compat_info env t a b = Inr None \<longleftrightarrow> is_compatible_type (te_classes env) t a b = Inr Incompatible"
  by (cases "is_compatible_type (te_classes env) t a b";
      auto simp: compat_info_def unwrap_compatibility_def split: compatibility.splits)+

text \<open>A negation only ever unwraps its operand.\<close>

lemma not_cases:
  assumes "validate_unary_operation env NotOp operation operand t st = Inr (t', st')"
  obtains u where "is_compatible_type (te_classes env) t BoolT True = Inr (Compatible u)" "t' = BoolT"
      "st' = (case u of None \<Rightarrow> st | Some _ \<Rightarrow> unwrap_node operand st)"
  | m where "st' = type_error m st" "t' = BoolT"
proof -
  from assms obtain info where info: "compat_info env t BoolT True = Inr info"
    by (auto simp: validate_unary_operation_def elim!: bindRE)
  have bool: "t' = BoolT" using assms info
    by (auto simp: validate_unary_operation_def Let_def elim!: bindRE split: if_splits option.splits)
  show ?thesis
  proof (cases info)
    case None
    with info have c: "is_compatible_type (te_classes env) t BoolT True = Inr Incompatible" by (simp add: compat_info_conv)
    from assms info None obtain msg h spans where
      "check_compatible_type env t BoolT msg operation h spans st = Inr st'"
      by (auto simp: validate_unary_operation_def check_operand_def Let_def elim!: bindRE)
    then show ?thesis by (cases rule: check_compatible_cases) (use c bool that(2) in simp_all)
  next
    case (Some u)
    with info have c: "is_compatible_type (te_classes env) t BoolT True = Inr (Compatible u)" by (simp add: compat_info_conv)
    show ?thesis
    proof (cases u)
      case None
      with assms info Some obtain msg h spans where
        "check_compatible_type env t BoolT msg operation h spans st = Inr st'"
        by (auto simp: validate_unary_operation_def check_operand_def Let_def elim!: bindRE)
      then show ?thesis by (cases rule: check_compatible_cases) (use c bool None that in \<open>auto\<close>)
    next
      case (Some w)
      with assms info \<open>info = Some u\<close> have "st' = unwrap_node operand st"
        by (simp add: validate_unary_operation_def)
      with c bool Some that(1) [of u] show ?thesis by simp
    qed
  qed
qed

lemma unary_extends:
  assumes "validate_unary_operation env op operation operand t st = Inr (t', st')"
  shows "extends (if op = USub then {nid operation} else {nid operand}) st st'"
proof (cases op)
  case NotOp
  from assms [unfolded NotOp] show ?thesis by (cases rule: not_cases) (auto simp: NotOp split: option.splits)
next
  case USub
  with assms show ?thesis by (auto simp: validate_unary_operation_def elim!: bindRE dest: check_operand_extends)
qed

lemma unwrap_operand_extends: "unwrap_operand u n (t, st) = (t', st') \<Longrightarrow> extends {nid n} st st'"
  by (auto simp: unwrap_operand_def split: option.splits)

lemma unsupported_error_extends [simp, intro]: "extends I st (unsupported_error c n st)"
  by (auto simp: unsupported_error_def split: compatibility.splits)

lemma unsupported_operands_extends:
  "unsupported_operands sp s l r lt rt st = Inr (t, st') \<Longrightarrow> extends I st st'"
  by (auto simp: unsupported_operands_def elim!: bindRE)

text \<open>How a loop over transitions ends: with a transition that applies, or with an error.\<close>

definition applies :: "tenv \<Rightarrow> transition_hook \<Rightarrow> ast_node \<Rightarrow> ast_node \<Rightarrow> ty \<Rightarrow> ty \<Rightarrow> tstate \<Rightarrow> transition \<Rightarrow> tstate \<Rightarrow> bool" where
  "applies env hook l r lt rt st x st' \<longleftrightarrow> (\<exists>ul ur lt' rt' st1 st2.
     is_compatible_type (te_classes env) lt (valid_left_type x) True = Inr (Compatible ul) \<and>
     is_compatible_type (te_classes env) rt (valid_right_type x) True = Inr (Compatible ur) \<and>
     unwrap_operand ul l (lt, st) = (lt', st1) \<and> unwrap_operand ur r (rt, st1) = (rt', st2) \<and> hook lt' rt' st2 = Inr st')"

definition reported :: "tstate \<Rightarrow> tstate \<Rightarrow> bool" where
  "reported st st' \<longleftrightarrow> (\<exists>m. extends {} (type_error m st) st')"

lemma reported_error [simp, intro]: "reported st (type_error m st)" "reported st (unsupported_error c n (type_error m st))"
  unfolding reported_def by blast+

lemma reported_extends: "reported st st' \<Longrightarrow> extends I st st'"
  unfolding reported_def by (metis Un_empty_left empty_subsetI extends_messages(1) extends_trans sup.idem)

lemma reported_errors: "reported st st' \<Longrightarrow> type_errors st' \<noteq> type_errors st"
  unfolding reported_def using errors_not_shrink by blast

lemma try_transitions_cases:
  "try_transitions env hook l r lt rt xs st = Inr (Some (t, st')) \<Longrightarrow>
     (\<exists>x \<in> set xs. t = resulting_type x \<and> applies env hook l r lt rt st x st') \<or> reported st st'"
proof (induction xs)
  case (Cons x xs)
  from Cons.prems obtain cl cr where c:
    "is_compatible_type (te_classes env) lt (valid_left_type x) True = Inr cl"
    "is_compatible_type (te_classes env) rt (valid_right_type x) True = Inr cr"
    by (auto elim!: bindRE)
  consider ul ur where "cl = Compatible ul" "cr = Compatible ur"
    | m h where "cl = Unsupported m h"
    | m h where "cr = Unsupported m h" "cl = Incompatible \<or> (\<exists>u. cl = Compatible u)"
    | "cl = Incompatible \<or> cr = Incompatible" "\<nexists>m h. cl = Unsupported m h \<or> cr = Unsupported m h"
    by (cases cl; cases cr) auto
  then show ?case
  proof cases
    case (1 ul ur)
    obtain lt' st1 where u1: "unwrap_operand ul l (lt, st) = (lt', st1)" by fastforce
    obtain rt' st2 where u2: "unwrap_operand ur r (rt, st1) = (rt', st2)" by fastforce
    from Cons.prems c 1 u1 u2 have "hook lt' rt' st2 = Inr st'" "t = resulting_type x" by (auto elim!: bindRE)
    with c 1 u1 u2 have "t = resulting_type x \<and> applies env hook l r lt rt st x st'" unfolding applies_def by blast
    then show ?thesis by auto
  next
    case (2 m h)
    with Cons.prems c have "st' = unsupported_error cr r (type_error (message_with m (span_of l) h [] []) st)"
      by (simp add: unsupported_error_def)
    then show ?thesis by simp
  next
    case (3 m h)
    with Cons.prems c have "st' = type_error (message_with m (span_of r) h [] []) st"
      by (auto simp: unsupported_error_def)
    then show ?thesis by simp
  next
    case 4
    with Cons.prems c have "try_transitions env hook l r lt rt xs st = Inr (Some (t, st'))"
      by (cases cl; cases cr) simp_all
    with Cons.IH show ?thesis by auto
  qed
qed simp

lemma two_arg_cases:
  assumes "two_arg_transitions env hook any sp s xs l r lt rt st = Inr (t, st')"
  shows "(\<exists>x \<in> set xs. t = resulting_type x \<and> applies env hook l r lt rt st x st') \<or> reported st st'"
proof (cases "\<exists>p. try_transitions env hook l r lt rt xs st = Inr (Some p) \<and> (any \<or> lt \<noteq> AnyT \<and> rt \<noteq> AnyT)")
  case True
  with assms have "try_transitions env hook l r lt rt xs st = Inr (Some (t, st'))"
    by (auto simp: two_arg_transitions_def)
  then show ?thesis by (rule try_transitions_cases)
next
  case False
  with assms have "unsupported_operands sp s l r lt rt st = Inr (t, st')"
    by (auto simp: two_arg_transitions_def elim!: bindRE split: if_splits option.splits)
  then have "reported st st'" by (auto simp: unsupported_operands_def elim!: bindRE)
  then show ?thesis ..
qed

lemma two_arg_extends:
  assumes "two_arg_transitions env hook any sp s xs l r lt rt st = Inr (t, st')"
    and "\<And>lt rt st st'. hook lt rt st = Inr st' \<Longrightarrow> extends {nid l, nid r} st st'"
  shows "extends {nid l, nid r} st st'"
  using two_arg_cases [OF assms(1)]
proof
  assume "\<exists>x \<in> set xs. t = resulting_type x \<and> applies env hook l r lt rt st x st'"
  then obtain ul ur lt' rt' st1 st2 where u: "unwrap_operand ul l (lt, st) = (lt', st1)"
    "unwrap_operand ur r (rt, st1) = (rt', st2)" "hook lt' rt' st2 = Inr st'" unfolding applies_def by blast
  have "extends {nid l, nid r} st st2"
    by (rule extends_trans [OF unwrap_operand_extends [OF u(1)] unwrap_operand_extends [OF u(2)]]) simp
  then show ?thesis by (rule extends_trans [OF _ assms(2) [OF u(3)]]) simp
qed (rule reported_extends)

lemma comparison_hook_extends:
  "comparison_hook env c sp l r lt rt st = Inr st' \<Longrightarrow> extends {nid l, nid r} st st'"
  by (auto simp: comparison_hook_def equality_hook_def membership_hook_def none_warning_def incompatible_sides_def Let_def
      elim!: bindRE split: if_splits option.splits intro: extends_trans)

section \<open>Loops over sub-expressions\<close>

lemma loop_frame:
  assumes "loopR f xs s = Inr s'" and "Q s"
    and "\<And>y s s'. y \<in> set xs \<Longrightarrow> Q s \<Longrightarrow> f y s = Inr s' \<Longrightarrow> Q s' \<and> extends (J y) (p s) (p s')"
  shows "Q s' \<and> extends (\<Union>y \<in> set xs. J y) (p s) (p s')"
  using assms
proof (induction xs arbitrary: s)
  case (Cons x xs)
  from Cons.prems(1) obtain s1 where s1: "f x s = Inr s1" "loopR f xs s1 = Inr s'" by (auto elim!: bindRE)
  have 1: "Q s1 \<and> extends (J x) (p s) (p s1)" by (rule Cons.prems(3) [OF _ Cons.prems(2) s1(1)]) simp
  then have "Q s' \<and> extends (\<Union>y \<in> set xs. J y) (p s1) (p s')"
    by (intro Cons.IH [OF s1(2)]) (simp, rule Cons.prems(3), simp_all)
  with 1 extends_trans [of "J x" "p s" "p s1" "\<Union>y \<in> set xs. J y" "p s'" "\<Union>y \<in> set (x # xs). J y"] show ?case by simp
qed simp

text \<open>The step of a loop at one element, with what the steps before and after it change.\<close>

lemma loop_element:
  assumes "loopR f xs s = Inr s'" and "Q s" and "x \<in> set xs"
    and step: "\<And>y s s'. y \<in> set xs \<Longrightarrow> Q s \<Longrightarrow> f y s = Inr s' \<Longrightarrow> Q s' \<and> extends (J y) (p s) (p s')"
  shows "\<exists>us vs s1 s2. xs = us @ x # vs \<and> Q s1 \<and> f x s1 = Inr s2 \<and> loopR f vs s2 = Inr s' \<and>
    extends (\<Union>y \<in> set us. J y) (p s) (p s1) \<and> extends (\<Union>y \<in> set vs. J y) (p s2) (p s')"
proof -
  from assms(3) obtain us vs where xs: "xs = us @ x # vs" by (meson split_list)
  from assms(1) obtain s1 s2 where s: "loopR f us s = Inr s1" "f x s1 = Inr s2" "loopR f vs s2 = Inr s'"
    by (auto simp: xs loopR_append elim!: bindRE)
  have 1: "Q s1 \<and> extends (\<Union>y \<in> set us. J y) (p s) (p s1)"
    by (rule loop_frame [where Q = Q and J = J and p = p, OF s(1) assms(2)]) (rule step, simp_all add: xs)
  have "Q s2" using step [OF assms(3) _ s(2)] 1 by blast
  then have "Q s' \<and> extends (\<Union>y \<in> set vs. J y) (p s2) (p s')"
    by (rule loop_frame [where Q = Q and J = J and p = p, OF s(3)]) (rule step, simp_all add: xs)
  with xs s(2,3) 1 show ?thesis by blast
qed

text \<open>An operand that is no null check narrows nothing.\<close>

lemma operand_plain:
  assumes "validate_operand env op check value ([], s) = Inr (nw, s')" and "\<not> null_guard op value"
  obtains t s1 msg h spans where "nw = []" "check s = Inr (t, s1)"
    "check_compatible_type env t BoolT msg value h spans s1 = Inr s'"
proof -
  have restore: "restore_types [] st = st" for st by (simp add: restore_types_def)
  have "type_narrowing value op st = []" for st
    using assms(2) by (auto simp: type_narrowing_def null_guard_def split: ast_node.splits option.splits)
  then show ?thesis
    using assms(1) that
    by (auto simp: validate_operand_def apply_narrowings_def update_all_def restore elim!: bindRE)
qed

lemma format_name_extends: "validate_format_name env name (t, s) = Inr s' \<Longrightarrow> extends {nid name} s s'"
  by (auto simp: validate_format_name_def elim!: bindRE dest!: check_compatible_extends
      intro: extends_trans [OF _ extends_messages(1) [of "{}"]] split: ast_node.splits option.splits if_splits)

text \<open>The loops of \<open>validate_expression\<close>.\<close>

abbreviation list_step :: "tenv \<Rightarrow> (string \<Rightarrow> tstate \<Rightarrow> tstate result) \<Rightarrow> ast_node \<Rightarrow> ast_node \<Rightarrow> ty list \<times> tstate \<Rightarrow> (ty list \<times> tstate) result" where
  "list_step env imp n item \<equiv> (\<lambda>(ts, st). bindR (validate_expression env imp (Some n) item st) (\<lambda>(t, st1).
     Inr (insert_type t ts, st1)))"

abbreviation call_step :: "tenv \<Rightarrow> (string \<Rightarrow> tstate \<Rightarrow> tstate result) \<Rightarrow> udf_signature \<Rightarrow> string list \<Rightarrow> ast_node \<Rightarrow> call_acc \<Rightarrow> call_acc result" where
  "call_step env imp sg generics k \<equiv> (\<lambda>(rtv, prev, st).
     case k of
       Keyword _ name value \<Rightarrow> bindR (validate_expression env imp (Some k) value st) (\<lambda>(t, st1).
         call_argument env sg generics name value t (rtv, prev, st1))
     | _ \<Rightarrow> Inl (OtherException ''AttributeError''))"

abbreviation boolean_step :: "tenv \<Rightarrow> (string \<Rightarrow> tstate \<Rightarrow> tstate result) \<Rightarrow> ast_node \<Rightarrow> boolean_operand \<Rightarrow> ast_node \<Rightarrow>
    (string, ty) dict \<times> tstate \<Rightarrow> ((string, ty) dict \<times> tstate) result" where
  "boolean_step env imp n op value \<equiv> validate_operand env op (\<lambda>st. validate_expression env imp (Some n) value st) value"

abbreviation format_step :: "tenv \<Rightarrow> (string \<Rightarrow> tstate \<Rightarrow> tstate result) \<Rightarrow> ast_node \<Rightarrow> ast_node \<Rightarrow> tstate \<Rightarrow> tstate result" where
  "format_step env imp n name \<equiv> (\<lambda>st. bindR (validate_expression env imp (Some n) name st) (validate_format_name env name))"

text \<open>The unfolding of \<open>validate_expression\<close> at the expressions that have parts.\<close>

lemma validate_expression_unfold:
  "validate_expression env imp par (ListLit m items) st =
     bindR (loopR (list_step env imp (ListLit m items)) items ([], st)) (\<lambda>(ts, st1). Inr (validate_list par m ts st1))"
  "validate_expression env imp par (Call m f args) st =
     (case te_udfs env (node_id m) of
        None \<Rightarrow> Inl KeyError
      | Some sg \<Rightarrow>
          bindR (case sig_import sg of None \<Rightarrow> Inr st | Some paths \<Rightarrow> loopR imp paths st) (\<lambda>st0.
          bindR (raised (generic_item_names (te_classes env) (sig_items sg))) (\<lambda>generics.
          bindR (loopR (call_step env imp sg generics) args (None, None, st0)) (\<lambda>(rtv, prev, st1).
          bindR (get_resolved_rvalue_type sg rtv) (\<lambda>t. Inr (t, st1))))))"
  "validate_expression env imp par (BinaryOperation m l r (Operator om op)) st =
     bindR (validate_expression env imp (Some (BinaryOperation m l r (Operator om op))) l st) (\<lambda>(lt, st1).
     bindR (validate_expression env imp (Some (BinaryOperation m l r (Operator om op))) r st1) (\<lambda>(rt, st2).
       validate_binary_operation env m op l r lt rt st2))"
  "validate_expression env imp par (UnaryOperation m x (UnaryOperator om uop)) st =
     bindR (validate_expression env imp (Some (UnaryOperation m x (UnaryOperator om uop))) x st) (\<lambda>(t, st1).
       validate_unary_operation env uop (UnaryOperation m x (UnaryOperator om uop)) x t st1)"
  "validate_expression env imp par (BinaryComparison m l r (Comparator om c)) st =
     bindR (validate_expression env imp (Some (BinaryComparison m l r (Comparator om c))) l st) (\<lambda>(lt, st1).
     bindR (validate_expression env imp (Some (BinaryComparison m l r (Comparator om c))) r st1) (\<lambda>(rt, st2).
       validate_binary_comparison env m c l r lt rt st2))"
  "validate_expression env imp par (BooleanOperation m vs (BooleanOperand om bop)) st =
     bindR (loopR (boolean_step env imp (BooleanOperation m vs (BooleanOperand om bop)) bop) vs ([], st)) (\<lambda>(narrowed, st1).
       Inr (BoolT, st1))"
  "validate_expression env imp par (FormatString m fmt names) st =
     bindR (loopR (format_step env imp (FormatString m fmt names)) names st) (\<lambda>st1. Inr (StrT, st1))"
  by (subst validate_expression.simps, simp)+

text \<open>What one step adds, given what checking the sub-expression adds.\<close>

definition frame_at :: "tenv \<Rightarrow> (string \<Rightarrow> tstate \<Rightarrow> tstate result) \<Rightarrow> ast_node \<Rightarrow> bool" where
  "frame_at env imp x \<longleftrightarrow>
     (\<forall>par st t st'. validate_expression env imp par x st = Inr (t, st') \<longrightarrow> extends (own_ids x) st st')"

lemma frame_atD: "frame_at env imp x \<Longrightarrow> validate_expression env imp par x st = Inr (t, st') \<Longrightarrow> extends (own_ids x) st st'"
  by (auto simp: frame_at_def)

lemma frame_ids: "extends (own_ids x) s s1 \<Longrightarrow> extends {nid x} s1 s2 \<Longrightarrow> extends (ids x) s s2"
  by (erule (1) extends_trans) (use own_ids_ids [of x] in simp)

lemma list_step_extends:
  "frame_at env imp x \<Longrightarrow> list_step env imp n x s = Inr s' \<Longrightarrow> True \<and> extends (ids x) (snd s) (snd s')"
  by (cases s; cases s') (auto elim!: bindRE dest: frame_atD intro: extends_mono [OF _ own_ids_ids])

lemma call_step_extends:
  "frame_at env imp (keyword_value k) \<Longrightarrow> call_step env imp sg generics k s = Inr s' \<Longrightarrow>
     True \<and> extends (ids (keyword_value k)) (snd (snd s)) (snd (snd s'))"
  by (cases k; cases s; cases s') (auto elim!: bindRE dest!: frame_atD call_argument_extends intro: frame_ids)

lemma boolean_step_extends:
  assumes "frame_at env imp x" and "\<not> null_guard op x" and "fst s = []" and "boolean_step env imp n op x s = Inr s'"
  shows "fst s' = [] \<and> extends (ids x) (snd s) (snd s')"
proof -
  obtain st nw st' where s: "s = ([], st)" "s' = (nw, st')" using assms(3) by (cases s; cases s') simp
  from assms(2,4) s obtain t s1 msg h spans where "nw = []" "validate_expression env imp (Some n) x st = Inr (t, s1)"
    "check_compatible_type env t BoolT msg x h spans s1 = Inr st'" using operand_plain by metis
  with s frame_ids [OF frame_atD [OF assms(1)] check_compatible_extends] show ?thesis by auto
qed

lemma format_step_extends:
  "frame_at env imp x \<Longrightarrow> format_step env imp n x s = Inr s' \<Longrightarrow> True \<and> extends (ids x) s s'"
  by (auto elim!: bindRE dest!: frame_atD format_name_extends intro: frame_ids)

section \<open>The frame of an expression\<close>

lemma children_ids: "(\<Union>x \<in> set (expr_children n). ids x) = nid ` set (proper_exprs n)"
  by (auto simp: ids_def proper_exprs_def)

lemma own_children: "(\<Union>x \<in> set (expr_children n). ids x) \<subseteq> own_ids n"
  by (simp add: children_ids own_ids_def)

lemma frame_two:
  assumes "extends (own_ids l) st st1" and "extends (own_ids r) st1 st2" and "extends {nid l, nid r} st2 st3"
    and "expr_children n = [l, r]"
  shows "extends (own_ids n) st st3"
proof -
  have "extends (ids l \<union> ids r) st st2"
    by (rule extends_trans [OF assms(1,2)]) (use own_ids_ids in blast)
  moreover have "ids l \<union> ids r \<subseteq> own_ids n" using own_children [of n] assms(4) by simp
  ultimately show ?thesis using extends_trans [OF _ assms(3)] nid_ids [of l] nid_ids [of r] by blast
qed

text \<open>The parts of a run, for each kind of expression.\<close>

lemma run_list:
  assumes "validate_expression env imp par (ListLit m items) st = Inr (t, st')"
  obtains ts s where "loopR (list_step env imp (ListLit m items)) items ([], st) = Inr (ts, s)" "validate_list par m ts s = (t, st')"
  using assms by (auto simp: validate_expression_unfold elim!: bindRE)

lemma run_call:
  assumes "validate_expression env imp par (Call m f args) st = Inr (t, st')" and "plain_node env (Call m f args)"
  obtains sg generics rtv prev where "te_udfs env (node_id m) = Some sg"
    "loopR (call_step env imp sg generics) args (None, None, st) = Inr (rtv, prev, st')"
  using assms by (auto simp: validate_expression_unfold plain_node_def elim!: bindRE split: option.splits)

lemma operator_nodes:
  "validate_expression env imp par (BinaryOperation m l r opn) st = Inr y \<Longrightarrow> \<exists>om op. opn = Operator om op"
  "validate_expression env imp par (UnaryOperation m x opn) st = Inr y \<Longrightarrow> \<exists>om op. opn = UnaryOperator om op"
  "validate_expression env imp par (BinaryComparison m l r opn) st = Inr y \<Longrightarrow> \<exists>om c. opn = Comparator om c"
  "validate_expression env imp par (BooleanOperation m vs opn) st = Inr y \<Longrightarrow> \<exists>om op. opn = BooleanOperand om op"
  by (subst (asm) validate_expression.simps, simp split: ast_node.splits)+

lemma run_binary:
  assumes "validate_expression env imp par (BinaryOperation m l r opn) st = Inr (t, st')"
  obtains par' om op lt rt st1 st2 where "opn = Operator om op"
    "validate_expression env imp par' l st = Inr (lt, st1)" "validate_expression env imp par' r st1 = Inr (rt, st2)"
    "validate_binary_operation env m op l r lt rt st2 = Inr (t, st')"
  using operator_nodes(1) [OF assms] assms by (auto simp: validate_expression_unfold elim!: bindRE)

lemma run_unary:
  assumes "validate_expression env imp par (UnaryOperation m x opn) st = Inr (t, st')"
  obtains om op u st1 where "opn = UnaryOperator om op"
    "validate_expression env imp (Some (UnaryOperation m x opn)) x st = Inr (u, st1)"
    "validate_unary_operation env op (UnaryOperation m x opn) x u st1 = Inr (t, st')"
  using operator_nodes(2) [OF assms] assms by (auto simp: validate_expression_unfold elim!: bindRE)

lemma run_comparison:
  assumes "validate_expression env imp par (BinaryComparison m l r opn) st = Inr (t, st')"
  obtains par' om c lt rt st1 st2 where "opn = Comparator om c"
    "validate_expression env imp par' l st = Inr (lt, st1)" "validate_expression env imp par' r st1 = Inr (rt, st2)"
    "validate_binary_comparison env m c l r lt rt st2 = Inr (t, st')"
  using operator_nodes(3) [OF assms] assms by (auto simp: validate_expression_unfold elim!: bindRE)

lemma run_boolean:
  assumes "validate_expression env imp par (BooleanOperation m vs opn) st = Inr (t, st')"
  obtains om op nw where "opn = BooleanOperand om op" "t = BoolT"
    "loopR (boolean_step env imp (BooleanOperation m vs opn) op) vs ([], st) = Inr (nw, st')"
  using operator_nodes(4) [OF assms] assms by (auto simp: validate_expression_unfold elim!: bindRE)

lemma run_format:
  assumes "validate_expression env imp par (FormatString m fmt names) st = Inr (t, st')"
  obtains "loopR (format_step env imp (FormatString m fmt names)) names st = Inr st'" "t = StrT"
  using assms by (auto simp: validate_expression_unfold elim!: bindRE)

lemma validate_frame: "plain_expr env n \<Longrightarrow> frame_at env imp n"
proof (induction n rule: measure_induct_rule [where f = size])
  case (less n)
  have child: "frame_at env imp x" if "x \<in> set (expr_children n)" for x
    using less.IH [OF expr_child_size [OF that]] plain_expr_child [OF less.prems that] by blast
  note own = own_children [of n]
  show ?case unfolding frame_at_def
  proof (intro allI impI)
    fix par st t st' assume run: "validate_expression env imp par n st = Inr (t, st')"
    show "extends (own_ids n) st st'"
    proof (cases n)
      case (Name m i c)
      with run show ?thesis by (auto simp: validate_expression.simps validate_name_def extends_def split: option.splits)
    next
      case (ListLit m items)
      from run [unfolded ListLit] obtain ts s where s: "loopR (list_step env imp (ListLit m items)) items ([], st) = Inr (ts, s)"
        "validate_list par m ts s = (t, st')" by (rule run_list)
      have "True \<and> extends (\<Union>x \<in> set items. ids x) (snd ([] :: ty list, st)) (snd (ts, s))"
        by (rule loop_frame [where Q = "\<lambda>_. True" and p = snd, OF s(1) TrueI])
          (rule list_step_extends [OF child], simp_all add: ListLit)
      with s(2) own show ?thesis using extends_trans [OF _ validate_list_extends [of par m ts s t st' "{}"]] by (simp add: ListLit)
    next
      case (Call m f args)
      from run [unfolded Call] plain_expr_node [OF less.prems, unfolded Call] obtain sg generics rtv prev where
        s: "loopR (call_step env imp sg generics) args (None, None, st) = Inr (rtv, prev, st')" by (rule run_call)
      have "True \<and> extends (\<Union>k \<in> set args. ids (keyword_value k)) (snd (snd (None :: ty option, None :: (string \<times> ast_node) option, st)))
          (snd (snd (rtv, prev, st')))"
        by (rule loop_frame [where Q = "\<lambda>_. True" and p = "\<lambda>s. snd (snd s)" and J = "\<lambda>k. ids (keyword_value k)", OF s TrueI])
          (rule call_step_extends [OF child], simp_all add: Call)
      with own show ?thesis by (auto simp: Call intro: extends_mono)
    next
      case (BinaryOperation m l r opn)
      from run [unfolded BinaryOperation] obtain par' om op lt rt st1 st2 where s: "opn = Operator om op"
        "validate_expression env imp par' l st = Inr (lt, st1)" "validate_expression env imp par' r st1 = Inr (rt, st2)"
        "validate_binary_operation env m op l r lt rt st2 = Inr (t, st')" by (rule run_binary)
      have "extends {nid l, nid r} st2 st'"
        by (rule two_arg_extends [OF s(4) [unfolded validate_binary_operation_def]]) simp
      from frame_two [OF frame_atD [OF child s(2)] frame_atD [OF child s(3)] this] show ?thesis
        by (simp add: BinaryOperation)
    next
      case (UnaryOperation m x opn)
      from run [unfolded UnaryOperation] obtain om op u st1 where s: "opn = UnaryOperator om op"
        "validate_expression env imp (Some (UnaryOperation m x opn)) x st = Inr (u, st1)"
        "validate_unary_operation env op (UnaryOperation m x opn) x u st1 = Inr (t, st')" by (rule run_unary)
      have "extends (ids x) st st1" by (rule extends_mono [OF frame_atD [OF child s(2)] own_ids_ids]) (simp add: UnaryOperation)
      moreover have "ids x \<union> (if op = USub then {nid n} else {nid x}) \<subseteq> own_ids n"
        using own s(1) by (cases op) (auto simp: UnaryOperation own_ids_def is_usub_def proper_exprs_def ids_def sub_exprs_split [of x])
      ultimately show ?thesis using extends_trans [OF _ unary_extends [OF s(3)]] by (metis UnaryOperation)
    next
      case (BinaryComparison m l r opn)
      from run [unfolded BinaryComparison] obtain par' om c lt rt st1 st2 where s: "opn = Comparator om c"
        "validate_expression env imp par' l st = Inr (lt, st1)" "validate_expression env imp par' r st1 = Inr (rt, st2)"
        "validate_binary_comparison env m c l r lt rt st2 = Inr (t, st')" by (rule run_comparison)
      have "extends {nid l, nid r} st2 st'"
        by (rule two_arg_extends [OF s(4) [unfolded validate_binary_comparison_def]]) (rule comparison_hook_extends)
      from frame_two [OF frame_atD [OF child s(2)] frame_atD [OF child s(3)] this] show ?thesis
        by (simp add: BinaryComparison)
    next
      case (BooleanOperation m vs opn)
      from run [unfolded BooleanOperation] obtain om op nw where s: "opn = BooleanOperand om op"
        "loopR (boolean_step env imp (BooleanOperation m vs opn) op) vs ([], st) = Inr (nw, st')" by (rule run_boolean)
      with plain_expr_node [OF less.prems] have g: "\<not> null_guard op x" if "x \<in> set vs" for x
        using that by (simp add: plain_node_def BooleanOperation list_all_iff)
      have "fst (nw, st') = [] \<and> extends (\<Union>x \<in> set vs. ids x) (snd ([] :: (string, ty) dict, st)) (snd (nw, st'))"
        by (rule loop_frame [where Q = "\<lambda>s. fst s = []" and p = snd, OF s(2)])
          (simp, rule boolean_step_extends [OF child g], simp_all add: BooleanOperation)
      with own show ?thesis by (auto simp: BooleanOperation intro: extends_mono)
    next
      case (FormatString m fmt names)
      from run [unfolded FormatString] have s: "loopR (format_step env imp (FormatString m fmt names)) names st = Inr st'"
        by (rule run_format)
      have "True \<and> extends (\<Union>x \<in> set names. ids x) (id st) (id st')"
        by (rule loop_frame [where Q = "\<lambda>_. True" and p = id, OF s TrueI])
          (simp only: id_apply, rule format_step_extends [OF child], simp_all add: FormatString)
      with own show ?thesis by (auto simp: FormatString intro: extends_mono)
    qed (use run in \<open>auto simp: validate_expression.simps\<close>)
  qed
qed

end
