(* ===== verification/Static_Soundness.thy ===== *)
theory Static_Soundness
  imports Typing_Run
begin

text \<open>
  A run of the static type checker that reports no error establishes the typing judgement of
  \<open>Type_Soundness\<close>, so the expression it accepts evaluates to a value of its type and none of its
  operators raises a type error.
\<close>

section \<open>Distinct nodes\<close>

lemma sub_exprs_nid: "nid ` set (sub_exprs n) = ids n"
  by (simp add: ids_def)

lemma distinct_children:
  assumes "distinct (map nid (sub_exprs n))" and "expr_children n = us @ x # vs"
  shows "distinct (map nid (sub_exprs x))" "(\<Union>y \<in> set us. ids y) \<inter> ids x = {}"
    "(\<Union>y \<in> set vs. ids y) \<inter> ids x = {}" "nid x \<notin> nid ` set (proper_exprs x)"
proof -
  have "distinct (concat (map (map nid \<circ> sub_exprs) us) @ map nid (sub_exprs x) @ concat (map (map nid \<circ> sub_exprs) vs))"
    using assms by (simp add: sub_exprs_split [of n] proper_exprs_def map_concat)
  then have d: "distinct (map nid (sub_exprs x))"
      "set (concat (map (map nid \<circ> sub_exprs) us)) \<inter> set (map nid (sub_exprs x)) = {}"
      "set (map nid (sub_exprs x)) \<inter> set (concat (map (map nid \<circ> sub_exprs) vs)) = {}"
    by (auto simp only: distinct_append set_append)
  show "distinct (map nid (sub_exprs x))" by (rule d(1))
  show "(\<Union>y \<in> set us. ids y) \<inter> ids x = {}" using d(2) by (simp add: ids_def)
  show "(\<Union>y \<in> set vs. ids y) \<inter> ids x = {}" using d(3) by (simp add: ids_def Int_commute)
  from d(1) show "nid x \<notin> nid ` set (proper_exprs x)" by (simp add: sub_exprs_split)
qed

section \<open>What the run leaves for the executor\<close>

text \<open>
  The run of the checker on \<open>n\<close> from \<open>st\<close> to \<open>m\<close> reported nothing, the nodes of the expression are
  new and distinct, \<open>U\<close> is what the executor finds marked below \<open>n\<close>, no unary minus is marked, and
  the names of the expression are known.
\<close>

definition known_names :: "(string, type_and_span) dict \<Rightarrow> ast_node \<Rightarrow> bool" where
  "known_names names n \<longleftrightarrow>
     list_all (\<lambda>x. case x of Name m i _ \<Rightarrow> map_of names (identifier_key m i) \<noteq> None | _ \<Rightarrow> True) (sub_exprs n)"

definition minus_unmarked :: "nat list \<Rightarrow> ast_node \<Rightarrow> bool" where
  "minus_unmarked marked n \<longleftrightarrow> list_all (\<lambda>x. is_usub x \<longrightarrow> nid x \<notin> set marked) (sub_exprs n)"

definition ready :: "(nat \<Rightarrow> bool) \<Rightarrow> tstate \<Rightarrow> tstate \<Rightarrow> ast_node \<Rightarrow> bool" where
  "ready U st m n \<longleftrightarrow> type_errors m = type_errors st \<and> ids n \<inter> set (unwrapped st) = {} \<and>
     (\<forall>i \<in> nid ` set (proper_exprs n). U i \<longleftrightarrow> i \<in> set (unwrapped m)) \<and>
     distinct (map nid (sub_exprs n)) \<and> minus_unmarked (unwrapped m) n \<and> known_names (name_types st) n"

lemma sub_exprs_of_child:
  assumes "x \<in> set (expr_children n)"
  shows "known_names names n \<Longrightarrow> known_names names x" "minus_unmarked marked n \<Longrightarrow> minus_unmarked marked x"
  using sub_exprs_child [OF assms] by (auto simp: known_names_def minus_unmarked_def list_all_iff sub_exprs_split [of n])

lemma extends_step: "extends I a b \<Longrightarrow> extends J b c \<Longrightarrow> extends (I \<union> J) a c"
  by (erule (1) extends_trans) simp

lemma no_errors_between:
  assumes "extends A st s1" "extends I s1 m" "extends B m st'" "type_errors st' = type_errors st"
  shows "type_errors m = type_errors s1" "type_errors st' = type_errors m"
proof -
  have 1: "type_errors st' = type_errors s1" using extends_no_error [OF assms(1) extends_step [OF assms(2,3)] assms(4)] by simp
  show "type_errors m = type_errors s1" "type_errors st' = type_errors m"
    using extends_no_error [OF assms(2,3) 1] by simp_all
qed

lemma ready_child:
  assumes "ready U st st' n" and "expr_children n = us @ x # vs"
    and "extends (\<Union>y \<in> set us. ids y) st s1" and "extends (own_ids x) s1 m" and "extends B m st'"
    and "B \<inter> nid ` set (proper_exprs x) = {}"
  shows "ready U s1 m x" "nid x \<notin> set (unwrapped m)" "type_errors st' = type_errors m"
    "U (nid x) \<longleftrightarrow> nid x \<in> set (unwrapped st')"
proof -
  have x: "x \<in> set (expr_children n)" using assms(2) by simp
  note r = assms(1) [unfolded ready_def]
  note d = distinct_children [OF conjunct1 [OF conjunct2 [OF conjunct2 [OF conjunct2 [OF r]]]] assms(2)]
  have proper: "nid ` set (proper_exprs x) \<subseteq> ids x" by (auto simp: ids_def sub_exprs_split [of x])
  have inside: "ids x \<subseteq> nid ` set (proper_exprs n)" using sub_exprs_child [OF x] by (auto simp: ids_def)
  have "ids x \<subseteq> ids n" using inside by (auto simp: ids_def sub_exprs_split [of n])
  moreover have "set (unwrapped s1) \<subseteq> set (unwrapped st) \<union> (\<Union>y \<in> set us. ids y)"
    using assms(3) by (simp add: extends_def)
  ultimately have fresh: "ids x \<inter> set (unwrapped s1) = {}" using r d(2) by blast
  have err: "type_errors m = type_errors s1" "type_errors st' = type_errors m"
    using no_errors_between [OF assms(3-5)] r by simp_all
  have marks: "minus_unmarked (unwrapped m) x"
    using sub_exprs_of_child(2) [OF x, of "unwrapped st'"] r assms(5) unfolding extends_def minus_unmarked_def list_all_iff by blast
  have "U i \<longleftrightarrow> i \<in> set (unwrapped m)" if "i \<in> nid ` set (proper_exprs x)" for i
  proof -
    have "U i \<longleftrightarrow> i \<in> set (unwrapped st')" using r that proper inside by blast
    with assms(5,6) that show ?thesis unfolding extends_def by blast
  qed
  moreover have "known_names (name_types s1) x" using sub_exprs_of_child(1) [OF x] r assms(3) by (simp add: extends_def)
  ultimately show "ready U s1 m x" unfolding ready_def using err(1) fresh d(1) marks by blast
  have "is_usub x \<longrightarrow> nid x \<notin> set (unwrapped m)" using marks by (simp add: minus_unmarked_def sub_exprs_split [of x])
  moreover have "set (unwrapped m) \<subseteq> set (unwrapped s1) \<union> own_ids x" using assms(4) by (simp add: extends_def)
  moreover have "own_ids x \<subseteq> nid ` set (proper_exprs x)" if "\<not> is_usub x" using that by (simp add: own_ids_def)
  ultimately show "nid x \<notin> set (unwrapped m)" using fresh d(4) nid_ids [of x] by blast
  show "type_errors st' = type_errors m" by (rule err(2))
  show "U (nid x) \<longleftrightarrow> nid x \<in> set (unwrapped st')" using r inside nid_ids [of x] by blast
qed

section \<open>Reading a checked operand\<close>

lemma is_compatible_cases:
  "is_compatible_type ct t a True = Inr (Compatible None) \<Longrightarrow> compatible ct t a = Inr True"
  "is_compatible_type ct t a True = Inr (Compatible (Some u)) \<Longrightarrow>
     maybe_post_execution_type ct t = Inr (Some u) \<and> compatible ct u a = Inr True"
  by (auto simp: is_compatible_type_def caught_def bindR_def split: sum.splits type_exc.splits if_splits option.splits)

lemma same_type_conforms: "same_type t u \<Longrightarrow> conforms any ct t v \<longleftrightarrow> conforms any ct u v"
proof (induction t arbitrary: u v rule: measure_induct_rule [where f = size])
  case (less t)
  show ?case
  proof (cases "t = u")
    case False
    with less.prems consider ts us where "t = UnionT ts" "u = UnionT us" | c ts us where "t = GenT c ts" "u = GenT c us"
      by (subst (asm) same_type.simps) (auto split: ty.splits)
    then show ?thesis
    proof cases
      case (1 ts us)
      with less.prems have m: "\<forall>x \<in> set ts. \<exists>y \<in> set us. same_type x y" "\<forall>y \<in> set us. \<exists>x \<in> set ts. same_type x y"
        by (subst (asm) same_type.simps, simp add: list_all_iff list_ex_iff)+
      have "\<And>x y. x \<in> set ts \<Longrightarrow> same_type x y \<Longrightarrow> conforms any ct x v \<longleftrightarrow> conforms any ct y v"
        using less.IH arg_size 1 by simp
      with m 1 show ?thesis by (simp add: list_ex_iff) blast
    next
      case (2 c ts us)
      with less.prems have m: "length ts = length us" "list_all (\<lambda>(x, y). same_type x y) (zip ts us)"
        by (subst (asm) same_type.simps, simp)+
      have IH: "\<And>x y v. x \<in> set ts \<Longrightarrow> same_type x y \<Longrightarrow> conforms any ct x v \<longleftrightarrow> conforms any ct y v"
        using less.IH arg_size 2 by simp
      show ?thesis
      proof (cases "\<exists>x. ts = [x]")
        case True
        then obtain x y where xy: "ts = [x]" "us = [y]" using m(1) by (cases us) auto
        with m(2) IH have "\<And>v. conforms any ct x v \<longleftrightarrow> conforms any ct y v" by simp
        then show ?thesis by (simp add: 2 xy list_all_iff split: pyval.splits)
      next
        case False
        then have "\<nexists>y. us = [y]" using m(1) by (auto simp: length_Suc_conv)
        with False 2 show ?thesis by (auto split: list.splits)
      qed
    qed
  qed simp
qed

context convertible_hierarchy
begin

text \<open>A value of a type that converts after execution can be unwrapped to a value of the new type.\<close>

lemma post_execution_value:
  assumes "maybe_post_execution_type ct t = Inr (Some u)" and "inhabits ct t v"
  obtains d w where "v = VConv d w" "conforms False ct u w"
proof (cases t)
  case (ClassT c)
  then have "converts_to ct c = Some u" using assms(1) by (simp add: maybe_post_execution_type_def split: if_splits)
  moreover have "is_subclass ct (class_of v) c"
  proof -
    have "c \<notin> {''int'', ''float''}" using calculation builtin_plain [of c u] sub_refl by blast
    then show ?thesis using assms(2) ClassT by (simp add: inhabits_def conforms.simps(3) instance_check_other isinstance_def)
  qed
  ultimately show ?thesis using assms(2) that unfolding inhabits_def proper_def by blast
next
  case (GenT c ts)
  with assms(2) obtain s where s: "ts = [s]" by (auto simp: inhabits_def split: list.splits)
  show ?thesis
  proof (cases "c = ''Entity''")
    case True
    with assms GenT s that show ?thesis by (auto simp: maybe_post_execution_type_def inhabits_def split: pyval.splits)
  next
    case False
    with assms(1) GenT have "converts_to ct c = Some u" by (simp add: maybe_post_execution_type_def)
    moreover from this have "c \<notin> {''List'', ''ConstExpr''}" using generic_plain by auto
    with assms(2) GenT s False have "is_subclass ct (class_of v) c" by (simp add: inhabits_def isinstance_def)
    ultimately show ?thesis using assms(2) that unfolding inhabits_def proper_def by blast
  qed
qed (use assms(1) in \<open>simp_all add: maybe_post_execution_type_def\<close>)

lemma compatible_reads:
  assumes "is_compatible_type ct t a True = Inr (Compatible u)" and "U (nid x) \<longleftrightarrow> u \<noteq> None"
  shows "reads_as ct U x t a"
proof (cases u)
  case None
  with assms have "compatible ct t a = Inr True" by (simp add: is_compatible_cases(1))
  with compatible_sound None assms(2) show ?thesis by (simp add: reads_as_def unwrap_value_def inhabits_def)
next
  case (Some s)
  show ?thesis unfolding reads_as_def
  proof (intro allI impI)
    fix v assume v: "inhabits ct t v"
    have s: "maybe_post_execution_type ct t = Inr (Some s)" "compatible ct s a = Inr True"
      using is_compatible_cases(2) assms(1) Some by blast+
    from post_execution_value [OF s(1) v] obtain d w where "v = VConv d w" "conforms False ct s w" .
    with compatible_sound [OF s(2)] assms(2) Some show "\<exists>w. unwrap_value (U (nid x)) v = Inr w \<and> conforms True ct a w"
      by (simp add: unwrap_value_def)
  qed
qed

lemma reads_any:
  assumes "U (nid x) \<Longrightarrow> maybe_post_execution_type ct t = Inr (Some u)"
  shows "reads_as ct U x t AnyT"
proof (cases "U (nid x)")
  case True
  with post_execution_value [OF assms] show ?thesis by (fastforce simp: reads_as_def unwrap_value_def)
qed (simp add: reads_as_def unwrap_value_def)

lemma reads_as_any: "reads_as ct U x t a \<Longrightarrow> reads_as ct U x t AnyT"
  unfolding reads_as_def by fastforce

end

section \<open>From a run to the typing judgement\<close>

definition name_type :: "(string, type_and_span) dict \<Rightarrow> string \<Rightarrow> ty option" where
  "name_type names k = map_option ts_type (map_of names k)"

text \<open>The type that the checker gives to a call when the names have these types.\<close>

definition call_type :: "tenv \<Rightarrow> (string \<Rightarrow> tstate \<Rightarrow> tstate result) \<Rightarrow> (string, type_and_span) dict \<Rightarrow> ast_node \<Rightarrow> ty \<Rightarrow> bool" where
  "call_type env imp names n t \<longleftrightarrow>
     (\<exists>par s s'. name_types s = names \<and> validate_expression env imp par n s = Inr (t, s'))"

abbreviation typed_in :: "tenv \<Rightarrow> (string \<Rightarrow> tstate \<Rightarrow> tstate result) \<Rightarrow> tstate \<Rightarrow> (nat \<Rightarrow> bool) \<Rightarrow> ast_node \<Rightarrow> ty \<Rightarrow> bool" where
  "typed_in env imp st \<equiv> typed (te_classes env) (name_type (name_types st)) (call_type env imp (name_types st))"

definition accepted :: "tenv \<Rightarrow> (string \<Rightarrow> tstate \<Rightarrow> tstate result) \<Rightarrow> (nat \<Rightarrow> bool) \<Rightarrow> ast_node \<Rightarrow> bool" where
  "accepted env imp U x \<longleftrightarrow> (\<forall>par s t m. validate_expression env imp par x s = Inr (t, m) \<longrightarrow> ready U s m x \<longrightarrow>
     typed_in env imp s U x t)"

lemma acceptedD:
  "accepted env imp U x \<Longrightarrow> validate_expression env imp par x s = Inr (t, m) \<Longrightarrow> ready U s m x \<Longrightarrow>
     typed_in env imp s U x t"
  by (simp add: accepted_def)

lemma extends_mark: "extends I a b \<Longrightarrow> i \<notin> I \<Longrightarrow> i \<in> set (unwrapped b) \<longleftrightarrow> i \<in> set (unwrapped a)"
  unfolding extends_def by blast

lemma extends_names: "extends I a b \<Longrightarrow> name_types b = name_types a"
  by (simp add: extends_def)

text \<open>
  One sub-expression of a list of them: the steps before it, the check of the expression, what its
  parent does with it, and the steps after it.
\<close>

lemma loop_child:
  assumes ready: "ready U st st' n" and "expr_children n = us @ x # vs" and frame: "frame_at env imp x"
    and acc: "accepted env imp U x"
    and "extends (\<Union>y \<in> set us. ids y) st s1" and run: "validate_expression env imp par x s1 = Inr (t, m)"
    and "extends {nid x} m s2" and "extends (\<Union>y \<in> set vs. ids y) s2 st'"
  shows "typed_in env imp st U x t" "U (nid x) \<longleftrightarrow> nid x \<in> set (unwrapped s2)" "nid x \<notin> set (unwrapped m)"
    "type_errors s2 = type_errors m"
proof -
  note d = distinct_children [OF _ assms(2)]
  have dn: "distinct (map nid (sub_exprs n))" using ready by (simp add: ready_def)
  have "nid ` set (proper_exprs x) \<subseteq> ids x" by (auto simp: ids_def sub_exprs_split [of x])
  then have B: "({nid x} \<union> (\<Union>y \<in> set vs. ids y)) \<inter> nid ` set (proper_exprs x) = {}"
    using d(3,4) [OF dn] by blast
  have rest: "extends ({nid x} \<union> (\<Union>y \<in> set vs. ids y)) m st'" by (rule extends_step [OF assms(7,8)])
  note c = ready_child [OF ready assms(2,5) frame_atD [OF frame run] rest B]
  have "name_types s1 = name_types st" by (rule extends_names [OF assms(5)])
  with acceptedD [OF acc run c(1)] show "typed_in env imp st U x t" by simp
  have "nid x \<notin> (\<Union>y \<in> set vs. ids y)" using d(3) [OF dn] nid_ids [of x] by blast
  with c(4) extends_mark [OF assms(8)] show "U (nid x) \<longleftrightarrow> nid x \<in> set (unwrapped s2)" by simp
  show "nid x \<notin> set (unwrapped m)" by (rule c(2))
  show "type_errors s2 = type_errors m" using extends_no_error [OF assms(7,8) c(3)] by simp
qed

text \<open>The two sides of an operator.\<close>

lemma two_children:
  assumes ready: "ready U st st' n" and "expr_children n = [l, r]" and "frame_at env imp l" and "frame_at env imp r"
    and "accepted env imp U l" and "accepted env imp U r"
    and l: "validate_expression env imp par l st = Inr (lt, st1)" and r: "validate_expression env imp par r st1 = Inr (rt, st2)"
    and rest: "extends {nid l, nid r} st2 st'"
  shows "typed_in env imp st U l lt" "typed_in env imp st U r rt" "nid l \<notin> set (unwrapped st2)" "nid r \<notin> set (unwrapped st2)"
    "U (nid l) \<longleftrightarrow> nid l \<in> set (unwrapped st')" "U (nid r) \<longleftrightarrow> nid r \<in> set (unwrapped st')"
    "type_errors st' = type_errors st2" "nid l \<noteq> nid r"
proof -
  have dn: "distinct (map nid (sub_exprs n))" using ready by (simp add: ready_def)
  have split: "expr_children n = [] @ l # [r]" "expr_children n = [l] @ r # []" using assms(2) by simp_all
  note dl = distinct_children [OF dn split(1)] and dr = distinct_children [OF dn split(2)]
  have proper: "nid ` set (proper_exprs x) \<subseteq> ids x" for x by (auto simp: ids_def sub_exprs_split [of x])
  have el: "extends (own_ids l) st st1" and er: "extends (own_ids r) st1 st2"
    by (rule frame_atD [OF assms(3) l], rule frame_atD [OF assms(4) r])
  have apart: "ids l \<inter> ids r = {}" using dl(3) by (simp add: Int_commute)
  have "({nid l, nid r} \<union> ids r) \<inter> nid ` set (proper_exprs l) = {}"
    using apart dl(4) proper [of l] nid_ids [of r] by blast
  moreover have "extends ({nid l, nid r} \<union> ids r) st1 st'"
    by (rule extends_trans [OF er rest]) (use own_ids_ids in auto)
  ultimately have L: "ready U st st1 l" "nid l \<notin> set (unwrapped st1)" "U (nid l) \<longleftrightarrow> nid l \<in> set (unwrapped st')"
    using ready_child [OF ready split(1) _ el] by auto
  have "{nid l, nid r} \<inter> nid ` set (proper_exprs r) = {}"
    using apart dr(4) proper [of r] nid_ids [of l] by blast
  moreover have "extends (\<Union>y \<in> set [l]. ids y) st st1" using extends_mono [OF el own_ids_ids] by simp
  ultimately have R: "ready U st1 st2 r" "nid r \<notin> set (unwrapped st2)" "U (nid r) \<longleftrightarrow> nid r \<in> set (unwrapped st')"
      "type_errors st' = type_errors st2"
    using ready_child [OF ready split(2) _ er rest] by auto
  show "typed_in env imp st U l lt" by (rule acceptedD [OF assms(5) l L(1)])
  show "typed_in env imp st U r rt" using acceptedD [OF assms(6) r R(1)] extends_names [OF el] by simp
  show "nid l \<noteq> nid r" using apart nid_ids [of l] nid_ids [of r] by (metis disjoint_iff)
  have "nid l \<notin> own_ids r" using apart own_ids_ids [of r] nid_ids [of l] by blast
  with L(2) extends_mark [OF er] show "nid l \<notin> set (unwrapped st2)" by simp
  show "nid r \<notin> set (unwrapped st2)" "type_errors st' = type_errors st2" by (rule R(2), rule R(4))
  show "U (nid l) \<longleftrightarrow> nid l \<in> set (unwrapped st')" "U (nid r) \<longleftrightarrow> nid r \<in> set (unwrapped st')" by (rule L(3), rule R(3))
qed

section \<open>Operators\<close>

lemma unwrap_operand_marks:
  assumes "unwrap_operand ul l (lt, st) = (lt', st1)" and "unwrap_operand ur r (rt, st1) = (rt', st2)"
    and "nid l \<noteq> nid r" and "nid l \<notin> set (unwrapped st)" and "nid r \<notin> set (unwrapped st)"
  shows "nid l \<in> set (unwrapped st2) \<longleftrightarrow> ul \<noteq> None" "nid r \<in> set (unwrapped st2) \<longleftrightarrow> ur \<noteq> None"
    "lt' = (case ul of None \<Rightarrow> lt | Some u \<Rightarrow> u)" "rt' = (case ur of None \<Rightarrow> rt | Some u \<Rightarrow> u)"
  using assms by (auto simp: unwrap_operand_def unwrap_node_def split: option.splits)

lemma any_never_unwraps: "is_compatible_type ct t AnyT b = Inr (Compatible u) \<Longrightarrow> u = None"
  by (auto simp: is_compatible_type_def caught_def compatible.simps)

text \<open>What the hook of a comparison marks.\<close>

lemma equality_hook_marks:
  assumes "equality_hook env c sp l r lt rt st = Inr st'"
  obtains "set (unwrapped st') = set (unwrapped st)" | m where "type_errors st' = type_errors st @ [m]"
  | u where "set (unwrapped st') = insert (nid l) (set (unwrapped st))" "maybe_post_execution_type (te_classes env) lt = Inr (Some u)"
  | u where "set (unwrapped st') = insert (nid r) (set (unwrapped st))" "maybe_post_execution_type (te_classes env) rt = Inr (Some u)"
proof -
  from assms obtain cl cr where c: "compat_info env lt rt True = Inr cl" "compat_info env rt lt True = Inr cr"
    by (auto simp: equality_hook_def elim!: bindRE)
  from assms c obtain st1 where w: "st1 = st \<or> (\<exists>m. st1 = type_warning m st)" and
    h: "(let has_valid_transition = (cl \<noteq> None \<or> cr \<noteq> None \<or> (lt = NoneT \<or> rt = NoneT));
           without_unwrap = ((lt = NoneT \<or> rt = NoneT) \<or> cl = Some None \<or> cr = Some None)
       in if \<not> has_valid_transition then
              incompatible_sides ''left and right sides have incompatible types''
                (if c = Equals then ''False'' else ''True'') ''has type '' sp l r lt rt rt ''has type '' st1
            else if \<not> without_unwrap then
              Inr (case cl of Some (Some _) \<Rightarrow> unwrap_node l st1 | _ \<Rightarrow> unwrap_node r st1)
            else Inr st1) = Inr st'"
    unfolding equality_hook_def Let_def by (auto elim!: bindRE simp: none_warning_def Let_def split: if_splits)
  have st1: "unwrapped st1 = unwrapped st" "type_errors st1 = type_errors st" using w by (auto simp: type_warning_def)
  have post: "maybe_post_execution_type (te_classes env) a = Inr (Some u)" if "compat_info env a b True = Inr (Some (Some u))" for a b u
    using that is_compatible_cases(2) by (auto simp: compat_info_conv)
  consider "st' = st1" | m where "st' = type_error m st1" | u where "cl = Some (Some u)" "st' = unwrap_node l st1"
    | u where "cr = Some (Some u)" "st' = unwrap_node r st1"
    using h by (cases cl; cases cr; cases "the cl"; cases "the cr")
      (auto simp: Let_def incompatible_sides_def elim!: bindRE split: if_splits)
  then show ?thesis
  proof cases
    case 1
    with st1 that(1) show ?thesis by simp
  next
    case (2 m)
    with st1 that(2) show ?thesis by (simp add: type_error_def)
  next
    case (3 u)
    with st1 post [of lt rt u] c that(3) show ?thesis by (simp add: unwrap_node_def)
  next
    case (4 u)
    with st1 post [of rt lt u] c that(4) show ?thesis by (simp add: unwrap_node_def)
  qed
qed

lemma membership_hook_marks:
  assumes "membership_hook env c sp l r lt rt st = Inr st'"
  obtains "set (unwrapped st') = set (unwrapped st)" | m where "type_errors st' = type_errors st @ [m]"
  | u where "is_list rt" "set (unwrapped st') = insert (nid l) (set (unwrapped st))"
      "maybe_post_execution_type (te_classes env) lt = Inr (Some u)"
proof (cases "is_list rt")
  case True
  from assms True obtain item cl ci where c: "compat_info env lt item True = Inr cl" "compat_info env item lt False = Inr ci"
    and h: "(if cl = None \<and> ci = None then
            incompatible_sides ''item has incompatible type with list elements''
              (if c = In then ''False'' else ''True'') ''list items have type '' sp l r lt item rt ''has type '' st
          else if ci = None \<and> cl \<noteq> Some None then Inr (unwrap_node l st)
          else Inr st) = Inr st'"
    by (auto simp: membership_hook_def elim!: bindRE)
  consider "st' = st" | m where "st' = type_error m st" | u where "cl = Some (Some u)" "st' = unwrap_node l st"
    using h by (cases cl; cases "the cl") (auto simp: incompatible_sides_def elim!: bindRE split: if_splits)
  then show ?thesis
  proof cases
    case (3 u)
    with c is_compatible_cases(2) [of "te_classes env" lt item u] that(3) True show ?thesis
      by (simp add: unwrap_node_def compat_info_conv)
  qed (use that in \<open>simp_all add: type_error_def\<close>)
next
  case False
  with assms that(1) show ?thesis by (simp add: membership_hook_def)
qed

lemma list_no_string: "compatible ct t StrT = Inr True \<Longrightarrow> \<not> is_list t"
  by (cases t; subst (asm) compatible.simps)
    (auto simp: is_list_def unwrap_const_expr_def is_const_expr_def is_single_arg_invariant_generic_def split: if_splits)

context convertible_hierarchy
begin

lemma applies_reads:
  assumes ct: "te_classes env = ct" and "applies env (\<lambda>_ _ st. Inr st) l r lt rt st x st'"
    and "nid l \<noteq> nid r" and "nid l \<notin> set (unwrapped st)" and "nid r \<notin> set (unwrapped st)"
    and "U (nid l) \<longleftrightarrow> nid l \<in> set (unwrapped st')" and "U (nid r) \<longleftrightarrow> nid r \<in> set (unwrapped st')"
  shows "reads_as ct U l lt (valid_left_type x)" "reads_as ct U r rt (valid_right_type x)"
proof -
  from assms(2) obtain ul ur lt' rt' st1 where a:
    "is_compatible_type ct lt (valid_left_type x) True = Inr (Compatible ul)"
    "is_compatible_type ct rt (valid_right_type x) True = Inr (Compatible ur)"
    "unwrap_operand ul l (lt, st) = (lt', st1)" "unwrap_operand ur r (rt, st1) = (rt', st')"
    by (auto simp: applies_def ct)
  note m = unwrap_operand_marks [OF a(3,4) assms(3-5)]
  show "reads_as ct U l lt (valid_left_type x)" by (rule compatible_reads [OF a(1)]) (use m assms(6) in simp)
  show "reads_as ct U r rt (valid_right_type x)" by (rule compatible_reads [OF a(2)]) (use m assms(7) in simp)
qed

lemma comparison_reads:
  assumes ct: "te_classes env = ct" and "applies env (comparison_hook env c sp l r) l r lt rt st x st'"
    and x: "x \<in> set (binary_comparison_transitions c)" and "type_errors st' = type_errors st"
    and "nid l \<noteq> nid r" and "nid l \<notin> set (unwrapped st)" and "nid r \<notin> set (unwrapped st)"
    and U: "U (nid l) \<longleftrightarrow> nid l \<in> set (unwrapped st')" "U (nid r) \<longleftrightarrow> nid r \<in> set (unwrapped st')"
  shows "reads_as ct U l lt (valid_left_type x) \<and> reads_as ct U r rt (valid_right_type x)"
proof (cases "c \<in> {Equals, NotEquals, In, NotIn}")
  case False
  then have "comparison_hook env c sp l r = (\<lambda>_ _ st. Inr st)" by (auto simp: comparison_hook_def)
  with applies_reads [OF ct _ assms(5-7) U] assms(2) show ?thesis by simp
next
  case True
  from assms(2) obtain ul ur lt' rt' st1 st2 where a:
    "is_compatible_type ct lt (valid_left_type x) True = Inr (Compatible ul)"
    "is_compatible_type ct rt (valid_right_type x) True = Inr (Compatible ur)"
    "unwrap_operand ul l (lt, st) = (lt', st1)" "unwrap_operand ur r (rt, st1) = (rt', st2)"
    "comparison_hook env c sp l r lt' rt' st2 = Inr st'" by (auto simp: applies_def ct)
  note m = unwrap_operand_marks [OF a(3,4) assms(5-7)]
  have e: "type_errors st2 = type_errors st"
    using a(3,4) by (auto simp: unwrap_operand_def unwrap_node_def split: option.splits)
  note L = compatible_reads [OF a(1), of U l] and R = compatible_reads [OF a(2), of U r]
  show ?thesis
  proof (cases "c \<in> {Equals, NotEquals}")
    case True
    then have any: "valid_left_type x = AnyT" "valid_right_type x = AnyT" using x by (auto simp: binary_comparison_transitions_def)
    then have n: "ul = None" "ur = None" using a(1,2) any_never_unwraps by metis+
    have hook: "equality_hook env c sp l r lt rt st2 = Inr st'" using a(5) m(3,4) n True by (simp add: comparison_hook_def)
    have m2: "nid l \<notin> set (unwrapped st2)" "nid r \<notin> set (unwrapped st2)" using m(1,2) n by simp_all
    show ?thesis using hook
    proof (cases rule: equality_hook_marks)
      case 1
      with L R U m2 n show ?thesis by simp
    next
      case (2 msg)
      with e assms(4) show ?thesis by simp
    next
      case (3 u)
      with R U m2 n assms(5) reads_any [of U l lt u] any show ?thesis by (simp add: ct)
    next
      case (4 u)
      with L U m2 n assms(5) reads_any [of U r rt u] any show ?thesis by (simp add: ct)
    qed
  next
    case False
    with True have hook: "membership_hook env c sp l r lt' rt' st2 = Inr st'" using a(5) by (simp add: comparison_hook_def)
    have x': "x = tr StrT StrT BoolT \<or> x = tr AnyT (ListT AnyT) BoolT"
      using x True False by (auto simp: binary_comparison_transitions_def)
    from hook show ?thesis
    proof (cases rule: membership_hook_marks)
      case 1
      with L R U m show ?thesis by simp
    next
      case (2 msg)
      with e assms(4) show ?thesis by simp
    next
      case (3 u)
      have "x = tr AnyT (ListT AnyT) BoolT"
      proof (rule ccontr)
        assume "x \<noteq> tr AnyT (ListT AnyT) BoolT"
        with x' have "compatible ct rt' StrT = Inr True"
          using a(2) m(4) is_compatible_cases by (cases ur) auto
        with 3(1) list_no_string show False by blast
      qed
      with a(1) any_never_unwraps have n: "valid_left_type x = AnyT" "ul = None" by auto
      with 3 m(2,3) U(2) assms(5) R reads_any [of U l lt u] show ?thesis by (simp add: ct)
    qed
  qed
qed

end

section \<open>Accepted expressions are typed\<close>

lemma insert_type_grows: "set ts \<subseteq> set (insert_type t ts)" "\<exists>u \<in> set (insert_type t ts). same_type t u \<or> t = u"
  by (auto simp: insert_type_def list_ex_iff)

lemma list_types_grow: "loopR (list_step env imp n) items (ts, st) = Inr (ts', st') \<Longrightarrow> set ts \<subseteq> set ts'"
  using insert_type_grows(1) by (induction items arbitrary: ts st) (auto elim!: bindRE, blast)

lemma checked_compatible:
  assumes "check_compatible_type env t a msg x h spans m = Inr s2" and "type_errors s2 = type_errors m"
    and "nid x \<notin> set (unwrapped m)" and "U (nid x) \<longleftrightarrow> nid x \<in> set (unwrapped s2)"
  obtains u where "is_compatible_type (te_classes env) t a True = Inr (Compatible u)" "U (nid x) \<longleftrightarrow> u \<noteq> None"
  using assms(1,2)
proof (rule check_compatible_ok)
  fix u assume "is_compatible_type (te_classes env) t a True = Inr (Compatible u)"
    and "s2 = (case u of None \<Rightarrow> m | Some _ \<Rightarrow> unwrap_node x m)"
  with that assms(3,4) show ?thesis by (auto simp: unwrap_node_def split: option.splits)
qed

lemma format_name_cases:
  assumes "validate_format_name env x (u, m) = Inr s2"
  shows "\<exists>msg h spans st1. check_compatible_type env u format_types msg x h spans m = Inr st1 \<and>
    (st1 = s2 \<or> (\<exists>k. s2 = type_error k st1))"
proof -
  from assms obtain msg h spans st1 where c: "check_compatible_type env u format_types msg x h spans m = Inr st1"
    and r: "(case x of
         Name m i _ \<Rightarrow>
           (case map_of (name_types st1) (identifier_key m i) of
              None \<Rightarrow> Inl KeyError
            | Some ts \<Rightarrow> Inr (if ts_can_extract ts then st1
                else type_error (message_with ''format strings can not include non-extractable features'' (node_span m)
                  (''name '' @ [char_of (39 :: nat)] @ i @ [char_of (39 :: nat)] @ '' is marked as non-extractable'') [] []) st1))
       | _ \<Rightarrow> Inl (OtherException ''AttributeError'')) = Inr s2"
    by (auto simp: validate_format_name_def elim!: bindRE)
  from r have "st1 = s2 \<or> (\<exists>k. s2 = type_error k st1)" by (auto split: ast_node.splits option.splits if_splits)
  with c show ?thesis by blast
qed

context convertible_hierarchy
begin

lemma accept_list:
  assumes run: "validate_expression env imp par (ListLit lm items) st = Inr (t, st')" and ready: "ready U st st' (ListLit lm items)"
    and frame: "\<And>x. x \<in> set items \<Longrightarrow> frame_at env imp x" and acc: "\<And>x. x \<in> set items \<Longrightarrow> accepted env imp U x"
    and ct: "te_classes env = ct"
  shows "typed_in env imp st U (ListLit lm items) t"
proof -
  let ?n = "ListLit lm items"
  from run obtain ts s where s: "loopR (list_step env imp ?n) items ([], st) = Inr (ts, s)" "validate_list par lm ts s = (t, st')"
    by (rule run_list)
  have step: "True \<and> extends (ids y) (snd p) (snd p')" if "y \<in> set items" "list_step env imp ?n y p = Inr p'" for y p p'
    by (rule list_step_extends [OF frame [OF that(1)] that(2)])
  have last: "extends {} s st'" by (rule validate_list_extends [OF s(2)])
  have "True \<and> extends (\<Union>y \<in> set items. ids y) (snd ([] :: ty list, st)) (snd (ts, s))"
    by (rule loop_frame [where Q = "\<lambda>_. True" and p = snd, OF s(1) TrueI step])
  then have "type_errors st' = type_errors s" using extends_no_error [OF _ last] ready by (simp add: ready_def)
  with s(2) have shape: "ts = [] \<and> t = ListT AnyT \<or> (\<exists>u. ts = [u] \<and> t = ListT (coerce_none_type u))"
    by (auto simp: validate_list_def type_error_def split: list.splits)
  have item: "\<exists>u. typed_in env imp st U x u \<and> \<not> U (nid x) \<and> (\<exists>w \<in> set ts. same_type u w \<or> u = w)" if x: "x \<in> set items" for x
  proof -
    have "\<exists>us vs p1 p2. items = us @ x # vs \<and> True \<and> list_step env imp ?n x p1 = Inr p2 \<and>
        loopR (list_step env imp ?n) vs p2 = Inr (ts, s) \<and>
        extends (\<Union>y \<in> set us. ids y) (snd ([] :: ty list, st)) (snd p1) \<and> extends (\<Union>y \<in> set vs. ids y) (snd p2) (snd (ts, s))"
      by (rule loop_element [where p = snd, OF s(1) TrueI x]) (rule step, assumption+)
    then obtain us vs p1 p2 where e: "items = us @ x # vs" "list_step env imp ?n x p1 = Inr p2"
      "loopR (list_step env imp ?n) vs p2 = Inr (ts, s)"
      "extends (\<Union>y \<in> set us. ids y) st (snd p1)" "extends (\<Union>y \<in> set vs. ids y) (snd p2) s" unfolding snd_conv by blast
    from e(2) obtain ts1 s1 u m where u: "p1 = (ts1, s1)" "validate_expression env imp (Some ?n) x s1 = Inr (u, m)"
      "p2 = (insert_type u ts1, m)" by (cases p1) (auto elim!: bindRE)
    have rest: "extends (\<Union>y \<in> set vs. ids y) m st'" using extends_trans [OF e(5) last] u(3) by simp
    have "expr_children ?n = us @ x # vs" using e(1) by simp
    note c = loop_child [OF ready this frame [OF x] acc [OF x] _ u(2) extends_refl rest]
    have "set (insert_type u ts1) \<subseteq> set ts" using e(3) u(3) list_types_grow by blast
    with insert_type_grows(2) [of u ts1] c e(4) u(1) show ?thesis by (auto simp: subset_iff)
  qed
  show ?thesis
  proof (cases "ts = []")
    case True
    with item have "items = []" by (cases items) auto
    with True shape show ?thesis by (auto intro: typed.t_List)
  next
    case False
    with shape obtain w where w: "ts = [w]" "t = ListT (coerce_none_type w)" by blast
    show ?thesis unfolding w(2)
    proof (rule typed.t_List, rule)
      fix x assume "x \<in> set items"
      with item w(1) obtain u where "typed_in env imp st U x u" "\<not> U (nid x)" "same_type u w \<or> u = w" by auto
      with same_type_conforms [of u w False ct] show "\<exists>u. typed_in env imp st U x u \<and> \<not> U (nid x) \<and>
          (\<forall>v. conforms False (te_classes env) u v \<longrightarrow> conforms False (te_classes env) (coerce_none_type w) v)"
        by (auto simp: ct)
    qed
  qed
qed

lemma accept_call:
  assumes run: "validate_expression env imp par (Call cm f args) st = Inr (t, st')" and ready: "ready U st st' (Call cm f args)"
    and plain: "plain_node env (Call cm f args)"
    and frame: "\<And>k. k \<in> set args \<Longrightarrow> frame_at env imp (keyword_value k)"
    and acc: "\<And>k. k \<in> set args \<Longrightarrow> accepted env imp U (keyword_value k)"
  shows "typed_in env imp st U (Call cm f args) t"
proof -
  from run plain obtain sg generics rtv prev where s:
    "loopR (call_step env imp sg generics) args (None, None, st) = Inr (rtv, prev, st')" by (rule run_call)
  have step: "True \<and> extends (ids (keyword_value k)) (snd (snd p)) (snd (snd p'))"
    if "k \<in> set args" "call_step env imp sg generics k p = Inr p'" for k p p'
    by (rule call_step_extends [OF frame [OF that(1)] that(2)])
  have "\<exists>km name value u. k = Keyword km name value \<and> typed_in env imp st U value u" if k: "k \<in> set args" for k
  proof -
    have "\<exists>us vs p1 p2. args = us @ k # vs \<and> True \<and> call_step env imp sg generics k p1 = Inr p2 \<and>
        loopR (call_step env imp sg generics) vs p2 = Inr (rtv, prev, st') \<and>
        extends (\<Union>y \<in> set us. ids (keyword_value y)) (snd (snd (None :: ty option, None :: (string \<times> ast_node) option, st))) (snd (snd p1)) \<and>
        extends (\<Union>y \<in> set vs. ids (keyword_value y)) (snd (snd p2)) (snd (snd (rtv, prev, st')))"
      by (rule loop_element [where p = "\<lambda>s. snd (snd s)" and J = "\<lambda>k. ids (keyword_value k)", OF s TrueI k]) (rule step, assumption+)
    then obtain us vs p1 p2 where e: "args = us @ k # vs" "call_step env imp sg generics k p1 = Inr p2"
      "extends (\<Union>y \<in> set us. ids (keyword_value y)) st (snd (snd p1))"
      "extends (\<Union>y \<in> set vs. ids (keyword_value y)) (snd (snd p2)) st'" unfolding snd_conv by blast
    from e(2) obtain km name arg a b s1 u m where u: "k = Keyword km name arg" "p1 = (a, b, s1)"
      "validate_expression env imp (Some k) arg s1 = Inr (u, m)" "call_argument env sg generics name arg u (a, b, m) = Inr p2"
      by (cases p1; cases k) (auto elim!: bindRE)
    obtain a' b' s2 where p2: "p2 = (a', b', s2)" by (cases p2)
    have "expr_children (Call cm f args) = map keyword_value us @ arg # map keyword_value vs" using e(1) u(1) by simp
    from loop_child [OF ready this _ _ _ u(3) call_argument_extends [OF u(4) [unfolded p2]]] frame [OF k] acc [OF k] e(3,4) u(1,2) p2
    show ?thesis by auto
  qed
  moreover have "call_type env imp (name_types st) (Call cm f args) t" using run unfolding call_type_def by blast
  ultimately show ?thesis by (intro typed.t_Call) auto
qed

end

context convertible_hierarchy
begin

lemma accept_binary:
  assumes run: "validate_expression env imp par (BinaryOperation bm l r opn) st = Inr (t, st')"
    and ready: "ready U st st' (BinaryOperation bm l r opn)" and plain: "plain_node env (BinaryOperation bm l r opn)"
    and frame: "frame_at env imp l" "frame_at env imp r" and acc: "accepted env imp U l" "accepted env imp U r"
    and ct: "te_classes env = ct"
  shows "typed_in env imp st U (BinaryOperation bm l r opn) t"
proof -
  from run obtain par' om op lt rt st1 st2 where s: "opn = Operator om op"
    "validate_expression env imp par' l st = Inr (lt, st1)" "validate_expression env imp par' r st1 = Inr (rt, st2)"
    "validate_binary_operation env bm op l r lt rt st2 = Inr (t, st')" by (rule run_binary)
  note two = s(4) [unfolded validate_binary_operation_def]
  have rest: "extends {nid l, nid r} st2 st'" by (rule two_arg_extends [OF two]) simp
  note c = two_children [OF ready _ frame acc s(2,3) rest, simplified]
  from two_arg_cases [OF two] reported_errors c(7) obtain x where x: "x \<in> set (binary_operation_transitions op)"
    "t = resulting_type x" "applies env (\<lambda>_ _ st. Inr st) l r lt rt st2 x st'" by blast
  note reads = applies_reads [OF ct x(3) c(8) c(3,4) c(5,6)]
  have "op \<noteq> PowOp" using plain s(1) by (simp add: plain_node_def)
  with typed.t_Binary [OF c(1,2) x(1)] reads show ?thesis by (simp add: s(1) x(2) ct)
qed

lemma accept_comparison:
  assumes run: "validate_expression env imp par (BinaryComparison bm l r opn) st = Inr (t, st')"
    and ready: "ready U st st' (BinaryComparison bm l r opn)"
    and frame: "frame_at env imp l" "frame_at env imp r" and acc: "accepted env imp U l" "accepted env imp U r"
    and ct: "te_classes env = ct"
  shows "typed_in env imp st U (BinaryComparison bm l r opn) t"
proof -
  from run obtain par' om c lt rt st1 st2 where s: "opn = Comparator om c"
    "validate_expression env imp par' l st = Inr (lt, st1)" "validate_expression env imp par' r st1 = Inr (rt, st2)"
    "validate_binary_comparison env bm c l r lt rt st2 = Inr (t, st')" by (rule run_comparison)
  note two = s(4) [unfolded validate_binary_comparison_def]
  have rest: "extends {nid l, nid r} st2 st'" by (rule two_arg_extends [OF two]) (rule comparison_hook_extends)
  note h = two_children [OF ready _ frame acc s(2,3) rest, simplified]
  from two_arg_cases [OF two] reported_errors h(7) obtain x where x: "x \<in> set (binary_comparison_transitions c)"
    "t = resulting_type x" "applies env (comparison_hook env c (node_span bm) l r) l r lt rt st2 x st'" by blast
  note reads = comparison_reads [OF ct x(3,1) h(7,8) h(3,4) h(5,6)]
  have "resulting_type x = BoolT" using x(1) by (cases c) (auto simp: binary_comparison_transitions_def)
  with typed.t_Comparison [OF h(1,2) x(1)] reads show ?thesis by (simp add: s(1) x(2) ct)
qed

lemma accept_unary:
  assumes run: "validate_expression env imp par (UnaryOperation um x opn) st = Inr (t, st')"
    and ready: "ready U st st' (UnaryOperation um x opn)"
    and frame: "frame_at env imp x" and acc: "accepted env imp U x" and ct: "te_classes env = ct"
  shows "typed_in env imp st U (UnaryOperation um x opn) t"
proof -
  let ?n = "UnaryOperation um x opn"
  from run obtain om op u st1 where s: "opn = UnaryOperator om op"
    "validate_expression env imp (Some ?n) x st = Inr (u, st1)" "validate_unary_operation env op ?n x u st1 = Inr (t, st')"
    by (rule run_unary)
  have n: "expr_children ?n = [] @ x # []" by simp
  note ext = unary_extends [OF s(3)]
  show ?thesis
  proof (cases op)
    case NotOp
    have "extends {nid x} st1 st'" "extends {} st' st'" using ext NotOp by simp_all
    with loop_child [OF ready n frame acc _ s(2)] have c: "typed_in env imp st U x u"
      "U (nid x) \<longleftrightarrow> nid x \<in> set (unwrapped st')" "nid x \<notin> set (unwrapped st1)" "type_errors st' = type_errors st1" by auto
    show ?thesis using s(3) [unfolded NotOp]
    proof (cases rule: not_cases)
      case (1 w)
      then have "U (nid x) \<longleftrightarrow> w \<noteq> None" using c(2,3) by (auto simp: unwrap_node_def split: option.splits)
      with compatible_reads [of u BoolT w U x] 1(1) have "reads_as ct U x u AnyT" by (auto simp: ct intro: reads_as_any)
      with typed.t_Not [OF c(1)] 1(2) show ?thesis by (simp add: s(1) NotOp ct)
    next
      case (2 msg)
      with c(4) show ?thesis by (simp add: type_error_def)
    qed
  next
    case USub
    have dn: "distinct (map nid (sub_exprs ?n))" using ready by (simp add: ready_def)
    then have nx: "nid ?n \<notin> ids x" by (simp add: ids_def sub_exprs_split [of ?n] proper_exprs_def)
    have rest: "extends {nid ?n} st1 st'" using ext USub by simp
    have B: "{nid ?n} \<inter> nid ` set (proper_exprs x) = {}" using nx by (auto simp: ids_def sub_exprs_split [of x])
    have "extends (\<Union>y \<in> set []. ids y) st st" by simp
    note c = ready_child [OF ready n this frame_atD [OF frame s(2)] rest B]
    have "nid x \<noteq> nid ?n" using nx nid_ids [of x] by metis
    with c(2,4) extends_mark [OF rest] have unmarked: "\<not> U (nid x)" by simp
    have "is_usub ?n" by (simp add: is_usub_def s(1) USub)
    then have nu: "nid ?n \<notin> set (unwrapped st')"
      using ready by (simp add: ready_def minus_unmarked_def sub_exprs_split [of ?n])
    from s(3) USub obtain msg h spans where t: "t = u" and chk: "check_compatible_type env u INT_OR_FLOAT_T msg ?n h spans st1 = Inr st'"
      by (auto simp: validate_unary_operation_def check_operand_def elim!: bindRE)
    from chk c(3) obtain w where w: "is_compatible_type (te_classes env) u INT_OR_FLOAT_T True = Inr (Compatible w)"
      "st' = (case w of None \<Rightarrow> st1 | Some _ \<Rightarrow> unwrap_node ?n st1)" by (rule check_compatible_ok)
    with nu have "w = None" by (cases w) (simp_all add: unwrap_node_def)
    with compatible_reads [of u INT_OR_FLOAT_T w U x] w(1) unmarked have "reads_as ct U x u INT_OR_FLOAT_T" by (simp add: ct)
    with typed.t_USub [OF acceptedD [OF acc s(2) c(1)]] unmarked show ?thesis by (simp add: s(1) USub t ct)
  qed
qed

end

context convertible_hierarchy
begin

lemma accept_boolean:
  assumes run: "validate_expression env imp par (BooleanOperation bm vs opn) st = Inr (t, st')"
    and ready: "ready U st st' (BooleanOperation bm vs opn)" and plain: "plain_node env (BooleanOperation bm vs opn)"
    and frame: "\<And>x. x \<in> set vs \<Longrightarrow> frame_at env imp x" and acc: "\<And>x. x \<in> set vs \<Longrightarrow> accepted env imp U x"
    and ct: "te_classes env = ct"
  shows "typed_in env imp st U (BooleanOperation bm vs opn) t"
proof -
  let ?n = "BooleanOperation bm vs opn"
  from run obtain om op nw where s: "opn = BooleanOperand om op" "t = BoolT"
    "loopR (boolean_step env imp ?n op) vs ([], st) = Inr (nw, st')" by (rule run_boolean)
  have g: "\<not> null_guard op x" if "x \<in> set vs" for x using plain that s(1) by (simp add: plain_node_def list_all_iff)
  have step: "fst p' = [] \<and> extends (ids y) (snd p) (snd p')"
    if "y \<in> set vs" "fst p = []" "boolean_step env imp ?n op y p = Inr p'" for y p p'
    by (rule boolean_step_extends [OF frame [OF that(1)] g [OF that(1)] that(2,3)])
  have "\<exists>u. typed_in env imp st U x u \<and> reads_as ct U x u AnyT" if x: "x \<in> set vs" for x
  proof -
    have "\<exists>us ws p1 p2. vs = us @ x # ws \<and> fst p1 = [] \<and> boolean_step env imp ?n op x p1 = Inr p2 \<and>
        loopR (boolean_step env imp ?n op) ws p2 = Inr (nw, st') \<and>
        extends (\<Union>y \<in> set us. ids y) (snd ([] :: (string, ty) dict, st)) (snd p1) \<and>
        extends (\<Union>y \<in> set ws. ids y) (snd p2) (snd (nw, st'))"
      by (rule loop_element [where Q = "\<lambda>p. fst p = []" and p = snd, OF s(3) _ x]) (simp, rule step, assumption+)
    then obtain us ws p1 p2 where e: "vs = us @ x # ws" "fst p1 = []" "boolean_step env imp ?n op x p1 = Inr p2"
      "extends (\<Union>y \<in> set us. ids y) st (snd p1)" "extends (\<Union>y \<in> set ws. ids y) (snd p2) st'" unfolding snd_conv by blast
    obtain s1 nw2 s2 where p: "p1 = ([], s1)" "p2 = (nw2, s2)" using e(2) by (cases p1; cases p2) simp
    from operand_plain [OF e(3) [unfolded p] g [OF x]] obtain u m msg h spans where o:
      "validate_expression env imp (Some ?n) x s1 = Inr (u, m)" "check_compatible_type env u BoolT msg x h spans m = Inr s2" .
    have "expr_children ?n = us @ x # ws" using e(1) by simp
    note c = loop_child [OF ready this frame [OF x] acc [OF x] e(4) [unfolded p snd_conv] o(1) check_compatible_extends [OF o(2)]
        e(5) [unfolded p snd_conv]]
    from o(2) c(4,3,2) obtain w where "is_compatible_type (te_classes env) u BoolT True = Inr (Compatible w)" "U (nid x) \<longleftrightarrow> w \<noteq> None"
      by (rule checked_compatible)
    with compatible_reads [of u BoolT w U x] c(1) reads_as_any show ?thesis by (metis ct)
  qed
  then show ?thesis unfolding s(1,2) by (intro typed.t_Boolean) (simp add: ct)
qed

lemma accept_format:
  assumes run: "validate_expression env imp par (FormatString bm fmt names) st = Inr (t, st')"
    and ready: "ready U st st' (FormatString bm fmt names)"
    and frame: "\<And>x. x \<in> set names \<Longrightarrow> frame_at env imp x" and acc: "\<And>x. x \<in> set names \<Longrightarrow> accepted env imp U x"
    and ct: "te_classes env = ct"
  shows "typed_in env imp st U (FormatString bm fmt names) t"
proof -
  let ?n = "FormatString bm fmt names"
  from run obtain s: "loopR (format_step env imp ?n) names st = Inr st'" and t: "t = StrT" by (rule run_format)
  have step: "True \<and> extends (ids y) (id p) (id p')" if "y \<in> set names" "format_step env imp ?n y p = Inr p'" for y p p'
    using format_step_extends [OF frame [OF that(1)] that(2)] by simp
  have "\<exists>u. typed_in env imp st U x u \<and> reads_as ct U x u AnyT" if x: "x \<in> set names" for x
  proof -
    have "\<exists>us ws s1 s2. names = us @ x # ws \<and> True \<and> format_step env imp ?n x s1 = Inr s2 \<and>
        loopR (format_step env imp ?n) ws s2 = Inr st' \<and> extends (\<Union>y \<in> set us. ids y) (id st) (id s1) \<and>
        extends (\<Union>y \<in> set ws. ids y) (id s2) (id st')"
      by (rule loop_element [where p = id, OF s TrueI x]) (rule step, assumption+)
    then obtain us ws s1 s2 where e: "names = us @ x # ws" "format_step env imp ?n x s1 = Inr s2"
      "extends (\<Union>y \<in> set us. ids y) st s1" "extends (\<Union>y \<in> set ws. ids y) s2 st'" unfolding id_apply by blast
    from e(2) obtain u m where o: "validate_expression env imp (Some ?n) x s1 = Inr (u, m)" "validate_format_name env x (u, m) = Inr s2"
      by (auto elim!: bindRE)
    have "expr_children ?n = us @ x # ws" using e(1) by simp
    note c = loop_child [OF ready this frame [OF x] acc [OF x] e(3) o(1) format_name_extends [OF o(2)] e(4)]
    from format_name_cases [OF o(2)] obtain msg h spans st1 where st1:
      "check_compatible_type env u format_types msg x h spans m = Inr st1" "st1 = s2 \<or> (\<exists>k. s2 = type_error k st1)" by blast
    then have "extends {} st1 s2" by auto
    from extends_no_error [OF check_compatible_extends [OF st1(1)] this c(4)] st1(2) have "st1 = s2"
      by (auto simp: type_error_def)
    from st1(1) [unfolded this] c(4,3,2) obtain w where
      "is_compatible_type (te_classes env) u format_types True = Inr (Compatible w)" "U (nid x) \<longleftrightarrow> w \<noteq> None"
      by (rule checked_compatible)
    with compatible_reads [of u format_types w U x] c(1) reads_as_any show ?thesis by (metis ct)
  qed
  then show ?thesis unfolding t by (intro typed.t_Format) (simp add: ct)
qed

theorem validated_typed:
  assumes ct: "te_classes env = ct"
  shows "plain_expr env n \<Longrightarrow> accepted env imp U n"
proof (induction n rule: measure_induct_rule [where f = size])
  case (less n)
  have child: "frame_at env imp x" "accepted env imp U x" if "x \<in> set (expr_children n)" for x
    using validate_frame less.IH [OF expr_child_size [OF that]] plain_expr_child [OF less.prems that] by blast+
  have plain: "plain_node env n" by (rule plain_expr_node [OF less.prems])
  show ?case unfolding accepted_def
  proof (intro allI impI)
    fix par st t st' assume run: "validate_expression env imp par n st = Inr (t, st')" and ready: "ready U st st' n"
    show "typed_in env imp st U n t"
    proof (cases n)
      case (Name m i c)
      with ready obtain ts where "map_of (name_types st) (identifier_key m i) = Some ts"
        by (auto simp: ready_def known_names_def sub_exprs_split [of "Name m i c"])
      with run Name show ?thesis
        by (auto simp: validate_expression.simps validate_name_def name_type_def intro!: typed.t_Name)
    next
      case (Number m k)
      with run show ?thesis by (cases k) (auto simp: validate_expression.simps intro: typed.intros)
    next
      case (ListLit m items)
      with run ready child ct show ?thesis by (auto intro: accept_list)
    next
      case (Call m f args)
      with run ready child plain show ?thesis by (auto intro: accept_call)
    next
      case (BinaryOperation m l r opn)
      with run ready child plain ct show ?thesis by (auto intro: accept_binary)
    next
      case (UnaryOperation m x opn)
      with run ready child ct show ?thesis by (auto intro: accept_unary)
    next
      case (BinaryComparison m l r opn)
      with run ready child ct show ?thesis by (auto intro: accept_comparison)
    next
      case (BooleanOperation m vs opn)
      with run ready child plain ct show ?thesis by (auto intro: accept_boolean)
    next
      case (FormatString m fmt names)
      with run ready child ct show ?thesis by (auto intro: accept_format)
    next
      case (Attribute m x a c)
      with run ready show ?thesis by (auto simp: validate_expression.simps ready_def type_error_def)
    qed (use run in \<open>auto simp: validate_expression.simps intro: typed.intros\<close>)
  qed
qed

end

section \<open>Sub-expressions of a typed expression\<close>

lemma typed_children: "typed ct \<Gamma> \<Delta> U n t \<Longrightarrow> x \<in> set (expr_children n) \<Longrightarrow> \<exists>u. typed ct \<Gamma> \<Delta> U x u"
  by (erule typed.cases) (auto, fastforce+)

lemma typed_sub: "typed ct \<Gamma> \<Delta> U n t \<Longrightarrow> x \<in> set (sub_exprs n) \<Longrightarrow> \<exists>u. typed ct \<Gamma> \<Delta> U x u"
proof (induction n arbitrary: t rule: measure_induct_rule [where f = size])
  case (less n)
  show ?case
  proof (cases "x = n")
    case False
    with less.prems(2) obtain y where y: "y \<in> set (expr_children n)" "x \<in> set (sub_exprs y)"
      by (auto simp: sub_exprs_split [of n] proper_exprs_def)
    with typed_children [OF less.prems(1) y(1)] less.IH [OF expr_child_size [OF y(1)]] show ?thesis by blast
  qed (use less.prems in blast)
qed

section \<open>Soundness\<close>


section \<open>A concrete expression\<close>

text \<open>\<open>X + 1 > 3 and not (E == 7)\<close> with an integer \<open>X\<close> and an entity \<open>E\<close>, which is unwrapped.\<close>

definition demo_typing_env :: tenv where
  "demo_typing_env = \<lparr>te_classes = osprey_classes, te_udfs = (\<lambda>_. None), te_repr = to_display_str\<rparr>"

definition float_env :: py_env where
  "float_env = \<lparr>float_op = \<lambda>_ _ b. if b = VInt 0 then Inl ZeroDivisionError else Inr (VFloat 0), float_neg = \<lambda>_. Inr (VFloat 0),
     float_eq = (=), float_cmp = \<lambda>_ _ _. Inr False, obj_str = \<lambda>_. ''<object>'',
     format_field = \<lambda>_ _. Inl (ValueError ''format'')\<rparr>"

definition demo_name_type :: "ty \<Rightarrow> type_and_span" where
  "demo_name_type t = \<lparr>ts_type = t, ts_span = node_span (demo_meta 0), ts_should_extract = True, ts_can_extract = True,
     ts_source_annotation = None\<rparr>"

definition demo_typing_state :: tstate where
  "demo_typing_state = initial_tstate [(''X'', demo_name_type IntT), (''E'', demo_name_type (EntityT IntT)),
     (''O'', demo_name_type (UnionT [IntT, NoneT]))]"

abbreviation num :: "nat \<Rightarrow> int \<Rightarrow> ast_node" where "num k i \<equiv> Number (demo_meta k) (IntN i)"
abbreviation load :: "nat \<Rightarrow> string \<Rightarrow> ast_node" where "load k x \<equiv> Name (demo_meta k) x Load"

definition demo_condition :: ast_node where
  "demo_condition = BooleanOperation (demo_meta 1)
     [BinaryComparison (demo_meta 2) (BinaryOperation (demo_meta 3) (load 4 ''X'') (num 5 1) (Operator (demo_meta 6) Add))
        (num 7 3) (Comparator (demo_meta 8) GreaterThan),
      UnaryOperation (demo_meta 9) (BinaryComparison (demo_meta 10) (load 11 ''E'') (num 12 7) (Comparator (demo_meta 13) Equals))
        (UnaryOperator (demo_meta 14) NotOp)]
     (BooleanOperand (demo_meta 15) And)"

definition demo_values :: "ast_node \<Rightarrow> pyval result" where
  "demo_values n = (case n of
     Name _ i _ \<Rightarrow> if i = ''X'' then Inr (VInt 5) else if i = ''E'' then Inr (VConv ''Entity'' (VInt 4))
                    else if i = ''O'' then Inr VNone else Inl KeyError
   | _ \<Rightarrow> Inl KeyError)"

lemma float_env_arithmetic: "arithmetic_env float_env"
  by (auto simp: arithmetic_env_def float_env_def)

lemma demo_inhabits:
  "inhabits osprey_classes IntT (VInt i)" "inhabits osprey_classes (EntityT IntT) (VConv ''Entity'' (VInt i))"
  "inhabits osprey_classes (UnionT [IntT, NoneT]) VNone"
proof -
  have "proper osprey_classes (VConv ''Entity'' w)" for w
    by (simp add: proper_def osprey_classes_def object_class_def ancestors_member)
  then show "inhabits osprey_classes (EntityT IntT) (VConv ''Entity'' (VInt i))"
    by (simp add: inhabits_def osprey_conv.conforms_values)
qed (simp_all add: inhabits_def osprey_conv.conforms_values)

lemma demo_values_typed:
  assumes "demo_values (Name m i c) = Inr v" and "map_of (name_types demo_typing_state) (identifier_key m i) = Some ts"
  shows "inhabits osprey_classes (ts_type ts) v"
proof -
  consider "i = ''X''" "v = VInt 5" | "i = ''E''" "v = VConv ''Entity'' (VInt 4)" | "i = ''O''" "v = VNone"
    using assms(1) unfolding demo_values_def by (auto split: if_splits)
  then show ?thesis
    using assms(2) demo_inhabits
    by cases (auto simp: identifier_key_def is_local_def demo_typing_state_def initial_tstate_def demo_name_type_def)
qed

definition observed :: "(ty \<times> tstate) result \<Rightarrow> (ty \<times> nat list \<times> verror list) option" where
  "observed r = (case r of Inl _ \<Rightarrow> None | Inr (t, st) \<Rightarrow> Some (t, unwrapped st, type_errors st))"

lemma observedD: "observed r = Some (t, us, es) \<Longrightarrow> \<exists>st. r = Inr (t, st) \<and> unwrapped st = us \<and> type_errors st = es"
  by (auto simp: observed_def split: sum.splits)

lemma demo_condition_run:
  "observed (validate_expression demo_typing_env (\<lambda>_. Inr) None demo_condition demo_typing_state) = Some (BoolT, [11], [])"
  by code_simp

lemma demo_condition_nodes:
  "distinct (map nid (sub_exprs demo_condition))" "plain_expr demo_typing_env demo_condition"
  "minus_unmarked [11] demo_condition" "known_names (name_types demo_typing_state) demo_condition"
  by code_simp+


section \<open>What the fragment leaves out\<close>

text \<open>\<open>O != None and O + 1 > 3\<close>, \<open>-E\<close> and \<open>2 ** -1\<close>.\<close>

definition guarded_sum :: ast_node where
  "guarded_sum = BinaryOperation (demo_meta 3) (load 4 ''O'') (num 5 1) (Operator (demo_meta 6) Add)"

definition guarded_condition :: ast_node where
  "guarded_condition = BooleanOperation (demo_meta 1)
     [BinaryComparison (demo_meta 10) (load 11 ''O'') (NoneLit (demo_meta 12)) (Comparator (demo_meta 13) NotEquals),
      BinaryComparison (demo_meta 2) guarded_sum (num 7 3) (Comparator (demo_meta 8) GreaterThan)]
     (BooleanOperand (demo_meta 15) And)"

definition negated_entity :: ast_node where
  "negated_entity = UnaryOperation (demo_meta 1) (load 2 ''E'') (UnaryOperator (demo_meta 3) USub)"

definition negative_power :: ast_node where
  "negative_power = BinaryOperation (demo_meta 1) (num 2 2)
     (UnaryOperation (demo_meta 3) (num 4 1) (UnaryOperator (demo_meta 5) USub)) (Operator (demo_meta 6) PowOp)"

text \<open>
  Three expressions that the checker accepts without a message and that do not keep its
  promise. After \<open>O != None and\<close> the name \<open>O\<close> counts as an integer, but every operand is evaluated
  before the conjunction, so \<open>O + 1\<close> raises a type error when \<open>O\<close> is \<open>None\<close>. The minus of an entity
  marks itself instead of its operand and raises. A power of integers counts as an integer, and
  with a negative exponent it is a float.
\<close>

theorem static_types_limits:
  "observed (validate_expression demo_typing_env (\<lambda>_. Inr) None guarded_condition demo_typing_state) = Some (BoolT, [], []) \<and>
   (\<exists>msg. eval_expr float_env (\<lambda>_. False) demo_values guarded_sum = Inl (TypeError msg)) \<and>
   observed (validate_expression demo_typing_env (\<lambda>_. Inr) None negated_entity demo_typing_state) = Some (EntityT IntT, [1], []) \<and>
   (\<exists>msg. eval_expr float_env (\<lambda>i. i = 1) demo_values negated_entity = Inl (TypeError msg)) \<and>
   observed (validate_expression demo_typing_env (\<lambda>_. Inr) None negative_power demo_typing_state) = Some (IntT, [], []) \<and>
   (\<exists>w. eval_expr float_env (\<lambda>_. False) demo_values negative_power = Inr (VFloat w))"
proof (intro conjI)
  show "\<exists>msg. eval_expr float_env (\<lambda>_. False) demo_values guarded_sum = Inl (TypeError msg)"
    by (simp add: guarded_sum_def eval_operator_simps execute_pure_def read_child_def read_outcome_def eval_simps demo_values_def
        unwrap_value_def binary_operator_def as_int_def is_float_def)
  show "\<exists>msg. eval_expr float_env (\<lambda>i. i = 1) demo_values negated_entity = Inl (TypeError msg)"
    by (simp add: negated_entity_def eval_operator_simps execute_pure_def read_child_def read_outcome_def eval_simps demo_values_def
        demo_meta_def nid_def unwrap_value_def unary_operator_value_def as_int_def is_float_def)
  have "eval_expr float_env (\<lambda>_. False) demo_values negative_power = Inr (VFloat 0)" by code_simp
  then show "\<exists>w. eval_expr float_env (\<lambda>_. False) demo_values negative_power = Inr (VFloat w)" by blast
qed (code_simp)+

end
