(* ===== verification/Static_Termination.thy ===== *)
theory Static_Termination
  imports Typing_Run
begin

text \<open>
  The static type checker follows imports: checking an \<open>Import\<close> call checks the imported source
  first. A source is marked before its statements are checked, so the checker returns even when
  sources import each other in a cycle; the fuel of \<open>validate_source\<close> never runs out.
\<close>

section \<open>Results that are not the end of the fuel\<close>

abbreviation out_of_fuel :: py_exc where "out_of_fuel \<equiv> OtherException ''fuel''"

text \<open>The sources \<open>C\<close> are marked and no source was marked twice.\<close>

abbreviation marked :: "string set \<Rightarrow> tstate \<Rightarrow> bool" where
  "marked C st \<equiv> C \<subseteq> set (checked_sources st) \<and> distinct (checked_sources st)"

text \<open>The computation does not run out of fuel, and the sources \<open>C\<close> stay marked.\<close>

definition keeps :: "string set \<Rightarrow> ('a \<Rightarrow> tstate) \<Rightarrow> 'a result \<Rightarrow> bool" where
  "keeps C p r \<longleftrightarrow> r \<noteq> Inl out_of_fuel \<and> (\<forall>x. r = Inr x \<longrightarrow> marked C (p x))"

definition fueled :: "'a result \<Rightarrow> bool" where
  "fueled r \<longleftrightarrow> r \<noteq> Inl out_of_fuel"

lemma keeps_Inr [simp]: "keeps C p (Inr x) \<longleftrightarrow> marked C (p x)"
  by (simp add: keeps_def)

lemma keeps_Inl [simp]: "keeps C p (Inl e) \<longleftrightarrow> e \<noteq> out_of_fuel"
  by (simp add: keeps_def)

lemma fueled_simps [simp]: "fueled (Inr x)" "fueled (Inl e) \<longleftrightarrow> e \<noteq> out_of_fuel"
  by (simp_all add: fueled_def)

lemma keeps_then:
  "keeps C p m \<Longrightarrow> (\<And>x. m = Inr x \<Longrightarrow> marked C (p x) \<Longrightarrow> keeps D q (f x)) \<Longrightarrow> keeps D q (bindR m f)"
  by (cases m) (simp_all add: keeps_def)

lemmas keeps_bind = keeps_then [where C = C and D = C for C]

lemma keeps_pure: "fueled m \<Longrightarrow> (\<And>x. m = Inr x \<Longrightarrow> keeps C q (f x)) \<Longrightarrow> keeps C q (bindR m f)"
  by (cases m) (simp_all add: keeps_def)

lemma fueled_bind: "fueled m \<Longrightarrow> (\<And>x. m = Inr x \<Longrightarrow> fueled (f x)) \<Longrightarrow> fueled (bindR m f)"
  by (cases m) simp_all

lemma keeps_loop:
  "(\<And>x s. x \<in> set xs \<Longrightarrow> marked C (p s) \<Longrightarrow> keeps C p (f x s)) \<Longrightarrow>
     marked C (p s) \<Longrightarrow> keeps C p (loopR f xs s)"
  by (induction xs arbitrary: s) (auto intro!: keeps_bind)

lemma fueled_mapR: "(\<And>x. x \<in> set xs \<Longrightarrow> fueled (f x)) \<Longrightarrow> fueled (mapR f xs)"
  by (induction xs) (auto intro!: fueled_bind)

lemma checked_messages [simp]:
  "checked_sources (type_error m st) = checked_sources st" "checked_sources (type_warning m st) = checked_sources st"
  "checked_sources (unwrap_node n st) = checked_sources st"
  by (simp_all add: type_error_def type_warning_def unwrap_node_def)

section \<open>The parts that raise\<close>

definition typed_exc :: "type_exc \<Rightarrow> bool" where
  "typed_exc e \<longleftrightarrow> e \<noteq> Uncaught out_of_fuel"

lemma candidates_exc: "all_acceptable ct cs as = Inl e \<Longrightarrow> typed_exc e"
proof (induction cs)
  case (Cons c cs)
  have "is_acceptable_candidate ct c as = Inl e \<Longrightarrow> typed_exc e" for as
    by (induction as) (auto simp: bindR_def candidate_accepted_def py_issubclass_def typed_exc_def
        split: sum.splits if_splits ty.splits)
  with Cons show ?case by (auto simp: bindR_def split: sum.splits if_splits)
qed simp

lemma inner_exc:
  "get_single_inner_type t = Inl e \<Longrightarrow> typed_exc e" "unwrap_const_expr t = Inl e \<Longrightarrow> typed_exc e"
  "get_type_candidates ct t = Inl e \<Longrightarrow> typed_exc e"
proof -
  have "mapR f xs = Inl e \<Longrightarrow> \<exists>x \<in> set xs. f x = Inl e" for f :: "ty \<Rightarrow> type_exc + ty" and xs
    by (induction xs) (auto simp: bindR_def split: sum.splits)
  note m = this
  show 1: "typed_exc e" if "get_single_inner_type t = Inl e" for t
    using that by (auto simp: get_single_inner_type_def typed_exc_def split: list.splits)
  show "unwrap_const_expr t = Inl e \<Longrightarrow> typed_exc e" using 1 by (simp add: unwrap_const_expr_def split: if_splits)
  show "get_type_candidates ct t = Inl e \<Longrightarrow> typed_exc e"
    by (auto simp: get_type_candidates_def typed_exc_def split: if_splits dest!: m)
qed

lemma compatible_exc: "compatible ct t a = Inl e \<Longrightarrow> typed_exc e"
proof (induction t arbitrary: a rule: measure_induct_rule [where f = size])
  case (less t)
  have inner: "compatible ct u b = Inl e \<Longrightarrow> typed_exc e"
    if "unwrap_const_expr t = Inr s" "get_single_inner_type s = Inr u" for s u b
    using less.IH [of u b] unwrap_const_expr_size [OF that(1)] args_size [of u s] that(2) by (simp add: get_single_inner_type_Inr)
  from less.prems show ?case
    by (subst (asm) compatible.simps)
      (auto simp: bindR_def unspecified_generic_def typed_exc_def [of "UnsupportedTypeError _ _"]
        split: sum.splits if_splits dest: inner_exc candidates_exc inner)
qed

lemma is_compatible_fueled: "fueled (is_compatible_type ct t a b)"
proof -
  have "typed_exc e" if "maybe_post_execution_type ct t = Inl e" for e
    using that by (auto simp: maybe_post_execution_type_def typed_exc_def split: ty.splits if_splits list.splits)
  then show ?thesis
    using compatible_exc [of ct t a] compatible_exc [of ct _ a]
    by (auto simp: is_compatible_type_def caught_def bindR_def fueled_def typed_exc_def
        split: sum.splits type_exc.splits if_splits option.splits)
qed

lemma raised_fueled: "(\<And>e. r = Inl e \<Longrightarrow> typed_exc e) \<Longrightarrow> fueled (raised r)"
  by (auto simp: raised_def fueled_def typed_exc_def split: sum.splits type_exc.splits)

lemma compat_info_fueled: "fueled (compat_info env t a b)"
  unfolding compat_info_def
  by (rule fueled_bind [OF is_compatible_fueled]) (simp add: unwrap_compatibility_def split: compatibility.splits)

lemma identifier_definition_fueled: "fueled (identifier_definition n s st)"
  by (simp add: identifier_definition_def split: ast_node.splits option.splits)

lemmas parts_fueled = is_compatible_fueled compat_info_fueled identifier_definition_fueled

lemma check_compatible_keeps:
  "marked C st \<Longrightarrow> keeps C id (check_compatible_type env t a msg n h spans st)"
  unfolding check_compatible_type_def
  by (rule keeps_pure [OF is_compatible_fueled]) (simp split: compatibility.splits option.splits)

lemma typevar_fueled: "fueled (next_typevar_type env g t)"
proof -
  have "fueled (raised (get_typevar_substitution rep ct g t))" for rep ct
    by (rule raised_fueled) (auto simp: get_typevar_substitution_def typed_exc_def split: if_splits list.splits)
  then show ?thesis by (auto simp: next_typevar_type_def intro!: fueled_bind)
qed

lemma generics_fueled: "fueled (raised (generic_item_names ct items))"
proof (rule raised_fueled)
  show "generic_item_names ct items = Inl e \<Longrightarrow> typed_exc e" for e
    by (induction items) (auto simp: bindR_def typed_exc_def split: if_splits sum.splits)
qed

lemma call_argument_keeps:
  "marked C st \<Longrightarrow> keeps C (\<lambda>p. snd (snd p)) (call_argument env sg gs name v t (rtv, prev, st))"
proof -
  assume C: "marked C st"
  have "fueled (parameter_type sg name)"
    by (simp add: parameter_type_def extra_arguments_values_type_def split: option.splits list.splits)
  then have "keeps C (\<lambda>p. snd (snd p)) (plain_argument env sg name v t (rtv, prev, st))"
    unfolding plain_argument_def prod.case
    by (intro keeps_pure [OF _ ] keeps_bind [where p = id, OF check_compatible_keeps [OF C]] identifier_definition_fueled) auto
  moreover have "keeps C (\<lambda>p. snd (snd p)) (generic_argument env sg name v t (rtv, prev, st))"
    using C by (auto simp: generic_argument_def intro!: keeps_pure [OF typevar_fueled] split: option.splits)
  ultimately show ?thesis by (simp add: call_argument_def)
qed

lemma resolved_fueled: "fueled (get_resolved_rvalue_type sg rtv)"
  by (simp add: get_resolved_rvalue_type_def get_substituted_generic_rvalue_type_def split: option.splits)

section \<open>Operators\<close>

lemma check_operand_keeps:
  "marked C st \<Longrightarrow> keeps C id (check_operand env t a msg h n x st)"
  unfolding check_operand_def by (intro keeps_pure [OF identifier_definition_fueled] check_compatible_keeps)

lemma unary_keeps:
  "marked C st \<Longrightarrow> keeps C snd (validate_unary_operation env op n x t st)"
  by (auto simp: validate_unary_operation_def Let_def intro!: keeps_pure [OF compat_info_fueled] keeps_bind [OF check_operand_keeps]
      split: unary_operator.splits)

lemma unsupported_operands_keeps:
  "marked C st \<Longrightarrow> keeps C snd (unsupported_operands sp s l r lt rt st)"
  by (auto simp: unsupported_operands_def intro!: keeps_pure [OF identifier_definition_fueled])

lemma try_transitions_fueled:
  "(\<And>lt rt st. fueled (hook lt rt st)) \<Longrightarrow> fueled (try_transitions env hook l r lt rt xs st)"
  by (induction xs) (auto intro!: fueled_bind [OF is_compatible_fueled] fueled_bind split: compatibility.splits prod.splits)

lemma comparison_hook_fueled: "fueled (comparison_hook env c sp l r lt rt st)"
proof -
  have "fueled (raised (get_single_inner_type t))" for t by (rule raised_fueled) (rule inner_exc)
  then show ?thesis
    by (auto simp: comparison_hook_def equality_hook_def membership_hook_def none_warning_def incompatible_sides_def Let_def
        intro!: fueled_bind parts_fueled)
qed

lemma two_arg_keeps:
  assumes "\<And>lt rt st. fueled (hook lt rt st)"
    and "\<And>lt rt st st'. hook lt rt st = Inr st' \<Longrightarrow> extends {nid l, nid r} st st'" and "marked C st"
  shows "keeps C snd (two_arg_transitions env hook any sp s xs l r lt rt st)"
proof -
  have "fueled (two_arg_transitions env hook any sp s xs l r lt rt st)"
    using try_transitions_fueled [OF assms(1)]
    by (auto simp: two_arg_transitions_def unsupported_operands_def intro!: fueled_bind parts_fueled split: option.splits)
  moreover have "marked C st'" if "two_arg_transitions env hook any sp s xs l r lt rt st = Inr (t, st')" for t st'
    using two_arg_extends [OF that assms(2)] assms(3) by (simp add: extends_def)
  ultimately show ?thesis by (auto simp: keeps_def fueled_def)
qed

section \<open>Expressions\<close>

lemma apply_narrowings_checked: "checked_sources (snd (apply_narrowings nw st)) = checked_sources st"
proof -
  have "checked_sources (snd (foldl (\<lambda>(original, st) (k, t).
        case map_of (name_types st) k of
          None \<Rightarrow> (original, st)
        | Some ts \<Rightarrow> (AList.update k ts original, st\<lparr>name_types := AList.update k (copy_with_type t ts) (name_types st)\<rparr>))
      p nw)) = checked_sources (snd p)" for p :: "(string, type_and_span) dict \<times> tstate"
    by (induction nw arbitrary: p) (auto split: option.splits)
  then show ?thesis by (simp add: apply_narrowings_def)
qed

lemma restore_types_checked [simp]: "checked_sources (restore_types d st) = checked_sources st"
  by (simp add: restore_types_def)

lemma operand_keeps:
  assumes "\<And>st. marked C st \<Longrightarrow> keeps C snd (check st)" and "marked C st"
  shows "keeps C snd (validate_operand env op check v (nw, st))"
proof -
  obtain original st1 where a: "apply_narrowings nw st = (original, st1)" by fastforce
  with assms(2) apply_narrowings_checked [of nw st] have C: "marked C st1" by simp
  show ?thesis unfolding validate_operand_def prod.case a Let_def
    by (rule keeps_bind [OF assms(1) [OF C]])
      (auto intro!: keeps_pure [OF identifier_definition_fueled] keeps_bind [OF check_compatible_keeps])
qed

lemma format_name_keeps:
  "marked C st \<Longrightarrow> keeps C id (validate_format_name env n (t, st))"
  unfolding validate_format_name_def prod.case
  by (intro keeps_pure [OF identifier_definition_fueled] keeps_bind [OF check_compatible_keeps])
    (auto split: ast_node.splits option.splits)

lemma validate_name_checked [simp]: "checked_sources (snd (validate_name m i st)) = checked_sources st"
  by (simp add: validate_name_def split: option.splits)

lemma validate_list_checked [simp]: "checked_sources (snd (validate_list par m ts st)) = checked_sources st"
  using validate_list_extends [of par m ts st "fst (validate_list par m ts st)" "snd (validate_list par m ts st)" "{}"]
  by (simp add: extends_def)

text \<open>Every expression is a name, has parts, or is checked at once.\<close>

lemma expression_kinds:
  fixes n :: ast_node
  obtains m i c where "n = Name m i c" | m xs where "n = ListLit m xs" | m f xs where "n = Call m f xs"
  | m l r x y where "n = BinaryOperation m l r (Operator x y)" | m x z y where "n = UnaryOperation m x (UnaryOperator z y)"
  | m l r x y where "n = BinaryComparison m l r (Comparator x y)" | m vs x y where "n = BooleanOperation m vs (BooleanOperand x y)"
  | m f xs where "n = FormatString m f xs"
  | "\<And>env imp par st C. marked C st \<Longrightarrow> keeps C snd (validate_expression env imp par n st)"
proof (cases n)
  case (BinaryOperation m l r opn)
  then show ?thesis using that(4,9) by (cases opn) (simp_all add: validate_expression.simps)
next
  case (UnaryOperation m x opn)
  then show ?thesis using that(5,9) by (cases opn) (simp_all add: validate_expression.simps)
next
  case (BinaryComparison m l r opn)
  then show ?thesis using that(6,9) by (cases opn) (simp_all add: validate_expression.simps)
next
  case (BooleanOperation m vs opn)
  then show ?thesis using that(7,9) by (cases opn) (simp_all add: validate_expression.simps)
qed (use that in \<open>simp_all add: validate_expression.simps\<close>)

lemma expression_keeps:
  assumes imp: "\<And>p s. marked C s \<Longrightarrow> keeps C id (imp p s)"
  shows "marked C st \<Longrightarrow> keeps C snd (validate_expression env imp par n st)"
proof (induction n arbitrary: par st rule: measure_induct_rule [where f = size])
  case (less n)
  note C = less.prems
  have child: "keeps C snd (validate_expression env imp q x s)" if "x \<in> set (expr_children n)" "marked C s" for q x s
    by (rule less.IH [OF expr_child_size [OF that(1)] that(2)])
  show ?case
  proof (cases n rule: expression_kinds)
    case (1 m i c)
    with C show ?thesis by (simp add: validate_expression.simps)
  next
    case n: (2 m xs)
    show ?thesis unfolding n validate_expression_unfold
      by (rule keeps_bind [where p = snd, OF keeps_loop])
        (use C child n in \<open>auto intro!: keeps_bind [where p = snd]\<close>)
  next
    case n: (3 m f xs)
    have step: "keeps C (\<lambda>p. snd (snd p)) (call_step env imp sg gs k s)"
      if "k \<in> set xs" "marked C (snd (snd s))" for k s sg gs
    proof -
      have "keeps C snd (validate_expression env imp q (keyword_value k) s)" if "marked C s" for q s
        by (rule child) (use n \<open>k \<in> set xs\<close> that in simp_all)
      then show ?thesis
        by (cases s; cases k) (use that(2) in \<open>auto intro!: keeps_bind [where p = snd] call_argument_keeps\<close>)
    qed
    have args: "keeps C snd (bindR (raised (generic_item_names (te_classes env) (sig_items sg))) (\<lambda>gs.
        bindR (loopR (call_step env imp sg gs) xs (None, None, s)) (\<lambda>(rtv, prev, st1).
        bindR (get_resolved_rvalue_type sg rtv) (\<lambda>t. Inr (t, st1)))))" if "marked C s" for sg s
      by (rule keeps_pure [OF generics_fueled], rule keeps_bind [OF keeps_loop [OF step]])
        (use that in \<open>auto intro!: keeps_pure [OF resolved_fueled]\<close>)
    show ?thesis unfolding n validate_expression_unfold using C
      by (auto split: option.splits intro!: args keeps_bind [where p = id, OF keeps_loop] imp)
  next
    case n: (4 m l r x y)
    show ?thesis unfolding n validate_expression_unfold using C
      by (auto intro!: keeps_bind [where p = snd, OF child] two_arg_keeps simp: n validate_binary_operation_def)
  next
    case n: (5 m x z y)
    show ?thesis unfolding n validate_expression_unfold using C
      by (auto intro!: keeps_bind [where p = snd, OF child] unary_keeps simp: n)
  next
    case n: (6 m l r x y)
    show ?thesis unfolding n validate_expression_unfold using C
      by (auto intro!: keeps_bind [where p = snd, OF child] two_arg_keeps comparison_hook_fueled comparison_hook_extends
          simp: n validate_binary_comparison_def)
  next
    case n: (7 m vs x y)
    have "keeps C snd (boolean_step env imp (BooleanOperation m vs (BooleanOperand x y)) y v s)"
      if "v \<in> set vs" "marked C (snd s)" for v s
      using that n by (cases s) (auto intro!: operand_keeps child)
    then show ?thesis unfolding n validate_expression_unfold using C
      by (auto intro!: keeps_bind [where p = snd, OF keeps_loop])
  next
    case n: (8 m f xs)
    show ?thesis unfolding n validate_expression_unfold
      by (rule keeps_bind [where p = id, OF keeps_loop])
        (use C child n in \<open>auto intro!: keeps_bind [where p = snd] format_name_keeps\<close>)
  next
    case 9
    then show ?thesis using C by blast
  qed
qed

section \<open>Statements and sources\<close>

lemma none_false_fueled: "(\<And>r. r \<in> set rs \<Longrightarrow> fueled r) \<Longrightarrow> fueled (none_false rs)"
  by (induction rs) (auto intro!: fueled_bind)

lemma annotation_can_extract_fueled: "fueled (annotation_can_extract a)"
  by (induction a rule: annotation_can_extract.induct) (auto intro!: none_false_fueled)

lemma can_extract_fueled: "fueled (can_extract ann n)"
  by (induction ann n rule: can_extract.induct)
    (auto intro!: none_false_fueled fueled_bind annotation_can_extract_fueled split: source_annotation.splits option.splits)

lemma should_extract_fueled: "fueled (should_extract ann n)"
  by (simp add: should_extract_def can_extract_fueled del: can_extract.simps split: ast_node.splits)

lemma bind_Inl: "bindR r (\<lambda>c. Inr (g c)) = Inl e \<longleftrightarrow> r = Inl e"
  by (cases r) simp_all

lemma annotation_crash: "convert_ast_annotation_to_type_checker t a = Inl (AnnotationCrash e) \<Longrightarrow> e \<noteq> out_of_fuel"
proof -
  have simple: "convert_simple_annotation msg x \<noteq> Inl (AnnotationCrash out_of_fuel)" for msg x
    by (auto simp: convert_simple_annotation_def annotation_error_of_def split: ast_node.splits option.splits)
  have "union_variants seen vs \<noteq> Inl (AnnotationCrash out_of_fuel)" for seen vs
    by (induction seen vs rule: union_variants.induct) (auto simp: bindR_def simple split: option.splits sum.splits)
  note parts = simple this
  have "parse_union t m vs \<noteq> Inl (AnnotationCrash out_of_fuel)" "parse_optional m vs \<noteq> Inl (AnnotationCrash out_of_fuel)"
    "parse_list vs \<noteq> Inl (AnnotationCrash out_of_fuel)" "parse_entity m vs \<noteq> Inl (AnnotationCrash out_of_fuel)"
    "one_argument_error name m vs \<noteq> AnnotationCrash out_of_fuel" "annotation_error_of msg sp h \<noteq> AnnotationCrash out_of_fuel"
    for t m vs name msg sp h
    unfolding parse_union_def parse_optional_def parse_list_def parse_entity_def annotation_error_of_def one_argument_error_def bindR_def
    by (auto simp: parts simp del: union_variants.simps split: list.splits sum.splits)
  note parts = parts this
  have "convert_annotation_with_variants t a \<noteq> Inl (AnnotationCrash out_of_fuel)" for t
  proof (induction a arbitrary: t rule: measure_induct_rule [where f = size])
    case (less a)
    show ?case
    proof (cases "\<exists>m ident vs. a = AnnotationWithVariants m ident vs")
      case True
      then obtain m ident vs where a: "a = AnnotationWithVariants m ident vs" by blast
      have "(case v of AnnotationWithVariants _ _ _ \<Rightarrow> convert_annotation_with_variants None v
          | _ \<Rightarrow> convert_simple_annotation msg v) \<noteq> Inl (AnnotationCrash out_of_fuel)" if "vs = [v]" for v msg
        using less.IH [of v] that by (cases v) (simp_all add: a parts)
      then show ?thesis unfolding a convert_annotation_with_variants.simps(1)
        by (simp add: bind_Inl parts split: list.splits option.splits)
    next
      case False
      then show ?thesis by (cases a) simp_all
    qed
  qed
  then show "convert_ast_annotation_to_type_checker t a = Inl (AnnotationCrash e) \<Longrightarrow> e \<noteq> out_of_fuel"
    by (auto simp: convert_ast_annotation_to_type_checker_def simple split: ast_node.splits)
qed

lemma assigned_type_keeps:
  "marked C st \<Longrightarrow> keeps C snd (assigned_type env target v a t st)"
  by (auto simp: assigned_type_def Let_def intro!: keeps_pure [OF identifier_definition_fueled] keeps_bind [OF check_compatible_keeps]
      split: option.splits sum.splits annotation_exc.splits dest: annotation_crash)

lemma statement_keeps:
  assumes imp: "\<And>p s. marked C s \<Longrightarrow> keeps C id (imp p s)" and C: "marked C st"
  shows "keeps C id (validate_statement env imp n st)"
proof -
  note e = expression_keeps [where C = C, OF imp]
  have "keeps C id (validate_assign env imp n st)"
    using C by (auto simp: validate_assign_def Let_def intro!: keeps_bind [where p = snd, OF e] keeps_bind [where p = snd, OF assigned_type_keeps]
        keeps_pure [OF can_extract_fueled] keeps_pure [OF should_extract_fueled] simp del: can_extract.simps split: ast_node.splits)
  moreover have "keeps C id (bindR (validate_expression env imp None n st) (\<lambda>(t, st1). Inr st1))"
    using C by (auto intro!: keeps_bind [where p = snd, OF e])
  ultimately show ?thesis by (cases n) (simp_all add: validate_statement_def)
qed

lemma keeps_mono: "keeps C p r \<Longrightarrow> D \<subseteq> C \<Longrightarrow> keeps D p r"
  by (auto simp: keeps_def)

text \<open>Each nested source marks one more path, so there are never more levels than sources.\<close>

lemma source_keeps:
  assumes "card (set (map fst srcs) - C) < k" and "marked C st"
  shows "keeps (if path \<in> set (map fst srcs) then insert path C else C) id (validate_source k env srcs path st)"
  using assms
proof (induction k arbitrary: C path st)
  case (Suc k)
  show ?case
  proof (cases "path \<in> set (checked_sources st)")
    case False
    show ?thesis
    proof (cases "map_of srcs path")
      case None
      with False show ?thesis by simp
    next
      case (Some root)
      then have path: "path \<in> set (map fst srcs)" by (metis map_of_eq_None_iff option.distinct(1) set_map)
      with False Suc.prems have "card (set (map fst srcs) - insert path C) < card (set (map fst srcs) - C)"
        by (intro psubset_card_mono) auto
      then have less: "card (set (map fst srcs) - insert path C) < k" using Suc.prems(1) by simp
      have imp: "keeps (insert path C) id (validate_source k env srcs p s)" if "marked (insert path C) s" for p s
        using Suc.IH [OF less that, of p] by (rule keeps_mono) auto
      have "keeps (insert path C) id (loopR (validate_statement env (validate_source k env srcs)) (statements_of root)
          (st\<lparr>checked_sources := path # checked_sources st\<rparr>))"
      proof (rule keeps_loop)
        show "keeps (insert path C) id (validate_statement env (validate_source k env srcs) x s)"
          if "marked (insert path C) (id s)" for x s
          by (rule statement_keeps [OF imp]) (use that in simp_all)
      qed (use False Suc.prems(2) in auto)
      with Some False show ?thesis unfolding if_P [OF path] by (simp add: id_def)
    qed
  qed (use Suc.prems(2) in auto)
qed simp

lemma sources_keep:
  assumes "card (set (map fst srcs)) < k" and "set paths \<subseteq> set (map fst srcs)" and "marked C st"
  shows "keeps (C \<union> set paths) id (loopR (validate_source k env srcs) paths st)"
  using assms(2,3)
proof (induction paths arbitrary: C st)
  case (Cons path paths)
  have "card (set (map fst srcs) - C) < k" by (rule le_less_trans [OF card_mono assms(1)]) auto
  from source_keeps [OF this Cons.prems(2), of path env] Cons.prems(1)
  have s: "keeps (insert path C) id (validate_source k env srcs path st)" by simp
  have "keeps (C \<union> set (path # paths)) id (loopR (validate_source k env srcs) paths st1)" if "marked (insert path C) st1" for st1
  proof -
    have eq: "C \<union> set (path # paths) = insert path C \<union> set paths" by simp
    show ?thesis unfolding eq by (rule Cons.IH [OF _ that]) (use Cons.prems(1) in simp)
  qed
  with s show ?case unfolding loopR.simps by (rule keeps_then) simp
qed simp

text \<open>
  (C35) Checking the types of a program always ends, also when its sources import each other in a
  cycle: the fuel, one more than the number of sources, never runs out. When the check returns,
  every source was checked, and no source was checked twice.
\<close>

theorem static_types_terminate:
  "validate_static_types env srcs input \<noteq> Inl (OtherException ''fuel'') \<and>
   (case validate_static_types env srcs input of
      Inl _ \<Rightarrow> True
    | Inr st \<Rightarrow> set (map fst srcs) \<subseteq> set (checked_sources st) \<and> distinct (checked_sources st))"
proof -
  have "card (set (map fst srcs)) \<le> length srcs" using card_length [of "map fst srcs"] by simp
  then have "keeps ({} \<union> set (map fst srcs)) id (validate_static_types env srcs input)"
    unfolding validate_static_types_def by (intro sources_keep) (simp_all add: initial_tstate_def)
  then show ?thesis by (auto simp: keeps_def split: sum.splits)
qed

end
