(* ===== verification/Experiments.thy ===== *)
theory Experiments
  imports Static_Types
begin

text \<open>
  Experiments (\<open>stdlib/udfs/experiments.py\<close> and \<open>language_types/experiments.py\<close>): the checks of
  the constructor of \<open>Experiment\<close>, the bucket an entity falls into, and the functions that read
  the result. The hash function of the \<open>mmh3\<close> package is a parameter. The name of the bucket
  outside the experiment is the empty string, an object of which CPython has one, so that the
  code's \<open>is\<close> compares as equality. A bucket size is given as the decimal number \<open>Decimal(str(x))\<close>; products
  with it are exact, because the text of a float has at most 17 digits and the decimal context
  keeps 28.
\<close>

section \<open>Decimal numbers\<close>

text \<open>\<open>Dec c e\<close> is \<open>c * 10 ^ e\<close>.\<close>

datatype decimal = Dec int int

fun dec_mult :: "decimal \<Rightarrow> decimal \<Rightarrow> decimal" where
  "dec_mult (Dec c e) (Dec d f) = Dec (c * d) (e + f)"

text \<open>\<open>int(x)\<close> truncates, \<open>floor(x)\<close> rounds down.\<close>

fun dec_int :: "decimal \<Rightarrow> int" where
  "dec_int (Dec c e) = (if e \<ge> 0 then c * 10 ^ nat e else sgn c * (\<bar>c\<bar> div 10 ^ nat (- e)))"

fun dec_floor :: "decimal \<Rightarrow> int" where
  "dec_floor (Dec c e) = (if e \<ge> 0 then c * 10 ^ nat e else c div 10 ^ nat (- e))"

fun dec_equals_int :: "decimal \<Rightarrow> int \<Rightarrow> bool" where
  "dec_equals_int (Dec c e) i = (if e \<ge> 0 then c * 10 ^ nat e = i else c = i * 10 ^ nat (- e))"

section \<open>Bucket units\<close>

definition EXPERIMENT_GRANULARITY :: nat where "EXPERIMENT_GRANULARITY = 10000"
definition CONTROL_BUCKET :: string where "CONTROL_BUCKET = ''control''"
definition NOT_IN_EXPERIMENT_BUCKET :: string where "NOT_IN_EXPERIMENT_BUCKET = ''''"

definition unchecked_bucket_size :: "decimal \<Rightarrow> decimal" where
  "unchecked_bucket_size percentage = dec_mult percentage (Dec (int EXPERIMENT_GRANULARITY div 100) 0)"

definition percentage_to_bucket_units :: "decimal \<Rightarrow> int" where
  "percentage_to_bucket_units percentage = dec_int (unchecked_bucket_size percentage)"

text \<open>
  \<open>floor(EXPERIMENT_GRANULARITY / n)\<close>: the quotient is a float, whose floor is the integer quotient
  because a quotient that is no integer is at least \<open>1 / n\<close> away from the next one.
\<close>

definition get_max_bucket_size :: "nat \<Rightarrow> nat result" where
  "get_max_bucket_size n = (if n = 0 then Inl ZeroDivisionError else Inr (EXPERIMENT_GRANULARITY div n))"

text \<open>The text of \<open>Decimal(units) / 100\<close>.\<close>

definition int_text :: "int \<Rightarrow> string" where
  "int_text i = (if i < 0 then ''-'' @ nat_digits (nat (- i)) else nat_digits (nat i))"

definition bucket_units_to_percentage :: "int \<Rightarrow> string" where
  "bucket_units_to_percentage u =
     (let n = nat \<bar>u\<bar>; whole = (if u < 0 then ''-'' else []) @ nat_digits (n div 100) in
      if n mod 100 = 0 then whole
      else if n mod 10 = 0 then whole @ ''.'' @ nat_digits (n mod 100 div 10)
      else whole @ ''.'' @ nat_digits (n mod 100 div 10) @ nat_digits (n mod 10))"

section \<open>The constructor\<close>

record experiment_arguments =
  entity_id :: string
  entity_type :: string
  buckets :: "string list"
  bucket_sizes :: "decimal list"
  version :: int
  revision :: int

record experiment_call =
  call_node :: ast_node
  feature_name :: "string option"  \<comment> \<open>the target, when the call is assigned to a variable\<close>
  assign_hint :: string  \<comment> \<open>the printed suggestion\<close>
  version_span :: span
  revision_span :: span
  buckets_span :: span
  bucket_sizes_span :: span

definition error_at :: "string \<Rightarrow> span \<Rightarrow> string \<Rightarrow> verror" where
  "error_at msg sp h = message_with msg sp h [] []"

definition line_break :: "nat \<Rightarrow> string" where
  "line_break n = char_of (10 :: nat) # replicate n (CHR '' '')"

definition precision_error :: "span \<Rightarrow> verror" where
  "precision_error sp = error_at (line_break 20 @ ''experiment bucket size precision is too high,'' @ line_break 20 @
     ''the precision can be at most to the hundredth decimal place'' @ line_break 20) sp []"

definition size_error :: "span \<Rightarrow> int \<Rightarrow> nat \<Rightarrow> verror" where
  "size_error sp units max_size = error_at
     (line_break 20 @ bucket_units_to_percentage units @ '' is over the'' @ line_break 20 @ ''current max of '' @
      bucket_units_to_percentage (int max_size) @ ''.'' @ line_break 20 @
      ''Either reduce the bucket size or reduce the number of buckets'' @ line_break 20) sp
     (line_break 20 @ ''max percentage size of each bucket is 100/(# of buckets) rounded'' @ line_break 20 @
      ''down to the nearest hundreth decimal place'' @ line_break 20)"

definition header_errors :: "experiment_call \<Rightarrow> experiment_arguments \<Rightarrow> verror list" where
  "header_errors call args =
     (if feature_name call = None
      then [error_at ''must assign `Experiment` to a variable'' (span_of (call_node call)) (assign_hint call)] else []) @
     (if version args < 0 then [error_at ''experiment version must be zero or greater'' (version_span call) []] else []) @
     (if revision args < 0 then [error_at ''experiment revision must be zero or greater'' (revision_span call) []] else [])"

definition control_errors :: "experiment_call \<Rightarrow> experiment_arguments \<Rightarrow> verror list" where
  "control_errors call args =
     (if CONTROL_BUCKET \<notin> set (buckets args)
      then [error_at ([CHR 0x27] @ CONTROL_BUCKET @ [CHR 0x27] @ '' must be one of the buckets'') (buckets_span call) []]
      else [])"

definition precision_errors :: "experiment_call \<Rightarrow> experiment_arguments \<Rightarrow> verror list" where
  "precision_errors call args = concat (map (\<lambda>p.
     let u = unchecked_bucket_size p in
     if \<not> dec_equals_int u (dec_floor u) then [precision_error (bucket_sizes_span call)] else []) (bucket_sizes args))"

definition size_errors :: "experiment_call \<Rightarrow> nat \<Rightarrow> experiment_arguments \<Rightarrow> verror list" where
  "size_errors call max_size args = concat (map (\<lambda>p.
     let units = percentage_to_bucket_units p in
     if units > int max_size then [size_error (bucket_sizes_span call) units max_size] else []) (bucket_sizes args))"

text \<open>
  \<open>Experiment.__init__\<close> with \<open>_register_experiment\<close>: the errors it adds and the registered experiments.
  The comparison \<open>1 < len(buckets) > 10\<close> is a chain, so it holds when there are more than ten buckets.
\<close>

definition register_experiment :: "experiment_call \<Rightarrow> (string, ast_node) dict \<Rightarrow> (string, ast_node) dict result" where
  "register_experiment call experiments =
     (case feature_name call of
        None \<Rightarrow> Inl (OtherException ''AttributeError'')
      | Some name \<Rightarrow> Inr (AList.update name (call_node call) experiments))"

definition experiment_init :: "experiment_call \<Rightarrow> experiment_arguments \<Rightarrow> (string, ast_node) dict \<Rightarrow>
    (verror list \<times> (string, ast_node) dict) result" where
  "experiment_init call args experiments =
     (let errors = header_errors call args in
      if 1 < length (buckets args) \<and> length (buckets args) > 10 then
        Inr (errors @ [error_at ''number of experiment buckets must be between 1 and 10 inclusive'' (buckets_span call) []], experiments)
      else let errors = errors @ control_errors call args in
      if length (buckets args) \<noteq> length (bucket_sizes args) then
        Inr (errors @ [error_at ''buckets and bucket_sizes must have the same number of elements'' (bucket_sizes_span call) []], experiments)
      else let errors = errors @ precision_errors call args in
      bindR (get_max_bucket_size (length (bucket_sizes args))) (\<lambda>max_size.
      bindR (register_experiment call experiments) (\<lambda>experiments'.
        Inr (errors @ size_errors call max_size args, experiments'))))"

section \<open>The bucket of an entity\<close>

definition hash_mod :: "(string \<Rightarrow> 32 word) \<Rightarrow> string \<Rightarrow> string \<Rightarrow> nat" where
  "hash_mod mmh3 experiment_name entity = unat (mmh3 (experiment_name @ ''/'' @ entity)) mod EXPERIMENT_GRANULARITY"

text \<open>The bucket of a unit of the hash space.\<close>

definition bucket_of_unit :: "experiment_arguments \<Rightarrow> nat \<Rightarrow> string result" where
  "bucket_of_unit args bucket_unit_index =
     bindR (get_max_bucket_size (length (buckets args))) (\<lambda>max_units.
       if max_units = 0 then Inl ZeroDivisionError
       else
         let bucket_index = bucket_unit_index div max_units;
             bucket_unit_offset = max_units * bucket_index
         in if bucket_index + 1 > length (buckets args) then Inr NOT_IN_EXPERIMENT_BUCKET
            else if bucket_index \<ge> length (bucket_sizes args) then Inl IndexError
            else if int bucket_unit_index \<ge> percentage_to_bucket_units (bucket_sizes args ! bucket_index) + int bucket_unit_offset
              then Inr NOT_IN_EXPERIMENT_BUCKET
            else Inr (buckets args ! bucket_index))"

definition get_bucket :: "(string \<Rightarrow> 32 word) \<Rightarrow> string \<Rightarrow> experiment_arguments \<Rightarrow> string result" where
  "get_bucket mmh3 experiment_name args = bucket_of_unit args (hash_mod mmh3 experiment_name (entity_id args))"

record experiment_t =
  exp_name :: string
  exp_arguments :: experiment_arguments
  resolved_bucket :: string

definition experiment_execute :: "(string \<Rightarrow> 32 word) \<Rightarrow> string \<Rightarrow> experiment_arguments \<Rightarrow> experiment_t result" where
  "experiment_execute mmh3 name args =
     bindR (get_bucket mmh3 name args) (\<lambda>b. Inr \<lparr>exp_name = name, exp_arguments = args, resolved_bucket = b\<rparr>)"

text \<open>\<open>ExperimentT.to_post_execution_value\<close>; \<open>list.index\<close> raises when the bucket is missing.\<close>

definition index_of :: "string list \<Rightarrow> string \<Rightarrow> nat result" where
  "index_of xs x = (if x \<in> set xs then Inr (length (takeWhile (\<lambda>y. y \<noteq> x) xs)) else Inl (ValueError ''is not in list''))"

definition experiment_value :: "experiment_t \<Rightarrow> string list result" where
  "experiment_value e =
     bindR (if resolved_bucket e = NOT_IN_EXPERIMENT_BUCKET then Inr ''-1''
            else bindR (index_of (buckets (exp_arguments e)) (resolved_bucket e)) (\<lambda>i. Inr (nat_digits i))) (\<lambda>index.
       Inr [exp_name e, entity_id (exp_arguments e), entity_type (exp_arguments e), resolved_bucket e, index,
            int_text (version (exp_arguments e)), int_text (revision (exp_arguments e))])"

definition in_experiment :: "experiment_t \<Rightarrow> bool" where
  "in_experiment e \<longleftrightarrow> resolved_bucket e \<noteq> NOT_IN_EXPERIMENT_BUCKET"

definition experiment_when :: "experiment_t \<Rightarrow> (string, bool list) dict \<Rightarrow> bool list result" where
  "experiment_when e extra_arguments =
     (let bucket = (if resolved_bucket e = NOT_IN_EXPERIMENT_BUCKET then CONTROL_BUCKET else resolved_bucket e) in
      case map_of extra_arguments bucket of None \<Rightarrow> Inl KeyError | Some v \<Rightarrow> Inr v)"

text \<open>
  \<open>ExperimentWhen._validate_experimentwhen\<close>. The two differences are sets, so the order of their
  errors is not determined; here it is the order of the literals and of the arguments. The text of a float
  literal is a parameter.
\<close>

fun literal_text :: "(64 word \<Rightarrow> string) \<Rightarrow> ast_node \<Rightarrow> string result" where
  "literal_text float_text (StringLit _ s) = Inr s"
| "literal_text float_text (Number _ (IntN i)) = Inr (int_text i)"
| "literal_text float_text (Number _ (FloatN f)) = Inr (float_text f)"
| "literal_text float_text (Boolean _ b) = Inr (if b then ''True'' else ''False'')"
| "literal_text _ _ = Inl (OtherException ''AttributeError'')"

fun find_argument :: "string \<Rightarrow> ast_node list \<Rightarrow> ast_node option" where
  "find_argument name [] = None"
| "find_argument name (Keyword m k v # as) = (if k = name then Some (Keyword m k v) else find_argument name as)"
| "find_argument name (_ # as) = find_argument name as"

definition buckets_for_experiment :: "ast_node \<Rightarrow> (meta \<times> ast_node list) result" where
  "buckets_for_experiment call =
     (case call of
        Call _ _ args \<Rightarrow>
          (case find_argument ''buckets'' args of
             Some (Keyword _ _ (ListLit m items)) \<Rightarrow> Inr (m, items)
           | Some _ \<Rightarrow> Inl (AssertionError ''buckets should be a List node'')
           | None \<Rightarrow> Inl (AssertionError ''buckets should be defined''))
      | _ \<Rightarrow> Inl (OtherException ''AttributeError''))"

definition quoted :: "string \<Rightarrow> string" where
  "quoted s = [CHR 0x27] @ s @ [CHR 0x27]"

definition experiment_when_init :: "(64 word \<Rightarrow> string) \<Rightarrow> (string, ast_node) dict \<Rightarrow> ast_node \<Rightarrow> span \<Rightarrow> (string, ast_node) dict \<Rightarrow> verror list result" where
  "experiment_when_init float_text experiments experiment_arg call_span extra_arguments =
     (case experiment_arg of
        Name m experiment_identifier _ \<Rightarrow>
          (case map_of experiments experiment_identifier of
             None \<Rightarrow> Inr [error_at (''experiment '' @ quoted experiment_identifier @ '' not defined'') (node_span m) []]
           | Some experiment_call \<Rightarrow>
               bindR (buckets_for_experiment experiment_call) (\<lambda>(lm, items).
               bindR (mapR (literal_text float_text) items) (\<lambda>expected.
                 let provided = keys extra_arguments in
                 Inr (map (\<lambda>bucket. message_with (''missing bucket '' @ quoted bucket @ '' required from experiment '' @
                            quoted experiment_identifier) call_span [] [] [PlainSpan (node_span lm)])
                        (filter (\<lambda>b. b \<notin> set provided) (remdups expected)) @
                      map (\<lambda>bucket. message_with (''unexpected bucket '' @ quoted bucket @
                            '', this bucket must match a bucket defined in experiment '' @ quoted experiment_identifier)
                            (span_of (the (map_of extra_arguments bucket))) [] [] [PlainSpan (node_span lm)])
                        (filter (\<lambda>b. b \<notin> set expected) provided)))))
      | _ \<Rightarrow> Inl (AssertionError ''this should be a Name''))"

section \<open>Accepted experiments\<close>

text \<open>What the constructor has checked of the arguments when it adds no error.\<close>

definition sound_arguments :: "experiment_arguments \<Rightarrow> bool" where
  "sound_arguments args \<longleftrightarrow> 1 \<le> length (buckets args) \<and> length (buckets args) \<le> 10 \<and>
     length (bucket_sizes args) = length (buckets args) \<and> CONTROL_BUCKET \<in> set (buckets args) \<and>
     (\<forall>p \<in> set (bucket_sizes args). dec_equals_int (unchecked_bucket_size p) (percentage_to_bucket_units p) \<and>
        percentage_to_bucket_units p \<le> int (EXPERIMENT_GRANULARITY div length (buckets args)))"

lemma no_errors_conv: "concat (map (\<lambda>x. if P x then [f x] else []) xs) = [] \<longleftrightarrow> (\<forall>x \<in> set xs. \<not> P x)"
  by (induction xs) simp_all

lemma exact_integer:
  assumes "dec_equals_int d (dec_floor d)"
  shows "dec_int d = dec_floor d"
proof (cases d)
  case (Dec c e)
  show ?thesis
  proof (cases "e \<ge> 0")
    case False
    define m :: int where "m = 10 ^ nat (- e)"
    define q where "q = c div m"
    have m: "m > 0" by (simp add: m_def)
    have c: "c = q * m" using assms False by (simp add: Dec m_def q_def)
    have "sgn c * (\<bar>c\<bar> div m) = q" using m by (simp add: c abs_mult sgn_mult sgn_mult_abs)
    then show ?thesis using False by (simp add: Dec m_def q_def)
  qed (simp add: Dec)
qed

lemma init_sound:
  assumes "experiment_init call args experiments = Inr ([], experiments')"
  shows "sound_arguments args"
proof -
  let ?n = "length (buckets args)"
  have n: "\<not> (1 < ?n \<and> ?n > 10)" "?n = length (bucket_sizes args)"
    using assms by (auto simp: experiment_init_def Let_def split: if_splits)
  with assms have e: "control_errors call args = []" "precision_errors call args = []"
    "size_errors call (EXPERIMENT_GRANULARITY div ?n) args = []"
    by (auto simp: experiment_init_def Let_def get_max_bucket_size_def bindR_Inr_conv split: if_splits)
  have control: "CONTROL_BUCKET \<in> set (buckets args)" using e(1) by (simp add: control_errors_def split: if_splits)
  then have "1 \<le> ?n" by (cases "buckets args") simp_all
  moreover have "dec_equals_int (unchecked_bucket_size p) (percentage_to_bucket_units p)" if "p \<in> set (bucket_sizes args)" for p
  proof -
    have "dec_equals_int (unchecked_bucket_size p) (dec_floor (unchecked_bucket_size p))"
      using e(2) that by (simp add: precision_errors_def Let_def no_errors_conv del: concat_eq_Nil_conv)
    then show ?thesis using exact_integer by (simp add: percentage_to_bucket_units_def)
  qed
  moreover have "percentage_to_bucket_units p \<le> int (EXPERIMENT_GRANULARITY div ?n)" if "p \<in> set (bucket_sizes args)" for p
    using e(3) that by (simp add: size_errors_def Let_def no_errors_conv not_less del: concat_eq_Nil_conv)
  ultimately show ?thesis using n control unfolding sound_arguments_def by auto
qed

section \<open>Every bucket has its share\<close>

lemma max_units_positive:
  assumes "sound_arguments args"
  shows "0 < EXPERIMENT_GRANULARITY div length (buckets args)"
proof -
  have "0 < length (buckets args)" "length (buckets args) \<le> EXPERIMENT_GRANULARITY"
    using assms by (auto simp: sound_arguments_def EXPERIMENT_GRANULARITY_def)
  then show ?thesis by (simp add: div_greater_zero_iff)
qed

text \<open>The bucket of a unit of the hash space, and the units of a bucket.\<close>

lemma bucket_of_unit_sound:
  assumes "sound_arguments args" and "mx = EXPERIMENT_GRANULARITY div length (buckets args)"
  shows "bucket_of_unit args u = Inr
    (if u div mx < length (buckets args) \<and> int (u mod mx) < percentage_to_bucket_units (bucket_sizes args ! (u div mx))
     then buckets args ! (u div mx) else NOT_IN_EXPERIMENT_BUCKET)"
proof -
  have n: "0 < length (buckets args)" "length (bucket_sizes args) = length (buckets args)"
    using assms(1) by (auto simp: sound_arguments_def)
  have mx: "0 < mx" using max_units_positive [OF assms(1)] by (simp add: assms(2))
  have u: "int u = int (mx * (u div mx)) + int (u mod mx)" by (metis mult_div_mod_eq of_nat_add)
  show ?thesis using n mx u
    by (auto simp: bucket_of_unit_def get_max_bucket_size_def assms(2) [symmetric] Let_def not_less)
qed

lemma bucket_units:
  assumes "sound_arguments args" and "i < length (buckets args)" and "distinct (buckets args)" and "[] \<notin> set (buckets args)"
    and mx: "mx = EXPERIMENT_GRANULARITY div length (buckets args)"
  shows "{u. u < EXPERIMENT_GRANULARITY \<and> bucket_of_unit args u = Inr (buckets args ! i)} =
    {i * mx ..< i * mx + nat (percentage_to_bucket_units (bucket_sizes args ! i))}"
proof -
  let ?p = "percentage_to_bucket_units (bucket_sizes args ! i)"
  have "length (bucket_sizes args) = length (buckets args)" using assms(1) by (simp add: sound_arguments_def)
  then have p: "?p \<le> int mx" using assms(1,2) nth_mem [of i "bucket_sizes args"] by (auto simp: sound_arguments_def mx)
  have pos: "0 < mx" using max_units_positive [OF assms(1)] by (simp add: mx)
  have total: "i * mx + mx \<le> EXPERIMENT_GRANULARITY"
  proof -
    have "Suc i * mx \<le> length (buckets args) * mx" using assms(2) by (intro mult_le_mono1) simp
    also have "\<dots> \<le> EXPERIMENT_GRANULARITY" by (simp add: mx)
    finally show ?thesis by simp
  qed
  have ne: "buckets args ! i \<noteq> NOT_IN_EXPERIMENT_BUCKET" using assms(2,4) by (metis NOT_IN_EXPERIMENT_BUCKET_def nth_mem)
  have unit: "bucket_of_unit args u = Inr (buckets args ! i) \<longleftrightarrow> u div mx = i \<and> int (u mod mx) < ?p" for u
    using bucket_of_unit_sound [OF assms(1) mx] ne assms(2,3) by (auto simp: nth_eq_iff_index_eq)
  have range: "u div mx = i \<and> int (u mod mx) < ?p \<longleftrightarrow> i * mx \<le> u \<and> u < i * mx + nat ?p" for u
  proof
    assume "u div mx = i \<and> int (u mod mx) < ?p"
    moreover have "u div mx * mx + u mod mx = u" by simp
    ultimately show "i * mx \<le> u \<and> u < i * mx + nat ?p" by (metis add_strict_left_mono le_add1 zless_nat_eq_int_zless)
  next
    assume u: "i * mx \<le> u \<and> u < i * mx + nat ?p"
    then obtain k where k: "u = i * mx + k" "k < nat ?p" by (metis le_Suc_ex nat_add_left_cancel_less)
    with p have "k < mx" by linarith
    with k pos show "u div mx = i \<and> int (u mod mx) < ?p" by auto
  qed
  have "u < EXPERIMENT_GRANULARITY" if "u < i * mx + nat ?p" for u using that total p by linarith
  then show ?thesis unfolding unit range by auto
qed


text \<open>
  (C31) Rolling an experiment out further never moves an entity to another bucket: when every
  bucket keeps its place and no bucket shrinks, an entity that is in a bucket stays in it, whatever
  the hash function.
\<close>

theorem rollout_stable:
  assumes "experiment_init call args experiments = Inr ([], experiments1)"
    and "experiment_init call' args' experiments' = Inr ([], experiments2)"
    and "buckets args' = buckets args" and "entity_id args' = entity_id args"
    and "list_all2 (\<lambda>p q. percentage_to_bucket_units p \<le> percentage_to_bucket_units q) (bucket_sizes args) (bucket_sizes args')"
    and "get_bucket mmh3 name args = Inr b" and "b \<noteq> NOT_IN_EXPERIMENT_BUCKET"
  shows "get_bucket mmh3 name args' = Inr b"
proof -
  let ?u = "hash_mod mmh3 name (entity_id args)" and ?mx = "EXPERIMENT_GRANULARITY div length (buckets args)"
  have s: "sound_arguments args" "sound_arguments args'" by (rule init_sound [OF assms(1)], rule init_sound [OF assms(2)])
  from assms(6,7) bucket_of_unit_sound [OF s(1) refl, of ?u] have
    u: "?u div ?mx < length (buckets args)" "int (?u mod ?mx) < percentage_to_bucket_units (bucket_sizes args ! (?u div ?mx))"
      "b = buckets args ! (?u div ?mx)" by (auto simp: get_bucket_def split: if_splits)
  have "length (bucket_sizes args) = length (buckets args)" using s(1) by (simp add: sound_arguments_def)
  with u(1) list_all2_nthD [OF assms(5), of "?u div ?mx"] have
    "percentage_to_bucket_units (bucket_sizes args ! (?u div ?mx)) \<le> percentage_to_bucket_units (bucket_sizes args' ! (?u div ?mx))"
    by simp
  with u bucket_of_unit_sound [OF s(2) refl, of ?u] show ?thesis by (simp add: get_bucket_def assms(3,4))
qed

lemma key_has_value: "k \<in> set (keys d) \<Longrightarrow> \<exists>v. map_of d k = Some v"
  by (cases "map_of d k") (auto simp: map_of_eq_None_iff)

lemma assigned_bucket:
  assumes "sound_arguments args"
  obtains b where "get_bucket mmh3 name args = Inr b" "b = NOT_IN_EXPERIMENT_BUCKET \<or> b \<in> set (buckets args)"
  using bucket_of_unit_sound [OF assms refl, of "hash_mod mmh3 name (entity_id args)"] that
  by (fastforce simp: get_bucket_def split: if_splits)

lemma when_accepts:
  assumes "experiment_when_init float_text experiments (Name m name c) sp extra = Inr []" and "map_of experiments name = Some call"
    and "buckets_for_experiment call = Inr (lm, items)" and "mapR (literal_text float_text) items = Inr bs"
  shows "set (keys extra) = set bs"
  using assms by (auto simp: experiment_when_init_def Let_def filter_empty_conv)

text \<open>
  (C32) An accepted experiment always yields a result: the hash falls into one of the buckets or
  outside the experiment, the value that is stored after execution can be computed, and an accepted
  \<open>ExperimentWhen\<close> on it finds the list of the bucket, or of the control bucket when the entity is
  outside.
\<close>

theorem experiment_total:
  assumes "experiment_init call args experiments = Inr ([], experiments')"
    and "buckets_for_experiment (call_node call) = Inr (lm, items)" and "mapR (literal_text float_text) items = Inr (buckets args)"
    and "feature_name call = Some name"
    and "experiment_when_init float_text experiments' (Name m name c) sp extra = Inr []" and "set (keys extra) = set (keys values)"
  shows "\<exists>e value result. experiment_execute mmh3 name args = Inr e \<and> experiment_value e = Inr value \<and>
    experiment_when e values = Inr result \<and>
    map_of values (if in_experiment e then resolved_bucket e else CONTROL_BUCKET) = Some result"
proof -
  have sound: "sound_arguments args" by (rule init_sound [OF assms(1)])
  have "experiments' = AList.update name (call_node call) experiments"
    using assms(1,4) by (auto simp: experiment_init_def Let_def register_experiment_def get_max_bucket_size_def split: if_splits)
  then have "map_of experiments' name = Some (call_node call)" by (simp add: update_conv)
  with when_accepts [OF assms(5) _ assms(2,3)] have ks: "set (keys values) = set (buckets args)" using assms(6) by simp
  from assigned_bucket [OF sound] obtain b where b: "get_bucket mmh3 name args = Inr b"
    "b = NOT_IN_EXPERIMENT_BUCKET \<or> b \<in> set (buckets args)" .
  define e where "e = \<lparr>exp_name = name, exp_arguments = args, resolved_bucket = b\<rparr>"
  have "(if in_experiment e then resolved_bucket e else CONTROL_BUCKET) \<in> set (keys values)"
    using b(2) sound ks by (auto simp: in_experiment_def e_def sound_arguments_def)
  then obtain result where r: "map_of values (if in_experiment e then resolved_bucket e else CONTROL_BUCKET) = Some result"
    by (rule exE [OF key_has_value])
  have "(if resolved_bucket e = NOT_IN_EXPERIMENT_BUCKET then CONTROL_BUCKET else resolved_bucket e) =
      (if in_experiment e then resolved_bucket e else CONTROL_BUCKET)" by (simp add: in_experiment_def)
  with r have "experiment_when e values = Inr result" by (simp add: experiment_when_def Let_def)
  moreover have "\<exists>value. experiment_value e = Inr value" using b(2) by (auto simp: experiment_value_def index_of_def e_def)
  moreover have "experiment_execute mmh3 name args = Inr e" using b(1) by (simp add: experiment_execute_def e_def)
  ultimately show ?thesis using r by blast
qed

text \<open>What the constructor does not report.\<close>

lemma no_buckets_crash:
  assumes "buckets args = []" and "bucket_sizes args = []"
  shows "experiment_init call args experiments = Inl ZeroDivisionError"
  using assms by (simp add: experiment_init_def get_max_bucket_size_def)

lemma unassigned_crash:
  assumes "feature_name call = None" and "sound_arguments args"
  shows "experiment_init call args experiments = Inl (OtherException ''AttributeError'')"
  using assms by (auto simp: experiment_init_def sound_arguments_def get_max_bucket_size_def register_experiment_def)

section \<open>A concrete experiment\<close>

definition demo_experiment :: experiment_arguments where
  "demo_experiment = \<lparr>entity_id = ''42'', entity_type = ''User'', buckets = [''control'', ''treatment''],
     bucket_sizes = [Dec 125 (- 1), Dec 5 1], version = 1, revision = 0\<rparr>"

definition demo_experiment_call :: experiment_call where
  "demo_experiment_call = \<lparr>call_node = Call (demo_meta 1) (Name (demo_meta 2) ''Experiment'' Load)
       [Keyword (demo_meta 3) ''buckets'' (ListLit (demo_meta 4)
         [StringLit (demo_meta 5) ''control'', StringLit (demo_meta 6) ''treatment''])],
     feature_name = Some ''A'', assign_hint = [], version_span = node_span (demo_meta 0), revision_span = node_span (demo_meta 0),
     buckets_span = node_span (demo_meta 0), bucket_sizes_span = node_span (demo_meta 0)\<rparr>"

abbreviation wider :: "experiment_arguments \<Rightarrow> experiment_arguments" where
  "wider args \<equiv> args\<lparr>bucket_sizes := [Dec 25 0, Dec 5 1]\<rparr>"

lemma demo_experiment_eval:
  "unchecked_bucket_size (Dec c e) = Dec (c * 100) e" "get_max_bucket_size (Suc (Suc 0)) = Inr 5000" "CONTROL_BUCKET = ''control''"
  "percentage_to_bucket_units (Dec c e) = dec_int (Dec (c * 100) e)" "NOT_IN_EXPERIMENT_BUCKET = []"
  by (simp_all add: numeral_2_eq_2 [symmetric] unchecked_bucket_size_def get_max_bucket_size_def CONTROL_BUCKET_def EXPERIMENT_GRANULARITY_def
      NOT_IN_EXPERIMENT_BUCKET_def percentage_to_bucket_units_def)

lemma demo_bucket:
  "get_bucket (\<lambda>_. 1000) ''A'' demo_experiment = Inr ''control''" "get_bucket (\<lambda>_. 9999) ''A'' demo_experiment = Inr ''treatment''"
  by (simp_all add: demo_experiment_eval get_bucket_def hash_mod_def bucket_of_unit_def demo_experiment_def EXPERIMENT_GRANULARITY_def Let_def)

lemma demo_experiment_init:
  "experiment_init demo_experiment_call demo_experiment [] = Inr ([], [(''A'', call_node demo_experiment_call)])"
  "experiment_init demo_experiment_call (wider demo_experiment) [] = Inr ([], [(''A'', call_node demo_experiment_call)])"
  by (simp_all add: demo_experiment_eval demo_experiment_call_def demo_experiment_def experiment_init_def header_errors_def
      control_errors_def precision_errors_def size_errors_def register_experiment_def Let_def)


theorem rollout_stable_witness:
  "get_bucket (\<lambda>_. 1000) ''A'' (wider demo_experiment) = Inr ''control''"
proof (rule rollout_stable [OF demo_experiment_init(1,2)])
  show "get_bucket (\<lambda>_. 1000) ''A'' demo_experiment = Inr ''control''" by (rule demo_bucket)
qed (simp_all add: demo_experiment_def demo_experiment_eval)

theorem experiment_total_witness:
  "\<exists>e. experiment_execute (\<lambda>_. 9999) ''A'' demo_experiment = Inr e \<and>
     experiment_when e [(''control'', [True]), (''treatment'', [False])] = Inr [False]"
proof -
  let ?extra = "[(''control'', StringLit (demo_meta 7) []), (''treatment'', StringLit (demo_meta 8) [])]"
  have b: "buckets_for_experiment (call_node demo_experiment_call) = Inr (demo_meta 4,
      [StringLit (demo_meta 5) ''control'', StringLit (demo_meta 6) ''treatment''])" by code_simp
  have l: "mapR (literal_text (\<lambda>_. [])) [StringLit (demo_meta 5) ''control'', StringLit (demo_meta 6) ''treatment''] =
      Inr (buckets demo_experiment)" by code_simp
  have f: "feature_name demo_experiment_call = Some ''A''" by (simp add: demo_experiment_call_def)
  have w: "experiment_when_init (\<lambda>_. []) [(''A'', call_node demo_experiment_call)] (Name (demo_meta 9) ''A'' Load) (node_span (demo_meta 0)) ?extra =
      Inr []" by code_simp
  from experiment_total [OF demo_experiment_init(1) b l f w, of "[(''control'', [True]), (''treatment'', [False])]" "\<lambda>_. 9999"]
  obtain e r where e: "experiment_execute (\<lambda>_. 9999) ''A'' demo_experiment = Inr e"
    "experiment_when e [(''control'', [True]), (''treatment'', [False])] = Inr r" by auto
  moreover have "r = [False]" using e by (auto simp: experiment_execute_def demo_bucket experiment_when_def demo_experiment_eval)
  ultimately show ?thesis by blast
qed

end
