(* ===== verification/Rules.thy ===== *)
theory Rules
  imports Experiments Query_Language Executor Labels
begin

text \<open>
  Rules and their effects (\<open>stdlib/udfs/rules.py\<close>, \<open>language_types/rules.py\<close>, \<open>effects.py\<close>,
  \<open>verdicts.py\<close>, \<open>labels.py\<close>, and the effects of \<open>executor/execution_context.py\<close>): the constructor
  and the execution of \<open>Rule\<close>, the resolution and execution of \<open>WhenRules\<close>, and the features that
  effects add to the result. A rule is immutable and is a value here. An effect is an object that
  \<open>WhenRules\<close> changes in place, and a variable may put one object into several lists, so effects
  live in a store and are passed as references. Characters are the code points below 256.
\<close>

section \<open>The function Rule\<close>

record RuleT =
  rule_name :: string
  rule_value :: bool
  rule_description :: string
  rule_features :: "(string, string) dict"

text \<open>
  The regular expression \<open>_HAS_FORMAT_STRING_RE\<close>: an opening brace, a word character that is no
  digit, word characters, a closing brace. The greedy \<open>\\w*\<close> never has to give a character back, since
  a brace is no word character.
\<close>

definition is_word_char :: "char \<Rightarrow> bool" where
  "is_word_char c \<longleftrightarrow> (let n = of_char c :: nat in
     48 \<le> n \<and> n \<le> 57 \<or> 65 \<le> n \<and> n \<le> 90 \<or> n = 95 \<or> 97 \<le> n \<and> n \<le> 122 \<or>
     n = 170 \<or> n = 178 \<or> n = 179 \<or> n = 181 \<or> n = 185 \<or> n = 186 \<or> 188 \<le> n \<and> n \<le> 190 \<or> 192 \<le> n \<and> n \<noteq> 215 \<and> n \<noteq> 247)"

definition is_field_name :: "string \<Rightarrow> bool" where
  "is_field_name w \<longleftrightarrow> (case w of [] \<Rightarrow> False | c # r \<Rightarrow> is_word_char c \<and> \<not> is_digit_char c \<and> list_all is_word_char r)"

definition match_field :: "string \<Rightarrow> (string \<times> string) option" where
  "match_field s =
     (case s of
        b # c # r \<Rightarrow>
          if b = CHR ''{'' \<and> is_word_char c \<and> \<not> is_digit_char c then
            (case dropWhile is_word_char r of
               e # rest \<Rightarrow> if e = CHR ''}'' then Some (c # takeWhile is_word_char r, rest) else None
             | [] \<Rightarrow> None)
          else None
      | _ \<Rightarrow> None)"

lemma match_field_shorter: "match_field s = Some (w, r) \<Longrightarrow> length r < length s"
proof (cases s rule: list.exhaust [case_names Nil Cons], simp add: match_field_def)
  case (Cons b t)
  assume m: "match_field s = Some (w, r)"
  from m Cons obtain c u where t: "t = c # u" by (cases t) (auto simp: match_field_def)
  from m Cons t have "length r < length (dropWhile is_word_char u)"
    by (auto simp: match_field_def split: if_splits list.splits)
  also have "\<dots> \<le> length u" by (rule length_dropWhile_le)
  finally show ?thesis using Cons t by simp
qed

function find_fields :: "string \<Rightarrow> string list" where
  "find_fields s =
     (case match_field s of
        Some (w, r) \<Rightarrow> w # find_fields r
      | None \<Rightarrow> (case s of [] \<Rightarrow> [] | _ # t \<Rightarrow> find_fields t))"
  by auto
termination by (relation "measure length") (auto dest: match_field_shorter)

declare find_fields.simps [simp del]

text \<open>
  \<open>Rule.__init__\<close>: the errors it adds and the name of the rule. The printed suggestion for a call
  that is not assigned is an argument.
\<close>

definition interpolation_error :: "span \<Rightarrow> string list \<Rightarrow> verror" where
  "interpolation_error sp matches =
     error_at ''variable interpolation attempted in non-format string'' sp
       (''this string contains what looks like variable interpolation, but is not an f-string'' @ line_break 0 @
        ''found: '' @ join '', '' (map (\<lambda>w. ''`'' @ w @ ''`'') matches) @ line_break 0 @ ''consider prefixing with `f`'')"

definition description_errors :: "ast_node \<Rightarrow> verror list" where
  "description_errors description_ast =
     (case description_ast of
        StringLit m s \<Rightarrow> if find_fields s \<noteq> [] then [interpolation_error (node_span m) (find_fields s)] else []
      | FormatString _ _ _ \<Rightarrow> []
      | n \<Rightarrow> [error_at ''argument `description` to `Rule` requires either a string literal or an f-string'' (span_of n)
               (''got `'' @ class_name n @ ''` node, expected `String` or `FormatString` literal'')])"

definition rule_init :: "ast_node \<Rightarrow> ast_node option \<Rightarrow> string \<Rightarrow> ast_node \<Rightarrow> verror list \<times> string option" where
  "rule_init call_ast parent suggestion description_ast =
     (let (errors, name) =
        (case parent of
           Some (Assign m (Name _ i _) _ _) \<Rightarrow>
             if is_local i then
               ([error_at ''rules must be stored in non-local features'' (node_span m)
                  (''this rule is being stored in the local variable `'' @ i @ ''`'' @ line_break 0 @
                   ''rules must be in non-local features (eg that don'' @ [CHR 0x27] @ ''t start with `_`)'')], None)
             else ([], Some i)
         | _ \<Rightarrow> ([error_at ''`Rule(...)` must be assigned to a variable'' (span_of call_ast) suggestion], None))
      in (errors @ description_errors description_ast, name))"

text \<open>\<open>Rule.execute\<close>; the metrics are left out.\<close>

fun description_features :: "(pyval \<Rightarrow> string) \<Rightarrow> resolver \<Rightarrow> ast_node list \<Rightarrow> (string, string) dict \<Rightarrow> (string, string) dict result" where
  "description_features str res [] d = Inr d"
| "description_features str res (n # ns) d =
     bindR (res n False) (\<lambda>v.
       case n of Name _ i _ \<Rightarrow> description_features str res ns (AList.update i (str v) d)
       | _ \<Rightarrow> Inl (OtherException ''AttributeError''))"

definition rule_execute :: "(pyval \<Rightarrow> string) \<Rightarrow> resolver \<Rightarrow> string option \<Rightarrow> ast_node \<Rightarrow> bool list \<Rightarrow> RuleT result" where
  "rule_execute str res name description_ast when_all =
     (case name of
        None \<Rightarrow> Inl (AssertionError ''BUG: Rule execution started with un-assigned name.'')
      | Some n \<Rightarrow>
          if n = [] then Inl (AssertionError ''BUG: Rule execution started with un-assigned name.'')
          else bindR (case description_ast of
                 StringLit _ s \<Rightarrow> Inr (s, [])
               | FormatString _ s names \<Rightarrow> bindR (description_features str res names []) (\<lambda>fs. Inr (s, fs))
               | _ \<Rightarrow> Inl (TypeError ''BUG: Unknown type, should have been caught by validator.'')) (\<lambda>(d, fs).
            Inr \<lparr>rule_name = n, rule_value = list_all id when_all, rule_description = d, rule_features = fs\<rparr>))"

section \<open>The interpolation lint\<close>

lemma match_field_iff:
  "match_field s = Some (w, r) \<longleftrightarrow> is_field_name w \<and> s = CHR ''{'' # w @ CHR ''}'' # r"
proof
  assume m: "match_field s = Some (w, r)"
  then obtain c u where s: "s = CHR ''{'' # c # u" and c: "is_word_char c" "\<not> is_digit_char c"
    and d: "dropWhile is_word_char u = CHR ''}'' # r" and w: "w = c # takeWhile is_word_char u"
    by (auto simp: match_field_def split: list.splits if_splits)
  have "takeWhile is_word_char u @ CHR ''}'' # r = u" using takeWhile_dropWhile_id [of is_word_char u] by (simp add: d)
  moreover have "list_all is_word_char (takeWhile is_word_char u)" by (auto simp: list_all_iff dest: set_takeWhileD)
  ultimately show "is_field_name w \<and> s = CHR ''{'' # w @ CHR ''}'' # r" using c by (simp add: s w is_field_name_def)
next
  assume a: "is_field_name w \<and> s = CHR ''{'' # w @ CHR ''}'' # r"
  then obtain c v where w: "w = c # v" and c: "is_word_char c" "\<not> is_digit_char c" "\<forall>x \<in> set v. is_word_char x"
    by (auto simp: is_field_name_def list_all_iff split: list.splits)
  have "\<not> is_word_char (CHR ''}'')" by (simp add: is_word_char_def)
  then show "match_field s = Some (w, r)" using a c
    by (simp add: match_field_def w takeWhile_append2 dropWhile_append2)
qed

lemma field_name_no_brace: "is_field_name w \<Longrightarrow> CHR ''{'' \<notin> set w \<and> CHR ''}'' \<notin> set w"
  by (cases w) (auto simp: is_field_name_def list_all_iff is_word_char_def)

definition has_field :: "string \<Rightarrow> string \<Rightarrow> bool" where
  "has_field s w \<longleftrightarrow> is_field_name w \<and> (\<exists>p r. s = p @ CHR ''{'' # w @ CHR ''}'' # r)"

text \<open>A field that does not start where one is matched starts behind the matched one.\<close>

lemma field_behind:
  assumes "p @ CHR ''{'' # v @ b # q = CHR ''{'' # w @ CHR ''}'' # r" and "CHR ''{'' \<notin> set w" and "p \<noteq> []"
  shows "\<exists>p'. r = p' @ CHR ''{'' # v @ b # q"
proof -
  from assms(1,3) obtain p1 where p1: "p = CHR ''{'' # p1" "p1 @ CHR ''{'' # v @ b # q = w @ CHR ''}'' # r"
    by (cases p) auto
  then consider us where "p1 = w @ us" "us @ CHR ''{'' # v @ b # q = CHR ''}'' # r"
    | us where "p1 @ us = w" "CHR ''{'' # v @ b # q = us @ CHR ''}'' # r" by (auto simp: append_eq_append_conv2)
  then show ?thesis
  proof cases
    case 1
    then show ?thesis by (cases us) auto
  next
    case 2
    then have "us = []" using assms(2) by (cases us) auto
    with 2 show ?thesis by simp
  qed
qed

lemma has_field_match:
  assumes "match_field s = Some (w, r)"
  shows "has_field s v \<longleftrightarrow> v = w \<or> has_field r v"
proof -
  from assms have w: "is_field_name w" and s: "s = CHR ''{'' # w @ CHR ''}'' # r" by (auto simp: match_field_iff)
  have "v = w \<or> has_field r v" if "is_field_name v" "s = p @ CHR ''{'' # v @ CHR ''}'' # q" for p q
  proof (cases "p = []")
    case True
    with that have "match_field s = Some (v, q)" by (simp add: match_field_iff)
    with assms show ?thesis by simp
  next
    case False
    with field_behind [of p v _ q w r] that s field_name_no_brace [OF w] show ?thesis by (auto simp: has_field_def)
  qed
  moreover have "has_field s w" using w s by (auto simp: has_field_def intro: exI [of _ "[]"])
  moreover have "has_field s v" if "has_field r v" using that by (auto simp: has_field_def s) (metis append_Cons append_assoc)
  ultimately show ?thesis by (auto simp: has_field_def)
qed

lemma has_field_skip:
  assumes "match_field (c # t) = None"
  shows "has_field (c # t) v \<longleftrightarrow> has_field t v"
proof -
  have "has_field t v" if "is_field_name v" "c # t = p @ CHR ''{'' # v @ CHR ''}'' # q" for p q
  proof (cases p)
    case Nil
    with that have "match_field (c # t) = Some (v, q)" by (simp add: match_field_iff)
    with assms show ?thesis by simp
  qed (use that in \<open>auto simp: has_field_def\<close>)
  then show ?thesis by (auto simp: has_field_def) (metis append_Cons)
qed

lemma find_fields_exact: "set (find_fields s) = {w. has_field s w}"
proof (induction s rule: find_fields.induct)
  case (1 s)
  show ?case
  proof (cases "match_field s")
    case None
    show ?thesis
    proof (cases s)
      case Nil
      then show ?thesis by (auto simp: find_fields.simps [of "[]"] match_field_def has_field_def)
    next
      case (Cons c t)
      with None 1(1) [OF None Cons] has_field_skip [of c t] show ?thesis by (subst find_fields.simps) auto
    qed
  next
    case (Some a)
    then obtain w r where a: "a = (w, r)" by (cases a)
    with Some 1(2) [OF Some a [symmetric]] has_field_match [of s w r] show ?thesis by (subst find_fields.simps) auto
  qed
qed

lemma description_features_exact:
  assumes "\<forall>n \<in> set names. \<exists>m i c. n = Name m i c \<and> res n False = Inr (val i)"
  shows "\<exists>fs. description_features str res names d = Inr fs \<and>
    map_of fs = (\<lambda>k. if \<exists>m c. Name m k c \<in> set names then Some (str (val k)) else map_of d k)"
  using assms
proof (induction names arbitrary: d)
  case (Cons n ns)
  then obtain m i c where n: "n = Name m i c" "res n False = Inr (val i)" by auto
  with Cons.IH [of "AList.update i (str (val i)) d"] Cons.prems obtain fs where
    "description_features str res ns (AList.update i (str (val i)) d) = Inr fs"
    "map_of fs = (\<lambda>k. if \<exists>m c. Name m k c \<in> set ns then Some (str (val k)) else map_of (AList.update i (str (val i)) d) k)"
    by auto
  with n show ?case by (auto simp: fun_eq_iff dict_simps)
qed simp


section \<open>Effects\<close>

datatype entity_ident = IntIdent int | StrIdent string

record EntityT =
  ent_type :: string
  ent_id :: entity_ident

fun ident_text :: "entity_ident \<Rightarrow> string" where
  "ident_text (IntIdent i) = int_text i"
| "ident_text (StrIdent s) = s"

record LabelEffect =
  effect_entity :: EntityT
  effect_status :: LabelStatus
  effect_name :: string
  expires_after :: "int option"  \<comment> \<open>microseconds\<close>
  delay_action_by :: "int option"
  dependent_rule :: "RuleT option"
  suppressed :: bool

datatype effect_data = LabelData LabelEffect | VerdictData string

datatype effect_type = LabelEffectType | VerdictEffectType

record effect_object =
  effect_rules :: "RuleT list"
  effect_data :: effect_data

fun type_of_data :: "effect_data \<Rightarrow> effect_type" where
  "type_of_data (LabelData _) = LabelEffectType"
| "type_of_data (VerdictData _) = VerdictEffectType"

text \<open>
  The part of the execution context that effects change: the objects, the references by type in the
  order they were added, and the custom features.
\<close>

record effect_context =
  effect_store :: "effect_object list"
  effects_by_type :: "(effect_type, nat list) dict"
  custom_features :: "(string, pyval) dict"

definition new_effect :: "effect_data \<Rightarrow> effect_context \<Rightarrow> nat \<times> effect_context" where
  "new_effect d ctx = (length (effect_store ctx), ctx\<lparr>effect_store := effect_store ctx @ [\<lparr>effect_rules = [], effect_data = d\<rparr>]\<rparr>)"

definition add_rules :: "RuleT list \<Rightarrow> nat \<Rightarrow> effect_context \<Rightarrow> effect_context" where
  "add_rules rs e ctx =
     (let o' = effect_store ctx ! e in
      ctx\<lparr>effect_store := (effect_store ctx)[e := o'\<lparr>effect_rules := effect_rules o' @ rs\<rparr>]\<rparr>)"

definition refs_of :: "effect_type \<Rightarrow> effect_context \<Rightarrow> nat list" where
  "refs_of t ctx = (case map_of (effects_by_type ctx) t of None \<Rightarrow> [] | Some es \<Rightarrow> es)"

definition add_effect_object :: "nat \<Rightarrow> effect_context \<Rightarrow> effect_context" where
  "add_effect_object e ctx =
     (let t = type_of_data (effect_data (effect_store ctx ! e)) in
      ctx\<lparr>effects_by_type := AList.update t (refs_of t ctx @ [e]) (effects_by_type ctx)\<rparr>)"

section \<open>The function WhenRules\<close>

text \<open>
  \<open>WhenRules.resolve_arguments\<close>: the items of the two list nodes that did not fail, \<open>then\<close> first.
  This is the override of the argument resolution in the model of the executor.
\<close>

fun present_items :: "resolver \<Rightarrow> ast_node list \<Rightarrow> pyval list result" where
  "present_items res [] = Inr []"
| "present_items res (n # ns) =
     bindR (res n True) (\<lambda>v. bindR (present_items res ns) (\<lambda>vs. Inr (if v = VNone then vs else v # vs)))"

definition list_items :: "string \<Rightarrow> string \<Rightarrow> (string, ast_node) dict \<Rightarrow> ast_node list result" where
  "list_items key msg dependent =
     (case map_of dependent key of
        None \<Rightarrow> Inl KeyError
      | Some (ListLit _ items) \<Rightarrow> Inr items
      | Some _ \<Rightarrow> Inl (AssertionError msg))"

definition when_rules_resolve_arguments :: "(string, pyval) dict \<Rightarrow> resolver \<Rightarrow> (string, ast_node) dict \<Rightarrow> (string, pyval) dict result" where
  "when_rules_resolve_arguments unresolved res dependent =
     (if map_of dependent ''then'' = None \<or> map_of dependent ''rules_any'' = None then Inl KeyError
      else
        bindR (list_items ''then'' ''BUG: `then` node is not a list!'' dependent) (\<lambda>then_items.
        bindR (present_items res then_items) (\<lambda>then_value.
        bindR (list_items ''rules_any'' ''BUG: `rules_any node is not a List!'' dependent) (\<lambda>rules_items.
        bindR (present_items res rules_items) (\<lambda>rules_any_value.
          Inr (AList.update ''rules_any'' (VList rules_any_value) (AList.update ''then'' (VList then_value) unresolved)))))))"

text \<open>A failed item is left out and the others stay, in their order.\<close>

lemma present_items_exact:
  "\<forall>n \<in> set ns. res n True = Inr (f n) \<Longrightarrow> present_items res ns = Inr (filter (\<lambda>v. v \<noteq> VNone) (map f ns))"
  by (induction ns) auto

text \<open>\<open>WhenRules.execute\<close>: an item of \<open>then\<close> is an effect or, which raises, something else.\<close>

datatype outcome = EffectRef nat | NoEffect

fun add_outcomes :: "RuleT list \<Rightarrow> outcome list \<Rightarrow> effect_context \<Rightarrow> unit result \<times> effect_context" where
  "add_outcomes passing [] ctx = (Inr (), ctx)"
| "add_outcomes passing (EffectRef e # os) ctx = add_outcomes passing os (add_effect_object e (add_rules passing e ctx))"
| "add_outcomes passing (NoEffect # os) ctx = (Inl (TypeError ''BUG: Non-EffectBase type for WhenRules''), ctx)"

definition when_rules_execute :: "RuleT list \<Rightarrow> outcome list \<Rightarrow> effect_context \<Rightarrow> unit result \<times> effect_context" where
  "when_rules_execute rules_any outcomes ctx =
     (let passing_rules = filter rule_value rules_any in
      if passing_rules = [] then (Inr (), ctx) else add_outcomes passing_rules outcomes ctx)"

section \<open>Custom features\<close>

text \<open>
  \<open>get_serializable_feature\<close> of the features that are built from a list of effects, and their names:
  \<open>lstrip('__')\<close> removes the underscores, and the context puts two of them back.
\<close>

definition strip_underscores :: "string \<Rightarrow> string" where
  "strip_underscores s = (if take 2 s = ''__'' then dropWhile (\<lambda>c. c = CHR ''_'') s else s)"

fun feature_name_of :: "effect_type \<Rightarrow> string" where
  "feature_name_of LabelEffectType = strip_underscores ENTITY_LABEL_MUTATION_DIMENSION_NAME"
| "feature_name_of VerdictEffectType = strip_underscores VERDICT_DIMENSION_NAME"

fun effect_to_str :: "effect_data \<Rightarrow> string" where
  "effect_to_str (LabelData le) = ENTITY_LABEL_MUTATION_DIMENSION_VALUE (ent_type (effect_entity le)) (effect_name le) (effect_status le)"
| "effect_to_str (VerdictData v) = v"

definition serializable_feature :: "effect_context \<Rightarrow> nat list \<Rightarrow> pyval" where
  "serializable_feature ctx refs = VList (map (\<lambda>e. VStr (effect_to_str (effect_data (effect_store ctx ! e)))) refs)"

text \<open>\<open>add_custom_extracted_feature\<close>; a feature whose value is \<open>None\<close> is taken out.\<close>

definition add_custom_extracted_feature :: "string \<Rightarrow> pyval option \<Rightarrow> bool \<Rightarrow> (string, pyval) dict \<Rightarrow> (string, pyval) dict result" where
  "add_custom_extracted_feature name feature error_on_duplicate_key custom =
     (let key = ''__'' @ name in
      if map_of custom key \<noteq> None \<and> error_on_duplicate_key
      then Inl (ValueError (''custom extracted feature `'' @ name @ ''` already exists on the execution context and is being overridden''))
      else Inr (case feature of
        Some v \<Rightarrow> AList.update key v custom
      | None \<Rightarrow> filter (\<lambda>(k, _). k \<noteq> key) custom))"

definition collect_effects :: "effect_context \<Rightarrow> effect_type \<times> nat list \<Rightarrow> (string, pyval) dict \<Rightarrow> (string, pyval) dict result" where
  "collect_effects ctx p custom =
     (let (t, refs) = p; type_checked = filter (\<lambda>e. type_of_data (effect_data (effect_store ctx ! e)) = t) refs in
      if type_checked \<noteq> refs then Inr custom
      else add_custom_extracted_feature (feature_name_of t) (Some (serializable_feature ctx type_checked)) False custom)"

definition get_outputs :: "(string, pyval) dict \<Rightarrow> (string, pyval) dict" where
  "get_outputs outs = map (\<lambda>(k, v). (k, case v of VConv _ w \<Rightarrow> w | _ \<Rightarrow> v)) outs"

definition get_extracted_features :: "(string, pyval) dict \<Rightarrow> effect_context \<Rightarrow> ((string, pyval) dict \<times> effect_context) result" where
  "get_extracted_features outs ctx =
     bindR (loopR (collect_effects ctx) (effects_by_type ctx) (custom_features ctx)) (\<lambda>custom.
       Inr (foldl (\<lambda>d (k, v). AList.update k v d) custom (get_outputs outs), ctx\<lparr>custom_features := custom\<rparr>))"

section \<open>Sequences of effect operations\<close>

text \<open>What a run does to the effects: functions create them, \<open>WhenRules\<close> calls add rules and emit them.\<close>

datatype effect_step = CreateEffect effect_data | CallWhenRules "RuleT list" "outcome list"

fun effect_step_run :: "effect_step \<Rightarrow> effect_context \<Rightarrow> effect_context" where
  "effect_step_run (CreateEffect d) ctx = snd (new_effect d ctx)"
| "effect_step_run (CallWhenRules rs os) ctx = snd (when_rules_execute rs os ctx)"

definition run_effects :: "effect_step list \<Rightarrow> effect_context \<Rightarrow> effect_context" where
  "run_effects steps ctx = foldl (\<lambda>c s. effect_step_run s c) ctx steps"

text \<open>Every list holds effects that exist when the call is made, which the static types ensure.\<close>

fun step_ok :: "nat \<Rightarrow> effect_step \<Rightarrow> bool" where
  "step_ok n (CreateEffect _) = True"
| "step_ok n (CallWhenRules _ os) = (\<forall>x \<in> set os. \<exists>e < n. x = EffectRef e)"

fun steps_ok :: "nat \<Rightarrow> effect_step list \<Rightarrow> bool" where
  "steps_ok n [] = True"
| "steps_ok n (CreateEffect d # ss) = steps_ok (Suc n) ss"
| "steps_ok n (CallWhenRules rs os # ss) = (step_ok n (CallWhenRules rs os) \<and> steps_ok n ss)"

fun refs_in :: "outcome list \<Rightarrow> nat list" where
  "refs_in [] = []"
| "refs_in (EffectRef e # os) = e # refs_in os"
| "refs_in (NoEffect # os) = refs_in os"

text \<open>The effects that are emitted, each with the rules that passed in the call that emitted it.\<close>

fun emitted :: "effect_step list \<Rightarrow> (nat \<times> RuleT list) list" where
  "emitted [] = []"
| "emitted (CreateEffect _ # ss) = emitted ss"
| "emitted (CallWhenRules rs os # ss) =
     (if filter rule_value rs = [] then [] else map (\<lambda>e. (e, filter rule_value rs)) (refs_in os)) @ emitted ss"

fun created_data :: "effect_step list \<Rightarrow> effect_data list" where
  "created_data [] = []"
| "created_data (CreateEffect d # ss) = d # created_data ss"
| "created_data (CallWhenRules _ _ # ss) = created_data ss"

definition data_in :: "effect_context \<Rightarrow> effect_data list" where
  "data_in ctx = map effect_data (effect_store ctx)"

definition rules_of :: "effect_context \<Rightarrow> nat \<Rightarrow> RuleT list" where
  "rules_of ctx e = (if e < length (effect_store ctx) then effect_rules (effect_store ctx ! e) else [])"

definition rules_for :: "nat \<Rightarrow> (nat \<times> RuleT list) list \<Rightarrow> RuleT list" where
  "rules_for e log = concat (map snd (filter (\<lambda>p. fst p = e) log))"

definition refs_with :: "effect_data list \<Rightarrow> effect_type \<Rightarrow> (nat \<times> RuleT list) list \<Rightarrow> nat list" where
  "refs_with ds t log = filter (\<lambda>e. type_of_data (ds ! e) = t) (map fst log)"

lemma rules_for_append [simp]: "rules_for e (l @ l') = rules_for e l @ rules_for e l'"
  by (simp add: rules_for_def)

lemma refs_with_append [simp]: "refs_with ds t (l @ l') = refs_with ds t l @ refs_with ds t l'"
  by (simp add: refs_with_def)

text \<open>One emission: the object gains the rules, its type gains the reference.\<close>

lemma emit_one:
  assumes "e < length (effect_store ctx)" and "ctx' = add_effect_object e (add_rules ps e ctx)"
  shows "data_in ctx' = data_in ctx" and "rules_of ctx' e' = rules_of ctx e' @ (if e' = e then ps else [])"
    and "refs_of t ctx' = refs_of t ctx @ refs_with (data_in ctx) t [(e, ps)]"
  using assms
  by (auto simp: data_in_def rules_of_def refs_of_def refs_with_def add_effect_object_def add_rules_def Let_def map_update
      nth_list_update dict_simps list_update_same_conv intro: nth_equalityI split: option.splits)

lemma add_outcomes_log:
  assumes "\<forall>x \<in> set os. \<exists>e < length (effect_store ctx). x = EffectRef e"
  shows "fst (add_outcomes ps os ctx) = Inr () \<and> data_in (snd (add_outcomes ps os ctx)) = data_in ctx \<and>
    rules_of (snd (add_outcomes ps os ctx)) e = rules_of ctx e @ rules_for e (map (\<lambda>e. (e, ps)) (refs_in os)) \<and>
    refs_of t (snd (add_outcomes ps os ctx)) = refs_of t ctx @ refs_with (data_in ctx) t (map (\<lambda>e. (e, ps)) (refs_in os))"
  using assms
proof (induction os arbitrary: ctx)
  case Nil
  then show ?case by (simp add: rules_for_def refs_with_def)
next
  case (Cons x os)
  then obtain i where x: "x = EffectRef i" "i < length (effect_store ctx)" by auto
  define ctx1 where "ctx1 = add_effect_object i (add_rules ps i ctx)"
  note one = emit_one [OF x(2) ctx1_def]
  have "length (effect_store ctx1) = length (effect_store ctx)" using one(1) by (metis data_in_def length_map)
  with Cons.IH [of ctx1] Cons.prems show ?case
    by (auto simp: x(1) one rules_for_def refs_with_def simp flip: ctx1_def)
qed

lemma refs_in_range: "\<forall>x \<in> set os. \<exists>e < n. x = EffectRef e \<Longrightarrow> \<forall>e \<in> set (refs_in os). e < n"
  by (induction os rule: refs_in.induct) auto

lemma run_effects_log:
  assumes "steps_ok (length (effect_store ctx)) steps"
  shows "data_in (run_effects steps ctx) = data_in ctx @ created_data steps \<and>
    rules_of (run_effects steps ctx) e = rules_of ctx e @ rules_for e (emitted steps) \<and>
    refs_of t (run_effects steps ctx) = refs_of t ctx @ refs_with (data_in ctx @ created_data steps) t (emitted steps)"
  using assms
proof (induction steps arbitrary: ctx)
  case Nil
  then show ?case by (simp add: run_effects_def rules_for_def refs_with_def)
next
  case (Cons s ss)
  show ?case
  proof (cases s)
    case (CreateEffect d)
    define ctx1 where "ctx1 = snd (new_effect d ctx)"
    have "data_in ctx1 = data_in ctx @ [d]" "rules_of ctx1 e = rules_of ctx e" "refs_of t ctx1 = refs_of t ctx"
      by (auto simp: ctx1_def new_effect_def data_in_def rules_of_def refs_of_def nth_append)
    moreover have "length (effect_store ctx1) = Suc (length (effect_store ctx))" by (simp add: ctx1_def new_effect_def)
    ultimately show ?thesis using Cons.IH [of ctx1] Cons.prems CreateEffect
      by (simp add: run_effects_def flip: ctx1_def)
  next
    case (CallWhenRules rs os)
    define ctx1 where "ctx1 = snd (when_rules_execute rs os ctx)"
    have ok: "\<forall>x \<in> set os. \<exists>e < length (effect_store ctx). x = EffectRef e" using Cons.prems CallWhenRules by simp
    have one: "data_in ctx1 = data_in ctx" "rules_of ctx1 e = rules_of ctx e @ rules_for e (emitted [s])"
      "refs_of t ctx1 = refs_of t ctx @ refs_with (data_in ctx) t (emitted [s])"
      using add_outcomes_log [OF ok, of "filter rule_value rs"]
      by (auto simp: ctx1_def when_rules_execute_def CallWhenRules Let_def rules_for_def refs_with_def)
    have "refs_with (data_in ctx @ ds) t (emitted [s]) = refs_with (data_in ctx) t (emitted [s])" for ds
      using refs_in_range [OF ok]
      by (auto simp: CallWhenRules refs_with_def data_in_def nth_append o_def intro: filter_cong)
    moreover have "length (effect_store ctx1) = length (effect_store ctx)" using one(1) by (metis data_in_def length_map)
    ultimately show ?thesis using Cons.IH [of ctx1] Cons.prems CallWhenRules one
      by (simp add: run_effects_def flip: ctx1_def)
  qed
qed

section \<open>The extracted features\<close>

definition no_effects :: effect_context where
  "no_effects = \<lparr>effect_store = [], effects_by_type = [], custom_features = []\<rparr>"

lemma update_same: "map_of d k = Some v \<Longrightarrow> AList.update k v d = d"
  by (induction d) (auto split: if_splits)

lemma distinct_types: "distinct (keys (effects_by_type ctx)) \<Longrightarrow> distinct (keys (effects_by_type (effect_step_run s ctx)))"
proof (cases s)
  case (CallWhenRules rs os)
  have "distinct (keys (effects_by_type (snd (add_outcomes ps os ctx))))" if "distinct (keys (effects_by_type ctx))" for ps ctx
    using that
    by (induction ps os ctx rule: add_outcomes.induct) (simp_all add: add_effect_object_def add_rules_def Let_def dict_simps)
  then show "distinct (keys (effects_by_type ctx)) \<Longrightarrow> ?thesis" using CallWhenRules by (simp add: when_rules_execute_def Let_def)
qed (simp add: new_effect_def)

lemma no_empty_refs: "(t, []) \<notin> set (effects_by_type ctx) \<Longrightarrow> (t, []) \<notin> set (effects_by_type (effect_step_run s ctx))"
proof (cases s)
  case (CallWhenRules rs os)
  have upd: "(t, []) \<notin> set (AList.update k (xs @ [x]) d)" if "(t, []) \<notin> set d" for k x and xs :: "nat list" and d
    using that by (induction d) auto
  have "(t, []) \<notin> set (effects_by_type (snd (add_outcomes ps os ctx)))" if "(t, []) \<notin> set (effects_by_type ctx)" for ps ctx
    using that
    by (induction ps os ctx rule: add_outcomes.induct) (simp_all add: add_effect_object_def add_rules_def Let_def upd)
  then show "(t, []) \<notin> set (effects_by_type ctx) \<Longrightarrow> ?thesis" using CallWhenRules by (simp add: when_rules_execute_def Let_def)
qed (simp add: new_effect_def)

lemma run_effects_types:
  "distinct (keys (effects_by_type (run_effects steps no_effects))) \<and> (t, []) \<notin> set (effects_by_type (run_effects steps no_effects))"
proof (induction steps rule: rev_induct)
  case Nil
  then show ?case by (simp add: run_effects_def no_effects_def)
next
  case (snoc s ss)
  then show ?case by (simp add: run_effects_def distinct_types no_empty_refs)
qed

lemma feature_names: "''__'' @ feature_name_of LabelEffectType = ''__entity_label_mutations''"
  "''__'' @ feature_name_of VerdictEffectType = ''__verdicts''"
  by (simp_all add: strip_underscores_def ENTITY_LABEL_MUTATION_DIMENSION_NAME_def VERDICT_DIMENSION_NAME_def)

lemma feature_name_inj: "feature_name_of t = feature_name_of t' \<Longrightarrow> t = t'"
  using feature_names by (cases t; cases t') auto

text \<open>
  The queries for verdicts and label changes look for what the effects write: the dimension is the key
  of the feature and the pattern holds the text of the effect.
\<close>

lemma queries_name_effects:
  "to_druid_query (DidDeclareVerdict v) =
     Some (DArrayContainsElement (''__'' @ feature_name_of VerdictEffectType) ''STRING'' (effect_to_str (VerdictData v)))"
  "effect_status le = ADDED \<Longrightarrow> to_druid_query (DidAddLabel (ent_type (effect_entity le)) (effect_name le)) =
     Some (DLike (''__'' @ feature_name_of LabelEffectType) (''%'' @ effect_to_str (LabelData le) @ ''%''))"
  "effect_status le = REMOVED \<Longrightarrow> to_druid_query (DidRemoveLabel (ent_type (effect_entity le)) (effect_name le)) =
     Some (DLike (''__'' @ feature_name_of LabelEffectType) (''%'' @ effect_to_str (LabelData le) @ ''%''))"
  unfolding feature_names by (simp_all add: VERDICT_DIMENSION_NAME_def ENTITY_LABEL_MUTATION_DIMENSION_NAME_def)

text \<open>The loop over the types sets the feature of every type that is there and leaves the others.\<close>

lemma collect_loop:
  assumes "distinct (keys es)" and "\<forall>(t, refs) \<in> set es. \<forall>e \<in> set refs. type_of_data (effect_data (effect_store ctx ! e)) = t"
  shows "\<exists>fs. loopR (collect_effects ctx) es d = Inr fs \<and>
    (\<forall>t refs. map_of es t = Some refs \<longrightarrow> map_of fs (''__'' @ feature_name_of t) = Some (serializable_feature ctx refs)) \<and>
    (\<forall>k. (\<forall>t \<in> set (keys es). k \<noteq> ''__'' @ feature_name_of t) \<longrightarrow> map_of fs k = map_of d k)"
  using assms
proof (induction es arbitrary: d)
  case (Cons p es)
  obtain t refs where p: "p = (t, refs)" by (cases p)
  let ?d = "AList.update (''__'' @ feature_name_of t) (serializable_feature ctx refs) d"
  have "filter (\<lambda>e. type_of_data (effect_data (effect_store ctx ! e)) = t) refs = refs" using Cons.prems(2) by (simp add: p)
  then have first: "collect_effects ctx p d = Inr ?d" by (simp add: collect_effects_def add_custom_extracted_feature_def p Let_def)
  from Cons.IH [of ?d] Cons.prems obtain fs where fs: "loopR (collect_effects ctx) es ?d = Inr fs"
    "\<forall>t refs. map_of es t = Some refs \<longrightarrow> map_of fs (''__'' @ feature_name_of t) = Some (serializable_feature ctx refs)"
    "\<forall>k. (\<forall>t \<in> set (keys es). k \<noteq> ''__'' @ feature_name_of t) \<longrightarrow> map_of fs k = map_of ?d k" by auto
  have "\<forall>t' \<in> set (keys es). ''__'' @ feature_name_of t \<noteq> ''__'' @ feature_name_of t'"
    using Cons.prems(1) feature_name_inj by (auto simp: p)
  with fs(3) have "map_of fs (''__'' @ feature_name_of t) = Some (serializable_feature ctx refs)" by (simp add: dict_simps)
  moreover have "map_of fs k = map_of d k" if "\<forall>t' \<in> set (keys (p # es)). k \<noteq> ''__'' @ feature_name_of t'" for k
    using fs(3) that by (simp add: p dict_simps)
  ultimately show ?case using first fs(1,2) by (auto simp: p)
qed simp

text \<open>A second pass over the types writes the same features and changes nothing.\<close>

lemma collect_again:
  assumes "\<forall>t refs. (t, refs) \<in> set es \<longrightarrow> map_of fs (''__'' @ feature_name_of t) = Some (serializable_feature ctx refs)"
    and "\<forall>(t, refs) \<in> set es. \<forall>e \<in> set refs. type_of_data (effect_data (effect_store ctx ! e)) = t"
  shows "loopR (collect_effects ctx) es fs = Inr fs"
  using assms
proof (induction es)
  case (Cons p es)
  obtain t refs where p: "p = (t, refs)" by (cases p)
  have "filter (\<lambda>e. type_of_data (effect_data (effect_store ctx ! e)) = t) refs = refs" using Cons.prems(2) by (simp add: p)
  moreover have "map_of fs (''__'' @ feature_name_of t) = Some (serializable_feature ctx refs)" using Cons.prems(1) p by auto
  ultimately have "collect_effects ctx p fs = Inr fs"
    by (simp add: collect_effects_def add_custom_extracted_feature_def p Let_def update_same)
  with Cons show ?case by simp
qed simp

lemma map_of_union: "distinct (keys b) \<Longrightarrow> map_of (foldl (\<lambda>d (k, v). AList.update k v d) a b) = map_of a ++ map_of b"
proof (induction b arbitrary: a)
  case (Cons p b)
  obtain k v where p: "p = (k, v)" by (cases p)
  have "map_of b k = None" using Cons.prems by (simp add: p map_of_eq_None_iff)
  then show ?case using Cons by (auto simp: p dict_simps fun_eq_iff map_add_def split: option.splits)
qed simp

lemma emitted_range: "steps_ok n steps \<Longrightarrow> (e, ps) \<in> set (emitted steps) \<Longrightarrow> e < n + length (created_data steps)"
proof (induction n steps rule: steps_ok.induct)
  case (3 n rs os ss)
  then show ?case using refs_in_range [of os n] by (fastforce split: if_splits)
qed auto

lemma run_effects_custom: "custom_features (run_effects steps ctx) = custom_features ctx"
proof (induction steps rule: rev_induct)
  case (snoc s ss)
  have "custom_features (snd (add_outcomes ps os c)) = custom_features c" for ps os c
    by (induction ps os c rule: add_outcomes.induct) (simp_all add: add_effect_object_def add_rules_def Let_def)
  with snoc show ?case by (cases s) (simp_all add: run_effects_def new_effect_def when_rules_execute_def Let_def)
qed (simp add: run_effects_def)

lemma feature_lookup:
  assumes "\<And>t. map_of custom (''__'' @ feature_name_of t) = (if T t = [] then None else Some (VList (map VStr (T t))))"
    and "\<And>k. k \<noteq> ''__verdicts'' \<Longrightarrow> k \<noteq> ''__entity_label_mutations'' \<Longrightarrow> map_of custom k = None"
  shows "map_of custom k = (if k = ''__verdicts'' \<and> T VerdictEffectType \<noteq> [] then Some (VList (map VStr (T VerdictEffectType)))
    else if k = ''__entity_label_mutations'' \<and> T LabelEffectType \<noteq> [] then Some (VList (map VStr (T LabelEffectType))) else None)"
  using assms(1) [of VerdictEffectType] assms(1) [of LabelEffectType] assms(2) [of k]
  unfolding feature_names by (cases "k = ''__verdicts''"; cases "k = ''__entity_label_mutations''") auto

lemma collect_context: "collect_effects (ctx\<lparr>custom_features := c\<rparr>) = collect_effects ctx"
  by (auto simp: collect_effects_def serializable_feature_def fun_eq_iff Let_def)

text \<open>The values that are emitted for a type of effect, in the order of the calls.\<close>

definition emitted_texts :: "effect_step list \<Rightarrow> effect_type \<Rightarrow> string list" where
  "emitted_texts steps t = map (\<lambda>e. effect_to_str (created_data steps ! e)) (refs_with (created_data steps) t (emitted steps))"



end
