(* ===== verification/Date_Arithmetic.thy ===== *)
theory Date_Arithmetic
  imports Datetime
begin

text \<open>
  \<open>datetime + timedelta\<close>: the inverse of \<open>toordinal\<close> and the addition of microseconds to a date and
  time, with the overflow that Python reports when the sum leaves the years 1 to 9999. The sum of a
  well-formed value is well formed, keeps the offset, and denotes the shifted instant.
\<close>

section \<open>Ordinals\<close>

definition days_before_year :: "nat \<Rightarrow> nat" where
  "days_before_year y = (y - 1) * 365 + (y - 1) div 4 - (y - 1) div 100 + (y - 1) div 400"

definition days_before_month :: "nat \<Rightarrow> nat \<Rightarrow> nat" where
  "days_before_month y m = sum_list (map (days_in_month y) [1..<m])"

lemma to_ordinal_split: "to_ordinal d = days_before_year (year d) + days_before_month (year d) (month d) + day d"
  by (simp add: to_ordinal_def days_before_year_def days_before_month_def Let_def)

text \<open>The year of an ordinal: a lower bound from the longest year, raised until the next year starts too late.\<close>

function raise_year :: "nat \<Rightarrow> nat \<Rightarrow> nat" where
  "raise_year n y = (if y < 10000 \<and> days_before_year (Suc y) < n then raise_year n (Suc y) else y)"
  by auto
termination by (relation "measure (\<lambda>(n, y). 10000 - y)") auto

declare raise_year.simps [simp del]

definition year_of_ordinal :: "nat \<Rightarrow> nat" where
  "year_of_ordinal n = raise_year n (Suc ((n - 1) div 366))"

text \<open>The month and the day from the day of the year.\<close>

function month_day :: "nat \<Rightarrow> nat \<Rightarrow> nat \<Rightarrow> nat \<times> nat" where
  "month_day y m r = (if m < 12 \<and> days_in_month y m < r then month_day y (Suc m) (r - days_in_month y m) else (m, r))"
  by auto
termination by (relation "measure (\<lambda>(y, m, r). 12 - m)") auto

declare month_day.simps [simp del]

lemma year_length: "y \<ge> 1 \<Longrightarrow> days_before_year (Suc y) = days_before_year y + (if is_leap y then 366 else 365)"
proof -
  assume "y \<ge> 1"
  then obtain k where k: "y = Suc k" by (cases y) auto
  have d: "Suc k div m = k div m + (if Suc k mod m = 0 then 1 else 0)" if "m > 0" for m
    using that by (simp add: div_Suc)
  have le: "k div 100 \<le> k div 4" by (rule div_le_mono2) simp_all
  have "Suc k mod 400 = 0 \<longrightarrow> Suc k mod 100 = 0" "Suc k mod 100 = 0 \<longrightarrow> Suc k mod 4 = 0" by presburger+
  moreover define a b c where "a = k div 4" and "b = k div 100" and "c = k div 400"
  ultimately show ?thesis using le unfolding k days_before_year_def is_leap_def
    by (auto simp: d simp flip: a_def b_def c_def)
qed

lemma year_bound: "days_before_year y \<le> 366 * (y - 1)"
proof -
  define k a b c where "k = y - 1" and "a = k div 4" and "b = k div 100" and "c = k div 400"
  have "c \<le> b" unfolding b_def c_def by (rule div_le_mono2) simp_all
  moreover have "b \<le> a" unfolding a_def b_def by (rule div_le_mono2) simp_all
  moreover have "a \<le> k" unfolding a_def by simp
  moreover have "days_before_year y = k * 365 + a - b + c"
    by (simp add: days_before_year_def a_def b_def c_def k_def)
  ultimately show ?thesis unfolding k_def [symmetric] by linarith
qed

lemma raise_year_spec:
  assumes "y \<ge> 1" and "days_before_year y < n" and "y \<le> 9999" and "n \<le> days_before_year 10000"
  shows "raise_year n y \<ge> 1 \<and> raise_year n y \<le> 9999 \<and> days_before_year (raise_year n y) < n \<and> n \<le> days_before_year (Suc (raise_year n y))"
  using assms
proof (induction n y rule: raise_year.induct)
  case (1 n y)
  show ?case
  proof (cases "days_before_year (Suc y) < n")
    case True
    with 1(5) have "Suc y \<noteq> 10000" by auto
    with 1 True show ?thesis by (subst (1 2 3 4) raise_year.simps) simp
  next
    case False
    with 1 show ?thesis by (subst (1 2 3 4) raise_year.simps) simp
  qed
qed

lemma days_before_month_Suc: "m \<ge> 1 \<Longrightarrow> days_before_month y (Suc m) = days_before_month y m + days_in_month y m"
  by (simp add: days_before_month_def)

lemma year_months: "days_before_month y 12 + 31 = (if is_leap y then 366 else 365)"
  by (simp add: days_before_month_def days_in_month_def upt_rec)

lemma month_day_spec:
  assumes "month_day y m r = (m', d)" and "1 \<le> m" and "m \<le> 12" and "1 \<le> r"
    and "days_before_month y m + r \<le> days_before_month y 12 + 31"
  shows "1 \<le> m' \<and> m' \<le> 12 \<and> 1 \<le> d \<and> d \<le> days_in_month y m' \<and> days_before_month y m' + d = days_before_month y m + r"
  using assms
proof (induction y m r rule: month_day.induct)
  case (1 y m r)
  show ?case
  proof (cases "m < 12 \<and> days_in_month y m < r")
    case True
    with 1(2) have "month_day y (Suc m) (r - days_in_month y m) = (m', d)" by (simp add: month_day.simps [of y m])
    moreover have "1 \<le> r - days_in_month y m" using True by linarith
    ultimately show ?thesis using 1(1) [OF True] True 1(3-) by (simp add: days_before_month_Suc)
  next
    case False
    then have "month_day y m r = (m, r)" by (subst month_day.simps) auto
    with 1(2) have eq: "m' = m" "d = r" by simp_all
    have "r \<le> days_in_month y m"
    proof (cases "m < 12")
      case False
      with 1(4) have "m = 12" by simp
      with 1(6) show ?thesis by (simp add: days_in_month_def)
    qed (use \<open>\<not> (m < 12 \<and> _)\<close> in simp)
    with 1(3-5) show ?thesis unfolding eq by simp
  qed
qed

section \<open>Addition\<close>

definition day_us :: int where "day_us = 86400000000"

text \<open>The value with the local time \<open>t\<close>, counted as by \<open>local_us\<close>.\<close>

definition of_local_us :: "int \<Rightarrow> int option \<Rightarrow> datetime" where
  "of_local_us t tz =
     (let n = nat (t div day_us); us = nat (t mod day_us); y = year_of_ordinal n;
          (m, d) = month_day y 1 (n - days_before_year y)
      in \<lparr>year = y, month = m, day = d, hour = us div 3600000000, minute = us div 60000000 mod 60,
          second = us div 1000000 mod 60, microsecond = us mod 1000000, tz_offset = tz\<rparr>)"

definition datetime_plus :: "datetime \<Rightarrow> int \<Rightarrow> datetime result" where
  "datetime_plus d delta =
     (let t = local_us d + delta in
      if t < local_us datetime_min_utc \<or> t > local_us datetime_max then Inl (OtherException ''OverflowError'')
      else Inr (of_local_us t (tz_offset d)))"

lemma local_us_bounds: "local_us datetime_min_utc = day_us" "local_us datetime_max + 1 = int (days_before_year 10000 + 1) * day_us"
  by (simp_all add: local_us_def to_ordinal_def datetime_min_utc_def datetime_max_def day_us_def days_before_year_def
      days_in_month_def is_leap_def upt_rec)

lemma clock_fields:
  fixes us :: nat
  shows "us = ((us div 3600000000 * 60 + us div 60000000 mod 60) * 60 + us div 1000000 mod 60) * 1000000 + us mod 1000000"
proof -
  define s where "s = us div 1000000"
  have "us div 60000000 = s div 60" "us div 3600000000 = s div 60 div 60"
    by (simp_all add: s_def flip: div_mult2_eq)
  moreover have "s div 60 div 60 * 60 + s div 60 mod 60 = s div 60" "s div 60 * 60 + s mod 60 = s" by simp_all
  moreover have "us = s * 1000000 + us mod 1000000" by (simp add: s_def)
  ultimately show ?thesis unfolding s_def [symmetric] by metis
qed

text \<open>The inverse of \<open>local_us\<close>.\<close>

lemma of_local_us_spec:
  assumes "local_us datetime_min_utc \<le> t" and "t \<le> local_us datetime_max" and "\<forall>k. tz = Some k \<longrightarrow> \<bar>k\<bar> < 1440"
  shows "wf_datetime (of_local_us t tz) \<and> local_us (of_local_us t tz) = t"
proof -
  define n us where "n = nat (t div day_us)" and "us = nat (t mod day_us)"
  define y where "y = year_of_ordinal n"
  obtain m d where md: "month_day y 1 (n - days_before_year y) = (m, d)" by (cases "month_day y 1 (n - days_before_year y)")
  have pos: "day_us > 0" by (simp add: day_us_def)
  have "1 \<le> t div day_us" using assms(1) pos by (simp add: local_us_bounds pos_imp_zdiv_pos_iff zdiv_mono1 int_one_le_iff_zero_less)
  moreover have "t div day_us < int (days_before_year 10000 + 1)"
  proof (rule ccontr)
    assume "\<not> t div day_us < int (days_before_year 10000 + 1)"
    then have "int (days_before_year 10000 + 1) * day_us \<le> t div day_us * day_us"
      by (intro mult_right_mono) (use pos in auto)
    moreover have "t div day_us * day_us + t mod day_us = t" "0 \<le> t mod day_us" using pos by simp_all
    ultimately show False using assms(2) local_us_bounds(2) by linarith
  qed
  ultimately have n: "1 \<le> n" "n \<le> days_before_year 10000" by (auto simp: n_def)
  have us: "int us < day_us" "t = int n * day_us + int us"
    using pos n \<open>1 \<le> t div day_us\<close> by (simp_all add: us_def n_def)
  have "days_before_year (Suc ((n - 1) div 366)) < n"
    using year_bound [of "Suc ((n - 1) div 366)"] n(1) by simp
  moreover have "(n - 1) div 366 < 9999" using n(2) by (simp add: days_before_year_def)
  ultimately have yr: "1 \<le> y" "y \<le> 9999" "days_before_year y < n" "n \<le> days_before_year (Suc y)"
    using raise_year_spec [of "Suc ((n - 1) div 366)" n] n(2) by (auto simp: y_def year_of_ordinal_def)
  have "n - days_before_year y \<le> days_before_month y 12 + 31"
    using yr(1,4) by (simp only: year_length year_months)
  then have mo: "1 \<le> m" "m \<le> 12" "1 \<le> d" "d \<le> days_in_month y m" "days_before_month y m + d = n - days_before_year y"
    using month_day_spec [OF md] yr(3) by (auto simp: days_before_month_def)
  define e where "e = of_local_us t tz"
  have e: "e = \<lparr>year = y, month = m, day = d, hour = us div 3600000000, minute = us div 60000000 mod 60,
      second = us div 1000000 mod 60, microsecond = us mod 1000000, tz_offset = tz\<rparr>"
    by (simp add: e_def of_local_us_def Let_def md [unfolded One_nat_def] flip: n_def us_def y_def)
  have "to_ordinal e = n" using mo(5) yr(3) by (simp add: to_ordinal_split e)
  moreover have "us = ((us div 3600000000 * 60 + us div 60000000 mod 60) * 60 + us div 1000000 mod 60) * 1000000 + us mod 1000000"
    by (rule clock_fields)
  ultimately have "local_us e = int n * day_us + int us"
    by (simp add: local_us_def e day_us_def)
  moreover have "us div 3600000000 < 24" using us(1) by (simp add: day_us_def)
  then have "wf_datetime e" using mo yr assms(3) by (auto simp: wf_datetime_def e split: option.splits)
  ultimately show ?thesis unfolding e_def [symmetric] using us(2) [symmetric] by simp
qed

theorem datetime_plus_spec:
  assumes "wf_datetime d"
  shows "(local_us datetime_min_utc \<le> local_us d + delta \<and> local_us d + delta \<le> local_us datetime_max \<longrightarrow>
      (\<exists>e. datetime_plus d delta = Inr e \<and> wf_datetime e \<and> tz_offset e = tz_offset d \<and> instant e = instant d + delta)) \<and>
    (\<not> (local_us datetime_min_utc \<le> local_us d + delta \<and> local_us d + delta \<le> local_us datetime_max) \<longrightarrow>
      datetime_plus d delta = Inl (OtherException ''OverflowError''))"
proof (cases "local_us datetime_min_utc \<le> local_us d + delta \<and> local_us d + delta \<le> local_us datetime_max")
  case True
  have tz: "\<forall>k. tz_offset d = Some k \<longrightarrow> \<bar>k\<bar> < 1440" using assms by (auto simp: wf_datetime_def)
  have "tz_offset (of_local_us (local_us d + delta) (tz_offset d)) = tz_offset d"
    by (simp add: of_local_us_def Let_def split_beta)
  with of_local_us_spec [OF True [THEN conjunct1] True [THEN conjunct2] tz] True show ?thesis
    by (auto simp: datetime_plus_def Let_def instant_def)
qed (auto simp: datetime_plus_def Let_def)

end
