(* ===== verification/Label_Functions.thy ===== *)
theory Label_Functions
  imports Rules Date_Arithmetic
begin

text \<open>
  The functions that write and read labels (\<open>stdlib/udfs/labels.py\<close>, \<open>stdlib/udfs/verdicts.py\<close>) and
  the sink that turns the effects of a run into label mutations (\<open>worker/sinks/sink/output_sink.py\<close>).
  A time span is its number of microseconds.
\<close>

section \<open>Effects of labels and verdicts\<close>

record label_arguments =
  la_entity :: EntityT
  la_label :: string
  la_delay_action_by :: "int option"
  la_apply_if :: "RuleT option"
  la_expires_after :: "int option"
  la_has_apply_if :: bool  \<comment> \<open>whether the call has an \<open>apply_if\<close> argument\<close>

definition synthesize_effect :: "LabelStatus \<Rightarrow> label_arguments \<Rightarrow> LabelEffect" where
  "synthesize_effect s args = \<lparr>effect_entity = la_entity args, effect_status = s, effect_name = la_label args,
     expires_after = la_expires_after args, delay_action_by = la_delay_action_by args, dependent_rule = la_apply_if args,
     suppressed = (la_has_apply_if args \<and> la_apply_if args = None)\<rparr>"

definition label_add_execute :: "label_arguments \<Rightarrow> effect_context \<Rightarrow> nat \<times> effect_context" where
  "label_add_execute args = new_effect (LabelData (synthesize_effect ADDED args))"

definition label_remove_execute :: "label_arguments \<Rightarrow> effect_context \<Rightarrow> nat \<times> effect_context" where
  "label_remove_execute args = new_effect (LabelData (synthesize_effect REMOVED args))"

definition declare_verdict_execute :: "string \<Rightarrow> effect_context \<Rightarrow> nat \<times> effect_context" where
  "declare_verdict_execute verdict = new_effect (VerdictData verdict)"

section \<open>Label mutations of a result\<close>

definition create_entity_mutation :: "LabelEffect \<Rightarrow> RuleT \<Rightarrow> datetime option \<Rightarrow> EntityLabelMutation" where
  "create_entity_mutation le rule expiry = \<lparr>label_name = effect_name le, reason_name = rule_name rule,
     mut_status = effect_status le, mut_pending = JBool False, mut_description = JStr (rule_description rule),
     mut_features = JObj (map (\<lambda>(k, v). (k, JStr v)) (rule_features rule)), mut_expires_at = expiry\<rparr>"

text \<open>
  \<open>_get_label_effects_from_result\<close>: an effect that was suppressed or whose rule is false is skipped.
  A rule object is always true as a condition, so \<open>if dependent_rule\<close> asks whether there is one.
\<close>

definition skipped :: "LabelEffect \<Rightarrow> bool" where
  "skipped le \<longleftrightarrow> suppressed le \<or> (case dependent_rule le of None \<Rightarrow> False | Some r \<Rightarrow> \<not> rule_value r)"

definition effect_expiry :: "datetime \<Rightarrow> LabelEffect \<Rightarrow> datetime option result" where
  "effect_expiry timestamp le =
     (case expires_after le of None \<Rightarrow> Inr None
      | Some k \<Rightarrow> bindR (datetime_plus timestamp k) (\<lambda>d. Inr (Some d)))"

type_synonym entity_mutations = "(EntityT, EntityLabelMutation list) dict"

definition add_label_effect :: "datetime \<Rightarrow> effect_object \<Rightarrow> entity_mutations \<Rightarrow> entity_mutations result" where
  "add_label_effect timestamp obj muts =
     (case effect_data obj of
        VerdictData _ \<Rightarrow> Inl (AssertionError ''impossible D: effect in label effect mapping is not a label effect'')
      | LabelData le \<Rightarrow>
          if skipped le then Inr muts
          else bindR (effect_expiry timestamp le) (\<lambda>expiry.
            let old = (case map_of muts (effect_entity le) of None \<Rightarrow> [] | Some ms \<Rightarrow> ms);
                dep = (case dependent_rule le of None \<Rightarrow> [] | Some r \<Rightarrow> [create_entity_mutation le r expiry])
            in Inr (AList.update (effect_entity le)
                 (old @ dep @ map (\<lambda>r. create_entity_mutation le r expiry) (effect_rules obj)) muts)))"

definition get_label_effects_from_result :: "datetime \<Rightarrow> effect_context \<Rightarrow> entity_mutations result" where
  "get_label_effects_from_result timestamp ctx =
     loopR (\<lambda>e. add_label_effect timestamp (effect_store ctx ! e)) (refs_of LabelEffectType ctx) []"

text \<open>
  \<open>LabelOutputSink\<close>: each entity of the result is handed to the labels provider. The labels of all
  entities are a map; the provider is called on the part of it that belongs to the entity.
\<close>

definition will_do_work :: "datetime \<Rightarrow> effect_context \<Rightarrow> bool result" where
  "will_do_work timestamp ctx = bindR (get_label_effects_from_result timestamp ctx) (\<lambda>muts. Inr (muts \<noteq> []))"

definition apply_for_entity :: "(EntityLabelMutation \<Rightarrow> datetime) \<Rightarrow> (string \<Rightarrow> datetime) \<Rightarrow> EntityT \<Rightarrow> EntityLabelMutation list \<Rightarrow>
    (EntityT \<Rightarrow> EntityLabels) \<Rightarrow> EntityLabelMutationsResult result \<times> (EntityT \<Rightarrow> EntityLabels)" where
  "apply_for_entity created checked entity ms labels =
     (let ident = ident_text (ent_id entity);
          (res, slice) = apply_entity_label_mutations created checked ident ms (\<lambda>i. if i = ident then labels entity else [])
      in (res, labels(entity := slice ident)))"

fun push_entities :: "(EntityLabelMutation \<Rightarrow> datetime) \<Rightarrow> (string \<Rightarrow> datetime) \<Rightarrow> entity_mutations \<Rightarrow>
    (EntityT \<Rightarrow> EntityLabels) \<Rightarrow> unit result \<times> (EntityT \<Rightarrow> EntityLabels)" where
  "push_entities created checked [] labels = (Inr (), labels)"
| "push_entities created checked ((entity, ms) # rest) labels =
     (case apply_for_entity created checked entity ms labels of
        (Inl e, labels') \<Rightarrow> (Inl e, labels')
      | (Inr _, labels') \<Rightarrow> push_entities created checked rest labels')"

definition label_sink_push :: "(EntityLabelMutation \<Rightarrow> datetime) \<Rightarrow> (string \<Rightarrow> datetime) \<Rightarrow> datetime \<Rightarrow> effect_context \<Rightarrow>
    (EntityT \<Rightarrow> EntityLabels) \<Rightarrow> unit result \<times> (EntityT \<Rightarrow> EntityLabels)" where
  "label_sink_push created checked timestamp ctx labels =
     (case get_label_effects_from_result timestamp ctx of
        Inl e \<Rightarrow> (Inl e, labels)
      | Inr muts \<Rightarrow> push_entities created checked muts labels)"

section \<open>Reading labels\<close>

datatype manual_type = YES | NO | EITHER

fun manual_type_get :: "bool option \<Rightarrow> manual_type" where
  "manual_type_get (Some True) = YES"
| "manual_type_get (Some False) = NO"
| "manual_type_get None = EITHER"

datatype simple_status = SIMPLE_ADDED | SIMPLE_REMOVED

definition simple_status_of :: "string \<Rightarrow> simple_status option" where
  "simple_status_of s = (if s = ''added'' then Some SIMPLE_ADDED else if s = ''removed'' then Some SIMPLE_REMOVED else None)"

text \<open>
  \<open>HasLabel.__init__\<close>: the errors and the desired status. The search for the closest known label is
  an argument. Upper case matters for the comparison with two ASCII names only.
\<close>

definition upper :: "string \<Rightarrow> string" where
  "upper = map (\<lambda>c. let n = of_char c :: nat in if 97 \<le> n \<and> n \<le> 122 then char_of (n - 32) else c)"

definition has_label_init :: "(string \<Rightarrow> string list \<Rightarrow> string option) \<Rightarrow> string list \<Rightarrow>
    string \<Rightarrow> span \<Rightarrow> string \<Rightarrow> span \<Rightarrow> verror list \<times> simple_status option" where
  "has_label_init closest known status_name status_span label label_span =
     ((if simple_status_of status_name = None
       then [error_at ''unknown label status'' status_span
               (''expected `added` or `removed`, got `'' @ status_name @ ''`'' @
                (if upper status_name \<in> {''MANUALLY_ADDED'', ''MANUALLY_REMOVED''}
                 then line_break 0 @ ''to specify a manually set label, set `manual=True`'' else []))] else []) @
      (if label \<notin> set known
       then [error_at ''unknown label'' label_span
               (''unknown label `'' @ label @ ''`'' @
                (case closest label known of None \<Rightarrow> [] | Some c \<Rightarrow> '', did you mean `'' @ c @ ''`?''))] else []),
      simple_status_of status_name)"

record has_label_arguments =
  hl_entity :: EntityT
  hl_label :: string
  hl_manual :: "bool option"
  hl_min_label_age :: "int option"
  hl_desired_status :: "simple_status option"
  hl_error_on_empty :: bool

fun split_status :: "LabelStatus \<Rightarrow> simple_status \<times> manual_type" where
  "split_status ADDED = (SIMPLE_ADDED, NO)"
| "split_status MANUALLY_ADDED = (SIMPLE_ADDED, YES)"
| "split_status REMOVED = (SIMPLE_REMOVED, NO)"
| "split_status MANUALLY_REMOVED = (SIMPLE_REMOVED, YES)"

definition reason_over :: "datetime \<Rightarrow> LabelReason \<Rightarrow> bool" where
  "reason_over now r \<longleftrightarrow> (case expires_at r of None \<Rightarrow> False | Some x \<Rightarrow> instant x \<le> instant now)"

text \<open>The instants \<open>min\<close> chooses from.\<close>

definition live_creations :: "datetime \<Rightarrow> LabelReasons \<Rightarrow> int list" where
  "live_creations now rs = concat (map (\<lambda>r.
     case created_at r of
       Some c \<Rightarrow> (case expires_at r of None \<Rightarrow> [instant c] | Some x \<Rightarrow> if instant x > instant now then [instant c] else [])
     | None \<Rightarrow> []) (dvalues rs))"

definition has_label_run :: "datetime \<Rightarrow> has_label_arguments \<Rightarrow> EntityLabels \<Rightarrow> bool result" where
  "has_label_run now args labels =
     (if hl_error_on_empty args \<and> length labels = 0 then Inl (OtherException ''EmptyEntityError'')
      else
        let desired_manual = manual_type_get (hl_manual args);
            label_state = (case map_of labels (hl_label args) of
              None \<Rightarrow> None
            | Some st \<Rightarrow> if list_all (reason_over now) (dvalues (reasons st)) then None else Some st)
        in case label_state of
             None \<Rightarrow> Inr (hl_desired_status args = Some SIMPLE_REMOVED \<and> desired_manual \<noteq> YES)
           | Some st \<Rightarrow>
               let (actual_status, actual_manual) = split_status (status st) in
               bindR (case hl_min_label_age args of
                   None \<Rightarrow> Inr True
                 | Some age \<Rightarrow>
                     (case live_creations now (reasons st) of
                        [] \<Rightarrow> Inl (ValueError ''min() arg is an empty sequence'')
                      | c # cs \<Rightarrow> Inr (instant now - foldl min c cs > age))) (\<lambda>old_enough.
                 Inr (hl_desired_status args = Some actual_status \<and>
                      desired_manual \<in> {EITHER, actual_manual} \<and> old_enough)))"

text \<open>\<open>execute_batch\<close>: the entities of the batch are a set of one; an exception is the result of its item.\<close>

definition has_label_execute :: "(EntityT \<Rightarrow> EntityLabels) \<Rightarrow> datetime \<Rightarrow> has_label_arguments \<Rightarrow> bool result" where
  "has_label_execute accessor now args = has_label_run now args (accessor (hl_entity args))"

definition has_label_batch :: "(EntityT \<Rightarrow> EntityLabels) \<Rightarrow> (nat \<Rightarrow> datetime) \<Rightarrow> has_label_arguments list \<Rightarrow> bool result list result" where
  "has_label_batch accessor now args =
     (case remdups (map hl_entity args) of
        [entity] \<Rightarrow> Inr (map (\<lambda>(i, a). has_label_run (now i) a (accessor entity)) (enumerate 0 args))
      | _ \<Rightarrow> Inl NotImplementedError)"

section \<open>The mutations of a run\<close>

definition object_mutations :: "datetime \<Rightarrow> effect_object \<Rightarrow> EntityLabelMutation list" where
  "object_mutations timestamp obj =
     (case effect_data obj of
        VerdictData _ \<Rightarrow> []
      | LabelData le \<Rightarrow>
          if skipped le then []
          else (case effect_expiry timestamp le of
                  Inl _ \<Rightarrow> []
                | Inr expiry \<Rightarrow> (case dependent_rule le of None \<Rightarrow> [] | Some r \<Rightarrow> [create_entity_mutation le r expiry]) @
                    map (\<lambda>r. create_entity_mutation le r expiry) (effect_rules obj)))"

definition mutations_for :: "entity_mutations \<Rightarrow> EntityT \<Rightarrow> EntityLabelMutation list" where
  "mutations_for muts ent = (case map_of muts ent of None \<Rightarrow> [] | Some ms \<Rightarrow> ms)"

definition concerns :: "EntityT \<Rightarrow> effect_object \<Rightarrow> bool" where
  "concerns ent obj = (case effect_data obj of VerdictData _ \<Rightarrow> False | LabelData le \<Rightarrow> effect_entity le = ent)"

definition dated :: "datetime \<Rightarrow> effect_data \<Rightarrow> bool" where
  "dated timestamp d = (case d of VerdictData _ \<Rightarrow> True | LabelData le \<Rightarrow> \<exists>x. effect_expiry timestamp le = Inr x)"

lemma add_label_effects:
  assumes "\<forall>obj \<in> set objs. type_of_data (effect_data obj) = LabelEffectType \<and> dated timestamp (effect_data obj)"
    and "distinct (keys muts)"
  shows "\<exists>muts'. loopR (add_label_effect timestamp) objs muts = Inr muts' \<and> distinct (keys muts') \<and>
    (\<forall>ent. mutations_for muts' ent = mutations_for muts ent @ concat (map (object_mutations timestamp) (filter (concerns ent) objs)))"
  using assms
proof (induction objs arbitrary: muts)
  case (Cons obj objs)
  obtain le where le: "effect_data obj = LabelData le" using Cons.prems(1) by (cases "effect_data obj") auto
  then obtain x where x: "effect_expiry timestamp le = Inr x" using Cons.prems(1) by (auto simp: dated_def)
  obtain muts1 where one: "add_label_effect timestamp obj muts = Inr muts1" "distinct (keys muts1)"
    "\<And>ent. mutations_for muts1 ent = mutations_for muts ent @ (if concerns ent obj then object_mutations timestamp obj else [])"
  proof (cases "skipped le")
    case True
    then show ?thesis by (intro that [of muts])
      (use Cons.prems(2) in \<open>simp_all add: add_label_effect_def object_mutations_def le\<close>)
  next
    case False
    let ?muts = "AList.update (effect_entity le) (mutations_for muts (effect_entity le) @ object_mutations timestamp obj) muts"
    have "add_label_effect timestamp obj muts = Inr ?muts"
      using False x by (simp add: add_label_effect_def object_mutations_def le mutations_for_def Let_def)
    moreover have "mutations_for ?muts ent = mutations_for muts ent @ (if concerns ent obj then object_mutations timestamp obj else [])" for ent
      by (auto simp: mutations_for_def concerns_def le dict_simps)
    ultimately show ?thesis using that Cons.prems(2) by (simp add: dict_simps)
  qed
  with Cons.IH [of muts1] Cons.prems(1) show ?case by auto
qed simp

lemma loopR_map: "loopR f (map g xs) s = loopR (\<lambda>x. f (g x)) xs s"
  by (induction xs arbitrary: s) (auto simp: bindR_def split: sum.splits)

text \<open>What the calls of a run ask for: a mutation for an emitted effect that is not skipped and one of its rules.\<close>

definition requested :: "datetime \<Rightarrow> effect_step list \<Rightarrow> EntityT \<Rightarrow> EntityLabelMutation \<Rightarrow> bool" where
  "requested timestamp steps ent m \<longleftrightarrow> (\<exists>e ps le expiry r. (e, ps) \<in> set (emitted steps) \<and>
     created_data steps ! e = LabelData le \<and> effect_entity le = ent \<and> \<not> skipped le \<and>
     effect_expiry timestamp le = Inr expiry \<and> (dependent_rule le = Some r \<or> r \<in> set ps) \<and>
     m = create_entity_mutation le r expiry)"

definition asks :: "datetime \<Rightarrow> EntityT \<Rightarrow> EntityLabelMutation \<Rightarrow> effect_data \<Rightarrow> RuleT \<Rightarrow> bool" where
  "asks timestamp ent m d r \<longleftrightarrow> (\<exists>le expiry. d = LabelData le \<and> effect_entity le = ent \<and> \<not> skipped le \<and>
     effect_expiry timestamp le = Inr expiry \<and> m = create_entity_mutation le r expiry)"

definition is_dependent :: "effect_data \<Rightarrow> RuleT \<Rightarrow> bool" where
  "is_dependent d r \<longleftrightarrow> (\<exists>le. d = LabelData le \<and> dependent_rule le = Some r)"

lemma object_mutations_iff:
  "concerns ent obj \<and> m \<in> set (object_mutations timestamp obj) \<longleftrightarrow>
    (\<exists>r. asks timestamp ent m (effect_data obj) r \<and> (is_dependent (effect_data obj) r \<or> r \<in> set (effect_rules obj)))"
proof (cases "effect_data obj")
  case (LabelData le)
  then show ?thesis
    by (cases "effect_expiry timestamp le"; cases "dependent_rule le")
      (auto simp: concerns_def object_mutations_def asks_def is_dependent_def)
qed (simp add: concerns_def asks_def)

lemma run_objects:
  assumes "steps_ok 0 steps" and "(e, ps) \<in> set (emitted steps)"
  shows "e < length (created_data steps)"
    and "effect_data (effect_store (run_effects steps no_effects) ! e) = created_data steps ! e"
    and "effect_rules (effect_store (run_effects steps no_effects) ! e) = rules_for e (emitted steps)"
proof -
  let ?ctx = "run_effects steps no_effects"
  show r: "e < length (created_data steps)" using emitted_range [OF assms] by simp
  have log: "data_in ?ctx = created_data steps" "rules_of ?ctx e = rules_for e (emitted steps)"
    using run_effects_log [of no_effects steps] assms(1) by (simp_all add: no_effects_def data_in_def rules_of_def)
  then have len: "length (effect_store ?ctx) = length (created_data steps)" by (metis data_in_def length_map)
  then show "effect_data (effect_store ?ctx ! e) = created_data steps ! e" using log(1) r by (metis data_in_def nth_map)
  show "effect_rules (effect_store ?ctx ! e) = rules_for e (emitted steps)" using log(2) r len by (simp add: rules_of_def)
qed

lemma run_mutations:
  assumes "steps_ok 0 steps" and "\<forall>d \<in> set (created_data steps). dated timestamp d"
  shows "\<exists>muts. get_label_effects_from_result timestamp (run_effects steps no_effects) = Inr muts \<and> distinct (keys muts) \<and>
    (\<forall>ent m. m \<in> set (mutations_for muts ent) \<longleftrightarrow> requested timestamp steps ent m)"
proof -
  define ctx refs where "ctx = run_effects steps no_effects" and "refs = refs_of LabelEffectType ctx"
  have refs: "refs = filter (\<lambda>e. type_of_data (created_data steps ! e) = LabelEffectType) (map fst (emitted steps))"
    using run_effects_log [of no_effects steps] assms(1)
    by (simp add: refs_def ctx_def no_effects_def data_in_def refs_of_def refs_with_def)
  note obj = run_objects [OF assms(1), folded ctx_def]
  have "\<forall>o' \<in> set (map ((!) (effect_store ctx)) refs). type_of_data (effect_data o') = LabelEffectType \<and> dated timestamp (effect_data o')"
    using obj assms(2) by (fastforce simp: refs)
  from add_label_effects [OF this, of "[]"] obtain muts where
    muts: "loopR (add_label_effect timestamp) (map ((!) (effect_store ctx)) refs) [] = Inr muts" "distinct (keys muts)"
    "\<And>ent. mutations_for muts ent = concat (map (object_mutations timestamp) (filter (concerns ent) (map ((!) (effect_store ctx)) refs)))"
    by (auto simp: mutations_for_def)
  have run: "get_label_effects_from_result timestamp ctx = Inr muts"
    using muts(1) by (simp add: get_label_effects_from_result_def loopR_map flip: refs_def)
  have emitted_label: "e \<in> set refs" if "(e, ps) \<in> set (emitted steps)" "concerns ent (effect_store ctx ! e)" for ent e ps
  proof -
    have "type_of_data (created_data steps ! e) = LabelEffectType"
      using that(2) obj(2) [OF that(1)] by (cases "created_data steps ! e") (simp_all add: concerns_def)
    with that(1) show ?thesis by (force simp: refs)
  qed
  have listed: "\<exists>ps. (e, ps) \<in> set (emitted steps)" if "e \<in> set refs" for e using that by (auto simp: refs)
  have "m \<in> set (mutations_for muts ent) \<longleftrightarrow> requested timestamp steps ent m" for ent m
  proof -
    have "m \<in> set (mutations_for muts ent) \<longleftrightarrow>
        (\<exists>e \<in> set refs. concerns ent (effect_store ctx ! e) \<and> m \<in> set (object_mutations timestamp (effect_store ctx ! e)))"
      unfolding muts(3) by auto
    also have "\<dots> \<longleftrightarrow>
        (\<exists>(e, ps) \<in> set (emitted steps). concerns ent (effect_store ctx ! e) \<and> m \<in> set (object_mutations timestamp (effect_store ctx ! e)))"
      using emitted_label [of _ _ ent] listed by blast
    also have "\<dots> \<longleftrightarrow> (\<exists>(e, ps) \<in> set (emitted steps). \<exists>r. asks timestamp ent m (created_data steps ! e) r \<and>
        (is_dependent (created_data steps ! e) r \<or> r \<in> set (rules_for e (emitted steps))))"
      by (rule bex_cong [OF refl]) (clarsimp simp: object_mutations_iff obj(2,3))
    also have "\<dots> \<longleftrightarrow> (\<exists>(e, ps) \<in> set (emitted steps). \<exists>r. asks timestamp ent m (created_data steps ! e) r \<and>
        (is_dependent (created_data steps ! e) r \<or> r \<in> set ps))" by (fastforce simp: rules_for_def)
    also have "\<dots> \<longleftrightarrow> requested timestamp steps ent m"
    proof
      assume "\<exists>(e, ps) \<in> set (emitted steps). \<exists>r. asks timestamp ent m (created_data steps ! e) r \<and>
        (is_dependent (created_data steps ! e) r \<or> r \<in> set ps)"
      then show "requested timestamp steps ent m" by (auto simp: requested_def asks_def is_dependent_def) blast+
    next
      assume "requested timestamp steps ent m"
      then show "\<exists>(e, ps) \<in> set (emitted steps). \<exists>r. asks timestamp ent m (created_data steps ! e) r \<and>
        (is_dependent (created_data steps ! e) r \<or> r \<in> set ps)" unfolding requested_def asks_def is_dependent_def by blast
    qed
    finally show ?thesis .
  qed
  with run muts(2) show ?thesis unfolding ctx_def by blast
qed

section \<open>The labels after a run\<close>

text \<open>What a request does to one label of an entity.\<close>

definition entity_outcome :: "(string \<Rightarrow> datetime) \<Rightarrow> string \<Rightarrow> EntityLabelMutation list \<Rightarrow> EntityLabels \<Rightarrow> EntityLabels \<Rightarrow> string \<Rightarrow> bool" where
  "entity_outcome checked ident ms old new l \<longleftrightarrow>
     (if ident = '''' \<or> l = '''' \<or> for_label l ms = [] then map_of new l = map_of old l
      else \<exists>d. inner_status d = mut_status (hd (winners l ms)) \<and>
        set (keys (inner_reasons d)) = reason_name ` set (winners l ms) \<and>
        label_outcome (checked l) d (map_of old l) (map_of new l))"

lemma apply_for_entity_ok:
  assumes "labels_ok (labels ent)" and "\<forall>m \<in> set ms. mutation_ok created m" and "\<forall>l. after_min (checked l)"
  shows "\<exists>res L. apply_for_entity created checked ent ms labels = (Inr res, labels(ent := L)) \<and> labels_ok L \<and>
    (\<forall>l. entity_outcome checked (ident_text (ent_id ent)) ms (labels ent) L l)"
proof (cases "ident_text (ent_id ent) = ''''")
  case True
  then show ?thesis using assms(1)
    by (auto simp: apply_for_entity_def apply_entity_label_mutations_def entity_outcome_def intro!: exI [of _ "labels ent"])
next
  case False
  from request_applied [OF assms] obtain res where
    "compute_new_labels_from_mutations created checked (labels ent) ms = Inr res" "labels_ok (new_entity_labels res)"
    "\<forall>l. entity_outcome checked (ident_text (ent_id ent)) ms (labels ent) (new_entity_labels res) l"
    using False by (auto simp: entity_outcome_def)
  with False show ?thesis by (auto simp: apply_for_entity_def apply_entity_label_mutations_def Let_def)
qed

lemma push_entities_ok:
  assumes "distinct (keys muts)" and "\<forall>ent. labels_ok (labels ent)" and "\<forall>(ent, ms) \<in> set muts. \<forall>m \<in> set ms. mutation_ok created m"
    and "\<forall>l. after_min (checked l)"
  shows "\<exists>labels'. push_entities created checked muts labels = (Inr (), labels') \<and>
    (\<forall>ent. labels_ok (labels' ent) \<and> (\<forall>l. entity_outcome checked (ident_text (ent_id ent)) (mutations_for muts ent) (labels ent) (labels' ent) l))"
  using assms(1-3)
proof (induction muts arbitrary: labels)
  case Nil
  then show ?case by (simp add: mutations_for_def entity_outcome_def for_label_def)
next
  case (Cons p muts)
  obtain ent ms where p: "p = (ent, ms)" by (cases p)
  from apply_for_entity_ok [of labels ent ms created checked] Cons.prems assms(4) obtain res L where
    one: "apply_for_entity created checked ent ms labels = (Inr res, labels(ent := L))" "labels_ok L"
    "\<forall>l. entity_outcome checked (ident_text (ent_id ent)) ms (labels ent) L l" by (auto simp: p)
  define labels1 where "labels1 = labels(ent := L)"
  have "\<forall>e. labels_ok (labels1 e)" using Cons.prems(2) one(2) by (simp add: labels1_def)
  with Cons.IH [of labels1] Cons.prems obtain labels' where
    rest: "push_entities created checked muts labels1 = (Inr (), labels')"
    "\<And>e. labels_ok (labels' e)"
    "\<And>e l. entity_outcome checked (ident_text (ent_id e)) (mutations_for muts e) (labels1 e) (labels' e) l"
    by (auto simp: p)
  have "map_of muts ent = None" using Cons.prems(1) by (simp add: p map_of_eq_None_iff)
  then have "mutations_for muts ent = []" by (simp add: mutations_for_def)
  then have same: "map_of (labels' ent) l = map_of L l" for l
    using rest(3) [of ent l] by (simp add: entity_outcome_def for_label_def labels1_def)
  have "entity_outcome checked (ident_text (ent_id ent)) ms (labels ent) (labels' ent) l" for l
    using one(3) unfolding entity_outcome_def same by blast
  moreover have "mutations_for (p # muts) e = (if e = ent then ms else mutations_for muts e)" for e by (simp add: mutations_for_def p)
  ultimately have "labels_ok (labels' e) \<and> (\<forall>l. entity_outcome checked (ident_text (ent_id e)) (mutations_for (p # muts) e) (labels e) (labels' e) l)" for e
    using rest(2) [of e] rest(3) [of e] by (cases "e = ent") (simp_all add: labels1_def)
  with one(1) rest(1) show ?case by (auto simp: p labels1_def)
qed

text \<open>The heaviest mutation of a label decides its status, and its rule becomes a reason.\<close>

lemma heaviest_applied:
  assumes "entity_outcome checked ident ms old new l" and "m \<in> set ms" and "label_name m = l" and "l \<noteq> ''''" and "ident \<noteq> ''''"
    and "\<forall>m' \<in> set ms. label_name m' = l \<longrightarrow> status_value (mut_status m') \<le> status_value (mut_status m)"
    and "\<forall>st. map_of old l = Some st \<longrightarrow> \<not> blocked (checked l) st (mut_status m)"
  shows "\<exists>st. map_of new l = Some st \<and> status st = mut_status m \<and> reason_name m \<in> set (keys (reasons st))"
proof -
  have m: "m \<in> set (for_label l ms)" using assms(2,3) by (simp add: for_label_def)
  have "top_weight (for_label l ms) = weight m" unfolding top_weight_def
    by (rule Max_eqI) (use m assms(6) in \<open>auto simp: for_label_def weight_def\<close>)
  then have w: "m \<in> set (winners l ms)" using m by (simp add: winners_def)
  then have "hd (winners l ms) \<in> set (winners l ms)" by (cases "winners l ms") auto
  with w have s: "mut_status (hd (winners l ms)) = mut_status m"
    using winners_weight by (metis status_value_inj weight_def)
  from m have "for_label l ms \<noteq> []" by auto
  with assms(1,4,5) obtain d where d: "inner_status d = mut_status m" "reason_name m \<in> set (keys (inner_reasons d))"
    "label_outcome (checked l) d (map_of old l) (map_of new l)" using w by (auto simp: entity_outcome_def s)
  show ?thesis
  proof (cases "map_of old l")
    case None
    with d show ?thesis by (simp add: label_outcome_def from_inner_def)
  next
    case (Some cur)
    with d(1,3) assms(7) obtain st where "map_of new l = Some st" "applied (checked l) d cur st" by (auto simp: label_outcome_def)
    with d(1,2) show ?thesis by (auto simp: applied_def split: if_splits)
  qed
qed



section \<open>What HasLabel answers\<close>

text \<open>The state of a label that counts at a time: the one with a reason that is not over.\<close>

definition current_state :: "datetime \<Rightarrow> EntityLabels \<Rightarrow> string \<Rightarrow> LabelState option" where
  "current_state now labels l = (case map_of labels l of
     Some st \<Rightarrow> if \<exists>r \<in> set (dvalues (reasons st)). \<not> reason_over now r then Some st else None | None \<Rightarrow> None)"

definition old_enough :: "datetime \<Rightarrow> int option \<Rightarrow> LabelState \<Rightarrow> bool" where
  "old_enough now age st = (case age of None \<Rightarrow> True
     | Some a \<Rightarrow> \<exists>r \<in> set (dvalues (reasons st)). \<exists>c. created_at r = Some c \<and> \<not> reason_over now r \<and> instant now - instant c > a)"

lemma foldl_min_less: "(foldl min (c :: int) cs < x) = (c < x \<or> (\<exists>y \<in> set cs. y < x))"
  by (induction cs arbitrary: c) auto

lemma live_creations_set:
  "set (live_creations now rs) = {instant c | r c. r \<in> set (dvalues rs) \<and> created_at r = Some c \<and> \<not> reason_over now r}"
proof -
  have "set (case created_at r of Some c \<Rightarrow> (case expires_at r of None \<Rightarrow> [instant c]
      | Some x \<Rightarrow> if instant x > instant now then [instant c] else []) | None \<Rightarrow> []) =
    {instant c | c. created_at r = Some c \<and> \<not> reason_over now r}" for r
    by (cases "created_at r"; cases "expires_at r") (auto simp: reason_over_def)
  then show ?thesis unfolding live_creations_def set_concat set_map by auto
qed

text \<open>A batch for one entity gives the answers of the single calls.\<close>

lemma has_label_batch_single:
  assumes "args \<noteq> []" and "\<forall>a \<in> set args. hl_entity a = entity"
  shows "has_label_batch accessor now args = Inr (map (\<lambda>(i, a). has_label_execute accessor (now i) a) (enumerate 0 args))"
proof -
  have "set (map hl_entity args) = {entity}" using assms by (cases args) auto
  then have "length (remdups (map hl_entity args)) = 1 \<and> set (remdups (map hl_entity args)) = {entity}"
    by (simp only: length_remdups_card_conv set_remdups) simp
  then have "remdups (map hl_entity args) = [entity]" by (auto simp: length_Suc_conv simp del: set_remdups)
  moreover have "a \<in> set args" if "(i, a) \<in> set (enumerate 0 args)" for i a
    using that by (auto simp: in_set_enumerate_eq)
  ultimately show ?thesis using assms(2) by (auto simp: has_label_batch_def has_label_execute_def)
qed

text \<open>
  (C26) On well-formed labels \<open>HasLabel\<close> raises only for an entity without labels when asked to. Otherwise
  it tells whether the label is in the desired status: a label without a state, or whose reasons are
  all over, counts as removed by no one; a state has to agree in status, in being manual if that is
  asked, and must have a reason that is not over and older than the minimal age.
\<close>

theorem has_label_decides:
  assumes "labels_ok labels"
  shows "has_label_run now args labels =
    (if hl_error_on_empty args \<and> labels = [] then Inl (OtherException ''EmptyEntityError'')
     else Inr (case current_state now labels (hl_label args) of
         None \<Rightarrow> hl_desired_status args = Some SIMPLE_REMOVED \<and> hl_manual args \<noteq> Some True
       | Some st \<Rightarrow> hl_desired_status args = Some (if effective_label_status (status st) = ADDED then SIMPLE_ADDED else SIMPLE_REMOVED) \<and>
           (\<forall>b. hl_manual args = Some b \<longrightarrow> is_manual (status st) = b) \<and> old_enough now (hl_min_label_age args) st))"
proof (cases "current_state now labels (hl_label args)")
  case None
  then show ?thesis
    by (auto simp: has_label_run_def current_state_def list_all_iff Let_def split: option.splits if_splits elim: manual_type_get.elims)
next
  case (Some st)
  then have lk: "map_of labels (hl_label args) = Some st" and live: "\<not> list_all (reason_over now) (dvalues (reasons st))"
    by (auto simp: current_state_def list_all_iff split: option.splits if_splits)
  have "\<exists>c. created_at r = Some c" if "r \<in> set (dvalues (reasons st))" for r
    using assms map_of_SomeD [OF lk] that by (force simp: labels_ok_def state_ok_def reasons_ok_def reason_ok_def)
  with live have "live_creations now (reasons st) \<noteq> []"
    using live_creations_set [of now "reasons st"] by (fastforce simp: list_all_iff)
  then obtain c cs where c: "live_creations now (reasons st) = c # cs" by (cases "live_creations now (reasons st)") auto
  have "instant now - foldl min c cs > a \<longleftrightarrow> old_enough now (Some a) st" for a
  proof -
    have "instant now - foldl min c cs > a \<longleftrightarrow> foldl min c cs < instant now - a" by linarith
    also have "\<dots> \<longleftrightarrow> (\<exists>y \<in> set (live_creations now (reasons st)). y < instant now - a)" by (simp add: foldl_min_less c)
    also have "\<dots> \<longleftrightarrow> old_enough now (Some a) st"
    proof -
      define R where "R = set (dvalues (reasons st))"
      have eq: "instant now - x > a \<longleftrightarrow> x < instant now - a" for x by linarith
      show ?thesis unfolding live_creations_set old_enough_def R_def [symmetric] option.case eq by blast
    qed
    finally show ?thesis .
  qed
  then have age: "(case hl_min_label_age args of None \<Rightarrow> Inr True
      | Some age \<Rightarrow> (case live_creations now (reasons st) of [] \<Rightarrow> Inl (ValueError ''min() arg is an empty sequence'')
          | c # cs \<Rightarrow> Inr (instant now - foldl min c cs > age))) = Inr (old_enough now (hl_min_label_age args) st)"
    by (auto simp: c old_enough_def split: option.splits)
  have "labels \<noteq> []" using lk by auto
  moreover have "snd (split_status (status st)) = (if is_manual (status st) then YES else NO)"
    "fst (split_status (status st)) = (if effective_label_status (status st) = ADDED then SIMPLE_ADDED else SIMPLE_REMOVED)"
    by (cases "status st"; simp add: is_manual_def)+
  moreover have "manual_type_get (hl_manual args) \<in> {EITHER, if is_manual (status st) then YES else NO} \<longleftrightarrow>
      (\<forall>b. hl_manual args = Some b \<longrightarrow> is_manual (status st) = b)"
    by (cases "hl_manual args" rule: manual_type_get.cases) auto
  ultimately show ?thesis using lk live Some
    by (simp add: has_label_run_def Let_def split_beta age)
qed

section \<open>A concrete run\<close>

definition demo_rule :: RuleT where
  "demo_rule = \<lparr>rule_name = ''IsSpam'', rule_value = True, rule_description = ''spam'', rule_features = []\<rparr>"

definition demo_entity :: EntityT where
  "demo_entity = \<lparr>ent_type = ''User'', ent_id = IntIdent 42\<rparr>"

definition demo_label_arguments :: "bool \<Rightarrow> label_arguments" where
  "demo_label_arguments b = \<lparr>la_entity = demo_entity, la_label = ''spammer'', la_delay_action_by = None, la_apply_if = None,
     la_expires_after = None, la_has_apply_if = b\<rparr>"

definition demo_steps :: "bool \<Rightarrow> effect_step list" where
  "demo_steps b = [CreateEffect (LabelData (synthesize_effect ADDED (demo_label_arguments b))), CreateEffect (VerdictData ''ban''),
     CallWhenRules [demo_rule] [EffectRef 0, EffectRef 1]]"

lemma demo_steps_simps:
  "steps_ok 0 (demo_steps b)" "emitted (demo_steps b) = [(0, [demo_rule]), (1, [demo_rule])]"
  "created_data (demo_steps b) = [LabelData (synthesize_effect ADDED (demo_label_arguments b)), VerdictData ''ban'']"
  by (auto simp: demo_steps_def demo_rule_def)

lemma demo_effect:
  "effect_expiry t (synthesize_effect s (demo_label_arguments b)) = Inr None"
  "effect_entity (synthesize_effect s (demo_label_arguments b)) = demo_entity"
  "skipped (synthesize_effect s (demo_label_arguments b)) = b"
  "dependent_rule (synthesize_effect s (demo_label_arguments b)) = None"
  by (simp_all add: effect_expiry_def synthesize_effect_def demo_label_arguments_def skipped_def)


lemma demo_requested:
  "requested t (demo_steps False) demo_entity (create_entity_mutation (synthesize_effect ADDED (demo_label_arguments False)) demo_rule None)"
  unfolding requested_def by (rule exI [of _ 0], rule exI [of _ "[demo_rule]"]) (auto simp: demo_steps_simps demo_effect)

lemma demo_requests_add: "requested t (demo_steps b) ent m \<Longrightarrow> mut_status m = ADDED"
  by (auto simp: requested_def demo_steps_simps create_entity_mutation_def synthesize_effect_def)



theorem has_label_decides_witness:
  "has_label_run (demo_time 2025) \<lparr>hl_entity = demo_entity, hl_label = ''spammer'', hl_manual = None, hl_min_label_age = Some 3600000000,
     hl_desired_status = Some SIMPLE_ADDED, hl_error_on_empty = True\<rparr> [(''spammer'', demo_state ADDED)] = Inr True"
proof -
  have i: "instant (demo_time 2025) = local_us (demo_time 2025)" "instant (demo_time 2024) = local_us (demo_time 2024)"
    by (simp_all add: instant_def demo_time_def)
  show ?thesis unfolding has_label_decides [OF demo_labels_ok]
    by (simp add: current_state_def old_enough_def demo_state_def demo_reason_def reason_over_def i demo_time_local)
qed

end
