(* ===== verification/Abilities.thy ===== *)
theory Abilities
  imports Query_Language Py_Types "HOL-Library.Sublist"
begin

text \<open>
  Access control of the UI API (\<open>ui_api/osprey/lib/abilities.py\<close>, \<open>lib/users.py\<close>,
  \<open>lib/druid.py\<close>, \<open>views/events.py\<close>, \<open>views/entities.py\<close>, the \<open>acl\<close> configuration and
  \<open>storage/stored_execution_result.py\<close>): what an ability allows, how the abilities of a user are
  merged, how stored data is censored, and which filter a query of events is sent with. A set of
  items is given as a list in some order. The abilities of development users and of temporary
  tokens are arguments.
\<close>

section \<open>Abilities\<close>

datatype ability_item = EntityKey string string | TextItem string

record ability =
  ability_name :: string
  allow_all :: "bool option"
  allow_specific :: "ability_item list option"
  allow_all_except :: "ability_item list option"

definition nonempty :: "'a list option \<Rightarrow> bool" where
  "nonempty xs \<longleftrightarrow> (case xs of None \<Rightarrow> False | Some ys \<Rightarrow> ys \<noteq> [])"

definition items_of :: "'a list option \<Rightarrow> 'a list" where
  "items_of xs = (case xs of None \<Rightarrow> [] | Some ys \<Rightarrow> ys)"

definition ability_root_validator :: "ability \<Rightarrow> ability result" where
  "ability_root_validator a =
     (if allow_all a = None \<and> allow_all_except a = None \<and> allow_specific a = None then
        Inl (ValueError ''`allow_all`, `allow_all_except`, and `allow_specific` cannot all be None'')
      else if allow_all a = Some False then Inl (ValueError ''`allow_all` can only be `true`'')
      else if allow_all_except a = Some [] then Inl (ValueError ''`allow_all_except` cannot be empty'')
      else if allow_specific a = Some [] then Inl (ValueError ''`allow_specific` cannot be empty'')
      else if allow_specific a \<noteq> None \<and> allow_all_except a \<noteq> None then
        Inl (ValueError ''`allow_all_except` and `allow_specific` are both present within the same scope. The two values are mutually exclusive.'')
      else if allow_specific a \<noteq> None \<and> allow_all a \<noteq> None then
        Inl (ValueError ''`allow_all` is set to `true` but you have redundant additional `allow_specific`. The two values are mutually exclusive.'')
      else if allow_all_except a \<noteq> None \<and> allow_all a \<noteq> None then
        Inl (ValueError ''`allow_all` is set to `true` but you have redundant additional `allow_all_except`. The two values are mutually exclusive.'')
      else Inr a)"

definition item_is_allowed :: "ability \<Rightarrow> ability_item \<Rightarrow> bool" where
  "item_is_allowed a item =
     (if allow_all a = Some True then True
      else if nonempty (allow_all_except a) then item \<notin> set (items_of (allow_all_except a))
      else if nonempty (allow_specific a) then item \<in> set (items_of (allow_specific a))
      else False)"

text \<open>\<open>Ability.validate\<close> on a dictionary: the model of the registered name.\<close>

definition validate_ability :: "string list \<Rightarrow> ability \<Rightarrow> ability result" where
  "validate_ability registry a =
     (if ability_name a = [] then Inl (ValueError ''Ability must include `name` field'')
      else if ability_name a \<notin> set registry then Inl (ValueError ([CHR 0x27] @ ability_name a @ [CHR 0x27] @ '' is not a valid ability''))
      else ability_root_validator a)"

section \<open>Users\<close>

definition only_all :: "string \<Rightarrow> ability" where
  "only_all n = \<lparr>ability_name = n, allow_all = Some True, allow_specific = None, allow_all_except = None\<rparr>"

definition merge_abilities :: "string \<Rightarrow> ability list \<Rightarrow> ability result" where
  "merge_abilities n as =
     (if \<exists>a \<in> set as. allow_all a = Some True then Inr (only_all n)
      else
        let except = concat (map (\<lambda>a. items_of (allow_all_except a)) as);
            specific = concat (map (\<lambda>a. items_of (allow_specific a)) as)
        in if except \<noteq> [] \<and> specific \<noteq> [] then
             let rest = filter (\<lambda>x. x \<notin> set specific) except in
             if rest = [] then Inr (only_all n)
             else Inr \<lparr>ability_name = n, allow_all = None, allow_specific = None, allow_all_except = Some rest\<rparr>
           else if except \<noteq> [] then Inr \<lparr>ability_name = n, allow_all = None, allow_specific = None, allow_all_except = Some except\<rparr>
           else if specific \<noteq> [] then Inr \<lparr>ability_name = n, allow_all = None, allow_specific = Some specific, allow_all_except = None\<rparr>
           else Inl (AssertionError ''An ability that was merged became completely empty. This should not occur.''))"

definition get_ability :: "ability list \<Rightarrow> string \<Rightarrow> ability option result" where
  "get_ability abilities n =
     (let as = filter (\<lambda>a. ability_name a = n) abilities in
      if as = [] then Inr None else bindR (merge_abilities n as) (\<lambda>a. Inr (Some a)))"

definition has_ability :: "ability list \<Rightarrow> string \<Rightarrow> bool" where
  "has_ability abilities n \<longleftrightarrow> (\<exists>a \<in> set abilities. ability_name a = n)"

record acl_config =
  acl_roles :: "(string, ability list) dict"
  acl_users :: "(string, string list \<times> ability list) dict"  \<comment> \<open>roles and abilities of a user\<close>

definition validate_user_roles :: "acl_config \<Rightarrow> unit result" where
  "validate_user_roles acl =
     (case find (\<lambda>r. r \<notin> set (keys (acl_roles acl))) (concat (map fst (dvalues (acl_users acl)))) of
        Some r \<Rightarrow> Inl (ValueError (''`'' @ r @ ''` is not defined in the `roles` acl config''))
      | None \<Rightarrow> Inr ())"

definition get_abilities_for_user :: "bool \<Rightarrow> (string \<Rightarrow> ability list) \<Rightarrow> (string \<Rightarrow> ability list) \<Rightarrow> acl_config \<Rightarrow> string \<Rightarrow> ability list result" where
  "get_abilities_for_user debug dev_abilities token_abilities acl email =
     (if debug then Inr (dev_abilities email)
      else case map_of (acl_users acl) email of
        None \<Rightarrow> Inr (token_abilities email)
      | Some (roles, own) \<Rightarrow>
          bindR (mapR (\<lambda>r. case map_of (acl_roles acl) r of None \<Rightarrow> Inl KeyError | Some as \<Rightarrow> Inr as) roles) (\<lambda>ass.
            Inr (concat ass @ own)))"

section \<open>Paths\<close>

text \<open>\<open>DictPath\<close>: the part before the first colon is the name of an action.\<close>

record dict_path =
  path_action :: "string option"
  path_text :: string
  is_star_path :: bool

definition dict_path :: "string \<Rightarrow> dict_path" where
  "dict_path item =
     (let (a, p) = (if CHR '':'' \<in> set item
                    then (Some (takeWhile (\<lambda>c. c \<noteq> CHR '':'') item), tl (dropWhile (\<lambda>c. c \<noteq> CHR '':'') item))
                    else (None, item))
      in \<lparr>path_action = a, path_text = p, is_star_path = (p = ''*'')\<rparr>)"

definition get_next :: "dict_path \<Rightarrow> string \<times> dict_path" where
  "get_next p =
     (let n = takeWhile (\<lambda>c. c \<noteq> CHR ''.'') (path_text p) in (n, p\<lparr>path_text := drop (length n + 1) (path_text p)\<rparr>))"

definition copy_path :: "dict_path \<Rightarrow> dict_path" where
  "copy_path p = dict_path (path_text p)"

text \<open>Splitting a text at dots and joining it again behind the path gives the text back.\<close>

definition append_key :: "string \<Rightarrow> dict_path \<Rightarrow> dict_path" where
  "append_key k p = p\<lparr>path_text := path_text p @ ''.'' @ k\<rparr>"

definition ends_with :: "string \<Rightarrow> string \<Rightarrow> bool" where
  "ends_with suf s \<longleftrightarrow> length suf \<le> length s \<and> drop (length s - length suf) s = suf"

definition starts_with :: "string \<Rightarrow> string \<Rightarrow> bool" where
  "starts_with pre s \<longleftrightarrow> take (length pre) s = pre"

fun has_double_dot :: "string \<Rightarrow> bool" where
  "has_double_dot (a # b # s) = (a = CHR ''.'' \<and> b = CHR ''.'' \<or> has_double_dot (b # s))"
| "has_double_dot _ = False"

definition action_prefix :: "dict_path \<Rightarrow> string" where
  "action_prefix p = (case path_action p of None \<Rightarrow> [] | Some a \<Rightarrow> a)"

definition with_action :: "dict_path \<Rightarrow> string \<Rightarrow> string" where
  "with_action p path = (if action_prefix p \<noteq> [] then action_prefix p @ '':'' @ path else path)"

definition json_path_validator :: "string \<Rightarrow> string result" where
  "json_path_validator item =
     (let p = dict_path item; path = path_text p in
      if CHR ''*'' \<in> set path \<and> path \<noteq> ''*'' \<and> \<not> ends_with ''.*'' path
        then Inl (ValueError (''Stars can only be used at the end of the path''))
      else if CHR ''*'' \<notin> set path \<and> path = [] then Inl (ValueError ''does not have a path'')
      else
        let path = (if CHR ''*'' \<in> set path \<and> path \<noteq> ''*'' then take (length path - 2) path else path) in
        if starts_with ''$.'' path then Inl (ValueError ''Valid paths cannot start with $.'')
        else if ends_with ''.'' path then Inl (ValueError ''Valid paths cannot end with .'')
        else if has_double_dot path then Inl (ValueError ''No fields within a path can be empty.'')
        else if action_prefix p \<noteq> [] \<and> CHR ''.'' \<in> set (action_prefix p) then Inl (ValueError ''is not a valid action name.'')
        else Inr (with_action p path))"

definition feature_name_validator :: "string \<Rightarrow> string result" where
  "feature_name_validator item =
     (let p = dict_path item; path = path_text p in
      if path = [] then Inl (ValueError ''does not have a feature name'')
      else if CHR ''*'' \<in> set path \<and> path \<noteq> ''*'' then Inl (ValueError ''is not a valid feature name.'')
      else if starts_with ''$.'' path then Inl (ValueError ''Feature names cannot start with $.'')
      else if CHR ''.'' \<in> set path then Inl (ValueError ''is not a valid feature name.'')
      else if action_prefix p \<noteq> [] \<and> CHR ''.'' \<in> set (action_prefix p) then Inl (ValueError ''is not a valid action name.'')
      else Inr (with_action p path))"

section \<open>Censoring\<close>

text \<open>Decoded JSON.\<close>

datatype tree = TLeaf pyval | TList "tree list" | TDict "(string \<times> tree) list"

definition CENSOR_TEXT :: string where "CENSOR_TEXT = ''[CENSORED]''"

definition censored :: tree where "censored = TLeaf (VStr CENSOR_TEXT)"

text \<open>
  \<open>_recursively_censor_leafs\<close>: an allowed path keeps the node, a falsy node and a leaf become the
  censor text, and a container is rebuilt. The items of a list have the path of the list.
\<close>

fun censor_node :: "string list \<Rightarrow> dict_path \<Rightarrow> tree \<Rightarrow> tree" where
  "censor_node exceptions current (TLeaf v) = (if path_text current \<in> set exceptions then TLeaf v else censored)"
| "censor_node exceptions current (TList xs) =
     (if path_text current \<in> set exceptions then TList xs
      else if xs = [] then censored
      else TList (map (censor_node exceptions (copy_path current)) xs))"
| "censor_node exceptions current (TDict d) =
     (if path_text current \<in> set exceptions then TDict d
      else if d = [] then censored
      else TDict (map (\<lambda>(k, v). (k, censor_node exceptions (append_key k (copy_path current)) v)) d))"

text \<open>\<open>censor_leafs\<close> on one entry of a dictionary, and \<open>censor_all_leafs\<close>.\<close>

definition censor_entry :: "string list \<Rightarrow> string \<times> tree \<Rightarrow> string \<times> tree" where
  "censor_entry exceptions p =
     (let (field, v) = p in
      if (case v of TLeaf (VStr _) \<Rightarrow> field = ''ActionName'' | _ \<Rightarrow> False) then p
      else (field, censor_node exceptions (dict_path field) v))"

definition censor_leafs :: "(string \<times> tree) list \<Rightarrow> string \<Rightarrow> (string \<times> tree) list" where
  "censor_leafs data field = map (\<lambda>p. if fst p = field then censor_entry [] p else p) data"

definition censor_all_leafs :: "dict_path list \<Rightarrow> (string \<times> tree) list \<Rightarrow> (string \<times> tree) list" where
  "censor_all_leafs exceptions data =
     (if list_ex is_star_path exceptions then data else map (censor_entry (map path_text exceptions)) data)"

lemma size_entry: "map_of data k = Some v \<Longrightarrow> size v < size (TDict data)"
  by (induction data) (auto split: if_splits)

lemma size_item: "x \<in> set xs \<Longrightarrow> size x < size (TList xs)"
  by (induction xs) auto

text \<open>\<open>_censor_at_path\<close>; every step takes a key from the path.\<close>

function censor_at_path :: "dict_path \<Rightarrow> tree \<Rightarrow> tree result" where
  "censor_at_path p (TDict data) =
     (if is_star_path p then Inr (TDict (censor_all_leafs [] data))
      else
        let (key, rest) = get_next p in
        case map_of data key of
          None \<Rightarrow> Inl KeyError
        | Some v \<Rightarrow>
            if path_text rest = [] then Inr (TDict (censor_leafs data key))
            else case v of
              TDict d \<Rightarrow> bindR (censor_at_path rest v) (\<lambda>v'. Inr (TDict (AList.update key v' data)))
            | TList xs \<Rightarrow> bindR (mapR (censor_at_path (copy_path rest)) xs) (\<lambda>xs'. Inr (TDict (AList.update key (TList xs') data)))
            | TLeaf _ \<Rightarrow> Inr (TDict data))"
| "censor_at_path p (TList xs) =
     (if is_star_path p then Inl (OtherException ''AttributeError'') else Inl (TypeError ''list indices must be integers or slices, not str''))"
| "censor_at_path p (TLeaf v) =
     (if is_star_path p then Inl (OtherException ''AttributeError'') else Inl (TypeError ''not subscriptable''))"
  by pat_completeness auto
termination by (relation "measure (size \<circ> snd)") (auto dest!: size_entry size_item)

declare censor_at_path.simps [simp del]

text \<open>
  \<open>censor_data\<close>; the two sets exclude each other in a validated ability. The name of the action is
  \<open>None\<close> when it is no text, which no item names.
\<close>

fun item_text :: "ability_item \<Rightarrow> string" where
  "item_text (TextItem s) = s"
| "item_text (EntityKey t i) = t @ ''/'' @ i"

definition item_applies :: "string option \<Rightarrow> dict_path \<Rightarrow> bool" where
  "item_applies action_name p \<longleftrightarrow> action_prefix p = [] \<or> Some (action_prefix p) = action_name"

definition applying_paths :: "string option \<Rightarrow> ability_item list option \<Rightarrow> dict_path list" where
  "applying_paths action_name items =
     filter (item_applies action_name) (map (\<lambda>i. dict_path (item_text i)) (items_of items))"

definition as_entries :: "tree \<Rightarrow> (string \<times> tree) list" where
  "as_entries t = (case t of TDict d \<Rightarrow> d | _ \<Rightarrow> [])"

definition censor_data :: "ability \<Rightarrow> string option \<Rightarrow> (string \<times> tree) list \<Rightarrow> (string \<times> tree) list result" where
  "censor_data a action_name data =
     bindR (if nonempty (allow_all_except a)
            then loopR censor_at_path (applying_paths action_name (allow_all_except a)) (TDict data)
            else Inr (TDict data)) (\<lambda>t.
       Inr (if nonempty (allow_specific a)
            then censor_all_leafs (applying_paths action_name (allow_specific a)) (as_entries t)
            else as_entries t))"

text \<open>
  \<open>StoredExecutionResult.parse_from_query_result\<close>: without an ability for the kind of data everything
  is censored.
\<close>

definition censor_field :: "ability list \<Rightarrow> string option \<Rightarrow> (string \<times> tree) list \<Rightarrow> (string \<times> tree) list result" where
  "censor_field censors action_name data =
     (if censors = [] then Inr (censor_all_leafs [] data) else loopR (\<lambda>a. censor_data a action_name) censors data)"

definition of_class :: "string \<Rightarrow> ability option list \<Rightarrow> ability list" where
  "of_class n as = filter (\<lambda>a. ability_name a = n) (concat (map (case_option [] (\<lambda>a. [a])) as))"

record stored_result =
  stored_features :: "(string \<times> tree) list"
  stored_action_data :: "(string \<times> tree) list option"

definition parse_from_query_result :: "stored_result \<Rightarrow> ability option list \<Rightarrow> stored_result result" where
  "parse_from_query_result r abilities =
     (if map_of (stored_features r) ''ActionName'' \<in> {None, Some (TLeaf VNone)}
      then Inl (AssertionError ''Action name could not be parsed from query result'')
      else let action_name = (case map_of (stored_features r) ''ActionName'' of Some (TLeaf (VStr s)) \<Rightarrow> Some s | _ \<Rightarrow> None) in
          bindR (case stored_action_data r of
                   None \<Rightarrow> Inr None
                 | Some d \<Rightarrow> bindR (censor_field (of_class ''CAN_VIEW_ACTION_DATA'' abilities) action_name d) (\<lambda>d'. Inr (Some d'))) (\<lambda>action_data.
          bindR (censor_field (of_class ''CAN_VIEW_FEATURE_DATA'' abilities) action_name (stored_features r)) (\<lambda>fs.
            Inr \<lparr>stored_features = fs, stored_action_data = action_data\<rparr>)))"

section \<open>Requests\<close>

definition unauthorized :: py_exc where "unauthorized = OtherException ''401''"

definition require_ability :: "ability list \<Rightarrow> string \<Rightarrow> unit result" where
  "require_ability user n = (if has_ability user n then Inr () else Inl unauthorized)"

definition require_ability_with_request :: "ability list \<Rightarrow> string \<Rightarrow> (ability \<Rightarrow> bool) \<Rightarrow> ability result" where
  "require_ability_with_request user n request_allowed =
     bindR (get_ability user n) (\<lambda>a.
       case a of
         None \<Rightarrow> Inl unauthorized
       | Some a \<Rightarrow> if allow_all a = Some True \<or> request_allowed a then Inr a else Inl unauthorized)"

record mutation_request =
  req_label :: string
  req_status :: LabelStatus
  req_reason :: string
  req_expires_at :: "datetime option"

definition can_mutate_labels :: "mutation_request list \<Rightarrow> ability \<Rightarrow> bool" where
  "can_mutate_labels ms a \<longleftrightarrow> (\<exists>m \<in> set ms. item_is_allowed a (TextItem (req_label m)))"

text \<open>\<open>manual_entity_mutation\<close>: the mutations that are handed to the labels provider.\<close>

definition manual_mutation :: "string \<Rightarrow> mutation_request \<Rightarrow> EntityLabelMutation" where
  "manual_mutation email m = \<lparr>label_name = req_label m, reason_name = ''_ManuallyUpdated'', mut_status = req_status m,
     mut_pending = JBool False, mut_description = JStr ''Manual update by {AdminEmail}: {Reason}'',
     mut_features = JObj [(''AdminEmail'', JStr email), (''Reason'', JStr (req_reason m))], mut_expires_at = req_expires_at m\<rparr>"

definition manual_entity_mutation :: "bool \<Rightarrow> ability list \<Rightarrow> string \<Rightarrow> string \<times> string \<Rightarrow> mutation_request list \<Rightarrow> EntityLabelMutation list result" where
  "manual_entity_mutation has_provider user email entity ms =
     bindR (require_ability_with_request user ''CAN_MUTATE_ENTITIES'' (\<lambda>a. item_is_allowed a (EntityKey (fst entity) (snd entity)))) (\<lambda>_.
     bindR (require_ability_with_request user ''CAN_MUTATE_LABELS'' (can_mutate_labels ms)) (\<lambda>a.
       if \<not> has_provider then Inl (OtherException ''501'')
       else Inr (map (manual_mutation email) (filter (\<lambda>m. item_is_allowed a (TextItem (req_label m))) ms))))"

text \<open>\<open>get_labels_for_entity\<close>: the labels that are shown; \<open>None\<close> stands for no labels provider.\<close>

definition get_labels_for_entity :: "ability list \<Rightarrow> string \<times> string \<Rightarrow> EntityLabels option \<Rightarrow> EntityLabels result" where
  "get_labels_for_entity user entity labels =
     bindR (require_ability user ''CAN_VIEW_LABELS'') (\<lambda>_.
     bindR (require_ability_with_request user ''CAN_VIEW_LABELS_FOR_ENTITY'' (\<lambda>a. item_is_allowed a (EntityKey (fst entity) (snd entity)))) (\<lambda>_.
       case labels of
         None \<Rightarrow> Inr []
       | Some labels \<Rightarrow> bindR (get_ability user ''CAN_VIEW_LABELS'') (\<lambda>a.
           Inr (filter (\<lambda>(l, _). case a of None \<Rightarrow> False | Some a \<Rightarrow> item_is_allowed a (TextItem l)) labels))))"

section \<open>Filters of event queries\<close>

definition get_query_filter :: "ability \<Rightarrow> druid_filter option result" where
  "get_query_filter a =
     (if allow_all a = Some True then Inr None
      else if nonempty (allow_specific a)
        then Inr (Some (DOr (map (\<lambda>i. DSelector ''ActionName'' (VStr (item_text i))) (items_of (allow_specific a)))))
      else if nonempty (allow_all_except a)
        then Inr (Some (DNot (DOr (map (\<lambda>i. DSelector ''ActionName'' (VStr (item_text i))) (items_of (allow_all_except a))))))
      else Inl (AssertionError ''Validation failed to assert that this ability had a present allow variable''))"

record entity_filter =
  ef_type :: string
  ef_id :: string
  ef_feature_filters :: "string list"

definition wrap_filter :: "(string, string) dict \<Rightarrow> entity_filter \<Rightarrow> druid_filter option \<Rightarrow> druid_filter" where
  "wrap_filter feature_to_entity ef query_filter =
     (let entity_filters = DOr (map (\<lambda>(f, _). DSelector f (VStr (ef_id ef)))
            (filter (\<lambda>(f, t). t = ef_type ef \<and> (ef_feature_filters ef = [] \<or> f \<in> set (ef_feature_filters ef))) feature_to_entity))
      in case query_filter of Some q \<Rightarrow> DAnd [q, entity_filters] | None \<Rightarrow> entity_filters)"

record druid_request =
  req_start :: int  \<comment> \<open>microseconds since the epoch\<close>
  req_end :: int
  transformed_filter :: "druid_filter option"
  request_entity :: "entity_filter option"

text \<open>The filter of \<open>_query_with_filter\<close>.\<close>

definition user_filter :: "(string, string) dict \<Rightarrow> druid_request \<Rightarrow> druid_filter option" where
  "user_filter feature_to_entity req =
     (case request_entity req of
        Some ef \<Rightarrow> Some (wrap_filter feature_to_entity ef (transformed_filter req))
      | None \<Rightarrow> transformed_filter req)"

definition query_with_filter :: "(string, string) dict \<Rightarrow> ability list \<Rightarrow> druid_request \<Rightarrow> druid_filter option result" where
  "query_with_filter feature_to_entity abilities req =
     (if req_start req > req_end req then Inl (ValueError ''Start date must be before end date'')
      else bindR (mapR get_query_filter abilities) (\<lambda>fs.
       let ability_filters = concat (map (case_option [] (\<lambda>f. [f])) fs) in
       Inr (if ability_filters = [] then user_filter feature_to_entity req
            else case user_filter feature_to_entity req of
              Some u \<Rightarrow> Some (DAnd [u, DAnd ability_filters])
            | None \<Rightarrow> Some (DAnd ability_filters))))"

definition by_entity_allowed :: "druid_request \<Rightarrow> ability \<Rightarrow> bool" where
  "by_entity_allowed req a = (case request_entity req of
     None \<Rightarrow> False | Some ef \<Rightarrow> item_is_allowed a (EntityKey (ef_type ef) (ef_id ef)))"

text \<open>The views: the filter each of them sends, or the error of a missing ability.\<close>

definition topn_query :: "(string, string) dict \<Rightarrow> ability list \<Rightarrow> druid_request \<Rightarrow> druid_filter option result" where
  "topn_query feature_to_entity user req =
     bindR (require_ability_with_request user ''CAN_VIEW_EVENTS_BY_ENTITY'' (by_entity_allowed req)) (\<lambda>_.
     bindR (require_ability_with_request user ''CAN_VIEW_EVENTS_BY_ACTION'' (\<lambda>_. True)) (\<lambda>a.
       query_with_filter feature_to_entity [a] req))"

definition groupby_count :: "(string, string) dict \<Rightarrow> ability list \<Rightarrow> druid_request \<Rightarrow> druid_filter option result" where
  "groupby_count feature_to_entity user req =
     bindR (require_ability_with_request user ''CAN_VIEW_EVENTS_BY_ENTITY'' (by_entity_allowed req)) (\<lambda>_.
     bindR (require_ability_with_request user ''CAN_VIEW_EVENTS_BY_ACTION'' (\<lambda>_. True)) (\<lambda>_.
       query_with_filter feature_to_entity [] req))"

definition timeseries_query :: "(string, string) dict \<Rightarrow> ability list \<Rightarrow> druid_request \<Rightarrow> druid_filter option result" where
  "timeseries_query feature_to_entity user req =
     bindR (require_ability user ''CAN_VIEW_EVENTS_BY_ENTITY'') (\<lambda>_.
     bindR (require_ability_with_request user ''CAN_VIEW_EVENTS_BY_ENTITY'' (by_entity_allowed req)) (\<lambda>_.
       query_with_filter feature_to_entity [] req))"

definition scan_query :: "(string, string) dict \<Rightarrow> ability list \<Rightarrow> druid_request \<Rightarrow> druid_filter option result" where
  "scan_query feature_to_entity user req =
     bindR (require_ability user ''CAN_VIEW_EVENTS_BY_ENTITY'') (\<lambda>_.
     bindR (require_ability user ''CAN_VIEW_EVENTS_BY_ACTION'') (\<lambda>_.
     bindR (require_ability_with_request user ''CAN_VIEW_EVENTS_BY_ENTITY'' (by_entity_allowed req)) (\<lambda>_.
     bindR (require_ability_with_request user ''CAN_VIEW_EVENTS_BY_ACTION'' (\<lambda>_. True)) (\<lambda>a.
       query_with_filter feature_to_entity [a] req))))"

definition topn_query_csv :: "(string, string) dict \<Rightarrow> ability list \<Rightarrow> druid_request \<Rightarrow> druid_filter option result" where
  "topn_query_csv feature_to_entity user req =
     bindR (require_ability user ''CAN_VIEW_EVENTS_BY_ENTITY'') (\<lambda>_.
     bindR (require_ability_with_request user ''CAN_VIEW_EVENTS_BY_ENTITY'' (by_entity_allowed req)) (\<lambda>_.
       query_with_filter feature_to_entity [] req))"

section \<open>Merged abilities\<close>

definition valid_ability :: "ability \<Rightarrow> bool" where
  "valid_ability a \<longleftrightarrow> ability_root_validator a = Inr a"

lemma valid_ability_cases:
  "valid_ability a \<longleftrightarrow>
     allow_all a = Some True \<and> allow_specific a = None \<and> allow_all_except a = None \<or>
     allow_all a = None \<and> nonempty (allow_specific a) \<and> allow_all_except a = None \<or>
     allow_all a = None \<and> allow_specific a = None \<and> nonempty (allow_all_except a)"
  by (cases "allow_all a"; cases "allow_specific a"; cases "allow_all_except a")
    (auto simp: valid_ability_def ability_root_validator_def nonempty_def)

lemma items_none [simp]: "items_of None = []"
  by (simp add: items_of_def)

lemma nonempty_items: "nonempty xs \<longleftrightarrow> items_of xs \<noteq> []"
  by (cases xs) (simp_all add: nonempty_def items_of_def)

text \<open>
  The abilities of a user for one class merge into one valid ability. It allows an item exactly
  when one of them allows everything, or one of them lists the item, or some of them allow everything
  but an exception and the item is an exception of none of them.
\<close>

lemma merge_correct:
  assumes "as \<noteq> []" and "\<forall>a \<in> set as. valid_ability a"
  shows "\<exists>m. merge_abilities n as = Inr m \<and> valid_ability m \<and>
    (\<forall>x. item_is_allowed m x \<longleftrightarrow>
       (\<exists>a \<in> set as. allow_all a = Some True) \<or> (\<exists>a \<in> set as. x \<in> set (items_of (allow_specific a))) \<or>
       ((\<exists>a \<in> set as. nonempty (allow_all_except a)) \<and> (\<forall>a \<in> set as. x \<notin> set (items_of (allow_all_except a)))))"
proof (cases "\<exists>a \<in> set as. allow_all a = Some True")
  case True
  then show ?thesis by (auto simp: merge_abilities_def only_all_def valid_ability_cases item_is_allowed_def)
next
  case False
  define except specific where "except = concat (map (\<lambda>a. items_of (allow_all_except a)) as)"
    and "specific = concat (map (\<lambda>a. items_of (allow_specific a)) as)"
  have e: "x \<in> set except \<longleftrightarrow> (\<exists>a \<in> set as. x \<in> set (items_of (allow_all_except a)))"
    and s: "x \<in> set specific \<longleftrightarrow> (\<exists>a \<in> set as. x \<in> set (items_of (allow_specific a)))" for x
    by (auto simp: except_def specific_def)
  have ne: "except \<noteq> [] \<longleftrightarrow> (\<exists>a \<in> set as. nonempty (allow_all_except a))" by (auto simp: except_def nonempty_items)
  obtain a where "a \<in> set as" using assms(1) by (cases as) auto
  with assms(2) False have "except \<noteq> [] \<or> specific \<noteq> []" by (auto simp: valid_ability_cases nonempty_items except_def specific_def)
  then consider (both) "except \<noteq> []" "specific \<noteq> []" | (except) "except \<noteq> []" "specific = []" | (specific) "except = []" "specific \<noteq> []" by blast
  then show ?thesis
  proof cases
    case both
    show ?thesis
    proof (cases "filter (\<lambda>x. x \<notin> set specific) except = []")
      case True
      then have "merge_abilities n as = Inr (only_all n)" using False both
        by (simp add: merge_abilities_def Let_def flip: except_def specific_def)
      moreover have "\<forall>x \<in> set except. x \<in> set specific" using True by (simp add: filter_empty_conv)
      then have "\<forall>x. x \<in> set specific \<or> x \<notin> set except" by blast
      ultimately show ?thesis using ne both(1) by (auto simp: only_all_def valid_ability_cases item_is_allowed_def e s)
    next
      case rest: False
      then have "merge_abilities n as = Inr \<lparr>ability_name = n, allow_all = None, allow_specific = None,
          allow_all_except = Some (filter (\<lambda>x. x \<notin> set specific) except)\<rparr>" using False both
        by (simp add: merge_abilities_def Let_def flip: except_def specific_def)
      then show ?thesis using rest ne both(1) False
        by (auto simp: valid_ability_cases item_is_allowed_def nonempty_def items_of_def [of "Some _"] e s)
    qed
  next
    case except
    then have "merge_abilities n as = Inr \<lparr>ability_name = n, allow_all = None, allow_specific = None, allow_all_except = Some except\<rparr>"
      using False by (simp add: merge_abilities_def Let_def flip: except_def specific_def)
    moreover have "\<not> (\<exists>a \<in> set as. x \<in> set (items_of (allow_specific a)))" for x using s except(2) by auto
    ultimately show ?thesis using ne except False
      by (auto simp: valid_ability_cases item_is_allowed_def nonempty_def items_of_def [of "Some _"] e)
  next
    case specific
    then have "merge_abilities n as = Inr \<lparr>ability_name = n, allow_all = None, allow_specific = Some specific, allow_all_except = None\<rparr>"
      using False by (simp add: merge_abilities_def Let_def flip: except_def specific_def)
    then show ?thesis using ne specific False
      by (auto simp: valid_ability_cases item_is_allowed_def nonempty_def items_of_def [of "Some _"] s)
  qed
qed

text \<open>A second role can take a permission away: the exceptions of both roles hold.\<close>

lemma second_role_revokes:
  "\<exists>m. merge_abilities n [a, b] = Inr m \<and> item_is_allowed a y \<and> \<not> item_is_allowed m y"
  if "a = \<lparr>ability_name = n, allow_all = None, allow_specific = None, allow_all_except = Some [x]\<rparr>"
    "b = \<lparr>ability_name = n, allow_all = None, allow_specific = None, allow_all_except = Some [y]\<rparr>" "x \<noteq> y"
  using that by (simp add: merge_abilities_def item_is_allowed_def items_of_def nonempty_def)

section \<open>What censoring leaves visible\<close>

text \<open>
  The leaves of a document with the keys above them; the items of a list have the keys of the list.
  \<open>opened\<close> are the ones whose value is not the censor text.
\<close>

fun leaves :: "tree \<Rightarrow> (string list \<times> pyval) set" where
  "leaves (TLeaf v) = {([], v)}"
| "leaves (TList xs) = \<Union> (set (map leaves xs))"
| "leaves (TDict d) = \<Union> (set (map (\<lambda>(k, t). (\<lambda>(q, v). (k # q, v)) ` leaves t) d))"

definition opened :: "tree \<Rightarrow> (string list \<times> pyval) set" where
  "opened t = {(q, v) \<in> leaves t. v \<noteq> VStr CENSOR_TEXT}"

lemma opened_leaf: "(q, v) \<in> opened (TLeaf u) \<longleftrightarrow> q = [] \<and> v = u \<and> v \<noteq> VStr CENSOR_TEXT"
  by (auto simp: opened_def)

lemma opened_list: "(q, v) \<in> opened (TList xs) \<longleftrightarrow> (\<exists>x \<in> set xs. (q, v) \<in> opened x)"
  by (auto simp: opened_def)

lemma opened_dict: "(q, v) \<in> opened (TDict d) \<longleftrightarrow> (\<exists>k t q'. (k, t) \<in> set d \<and> q = k # q' \<and> (q', v) \<in> opened t)"
  by (force simp: opened_def)

lemma opened_dict_map:
  "(q, v) \<in> opened (TDict (map (\<lambda>(k, t). (k, f k t)) d)) \<longleftrightarrow> (\<exists>k t q'. (k, t) \<in> set d \<and> q = k # q' \<and> (q', v) \<in> opened (f k t))"
  by (force simp: opened_dict)

lemma opened_censored [simp]: "opened censored = {}"
  by (auto simp: opened_def censored_def)

lemmas opened_iff = opened_leaf opened_list opened_dict

text \<open>Keys a path can name: no colon and no dot; the keys of a dictionary are distinct.\<close>

definition plain_key :: "string \<Rightarrow> bool" where
  "plain_key k \<longleftrightarrow> CHR '':'' \<notin> set k \<and> CHR ''.'' \<notin> set k"

fun plain_tree :: "tree \<Rightarrow> bool" where
  "plain_tree (TLeaf v) = True"
| "plain_tree (TList xs) = list_all plain_tree xs"
| "plain_tree (TDict d) = (distinct (map fst d) \<and> list_all (\<lambda>(k, t). plain_key k \<and> plain_tree t) d)"

text \<open>The keys of a path.\<close>

fun key_list :: "string \<Rightarrow> string list" where
  "key_list [] = [[]]"
| "key_list (c # s) = (if c = CHR ''.'' then [] # key_list s else case key_list s of k # ks \<Rightarrow> (c # k) # ks)"

lemma key_list_ne [simp]: "key_list s \<noteq> []"
  by (induction s) (auto split: list.splits)

lemma key_list_text: "key_list (k @ s) = (case key_list s of k' # ks \<Rightarrow> (k @ k') # ks)" if "CHR ''.'' \<notin> set k"
  using that by (induction k) (auto split: list.splits)

lemma key_list_plain: "key_list k = [k]" if "CHR ''.'' \<notin> set k"
  using key_list_text [OF that, of "[]"] by simp

lemma key_list_cons: "key_list (k @ CHR ''.'' # s) = k # key_list s" if "CHR ''.'' \<notin> set k"
  using key_list_text [OF that, of "CHR ''.'' # s"] by simp

lemma key_list_join: "\<forall>k \<in> set q. CHR ''.'' \<notin> set k \<Longrightarrow> q \<noteq> [] \<Longrightarrow> key_list (join ''.'' q) = q"
  by (induction "''.''" q rule: join.induct) (simp_all add: key_list_plain key_list_cons)

lemma join_key_list: "join ''.'' (key_list s) = s"
proof (induction s)
  case (Cons c s)
  obtain k ks where "key_list s = k # ks" using key_list_ne [of s] by (cases "key_list s") auto
  with Cons show ?case by (cases ks) auto
qed simp

lemma join_append: "q \<noteq> [] \<Longrightarrow> join ''.'' (q @ [k]) = join ''.'' q @ ''.'' @ k"
  by (induction "''.''" q rule: join.induct) simp_all

lemma key_list_first:
  "hd (key_list s) = takeWhile (\<lambda>c. c \<noteq> CHR ''.'') s"
  "tl (key_list s) = (if CHR ''.'' \<in> set s then key_list (drop (length (takeWhile (\<lambda>c. c \<noteq> CHR ''.'') s) + 1) s) else [])"
  by (induction s) (auto split: list.splits dest: arg_cong [where f = hd])

lemma copy_path_text: "CHR '':'' \<notin> set (path_text p) \<Longrightarrow> path_text (copy_path p) = path_text p"
  by (simp add: copy_path_def dict_path_def)

lemma plain_join: "\<forall>k \<in> set p. plain_key k \<Longrightarrow> CHR '':'' \<notin> set (join ''.'' p)"
  by (induction "''.''" p rule: join.induct) (simp_all add: plain_key_def)

lemma ex_le_Suc: "(\<exists>n \<le> length (x # xs). P n) \<longleftrightarrow> P 0 \<or> (\<exists>n \<le> length xs. P (Suc n))"
  by (metis (no_types, lifting) Suc_le_mono le0 length_Cons not0_implies_Suc)

text \<open>Censoring below a node with the keys \<open>p\<close> leaves open what an allowed path leads to.\<close>

lemma opened_censor_node:
  assumes "path_text cur = join ''.'' p" and "p \<noteq> []" and "\<forall>k \<in> set p. plain_key k" and "plain_tree t"
  shows "(q, v) \<in> opened (censor_node es cur t) \<longleftrightarrow>
    (q, v) \<in> opened t \<and> (\<exists>n \<le> length q. join ''.'' (p @ take n q) \<in> set es)"
  using assms
proof (induction es cur t arbitrary: p q rule: censor_node.induct)
  case (1 es cur u)
  then show ?case by (auto simp: opened_leaf)
next
  case (2 es cur xs)
  show ?case
  proof (cases "path_text cur \<in> set es \<or> xs = []")
    case True
    then show ?thesis using 2(2) by (auto simp: opened_list intro: exI [of _ 0])
  next
    case False
    have c: "path_text (copy_path cur) = join ''.'' p" using copy_path_text [of cur] plain_join [OF 2(4)] 2(2) by simp
    have IH: "(q, v) \<in> opened (censor_node es (copy_path cur) x) \<longleftrightarrow>
        (q, v) \<in> opened x \<and> (\<exists>n \<le> length q. join ''.'' (p @ take n q) \<in> set es)" if "x \<in> set xs" for x
      using 2(1) [OF _ _ that c 2(3,4)] 2(5) that False by (simp add: list_all_iff)
    with False show ?thesis by (auto simp: opened_list)
  qed
next
  case (3 es cur d)
  show ?case
  proof (cases "path_text cur \<in> set es \<or> d = []")
    case True
    then show ?thesis using 3(2) by (auto simp: opened_dict intro: exI [of _ 0])
  next
    case False
    have IH: "(q', v) \<in> opened (censor_node es (append_key k (copy_path cur)) t) \<longleftrightarrow>
        (q', v) \<in> opened t \<and> (\<exists>n \<le> length q'. join ''.'' (p @ k # take n q') \<in> set es)" if "(k, t) \<in> set d" for k t q'
    proof -
      have "plain_key k" "plain_tree t" using 3(5) that by (auto simp: list_all_iff)
      moreover have "path_text (append_key k (copy_path cur)) = join ''.'' (p @ [k])"
        using copy_path_text [of cur] plain_join [OF 3(4)] 3(2,3) by (simp add: append_key_def join_append)
      ultimately show ?thesis using 3(1) [of "(k, t)" k t "p @ [k]" q'] that False 3(4) by simp
    qed
    have n: "(\<exists>n \<le> length (k # q'). join ''.'' (p @ take n (k # q')) \<in> set es) \<longleftrightarrow>
        (\<exists>n \<le> length q'. join ''.'' (p @ k # take n q') \<in> set es)" for k q'
      using False 3(2) by (subst ex_le_Suc) simp
    have "(k, t) \<in> set d \<and> q = k # q' \<and> (q', v) \<in> opened (censor_node es (append_key k (copy_path cur)) t) \<longleftrightarrow>
        ((k, t) \<in> set d \<and> q = k # q' \<and> (q', v) \<in> opened t) \<and> (\<exists>n \<le> length q. join ''.'' (p @ take n q) \<in> set es)" for k t q'
      using IH [of k t q'] n [of k q'] by (cases "q = k # q'"; cases "(k, t) \<in> set d") simp_all
    moreover have "(q, v) \<in> opened (censor_node es cur (TDict d)) \<longleftrightarrow> (\<exists>k t q'. (k, t) \<in> set d \<and> q = k # q' \<and>
        (q', v) \<in> opened (censor_node es (append_key k (copy_path cur)) t))"
      using False by (simp add: opened_dict_map)
    ultimately show ?thesis by (simp only: opened_dict) blast
  qed
qed

text \<open>What a path of an ability covers.\<close>

definition covers :: "dict_path \<Rightarrow> string list \<Rightarrow> bool" where
  "covers e q \<longleftrightarrow> is_star_path e \<or> prefix (key_list (path_text e)) q"

lemma covers_iff:
  assumes "\<forall>k \<in> set (k # q). plain_key k"
  shows "(\<exists>n \<le> length q. join ''.'' (k # take n q) = s) \<longleftrightarrow> prefix (key_list s) (k # q)"
proof
  assume "\<exists>n \<le> length q. join ''.'' (k # take n q) = s"
  then obtain n where n: "join ''.'' (k # take n q) = s" by blast
  have "\<forall>x \<in> set (k # take n q). CHR ''.'' \<notin> set x" using assms set_take_subset [of n q] by (auto simp: plain_key_def)
  from key_list_join [OF this] n have "key_list s = k # take n q" by simp
  then show "prefix (key_list s) (k # q)" using take_is_prefix [of n q] by simp
next
  assume p: "prefix (key_list s) (k # q)"
  then obtain ks where ks: "key_list s = k # ks" "prefix ks q" using key_list_ne [of s] by (cases "key_list s") auto
  then have "ks = take (length ks) q" "length ks \<le> length q" by (auto simp: prefix_def)
  then show "\<exists>n \<le> length q. join ''.'' (k # take n q) = s" using join_key_list [of s] ks(1) by metis
qed

lemma opened_plain: "plain_tree t \<Longrightarrow> (q, v) \<in> opened t \<Longrightarrow> \<forall>k \<in> set q. plain_key k"
proof (induction t arbitrary: q rule: plain_tree.induct)
  case (3 d)
  then obtain k t q' where "(k, t) \<in> set d" "q = k # q'" "(q', v) \<in> opened t" unfolding opened_dict by blast
  with 3 show ?case by (fastforce simp: list_all_iff)
qed (auto simp: opened_iff list_all_iff)

text \<open>The name of the action is a string.\<close>

definition action_named :: "(string \<times> tree) list \<Rightarrow> bool" where
  "action_named d \<longleftrightarrow> list_all (\<lambda>(k, t). k = ''ActionName'' \<longrightarrow> (case t of TLeaf (VStr _) \<Rightarrow> True | _ \<Rightarrow> False)) d"

lemma action_named_iff: "action_named d \<longleftrightarrow> (\<forall>t. (''ActionName'', t) \<in> set d \<longrightarrow> (\<exists>s. t = TLeaf (VStr s)))"
proof -
  have "(case t of TLeaf (VStr _) \<Rightarrow> True | _ \<Rightarrow> False) \<longleftrightarrow> (\<exists>s. t = TLeaf (VStr s))" for t
    by (simp split: tree.splits pyval.splits)
  then have "action_named d \<longleftrightarrow> (\<forall>(k, t) \<in> set d. k = ''ActionName'' \<longrightarrow> (\<exists>s. t = TLeaf (VStr s)))"
    by (simp only: action_named_def list_all_iff)
  then show ?thesis by blast
qed

lemma censor_entry_action: "censor_entry es (''ActionName'', TLeaf (VStr s)) = (''ActionName'', TLeaf (VStr s))"
  by (simp add: censor_entry_def)

lemma censor_entry_other: "k \<noteq> ''ActionName'' \<Longrightarrow> censor_entry es (k, t) = (k, censor_node es (dict_path k) t)"
  by (simp add: censor_entry_def split: tree.splits pyval.splits)

lemma fst_censor_entry [simp]: "fst (censor_entry es p) = fst p"
  by (simp add: censor_entry_def split: prod.splits)

text \<open>One entry: its leaves stay open where an exception covers them.\<close>

lemma opened_entry:
  assumes "plain_key k" and "plain_tree t" and "k = ''ActionName'' \<Longrightarrow> \<exists>s. t = TLeaf (VStr s)"
  shows "(q, v) \<in> opened (snd (censor_entry (map path_text es) (k, t))) \<longleftrightarrow>
    (q, v) \<in> opened t \<and> (k = ''ActionName'' \<or> (\<exists>e \<in> set es. prefix (key_list (path_text e)) (k # q)))"
proof (cases "k = ''ActionName''")
  case True
  then show ?thesis using assms(3) censor_entry_action by auto
next
  case False
  have t: "path_text (dict_path k) = join ''.'' [k]" using assms(1) by (simp add: dict_path_def plain_key_def)
  have "(q, v) \<in> opened t \<Longrightarrow> (\<exists>n \<le> length q. join ''.'' ([k] @ take n q) \<in> set (map path_text es)) \<longleftrightarrow>
      (\<exists>e \<in> set es. prefix (key_list (path_text e)) (k # q))"
    using covers_iff [of k q] opened_plain [OF assms(2), of q v] assms(1) by (simp add: image_iff) metis
  then show ?thesis
    using opened_censor_node [OF t _ _ assms(2), of q v "map path_text es"] False assms(1)
    by (auto simp: censor_entry_other)
qed

lemma plain_censor_node: "plain_tree t \<Longrightarrow> plain_tree (censor_node es cur t)"
proof (induction es cur t rule: censor_node.induct)
  case (3 es cur d)
  have "map fst (map (\<lambda>(k, t). (k, censor_node es (append_key k (copy_path cur)) t)) d) = map fst d" by auto
  with 3 show ?case by (auto simp: list_all_iff censored_def simp del: map_map)
qed (auto simp: list_all_iff censored_def)

lemma plain_entry: "plain_key k \<Longrightarrow> plain_tree t \<Longrightarrow> plain_key (fst (censor_entry es (k, t))) \<and> plain_tree (snd (censor_entry es (k, t)))"
  by (simp add: censor_entry_def plain_censor_node)

lemma plain_dict: "plain_tree (TDict d) \<longleftrightarrow> distinct (map fst d) \<and> (\<forall>e \<in> set d. plain_key (fst e) \<and> plain_tree (snd e))"
  by (auto simp: list_all_iff)

text \<open>Maps that keep the keys.\<close>

lemma plain_map_entries:
  assumes "plain_tree (TDict d)" and "\<And>e. fst (f e) = fst e" and "\<And>e. e \<in> set d \<Longrightarrow> plain_tree (snd e) \<Longrightarrow> plain_tree (snd (f e))"
  shows "plain_tree (TDict (map f d))"
proof -
  have "map fst (map f d) = map fst d" using assms(2) by simp
  with assms show ?thesis by (simp add: plain_dict del: map_map plain_tree.simps)
qed

lemma opened_map_entries:
  assumes "\<And>e. fst (f e) = fst e"
  shows "(q, v) \<in> opened (TDict (map f d)) \<longleftrightarrow> (\<exists>e q'. e \<in> set d \<and> q = fst e # q' \<and> (q', v) \<in> opened (snd (f e)))"
proof -
  have "map f d = map (\<lambda>(k, t). (k, snd (f (k, t)))) d" using assms by (auto simp: prod_eq_iff)
  then show ?thesis by (simp only: opened_dict_map) auto
qed

lemma opened_dict_entries: "(q, v) \<in> opened (TDict d) \<longleftrightarrow> (\<exists>e q'. e \<in> set d \<and> q = fst e # q' \<and> (q', v) \<in> opened (snd e))"
  using opened_map_entries [of id q v d] by simp

lemma plain_censor_entries: "plain_tree (TDict d) \<Longrightarrow> plain_tree (TDict (map (\<lambda>e. if P e then censor_entry es e else e) d))"
  by (rule plain_map_entries) (auto simp: censor_entry_def plain_censor_node split: prod.splits)

lemma action_entries:
  assumes "action_named d"
  shows "action_named (map (\<lambda>e. if P e then censor_entry es e else e) d)"
proof -
  define N where "N = (\<lambda>e :: string \<times> tree. case e of (k, t) \<Rightarrow> k = ''ActionName'' \<longrightarrow> (case t of TLeaf (VStr _) \<Rightarrow> True | _ \<Rightarrow> False))"
  have "N (censor_entry es e)" if e: "N e" for e
  proof (cases "fst e = ''ActionName''")
    case True
    with e obtain s where "e = (''ActionName'', TLeaf (VStr s))" by (cases e) (auto simp: N_def split: tree.splits pyval.splits)
    then show ?thesis by (simp add: censor_entry_action N_def)
  next
    case False
    then show ?thesis by (simp add: N_def split_beta)
  qed
  with assms show ?thesis unfolding action_named_def N_def [symmetric] list_all_iff by auto
qed

text \<open>The two ways entries are censored: all but the exceptions, and one field.\<close>

lemma opened_all_leafs:
  assumes "plain_tree (TDict d)" and "action_named d"
  shows "(q, v) \<in> opened (TDict (censor_all_leafs es d)) \<longleftrightarrow>
    (q, v) \<in> opened (TDict d) \<and> (q = [''ActionName''] \<or> (\<exists>e \<in> set es. covers e q))"
proof (cases "list_ex is_star_path es")
  case True
  then show ?thesis by (auto simp: censor_all_leafs_def covers_def list_ex_iff)
next
  case False
  have entry: "(q', v) \<in> opened (snd (censor_entry (map path_text es) e)) \<longleftrightarrow>
      (q', v) \<in> opened (snd e) \<and> (fst e # q' = [''ActionName''] \<or> (\<exists>x \<in> set es. covers x (fst e # q')))"
    if e: "e \<in> set d" for e q'
  proof -
    have star: "\<not> is_star_path x" if "x \<in> set es" for x using False that by (auto simp: list_ex_iff)
    have named: "\<exists>s. snd e = TLeaf (VStr s)" if "fst e = ''ActionName''"
      using assms(2) e that unfolding action_named_iff by (metis prod.collapse)
    have plain: "plain_key (fst e)" "plain_tree (snd e)" using assms(1) e unfolding plain_dict by blast+
    have "(q', v) \<in> opened (snd e) \<Longrightarrow> fst e = ''ActionName'' \<Longrightarrow> q' = []" using named by (auto simp: opened_leaf)
    then show ?thesis using opened_entry [OF plain named, of q' v es] star by (auto simp: covers_def)
  qed
  have "(q, v) \<in> opened (TDict (map (censor_entry (map path_text es)) d)) \<longleftrightarrow>
      (\<exists>e q'. e \<in> set d \<and> q = fst e # q' \<and> (q', v) \<in> opened (snd e) \<and> (q = [''ActionName''] \<or> (\<exists>x \<in> set es. covers x q)))"
    unfolding opened_map_entries [OF fst_censor_entry] using entry by metis
  then show ?thesis using False by (simp only: censor_all_leafs_def if_False opened_dict_entries) blast
qed

text \<open>
  The paths of exceptions that name one place: no colon, and the last key is neither empty nor a star
  nor \<open>ActionName\<close>, which is never censored.
\<close>

definition ordinary :: "dict_path \<Rightarrow> bool" where
  "ordinary p \<longleftrightarrow> \<not> is_star_path p \<and> CHR '':'' \<notin> set (path_text p) \<and>
     last (key_list (path_text p)) \<notin> {[], ''*'', ''ActionName''}"

lemma ordinary_next:
  assumes "ordinary p" and "get_next p = (key, rest)"
  shows "key_list (path_text p) = key # (if path_text rest = [] then [] else key_list (path_text rest))"
    and "path_text rest \<noteq> [] \<Longrightarrow> ordinary rest" and "path_text rest = [] \<Longrightarrow> key \<noteq> ''ActionName''"
proof -
  have key: "key = hd (key_list (path_text p))" and rest: "path_text rest = drop (length key + 1) (path_text p)"
    and star: "is_star_path rest = is_star_path p"
    using assms(2) by (auto simp: get_next_def Let_def key_list_first(1))
  have split: "key_list (path_text p) = key # tl (key_list (path_text p))" using key by simp
  have l: "last (key_list (path_text p)) \<noteq> []" using assms(1) by (simp add: ordinary_def)
  have tl: "tl (key_list (path_text p)) = (if path_text rest = [] then [] else key_list (path_text rest))"
  proof (cases "CHR ''.'' \<in> set (path_text p)")
    case True
    then have t: "tl (key_list (path_text p)) = key_list (path_text rest)" using key rest by (simp add: key_list_first)
    then have "path_text rest \<noteq> []" using l split by (metis key_list.simps(1) last.simps list.simps(3))
    with t show ?thesis by simp
  next
    case False
    then have "key = path_text p" using key by (simp add: key_list_plain)
    with rest have "path_text rest = []" by simp
    with False show ?thesis by (simp add: key_list_first)
  qed
  show ks: "key_list (path_text p) = key # (if path_text rest = [] then [] else key_list (path_text rest))"
    using split tl by simp
  have "CHR '':'' \<notin> set (path_text rest)" using assms(1) rest set_drop_subset [of "length key + 1" "path_text p"]
    by (auto simp: ordinary_def)
  then show "path_text rest \<noteq> [] \<Longrightarrow> ordinary rest" using assms(1) ks star by (simp add: ordinary_def)
  show "path_text rest = [] \<Longrightarrow> key \<noteq> ''ActionName''" using assms(1) ks by (simp add: ordinary_def)
qed

lemma ordinary_copy: "ordinary p \<Longrightarrow> ordinary (copy_path p) \<and> path_text (copy_path p) = path_text p"
proof -
  assume p: "ordinary p"
  then have t: "path_text (copy_path p) = path_text p" by (simp add: copy_path_text ordinary_def)
  have "path_text p \<noteq> ''*''" using p by (auto simp: ordinary_def)
  then have "\<not> is_star_path (copy_path p)" using p by (simp add: copy_path_def dict_path_def ordinary_def)
  with p t show ?thesis by (simp add: ordinary_def)
qed

lemma update_as_map:
  "distinct (map fst d) \<Longrightarrow> map_of d k = Some w \<Longrightarrow> AList.update k w' d = map (\<lambda>e. if fst e = k then (k, w') else e) d"
proof (induction d)
  case (Cons e d)
  show ?case
  proof (cases "fst e = k")
    case True
    with Cons.prems have "\<forall>e \<in> set d. fst e \<noteq> k" by (force simp: image_iff)
    then have "map (\<lambda>e. if fst e = k then (k, w') else e) d = d" by (simp add: map_idI)
    with True show ?thesis by (cases e) simp
  next
    case False
    with Cons show ?thesis by (cases e) simp
  qed
qed simp

lemma opened_update:
  assumes "plain_tree (TDict d)" and "map_of d k = Some w"
    and "plain_tree w'" and "\<And>q. (q, v) \<in> opened w' \<longleftrightarrow> (q, v) \<in> opened w \<and> P q"
  shows "plain_tree (TDict (AList.update k w' d))"
    and "(q, v) \<in> opened (TDict (AList.update k w' d)) \<longleftrightarrow>
      (q, v) \<in> opened (TDict d) \<and> (\<forall>q'. q = k # q' \<longrightarrow> P q')"
proof -
  have dist: "distinct (map fst d)" using assms(1) by simp
  note up = update_as_map [OF dist assms(2)]
  show "plain_tree (TDict (AList.update k w' d))" unfolding up
    by (rule plain_map_entries [OF assms(1)]) (use assms(3) in auto)
  have own: "snd e = w" if "e \<in> set d" "fst e = k" for e
    using assms(2) map_of_is_SomeI [OF dist, of k "snd e"] that by (metis option.inject prod.collapse)
  have "e \<in> set d \<and> q = fst e # q' \<and> (q', v) \<in> opened (snd (if fst e = k then (k, w') else e)) \<longleftrightarrow>
      (e \<in> set d \<and> q = fst e # q' \<and> (q', v) \<in> opened (snd e)) \<and> (\<forall>q'. q = k # q' \<longrightarrow> P q')" for e q'
    using own [of e] assms(4) [of q'] by (cases "q = fst e # q'"; cases "fst e = k") auto
  then show "(q, v) \<in> opened (TDict (AList.update k w' d)) \<longleftrightarrow>
      (q, v) \<in> opened (TDict d) \<and> (\<forall>q'. q = k # q' \<longrightarrow> P q')"
    unfolding up by (subst opened_map_entries) (simp, simp only: opened_dict_entries, blast)
qed

lemma opened_field:
  assumes "plain_tree (TDict d)" and "k \<noteq> ''ActionName''"
  shows "(q, v) \<in> opened (TDict (censor_leafs d k)) \<longleftrightarrow> (q, v) \<in> opened (TDict d) \<and> \<not> prefix [k] q"
proof -
  have "(e \<in> set d \<and> q = fst e # q' \<and> (q', v) \<in> opened (snd (if fst e = k then censor_entry [] e else e))) \<longleftrightarrow>
      (e \<in> set d \<and> q = fst e # q' \<and> (q', v) \<in> opened (snd e)) \<and> \<not> prefix [k] q" for e q'
  proof (cases "e \<in> set d \<and> fst e = k")
    case True
    then have "plain_key (fst e)" "plain_tree (snd e)" using assms(1) unfolding plain_dict by blast+
    from opened_entry [OF this, of q' v "[]"] True assms(2) have "(q', v) \<notin> opened (snd (censor_entry [] e))"
      by (cases e) simp
    with True show ?thesis by auto
  qed auto
  then show ?thesis unfolding censor_leafs_def by (subst opened_map_entries) (simp, simp only: opened_dict_entries, blast)
qed

text \<open>Censoring at a path closes what is below the path and leaves the rest as it was.\<close>

lemma opened_at_path:
  assumes "ordinary p" and "plain_tree t" and "censor_at_path p t = Inr t'"
  shows "plain_tree t' \<and> (\<forall>q. (q, v) \<in> opened t' \<longleftrightarrow> (q, v) \<in> opened t \<and> \<not> prefix (key_list (path_text p)) q)"
  using assms
proof (induction p t arbitrary: t' rule: censor_at_path.induct)
  case (1 p data)
  obtain key rest where n: "get_next p = (key, rest)" by fastforce
  note keys = ordinary_next [OF 1(3) n]
  have star: "\<not> is_star_path p" using 1(3) by (simp add: ordinary_def)
  obtain w where w: "map_of data key = Some w" using 1(5) star n by (auto simp: censor_at_path.simps split: option.splits)
  show ?case
  proof (cases "path_text rest = []")
    case True
    then have "t' = TDict (censor_leafs data key)" using 1(5) star n w by (simp add: censor_at_path.simps)
    then show ?thesis using opened_field [OF 1(4) keys(3) [OF True]] keys(1) True plain_censor_entries [OF 1(4)]
      by (simp add: censor_leafs_def)
  next
    case False
    note rest = keys(2) [OF False]
    have pw: "plain_tree w" using 1(4) map_of_SomeD [OF w] by (auto simp: list_all_iff)
    have ks: "prefix (key_list (path_text p)) q \<longleftrightarrow> (\<exists>q'. q = key # q' \<and> prefix (key_list (path_text rest)) q')" for q
      using keys(1) False by (cases q) auto
    have upd: ?thesis if "plain_tree w'" "t' = TDict (AList.update key w' data)"
      "\<And>q. (q, v) \<in> opened w' \<longleftrightarrow> (q, v) \<in> opened w \<and> \<not> prefix (key_list (path_text rest)) q" for w'
      using opened_update [OF 1(4) w that(1,3)] that(2) by (simp add: ks)
    show ?thesis
    proof (cases w)
      case (TLeaf u)
      then have t': "t' = TDict data" using 1(5) star n w False by (simp add: censor_at_path.simps)
      have "\<not> prefix (key_list (path_text p)) q" if "(q, v) \<in> opened (TDict data)" for q
      proof
        assume "prefix (key_list (path_text p)) q"
        then obtain q' where q': "q = key # q'" "prefix (key_list (path_text rest)) q'" unfolding ks by blast
        with that obtain t where "(key, t) \<in> set data" "(q', v) \<in> opened t" by (auto simp: opened_dict)
        moreover have "t = w" using calculation(1) w 1(4) by (simp add: map_of_is_SomeI)
        ultimately have "q' = []" using TLeaf by (simp add: opened_leaf)
        then show False using q'(2) by simp
      qed
      then show ?thesis using t' 1(4) by auto
    next
      case (TList xs)
      then obtain xs' where xs': "mapR (censor_at_path (copy_path rest)) xs = Inr xs'" "t' = TDict (AList.update key (TList xs') data)"
        using 1(5) star n w False by (auto simp: censor_at_path.simps bindR_Inr_conv)
      note copy = ordinary_copy [OF rest]
      have item: "plain_tree y \<and> (\<forall>q. (q, v) \<in> opened y \<longleftrightarrow> (q, v) \<in> opened x \<and> \<not> prefix (key_list (path_text rest)) q)"
        if "x \<in> set xs" "censor_at_path (copy_path rest) x = Inr y" for x y
        using 1(1) [OF star n [symmetric] refl w False TList that(1) _ _ that(2)] copy pw TList that(1) by (simp add: list_all_iff)
      have all2: "list_all2 (\<lambda>x y. censor_at_path (copy_path rest) x = Inr y) xs xs'" using xs'(1) by (simp add: mapR_Inr_conv)
      have src: "\<exists>x \<in> set xs. censor_at_path (copy_path rest) x = Inr y" if "y \<in> set xs'" for y
        using list_all2_source [OF all2 that] by blast
      have tgt: "\<exists>y \<in> set xs'. censor_at_path (copy_path rest) x = Inr y" if "x \<in> set xs" for x
        using list_all2_target [OF all2 that] by blast
      show ?thesis
      proof (rule upd [OF _ xs'(2)])
        show "plain_tree (TList xs')" using src item by (auto simp: list_all_iff)
        show "(q, v) \<in> opened (TList xs') \<longleftrightarrow> (q, v) \<in> opened w \<and> \<not> prefix (key_list (path_text rest)) q" for q
          unfolding TList opened_list using src tgt item by meson
      qed
    next
      case (TDict d)
      then obtain w' where w': "censor_at_path rest w = Inr w'" "t' = TDict (AList.update key w' data)"
        using 1(5) star n w False by (auto simp: censor_at_path.simps bindR_Inr_conv)
      from 1(2) [OF star n [symmetric] refl w False TDict rest pw w'(1)] show ?thesis using upd [OF _ w'(2)] by blast
    qed
  qed
qed (simp_all add: censor_at_path.simps ordinary_def)

text \<open>
  A step of the censoring leaves open the leaves that \<open>P\<close> admits, and the name of the action; steps
  compose.
\<close>

definition censors_to :: "(string \<times> tree) list \<Rightarrow> (string list \<Rightarrow> bool) \<Rightarrow> (string \<times> tree) list \<Rightarrow> bool" where
  "censors_to d P d' \<longleftrightarrow> plain_tree (TDict d') \<and> action_named d' \<and>
     (\<forall>q v. (q, v) \<in> opened (TDict d') \<longleftrightarrow> (q, v) \<in> opened (TDict d) \<and> (q = [''ActionName''] \<or> P q))"

lemma censors_to_refl: "plain_tree (TDict d) \<Longrightarrow> action_named d \<Longrightarrow> (\<And>q. P q) \<Longrightarrow> censors_to d P d"
  by (simp add: censors_to_def)

lemma censors_to_trans:
  assumes "censors_to d P d'" and "censors_to d' Q d''" and "\<And>q. R q \<longleftrightarrow> P q \<and> Q q"
  shows "censors_to d R d''"
  using assms unfolding censors_to_def by blast

lemma censors_all_leafs:
  assumes "plain_tree (TDict d)" and "action_named d"
  shows "censors_to d (\<lambda>q. \<exists>e \<in> set es. covers e q) (censor_all_leafs es d)"
proof -
  have "plain_tree (TDict (censor_all_leafs es d))" "action_named (censor_all_leafs es d)"
    using assms plain_censor_entries [OF assms(1), of "\<lambda>_. True"] action_entries [OF assms(2), of "\<lambda>_. True"]
    by (simp_all add: censor_all_leafs_def)
  with opened_all_leafs [OF assms] show ?thesis by (simp add: censors_to_def)
qed

lemma action_update:
  assumes "action_named d" and "k \<noteq> ''ActionName''"
  shows "action_named (AList.update k w d)"
  unfolding action_named_iff
proof (intro allI impI)
  fix t assume "(''ActionName'', t) \<in> set (AList.update k w d)"
  then have "(''ActionName'', t) \<in> set d" using assms(2) by (induction d) (auto split: if_splits)
  then show "\<exists>s. t = TLeaf (VStr s)" using assms(1) unfolding action_named_iff by blast
qed

lemma at_path_shape:
  assumes "ordinary e" and "action_named d" and "censor_at_path e (TDict d) = Inr t'"
  shows "\<exists>d'. t' = TDict d' \<and> action_named d'"
proof -
  obtain key rest where n: "get_next e = (key, rest)" by fastforce
  obtain w where w: "map_of d key = Some w" using assms(1,3) n by (auto simp: censor_at_path.simps ordinary_def split: option.splits)
  have key: "key \<noteq> ''ActionName''" if "\<not> (\<exists>u. w = TLeaf u)"
    using assms(2) map_of_SomeD [OF w] that unfolding action_named_iff by blast
  have "t' = TDict (censor_leafs d key) \<or> t' = TDict d \<or> (\<exists>w'. \<not> (\<exists>u. w = TLeaf u) \<and> t' = TDict (AList.update key w' d))"
    using assms(1,3) n w by (cases w) (auto simp: censor_at_path.simps ordinary_def bindR_Inr_conv split: if_splits)
  then consider "t' = TDict (censor_leafs d key)" | "t' = TDict d"
    | w' where "\<not> (\<exists>u. w = TLeaf u)" "t' = TDict (AList.update key w' d)" by blast
  then show ?thesis
  proof cases
    case 1
    then show ?thesis using action_entries [OF assms(2)] by (simp add: censor_leafs_def)
  next
    case 2
    then show ?thesis using assms(2) by simp
  next
    case 3
    then show ?thesis using action_update [OF assms(2) key] by simp
  qed
qed

lemma censors_at_path:
  assumes "is_star_path e \<or> ordinary e" and "plain_tree (TDict d)" and "action_named d"
    and "censor_at_path e (TDict d) = Inr t'"
  shows "\<exists>d'. t' = TDict d' \<and> censors_to d (\<lambda>q. \<not> covers e q) d'"
proof (cases "is_star_path e")
  case True
  then have "t' = TDict (censor_all_leafs [] d)" using assms(4) by (simp add: censor_at_path.simps)
  with censors_all_leafs [OF assms(2,3), of "[]"] True show ?thesis by (simp add: covers_def censors_to_def)
next
  case False
  then have o: "ordinary e" using assms(1) by simp
  obtain d' where d': "t' = TDict d'" "action_named d'" using at_path_shape [OF o assms(3,4)] by blast
  have "\<not> prefix (key_list (path_text e)) [''ActionName'']"
  proof
    assume "prefix (key_list (path_text e)) [''ActionName'']"
    then have "key_list (path_text e) = [''ActionName'']" using key_list_ne [of "path_text e"] by (auto simp: prefix_Cons)
    then show False using o by (simp add: ordinary_def)
  qed
  moreover have "plain_tree t'" "\<forall>q v. (q, v) \<in> opened t' \<longleftrightarrow> (q, v) \<in> opened (TDict d) \<and> \<not> prefix (key_list (path_text e)) q"
    using opened_at_path [OF o assms(2,4)] by blast+
  ultimately show ?thesis using d' False by (auto simp: censors_to_def covers_def)
qed

lemma censors_at_paths:
  assumes "\<forall>e \<in> set es. is_star_path e \<or> ordinary e" and "plain_tree (TDict d)" and "action_named d"
    and "loopR censor_at_path es (TDict d) = Inr t'"
  shows "\<exists>d'. t' = TDict d' \<and> censors_to d (\<lambda>q. \<forall>e \<in> set es. \<not> covers e q) d'"
  using assms
proof (induction es arbitrary: d)
  case Nil
  then show ?case using censors_to_refl [OF Nil.prems(2,3), of "\<lambda>_. True"] by auto
next
  case (Cons e es)
  obtain t1 where t1: "censor_at_path e (TDict d) = Inr t1" "loopR censor_at_path es t1 = Inr t'"
    using Cons.prems(4) by (auto simp: bindR_Inr_conv)
  obtain d1 where d1: "t1 = TDict d1" "censors_to d (\<lambda>q. \<not> covers e q) d1"
    using censors_at_path [OF _ Cons.prems(2,3) t1(1)] Cons.prems(1) by auto
  then obtain d' where d': "t' = TDict d'" "censors_to d1 (\<lambda>q. \<forall>e \<in> set es. \<not> covers e q) d'"
    using Cons.IH [of d1] Cons.prems(1) t1(2) unfolding censors_to_def by auto
  have "censors_to d (\<lambda>q. \<forall>e \<in> set (e # es). \<not> covers e q) d'"
    by (rule censors_to_trans [OF d1(2) d'(2)]) simp
  with d'(1) show ?case by blast
qed

text \<open>What an ability for data lets a user see.\<close>

definition data_visible :: "ability \<Rightarrow> string option \<Rightarrow> string list \<Rightarrow> bool" where
  "data_visible a action_name q \<longleftrightarrow> allow_all a = Some True \<or>
     (\<exists>e \<in> set (applying_paths action_name (allow_specific a)). covers e q) \<or>
     nonempty (allow_all_except a) \<and> (\<forall>e \<in> set (applying_paths action_name (allow_all_except a)). \<not> covers e q)"

definition ordinary_ability :: "ability \<Rightarrow> bool" where
  "ordinary_ability a \<longleftrightarrow> valid_ability a \<and>
     list_all (\<lambda>i. is_star_path (dict_path (item_text i)) \<or> ordinary (dict_path (item_text i))) (items_of (allow_all_except a))"

lemma applying_none [simp]: "applying_paths action_name None = []"
  by (simp add: applying_paths_def items_of_def)

lemma censors_data:
  assumes "ordinary_ability a" and "plain_tree (TDict d)" and "action_named d" and "censor_data a action_name d = Inr d'"
  shows "censors_to d (data_visible a action_name) d'"
proof -
  have v: "valid_ability a" using assms(1) by (simp add: ordinary_ability_def)
  consider (all) "allow_all a = Some True" "allow_specific a = None" "allow_all_except a = None"
    | (specific) "allow_all a = None" "nonempty (allow_specific a)" "allow_all_except a = None"
    | (except) "allow_all a = None" "allow_specific a = None" "nonempty (allow_all_except a)"
    using v unfolding valid_ability_cases by argo
  then show ?thesis
  proof cases
    case all
    then have "d' = d" using assms(4) by (simp add: censor_data_def nonempty_def as_entries_def)
    then show ?thesis using censors_to_refl [OF assms(2,3)] all(1) by (simp add: data_visible_def)
  next
    case specific
    then have "d' = censor_all_leafs (applying_paths action_name (allow_specific a)) d"
      using assms(4) by (simp add: censor_data_def nonempty_def [of None] as_entries_def)
    then show ?thesis using censors_all_leafs [OF assms(2,3)] specific
      by (simp add: data_visible_def [abs_def] nonempty_def [of None])
  next
    case except
    then obtain t' where t': "loopR censor_at_path (applying_paths action_name (allow_all_except a)) (TDict d) = Inr t'"
      "d' = as_entries t'"
      using assms(4) by (auto simp: censor_data_def nonempty_def [of None] bindR_Inr_conv)
    have "\<forall>e \<in> set (applying_paths action_name (allow_all_except a)). is_star_path e \<or> ordinary e"
      using assms(1) by (auto simp: ordinary_ability_def applying_paths_def list_all_iff)
    from censors_at_paths [OF this assms(2,3) t'(1)] t'(2) except show ?thesis
      by (auto simp: data_visible_def [abs_def] as_entries_def)
  qed
qed

lemma censors_field:
  assumes "\<forall>a \<in> set as. ordinary_ability a" and "plain_tree (TDict d)" and "action_named d"
    and "censor_field as action_name d = Inr d'"
  shows "censors_to d (\<lambda>q. as \<noteq> [] \<and> (\<forall>a \<in> set as. data_visible a action_name q)) d'"
proof (cases "as = []")
  case True
  then show ?thesis using censors_all_leafs [OF assms(2,3), of "[]"] assms(4) by (simp add: censor_field_def)
next
  case False
  have "loopR (\<lambda>a. censor_data a action_name) as d = Inr d' \<Longrightarrow> \<forall>a \<in> set as. ordinary_ability a \<Longrightarrow>
      plain_tree (TDict d) \<Longrightarrow> action_named d \<Longrightarrow> censors_to d (\<lambda>q. \<forall>a \<in> set as. data_visible a action_name q) d'"
  proof (induction as arbitrary: d)
    case Nil
    then show ?case using censors_to_refl [OF Nil.prems(3,4), of "\<lambda>_. True"] by auto
  next
    case (Cons a as)
    then obtain d1 where d1: "censor_data a action_name d = Inr d1" "loopR (\<lambda>a. censor_data a action_name) as d1 = Inr d'"
      by (auto simp: bindR_Inr_conv)
    have c: "censors_to d (data_visible a action_name) d1" using censors_data [OF _ Cons.prems(3,4) d1(1)] Cons.prems(2) by simp
    have "censors_to d1 (\<lambda>q. \<forall>a \<in> set as. data_visible a action_name q) d'"
      using Cons.IH [OF d1(2)] Cons.prems(2) c unfolding censors_to_def by simp
    from censors_to_trans [OF c this, of "\<lambda>q. \<forall>a \<in> set (a # as). data_visible a action_name q"] show ?case by simp
  qed
  with assms False show ?thesis by (simp add: censor_field_def)
qed


text \<open>
  The limits of the statement above are real: a nested field called \<open>ActionName\<close> cannot be censored,
  and a key with a colon is taken for the path behind the colon.
\<close>

lemma nested_action_name_open:
  "censor_data \<lparr>ability_name = n, allow_all = None, allow_specific = None, allow_all_except = Some [TextItem ''user.ActionName'']\<rparr>
     None [(''user'', TDict [(''ActionName'', TLeaf (VStr s))])] = Inr [(''user'', TDict [(''ActionName'', TLeaf (VStr s))])]"
  by (simp add: censor_data_def nonempty_def applying_paths_def items_of_def item_applies_def action_prefix_def dict_path_def
      censor_at_path.simps get_next_def censor_leafs_def censor_entry_def as_entries_def)

lemma colon_key_open: "censor_all_leafs [dict_path ''UserId''] [(''Secret:UserId'', TLeaf v)] = [(''Secret:UserId'', TLeaf v)]"
  by (cases v) (simp_all add: censor_all_leafs_def dict_path_def censor_entry_def)

section \<open>The abilities of a user\<close>

lemma get_ability_correct:
  assumes "\<forall>a \<in> set user. valid_ability a"
  shows "\<exists>m. get_ability user n = Inr m \<and> (m = None \<longleftrightarrow> \<not> has_ability user n)"
    and "get_ability user n = Inr (Some m) \<Longrightarrow> valid_ability m \<and>
      (\<forall>x. item_is_allowed m x \<longleftrightarrow>
         (\<exists>a \<in> set user. ability_name a = n \<and> (allow_all a = Some True \<or> x \<in> set (items_of (allow_specific a)))) \<or>
         (\<exists>a \<in> set user. ability_name a = n \<and> nonempty (allow_all_except a)) \<and>
         (\<forall>a \<in> set user. ability_name a = n \<longrightarrow> x \<notin> set (items_of (allow_all_except a))))"
proof -
  define as where "as = filter (\<lambda>a. ability_name a = n) user"
  have as: "a \<in> set as \<longleftrightarrow> a \<in> set user \<and> ability_name a = n" for a by (auto simp: as_def)
  have bex: "(\<exists>a \<in> set as. P a) \<longleftrightarrow> (\<exists>a \<in> set user. ability_name a = n \<and> P a)"
    and bal: "(\<forall>a \<in> set as. P a) \<longleftrightarrow> (\<forall>a \<in> set user. ability_name a = n \<longrightarrow> P a)" for P using as by blast+
  have some: "\<exists>m. get_ability user n = Inr (Some m) \<and> merge_abilities n as = Inr m" if "as \<noteq> []"
    using merge_correct [OF that, of n] assms as that by (auto simp: get_ability_def Let_def simp flip: as_def)
  have none: "get_ability user n = Inr None" if "as = []" using that by (simp add: get_ability_def Let_def flip: as_def)
  have has: "has_ability user n \<longleftrightarrow> as \<noteq> []" by (auto simp: has_ability_def as_def filter_empty_conv)
  show "\<exists>m. get_ability user n = Inr m \<and> (m = None \<longleftrightarrow> \<not> has_ability user n)"
    using some none has by (cases "as = []") auto
  assume m: "get_ability user n = Inr (Some m)"
  then have ne: "as \<noteq> []" using none by auto
  with some m have "merge_abilities n as = Inr m" by auto
  moreover have "\<forall>a \<in> set as. valid_ability a" using assms as by blast
  ultimately show "valid_ability m \<and>
      (\<forall>x. item_is_allowed m x \<longleftrightarrow>
         (\<exists>a \<in> set user. ability_name a = n \<and> (allow_all a = Some True \<or> x \<in> set (items_of (allow_specific a)))) \<or>
         (\<exists>a \<in> set user. ability_name a = n \<and> nonempty (allow_all_except a)) \<and>
         (\<forall>a \<in> set user. ability_name a = n \<longrightarrow> x \<notin> set (items_of (allow_all_except a))))"
    using merge_correct [OF ne, of n] unfolding bex bal by (simp add: conj_disj_distribL bex_disj_distrib)
qed

text \<open>Merging grants nothing that no single ability grants.\<close>

lemma merged_granted:
  assumes "\<forall>a \<in> set user. valid_ability a" and "get_ability user n = Inr (Some m)" and "item_is_allowed m x"
  shows "\<exists>a \<in> set user. ability_name a = n \<and> item_is_allowed a x"
proof -
  from get_ability_correct(2) [OF assms(1,2)] assms(3) obtain a where a: "a \<in> set user" "ability_name a = n"
    "allow_all a = Some True \<or> x \<in> set (items_of (allow_specific a)) \<or>
     nonempty (allow_all_except a) \<and> x \<notin> set (items_of (allow_all_except a))" by blast
  have "valid_ability a" using assms(1) a(1) by blast
  then have "item_is_allowed a x" using a(3)
    by (auto simp: valid_ability_cases item_is_allowed_def nonempty_items items_of_def [of None])
  with a show ?thesis by blast
qed

lemma merged_allows:
  assumes "\<forall>a \<in> set user. valid_ability a" and "get_ability user n = Inr (Some m)"
    and "\<forall>a \<in> set user. ability_name a = n \<longrightarrow> item_is_allowed a x"
  shows "item_is_allowed m x"
proof -
  have "has_ability user n" using get_ability_correct(1) [OF assms(1), of n] assms(2) by auto
  then obtain b where b: "b \<in> set user" "ability_name b = n" by (auto simp: has_ability_def)
  have each: "allow_all a = Some True \<or> x \<in> set (items_of (allow_specific a)) \<or>
      nonempty (allow_all_except a) \<and> x \<notin> set (items_of (allow_all_except a))" "allow_all_except a = None \<or> x \<notin> set (items_of (allow_all_except a))"
    if a: "a \<in> set user" "ability_name a = n" for a
  proof -
    have "valid_ability a" "item_is_allowed a x" using assms(1,3) a by blast+
    then show "allow_all a = Some True \<or> x \<in> set (items_of (allow_specific a)) \<or>
      nonempty (allow_all_except a) \<and> x \<notin> set (items_of (allow_all_except a))" "allow_all_except a = None \<or> x \<notin> set (items_of (allow_all_except a))"
      by (auto simp: valid_ability_cases item_is_allowed_def split: if_splits)
  qed
  have "\<forall>a \<in> set user. ability_name a = n \<longrightarrow> x \<notin> set (items_of (allow_all_except a))"
    using each(2) by (metis items_none empty_iff empty_set)
  with each(1) [OF b] b get_ability_correct(2) [OF assms(1,2)] show ?thesis by blast
qed

lemma require_granted:
  assumes "\<forall>a \<in> set user. valid_ability a" and "require_ability_with_request user n p = Inr m"
  shows "get_ability user n = Inr (Some m)" and "allow_all m = Some True \<or> p m"
  using assms by (auto simp: require_ability_with_request_def bindR_Inr_conv split: option.splits if_splits)

lemma allow_all_allows: "allow_all m = Some True \<Longrightarrow> item_is_allowed m x"
  by (simp add: item_is_allowed_def)

text \<open>
  (C19) Manual mutations are authorised: every mutation handed to the labels provider is for a label,
  and on an entity, that one single ability of the user allows; roles do not add up to more.
\<close>

theorem manual_mutations_authorised:
  assumes "\<forall>a \<in> set user. valid_ability a" and "manual_entity_mutation has_provider user email (t, i) ms = Inr muts"
  shows "(\<exists>a \<in> set user. ability_name a = ''CAN_MUTATE_ENTITIES'' \<and> item_is_allowed a (EntityKey t i)) \<and>
    (\<forall>m \<in> set muts. \<exists>a \<in> set user. ability_name a = ''CAN_MUTATE_LABELS'' \<and> item_is_allowed a (TextItem (label_name m))) \<and>
    (\<forall>r \<in> set ms. (\<forall>a \<in> set user. ability_name a = ''CAN_MUTATE_LABELS'' \<longrightarrow> item_is_allowed a (TextItem (req_label r))) \<longrightarrow>
      manual_mutation email r \<in> set muts)"
proof -
  obtain e l where e: "require_ability_with_request user ''CAN_MUTATE_ENTITIES'' (\<lambda>a. item_is_allowed a (EntityKey t i)) = Inr e"
    and l: "require_ability_with_request user ''CAN_MUTATE_LABELS'' (can_mutate_labels ms) = Inr l"
    and muts: "muts = map (manual_mutation email) (filter (\<lambda>m. item_is_allowed l (TextItem (req_label m))) ms)"
    using assms(2) by (auto simp: manual_entity_mutation_def bindR_Inr_conv split: if_splits)
  note ge = require_granted [OF assms(1) e] and gl = require_granted(1) [OF assms(1) l]
  have "item_is_allowed e (EntityKey t i)" using ge(2) allow_all_allows by blast
  note 1 = merged_granted [OF assms(1) ge(1) this]
  have 2: "\<exists>a \<in> set user. ability_name a = ''CAN_MUTATE_LABELS'' \<and> item_is_allowed a (TextItem (label_name m))"
    if "m \<in> set muts" for m
  proof -
    from that muts obtain r where "item_is_allowed l (TextItem (req_label r))" "m = manual_mutation email r" by auto
    moreover from this(2) have "label_name m = req_label r" by (simp add: manual_mutation_def)
    ultimately show ?thesis using merged_granted [OF assms(1) gl] by simp
  qed
  have "item_is_allowed l x"
    if x: "\<forall>a \<in> set user. ability_name a = ''CAN_MUTATE_LABELS'' \<longrightarrow> item_is_allowed a x" for x
    by (rule merged_allows [OF assms(1) gl x])
  then have "\<forall>r \<in> set ms. (\<forall>a \<in> set user. ability_name a = ''CAN_MUTATE_LABELS'' \<longrightarrow> item_is_allowed a (TextItem (req_label r))) \<longrightarrow>
      manual_mutation email r \<in> set muts" using muts by simp
  with 1 2 show ?thesis by blast
qed

section \<open>The action filter\<close>

definition items_in :: "ability \<Rightarrow> ability_item set" where
  "items_in a = set (items_of (allow_specific a)) \<union> set (items_of (allow_all_except a))"

lemma items_only_all [simp]: "items_in (only_all n) = {}"
  by (simp add: items_in_def only_all_def)

lemma merged_items: "merge_abilities n as = Inr m \<Longrightarrow> items_in m \<subseteq> \<Union> (items_in ` set as)"
  by (auto simp: merge_abilities_def Let_def items_in_def items_of_def [of "Some _"] only_all_def split: if_splits)

lemma get_ability_items: "get_ability user n = Inr (Some m) \<Longrightarrow> items_in m \<subseteq> \<Union> (items_in ` {a \<in> set user. ability_name a = n})"
proof -
  assume "get_ability user n = Inr (Some m)"
  then have "merge_abilities n (filter (\<lambda>a. ability_name a = n) user) = Inr m"
    by (auto simp: get_ability_def Let_def bindR_Inr_conv split: if_splits)
  from merged_items [OF this] show ?thesis by simp
qed

definition passes :: "(event \<Rightarrow> druid_filter \<Rightarrow> bool) \<Rightarrow> event \<Rightarrow> druid_filter option \<Rightarrow> bool" where
  "passes M ev f \<longleftrightarrow> (case f of None \<Rightarrow> True | Some f \<Rightarrow> M ev f)"

text \<open>Text items, of which the database compares the exact text.\<close>

definition exact_texts :: "druid \<Rightarrow> bool" where
  "exact_texts D \<longleftrightarrow> (\<forall>s t. same D (VStr s) (VStr t) \<longleftrightarrow> s = t)"

lemma selectors_select:
  assumes "druid_semantics D M" and "exact_texts D" and "\<forall>i \<in> set is. \<exists>t. i = TextItem t" and "ev ''ActionName'' = VStr s"
  shows "M ev (DOr (map (\<lambda>i. DSelector ''ActionName'' (VStr (item_text i))) is)) \<longleftrightarrow> TextItem s \<in> set is"
proof -
  have "M ev (DSelector ''ActionName'' (VStr (item_text i))) \<longleftrightarrow> i = TextItem s" if "i \<in> set is" for i
    using assms that by (auto simp: druid_semantics_def exact_texts_def)
  moreover have "M ev (DOr fs) = list_ex (M ev) fs" for fs using assms(1) by (simp add: druid_semantics_def)
  ultimately show ?thesis by (auto simp: list_ex_iff)
qed

lemma query_filter_selects:
  assumes "druid_semantics D M" and "exact_texts D" and "valid_ability a" and "\<forall>i \<in> items_in a. \<exists>t. i = TextItem t"
    and "ev ''ActionName'' = VStr s"
  shows "\<exists>f. get_query_filter a = Inr f \<and> (passes M ev f \<longleftrightarrow> item_is_allowed a (TextItem s))"
proof -
  have n: "M ev (DNot f) \<longleftrightarrow> \<not> M ev f" for f using assms(1) by (simp add: druid_semantics_def)
  have t: "\<forall>i \<in> set (items_of (allow_specific a)). \<exists>t. i = TextItem t" "\<forall>i \<in> set (items_of (allow_all_except a)). \<exists>t. i = TextItem t"
    using assms(4) by (auto simp: items_in_def)
  note sel = selectors_select [OF assms(1,2) t(1), of ev s, OF assms(5)] selectors_select [OF assms(1,2) t(2), of ev s, OF assms(5)]
  consider (all) "allow_all a = Some True"
    | (specific) "allow_all a = None" "nonempty (allow_specific a)" "allow_all_except a = None"
    | (except) "allow_all a = None" "allow_specific a = None" "nonempty (allow_all_except a)"
    using assms(3) unfolding valid_ability_cases by argo
  then show ?thesis
  proof cases
    case all
    then show ?thesis by (simp add: get_query_filter_def item_is_allowed_def passes_def)
  next
    case specific
    with sel(1) show ?thesis by (simp add: get_query_filter_def item_is_allowed_def passes_def nonempty_def [of None])
  next
    case except
    with sel(2) n show ?thesis by (simp add: get_query_filter_def item_is_allowed_def passes_def nonempty_def [of None])
  qed
qed

lemma query_with_ability:
  assumes "druid_semantics D M" and "query_with_filter fe [a] req = Inr f" and "get_query_filter a = Inr g"
  shows "passes M ev f \<longleftrightarrow> passes M ev (user_filter fe req) \<and> passes M ev g"
proof -
  have d: "M ev (DAnd [h]) = M ev h" "M ev (DAnd [u, h]) = (M ev u \<and> M ev h)" for u h
    using assms(1) unfolding druid_semantics_def by simp_all
  have f: "f = (case g of None \<Rightarrow> user_filter fe req
      | Some h \<Rightarrow> (case user_filter fe req of Some u \<Rightarrow> Some (DAnd [u, DAnd [h]]) | None \<Rightarrow> Some (DAnd [h])))"
    using assms(2,3) by (cases g; cases "user_filter fe req") (simp_all add: query_with_filter_def Let_def split: if_splits)
  show ?thesis
  proof (cases g)
    case None
    then show ?thesis unfolding f by (simp add: passes_def)
  next
    case (Some h)
    then show ?thesis unfolding f by (cases "user_filter fe req") (simp_all add: passes_def d)
  qed
qed

text \<open>
  (C15) The views of the top events and of the scan return the events of allowed actions only: when
  such a view sends a query, the user has an ability for actions, and an event passes the filter sent
  iff it passes the filter of the request and its action is allowed. The database is any that gives
  the filter types their documented meaning and compares texts exactly.
\<close>

theorem action_filter_enforced:
  assumes "druid_semantics D M" and "exact_texts D" and "\<forall>a \<in> set user. valid_ability a"
    and "\<forall>a \<in> set user. ability_name a = ''CAN_VIEW_EVENTS_BY_ACTION'' \<longrightarrow> (\<forall>i \<in> items_in a. \<exists>t. i = TextItem t)"
    and "view \<in> {topn_query, scan_query}" and "view feature_to_entity user req = Inr f"
  shows "\<exists>a. get_ability user ''CAN_VIEW_EVENTS_BY_ACTION'' = Inr (Some a) \<and>
    (\<forall>ev s. ev ''ActionName'' = VStr s \<longrightarrow>
       (passes M ev f \<longleftrightarrow> passes M ev (user_filter feature_to_entity req) \<and> item_is_allowed a (TextItem s)))"
proof -
  from assms(5,6) obtain a where a: "require_ability_with_request user ''CAN_VIEW_EVENTS_BY_ACTION'' (\<lambda>_. True) = Inr a"
    and f: "query_with_filter feature_to_entity [a] req = Inr f"
    by (auto simp: topn_query_def scan_query_def bindR_Inr_conv)
  note g = require_granted(1) [OF assms(3) a]
  have t: "\<forall>i \<in> items_in a. \<exists>t. i = TextItem t" using get_ability_items [OF g] assms(4) by blast
  have v: "valid_ability a" using get_ability_correct(2) [OF assms(3) g] by blast
  have "passes M ev f \<longleftrightarrow> passes M ev (user_filter feature_to_entity req) \<and> item_is_allowed a (TextItem s)"
    if "ev ''ActionName'' = VStr s" for ev s
    using query_filter_selects [OF assms(1,2) v t, of ev s] that query_with_ability [OF assms(1) f] by auto
  with g show ?thesis by blast
qed

text \<open>The views that send no filter for the action: the request alone decides.\<close>

lemma unfiltered_views:
  assumes "view \<in> {groupby_count, timeseries_query, topn_query_csv}" and "view feature_to_entity user req = Inr f"
  shows "f = user_filter feature_to_entity req"
  using assms by (auto simp: groupby_count_def timeseries_query_def topn_query_csv_def bindR_Inr_conv query_with_filter_def split: if_splits)

section \<open>The configuration\<close>

definition valid_acl :: "acl_config \<Rightarrow> bool" where
  "valid_acl acl \<longleftrightarrow> validate_user_roles acl = Inr () \<and>
     list_all (list_all valid_ability) (dvalues (acl_roles acl)) \<and> list_all (\<lambda>u. list_all valid_ability (snd u)) (dvalues (acl_users acl))"

lemma valid_acl_roles:
  assumes "valid_acl acl" and "map_of (acl_users acl) email = Some (roles, own)" and "r \<in> set roles"
  shows "\<exists>as. map_of (acl_roles acl) r = Some as \<and> (\<forall>a \<in> set as. valid_ability a)"
proof -
  have "(email, roles, own) \<in> set (acl_users acl)" using assms(2) by (rule map_of_SomeD)
  then have "r \<in> set (concat (map fst (dvalues (acl_users acl))))" using assms(3) by force
  moreover have "find (\<lambda>r. r \<notin> set (keys (acl_roles acl))) (concat (map fst (dvalues (acl_users acl)))) = None"
    using assms(1) by (simp add: valid_acl_def validate_user_roles_def split: option.splits)
  ultimately have "r \<in> set (keys (acl_roles acl))" unfolding find_None_iff by blast
  then obtain as where as: "map_of (acl_roles acl) r = Some as" using weak_map_of_SomeI by fastforce
  have "list_all valid_ability as" using assms(1) map_of_SomeD [OF as] by (force simp: valid_acl_def list_all_iff)
  with as show ?thesis by (auto simp: list_all_iff)
qed

text \<open>
  (C20) A validated configuration never fails a user: the abilities of every registered user are found
  and for every class they merge into no ability, exactly when the user's roles and own abilities have
  none, or one valid ability. That one allows nothing that no role and no own ability allows, and all
  that each of them allows.
\<close>

theorem registered_user_abilities:
  assumes "valid_acl acl" and "map_of (acl_users acl) email = Some (roles, own)"
  shows "\<exists>as. get_abilities_for_user False dev token acl email = Inr as \<and>
    set as = (\<Union>r \<in> set roles. set (the (map_of (acl_roles acl) r))) \<union> set own \<and>
    (\<forall>n. \<exists>m. get_ability as n = Inr m \<and> (m = None \<longleftrightarrow> \<not> has_ability as n) \<and>
      (\<forall>a x. m = Some a \<longrightarrow> valid_ability a \<and>
        (item_is_allowed a x \<longrightarrow> (\<exists>b \<in> set as. ability_name b = n \<and> item_is_allowed b x)) \<and>
        ((\<forall>b \<in> set as. ability_name b = n \<longrightarrow> item_is_allowed b x) \<longrightarrow> item_is_allowed a x)))"
proof -
  define role where "role r = (case map_of (acl_roles acl) r of None \<Rightarrow> Inl KeyError | Some as \<Rightarrow> Inr as)" for r
  have role: "role r = Inr (the (map_of (acl_roles acl) r))" "\<forall>a \<in> set (the (map_of (acl_roles acl) r)). valid_ability a"
    if "r \<in> set roles" for r
    using valid_acl_roles [OF assms that] by (auto simp: role_def)
  have ass: "mapR role roles = Inr (map (\<lambda>r. the (map_of (acl_roles acl) r)) roles)"
    unfolding mapR_Inr_conv using role(1) by (simp add: list_all2_map2 list_all2_same)
  define as where "as = concat (map (\<lambda>r. the (map_of (acl_roles acl) r)) roles) @ own"
  have get: "get_abilities_for_user False dev token acl email = Inr as"
    using assms(2) ass by (simp add: get_abilities_for_user_def as_def flip: role_def)
  have "list_all valid_ability own" using assms map_of_SomeD [OF assms(2)] by (force simp: valid_acl_def list_all_iff)
  then have v: "\<forall>a \<in> set as. valid_ability a" using role(2) by (auto simp: as_def list_all_iff)
  have "\<exists>m. get_ability as n = Inr m \<and> (m = None \<longleftrightarrow> \<not> has_ability as n) \<and>
      (\<forall>a x. m = Some a \<longrightarrow> valid_ability a \<and>
        (item_is_allowed a x \<longrightarrow> (\<exists>b \<in> set as. ability_name b = n \<and> item_is_allowed b x)) \<and>
        ((\<forall>b \<in> set as. ability_name b = n \<longrightarrow> item_is_allowed b x) \<longrightarrow> item_is_allowed a x))" for n
    using get_ability_correct [OF v, of n] merged_granted [OF v, of n] merged_allows [OF v, of n] by blast
  moreover have "set as = (\<Union>r \<in> set roles. set (the (map_of (acl_roles acl) r))) \<union> set own" by (simp add: as_def)
  ultimately show ?thesis using get by blast
qed

section \<open>Witnesses\<close>

definition demo_roles :: "ability list" where
  "demo_roles =
     [\<lparr>ability_name = ''CAN_MUTATE_ENTITIES'', allow_all = Some True, allow_specific = None, allow_all_except = None\<rparr>,
      \<lparr>ability_name = ''CAN_MUTATE_LABELS'', allow_all = None, allow_specific = Some [TextItem ''spam''], allow_all_except = None\<rparr>,
      \<lparr>ability_name = ''CAN_VIEW_EVENTS_BY_ENTITY'', allow_all = Some True, allow_specific = None, allow_all_except = None\<rparr>,
      \<lparr>ability_name = ''CAN_VIEW_EVENTS_BY_ACTION'', allow_all = None, allow_specific = None, allow_all_except = Some [TextItem ''login'']\<rparr>,
      \<lparr>ability_name = ''CAN_VIEW_FEATURE_DATA'', allow_all = None, allow_specific = Some [TextItem ''UserId'', TextItem ''login:Email''], allow_all_except = None\<rparr>,
      \<lparr>ability_name = ''CAN_VIEW_ACTION_DATA'', allow_all = None, allow_specific = None, allow_all_except = Some [TextItem ''user.ip'']\<rparr>]"

lemma demo_roles_valid: "\<forall>a \<in> set demo_roles. valid_ability a"
  by (simp add: demo_roles_def valid_ability_cases nonempty_def)

definition demo_acl :: acl_config where
  "demo_acl = \<lparr>acl_roles = [(''ANALYST'', demo_roles)], acl_users = [(''a@b'', [''ANALYST''], [])]\<rparr>"

theorem registered_user_abilities_witness:
  "\<exists>as. get_abilities_for_user False (\<lambda>_. []) (\<lambda>_. []) demo_acl ''a@b'' = Inr as \<and> set as = set demo_roles"
proof -
  have "valid_acl demo_acl" using demo_roles_valid by (simp add: valid_acl_def demo_acl_def validate_user_roles_def list_all_iff)
  moreover have "map_of (acl_users demo_acl) ''a@b'' = Some ([''ANALYST''], [])" by (simp add: demo_acl_def)
  ultimately obtain as where "get_abilities_for_user False (\<lambda>_. []) (\<lambda>_. []) demo_acl ''a@b'' = Inr as"
    "set as = (\<Union>r \<in> set [''ANALYST'']. set (the (map_of (acl_roles demo_acl) r))) \<union> set []"
    using registered_user_abilities [of demo_acl "''a@b''" "[''ANALYST'']" "[]"] by blast
  then show ?thesis by (simp add: demo_acl_def)
qed

definition demo_mutation :: mutation_request where
  "demo_mutation = \<lparr>req_label = ''spam'', req_status = MANUALLY_ADDED, req_reason = ''seen'', req_expires_at = None\<rparr>"

theorem manual_mutations_authorised_witness:
  "manual_entity_mutation True demo_roles ''a@b'' (''User'', ''7'') [demo_mutation, demo_mutation\<lparr>req_label := ''vip''\<rparr>] =
     Inr [manual_mutation ''a@b'' demo_mutation] \<and>
   (\<exists>a \<in> set demo_roles. ability_name a = ''CAN_MUTATE_ENTITIES'' \<and> item_is_allowed a (EntityKey ''User'' ''7''))"
proof -
  have "manual_entity_mutation True demo_roles ''a@b'' (''User'', ''7'') [demo_mutation, demo_mutation\<lparr>req_label := ''vip''\<rparr>] =
     Inr [manual_mutation ''a@b'' demo_mutation]"
    by (simp add: manual_entity_mutation_def require_ability_with_request_def get_ability_def demo_roles_def merge_abilities_def
        only_all_def demo_mutation_def can_mutate_labels_def item_is_allowed_def items_of_def nonempty_def)
  with manual_mutations_authorised [OF demo_roles_valid this] show ?thesis by blast
qed

theorem action_filter_enforced_witness:
  "\<exists>f a. scan_query [] demo_roles \<lparr>req_start = 0, req_end = 1, transformed_filter = None, request_entity = None\<rparr> = Inr f \<and>
     get_ability demo_roles ''CAN_VIEW_EVENTS_BY_ACTION'' = Inr (Some a) \<and>
     passes demo_matches (\<lambda>_. VStr ''login'') f = item_is_allowed a (TextItem ''login'')"
proof -
  define req where "req = \<lparr>req_start = 0, req_end = 1, transformed_filter = None, request_entity = None\<rparr>"
  obtain f where f: "scan_query [] demo_roles req = Inr f"
    by (simp add: scan_query_def require_ability_def has_ability_def require_ability_with_request_def get_ability_def
        demo_roles_def merge_abilities_def only_all_def items_of_def query_with_filter_def get_query_filter_def nonempty_def req_def Let_def)
  have t: "\<forall>a \<in> set demo_roles. ability_name a = ''CAN_VIEW_EVENTS_BY_ACTION'' \<longrightarrow> (\<forall>i \<in> items_in a. \<exists>t. i = TextItem t)"
    by (simp add: demo_roles_def items_in_def items_of_def)
  have v: "scan_query \<in> {topn_query, scan_query}" by simp
  have e: "exact_texts demo_druid" by (simp add: exact_texts_def demo_druid_def)
  obtain a where a: "get_ability demo_roles ''CAN_VIEW_EVENTS_BY_ACTION'' = Inr (Some a) \<and>
    (\<forall>ev s. ev ''ActionName'' = VStr s \<longrightarrow>
       (passes demo_matches ev f \<longleftrightarrow> passes demo_matches ev (user_filter [] req) \<and> item_is_allowed a (TextItem s)))"
    using action_filter_enforced [OF demo_semantics e demo_roles_valid t v f] ..
  have "passes demo_matches (\<lambda>_. VStr ''login'') (user_filter [] req)" by (simp add: user_filter_def req_def passes_def)
  with conjunct2 [OF a] have "passes demo_matches (\<lambda>_. VStr ''login'') f = item_is_allowed a (TextItem ''login'')" by simp
  with f conjunct1 [OF a] show ?thesis unfolding req_def by (intro exI conjI)
qed

definition demo_result :: stored_result where
  "demo_result = \<lparr>stored_features = [(''ActionName'', TLeaf (VStr ''login'')), (''Email'', TLeaf (VStr ''x@y'')), (''Ip'', TLeaf (VStr ''::1''))],
     stored_action_data = Some [(''user'', TDict [(''id'', TLeaf (VInt 7)), (''ip'', TLeaf (VStr ''::1''))])]\<rparr>"


end
