(* ===== verification/Bulk_Label.thy ===== *)
theory Bulk_Label
  imports Labels Node_Executors "HOL-Library.List_Lexorder" "HOL-Library.Char_ord"
begin

text \<open>
  Bulk labelling: the tasks in the database (\<open>worker/lib/storage/bulk_label_task.py\<close>,
  \<open>worker/lib/bulk_label.py\<close>) and the sink that works on them
  (\<open>worker/sinks/sink/bulk_label_sink.py\<close>). Times are microseconds since the epoch, which is what the
  timestamps of the tasks resolve. The readings of the clock, the answers of the event database and of
  the label service, and the death of the process are given by an environment, one for each run.
\<close>

section \<open>Tasks\<close>

datatype TaskStatus = QUEUED | RUNNING_DEPRECATED | COLLECTING | LABELLING | COMPLETE | RETRYING | FAILED

definition final_statuses :: "TaskStatus list" where
  "final_statuses = [COMPLETE, FAILED]"

definition is_final :: "TaskStatus \<Rightarrow> bool" where
  "is_final s \<longleftrightarrow> s \<in> set final_statuses"

definition non_final_statuses :: "TaskStatus list" where
  "non_final_statuses = filter (\<lambda>s. \<not> is_final s \<and> s \<noteq> RUNNING_DEPRECATED)
     [QUEUED, RUNNING_DEPRECATED, COLLECTING, LABELLING, COMPLETE, RETRYING, FAILED]"

definition BASE_DELAY_SECONDS :: int where "BASE_DELAY_SECONDS = 60 * 3"

definition MAX_ATTEMPTS :: nat where "MAX_ATTEMPTS = 3"

definition HEARTBEAT_INTERVAL :: int where "HEARTBEAT_INTERVAL = 1000000"

record task =
  task_id :: int
  initiated_by :: string
  query_start :: int
  query_end :: int
  task_dimension :: string
  excluded_entities :: "string list"
  expected_total :: int
  no_limit :: bool
  task_label :: string
  task_label_status :: LabelStatus
  task_reason :: string
  task_expiry :: "datetime option"
  task_status :: TaskStatus
  entities_collected :: nat
  entities_labeled :: nat
  total_entities :: "nat option"
  claim_until :: int
  attempts :: nat
  updated_at :: int

text \<open>\<open>enqueue\<close> stores a new task: the columns the caller does not give have their defaults.\<close>

definition enqueue :: "int \<Rightarrow> task \<Rightarrow> task" where
  "enqueue now t = t\<lparr>task_status := QUEUED, entities_collected := 0, entities_labeled := 0, total_entities := None,
     claim_until := now, attempts := 0, updated_at := now\<rparr>"

text \<open>
  The object of a worker and the row in the database: a heartbeat and a release write the whole object,
  other assignments change the object only.
\<close>

record session =
  mem :: task
  row :: task

definition commit :: "task \<Rightarrow> session" where
  "commit t = \<lparr>mem = t, row = t\<rparr>"

definition heartbeat :: "int \<Rightarrow> TaskStatus \<Rightarrow> nat \<Rightarrow> int \<Rightarrow> session \<Rightarrow> session" where
  "heartbeat now st n claim_until_seconds s =
     (let t = mem s;
          t = (if st = COLLECTING then t\<lparr>task_status := COLLECTING, entities_collected := n\<rparr>
               else if st = LABELLING then t\<lparr>task_status := LABELLING, entities_labeled := n\<rparr> else t)
      in commit (t\<lparr>claim_until := now + claim_until_seconds * 1000000\<rparr>))"

definition release_task :: "int \<Rightarrow> TaskStatus \<Rightarrow> session \<Rightarrow> session" where
  "release_task now st s = commit ((mem s)\<lparr>task_status := st, updated_at := now\<rparr>)"

text \<open>
  \<open>_calculate_lock_seconds\<close>, in microseconds; the jitter \<open>1 + random()\<close> is given in millionths.
\<close>

definition calculate_lock :: "int \<Rightarrow> nat \<Rightarrow> int" where
  "calculate_lock jitter n = 2 ^ n * BASE_DELAY_SECONDS * jitter"

text \<open>The rows that \<open>claim\<close> selects, and the update of the selected row.\<close>

definition claimable :: "int \<Rightarrow> int \<Rightarrow> task \<Rightarrow> bool" where
  "claimable now jitter t \<longleftrightarrow> claim_until t < now \<and> task_status t \<in> set non_final_statuses \<and> attempts t \<le> MAX_ATTEMPTS \<and>
     (task_status t = RETRYING \<and> now - updated_at t > calculate_lock jitter (attempts t) \<or> task_status t \<noteq> RETRYING)"

definition claim_row :: "int \<Rightarrow> int \<Rightarrow> task \<Rightarrow> task" where
  "claim_row now jitter t = t\<lparr>claim_until := now + calculate_lock jitter 0, attempts := attempts t + 1,
     task_status := COLLECTING, updated_at := now\<rparr>"

fun oldest :: "task list \<Rightarrow> task option" where
  "oldest [] = None"
| "oldest (t # ts) = (case oldest ts of None \<Rightarrow> Some t | Some u \<Rightarrow> Some (if claim_until u < claim_until t then u else t))"

text \<open>One transaction on the table; rows that another transaction has locked are not in it.\<close>

definition claim :: "int \<Rightarrow> int \<Rightarrow> int \<Rightarrow> task list \<Rightarrow> task option \<times> task list" where
  "claim now jitter jitter' table =
     (case oldest (filter (claimable now jitter) table) of
        None \<Rightarrow> (None, table)
      | Some t \<Rightarrow> (Some (claim_row now jitter' t), map (\<lambda>u. if task_id u = task_id t then claim_row now jitter' u else u) table))"

section \<open>Collecting entities\<close>

definition NO_LIMIT_TOP_N_QUERY_TIME_DELTA_MAX :: int where
  "NO_LIMIT_TOP_N_QUERY_TIME_DELTA_MAX = 60 * 60 * 6"

definition DEFAULT_BULK_LABEL_COLLECTING_HEARTBEAT :: int where "DEFAULT_BULK_LABEL_COLLECTING_HEARTBEAT = 360"

definition NO_LIMIT_BULK_LABEL_COLLECTING_HEARTBEAT :: int where "NO_LIMIT_BULK_LABEL_COLLECTING_HEARTBEAT = 240"

definition BULK_LABEL_DEFAULT_LIMIT :: int where "BULK_LABEL_DEFAULT_LIMIT = 100000"

definition BULK_LABEL_NO_LIMIT_SIZE :: int where "BULK_LABEL_NO_LIMIT_SIZE = 20000000"

text \<open>\<open>int(x)\<close> of a timestamp in seconds, and \<open>range\<close> with a step.\<close>

definition whole_seconds :: "int \<Rightarrow> int" where
  "whole_seconds u = (if u < 0 then - ((- u) div 1000000) else u div 1000000)"

function range_step :: "int \<Rightarrow> int \<Rightarrow> int \<Rightarrow> int list" where
  "range_step a b d = (if a < b \<and> 0 < d then a # range_step (a + d) b d else [])"
  by auto
termination by (relation "measure (\<lambda>(a, b, d). nat (b - a))") auto

declare range_step.simps [simp del]

definition top_n_windows :: "bool \<Rightarrow> int \<Rightarrow> int \<Rightarrow> (int \<times> int) list" where
  "top_n_windows split s e =
     (if split \<and> e - s > NO_LIMIT_TOP_N_QUERY_TIME_DELTA_MAX * 1000000
      then map (\<lambda>i. (i * 1000000, min ((i + NO_LIMIT_TOP_N_QUERY_TIME_DELTA_MAX) * 1000000) e))
             (range_step (whole_seconds s) (whole_seconds e) NO_LIMIT_TOP_N_QUERY_TIME_DELTA_MAX)
      else [(s, e)])"

text \<open>
  The environment of a run. The clock is read at the heartbeats, each named by its place; a query may
  fail inside the database or otherwise, and the process may die during it.
\<close>

datatype moment = AtStart | AtLabelling | AfterQuery nat | QueryRetry nat nat | AfterLabel nat | LabelRetry nat nat | AtEnd | AtRelease

datatype query_answer = Rows "string option list" | InternalError | UnknownError | DiesQuerying

datatype mutation_answer = Accepted | Unavailable bool | Rejected bool py_exc | DiesLabelling bool
  \<comment> \<open>the flag: the mutation took effect all the same\<close>

record sink_env =
  clock :: "moment \<Rightarrow> int"
  answer :: "nat \<Rightarrow> nat \<Rightarrow> int \<times> int \<times> int \<Rightarrow> query_answer"  \<comment> \<open>query, attempt; limit and window\<close>
  mutation_result :: "nat \<Rightarrow> nat \<Rightarrow> mutation_answer"  \<comment> \<open>index, attempt\<close>
  retry_wait :: "nat \<Rightarrow> int"
  entity_types :: "(string, string) dict"
  analytics :: "py_exc option"

datatype task_exc = UnretryableTaskException | InternalDruidException | TaskError py_exc

datatype 'a run_end = Done 'a | Raised task_exc | Died

definition build_top_n_queries :: "sink_env \<Rightarrow> session \<Rightarrow> session \<times> (int \<times> int \<times> int) list" where
  "build_top_n_queries env s =
     (let t = mem s;
          limit = (if no_limit t then BULK_LABEL_NO_LIMIT_SIZE else BULK_LABEL_DEFAULT_LIMIT);
          secs = (if no_limit t then NO_LIMIT_BULK_LABEL_COLLECTING_HEARTBEAT else DEFAULT_BULK_LABEL_COLLECTING_HEARTBEAT)
      in (heartbeat (clock env AtStart) COLLECTING 0 secs s,
          map (Pair limit) (top_n_windows (no_limit t) (query_start t) (query_end t))))"

text \<open>\<open>_top_n_query\<close>: attempt \<open>k\<close>, with \<open>r\<close> more to come.\<close>

fun top_n_query :: "sink_env \<Rightarrow> nat \<Rightarrow> int \<times> int \<times> int \<Rightarrow> nat \<Rightarrow> nat \<Rightarrow> nat \<Rightarrow> session \<Rightarrow> session \<times> string option list run_end" where
  "top_n_query env i q n k r s =
     (case answer env i k q of
        Rows rows \<Rightarrow> (s, Done rows)
      | DiesQuerying \<Rightarrow> (s, Died)
      | UnknownError \<Rightarrow> (s, Raised UnretryableTaskException)
      | InternalError \<Rightarrow>
          (case r of
             0 \<Rightarrow> (s, Raised InternalDruidException)
           | Suc r' \<Rightarrow> top_n_query env i q n (Suc k) r'
                        (heartbeat (clock env (QueryRetry i k)) COLLECTING n (BASE_DELAY_SECONDS + retry_wait env k) s)))"

declare top_n_query.simps [simp del]

fun add_entities :: "string list \<Rightarrow> string option list \<Rightarrow> string list \<Rightarrow> string list" where
  "add_entities excluded [] ids = ids"
| "add_entities excluded (found # rows) ids =
     add_entities excluded rows
       (case found of Some e \<Rightarrow> if e \<noteq> [] \<and> e \<notin> set excluded then List.insert e ids else ids | None \<Rightarrow> ids)"

fun collect_queries :: "sink_env \<Rightarrow> nat \<Rightarrow> (int \<times> int \<times> int) list \<Rightarrow> string list \<Rightarrow> session \<Rightarrow> session \<times> string list run_end" where
  "collect_queries env i [] ids s = (s, Done ids)"
| "collect_queries env i (q # qs) ids s =
     (case top_n_query env i q (length ids) 0 (MAX_ATTEMPTS - 1) s of
        (s, Done rows) \<Rightarrow>
          let ids = add_entities (excluded_entities (mem s)) rows ids in
          collect_queries env (Suc i) qs ids
            (if qs = [] then s else heartbeat (clock env (AfterQuery i)) COLLECTING (length ids) BASE_DELAY_SECONDS s)
      | (s, Raised e) \<Rightarrow> (s, Raised e)
      | (s, Died) \<Rightarrow> (s, Died))"

definition collect_entity_ids :: "sink_env \<Rightarrow> session \<Rightarrow> session \<times> string list run_end" where
  "collect_entity_ids env s = (let (s, qs) = build_top_n_queries env s in collect_queries env 1 qs [] s)"

section \<open>Labelling entities\<close>

definition MAX_LABEL_SERVICE_RETRIES :: nat where "MAX_LABEL_SERVICE_RETRIES = 10"

type_synonym label_call = "(string \<times> string) \<times> EntityLabelMutation"

definition bulk_mutation :: "task \<Rightarrow> EntityLabelMutation" where
  "bulk_mutation t = \<lparr>label_name = task_label t, reason_name = ''_ManuallyBulkLabeled'', mut_status = task_label_status t,
     mut_pending = JBool False, mut_description = JStr ''Bulk label (id={BulkLabelTaskId}) by {AdminEmail}: {Reason}'',
     mut_features = JObj [(''AdminEmail'', JStr (initiated_by t)), (''Reason'', JStr (task_reason t)),
       (''BulkLabelTaskId'', JStr (nat_digits (nat (task_id t))))], mut_expires_at = task_expiry t\<rparr>"

text \<open>
  \<open>_apply_label_mutations\<close>: the calls that took effect on the entity with index \<open>i\<close>. Attempt \<open>k\<close>,
  with \<open>r\<close> more to come; only an unavailable service is tried again.
\<close>

definition effect_of :: "bool \<Rightarrow> string \<times> string \<Rightarrow> session \<Rightarrow> label_call list" where
  "effect_of eff entity s = (if eff then [(entity, bulk_mutation (mem s))] else [])"

fun apply_label_mutations :: "sink_env \<Rightarrow> nat \<Rightarrow> string \<times> string \<Rightarrow> nat \<Rightarrow> nat \<Rightarrow> session \<Rightarrow> session \<times> label_call list \<times> unit run_end" where
  "apply_label_mutations env i entity k r s =
     (case mutation_result env i k of
        Accepted \<Rightarrow> (s, effect_of True entity s, Done ())
      | Rejected eff e \<Rightarrow> (s, effect_of eff entity s, Raised (TaskError e))
      | DiesLabelling eff \<Rightarrow> (s, effect_of eff entity s, Died)
      | Unavailable eff \<Rightarrow>
          (case r of
             0 \<Rightarrow> (s, effect_of eff entity s, Raised (TaskError (RPCException [])))
           | Suc r' \<Rightarrow>
               (case apply_label_mutations env i entity (Suc k) r'
                       (heartbeat (clock env (LabelRetry i k)) LABELLING (entities_labeled (mem s)) BASE_DELAY_SECONDS s) of
                  (s', calls, e) \<Rightarrow> (s', effect_of eff entity s @ calls, e))))"

declare apply_label_mutations.simps [simp del]

text \<open>
  The loop of \<open>_process_task\<close> over \<open>iterate_entity_indices\<close>; \<open>last_beat\<close> is the time of the last
  heartbeat.
\<close>

fun label_indices :: "sink_env \<Rightarrow> string \<Rightarrow> string list \<Rightarrow> nat list \<Rightarrow> int \<Rightarrow> session \<Rightarrow> session \<times> label_call list \<times> unit run_end" where
  "label_indices env ty ids [] last_beat s =
     (release_task (clock env AtEnd) COMPLETE
        (heartbeat (clock env AtEnd) LABELLING (case total_entities (mem s) of None \<Rightarrow> 0 | Some n \<Rightarrow> n) BASE_DELAY_SECONDS s),
      [], Done ())"
| "label_indices env ty ids (i # is) last_beat s =
     (if i \<ge> length ids then (s, [], Raised (TaskError IndexError))
      else
        (case apply_label_mutations env i (ty, ids ! i) 0 (MAX_LABEL_SERVICE_RETRIES - 1) s of
           (s, calls, Done _) \<Rightarrow>
             let now = clock env (AfterLabel i); beat = now - last_beat > HEARTBEAT_INTERVAL;
                 s = (if beat then heartbeat now LABELLING (i + 1) BASE_DELAY_SECONDS s else s)
             in case label_indices env ty ids is (if beat then now else last_beat) s of
                  (s', calls', e) \<Rightarrow> (s', calls @ calls', e)
         | (s, calls, e) \<Rightarrow> (s, calls, e)))"

text \<open>
  The margin of error is ten percent; both counts are below \<open>2 ^ 31\<close>, where the test on floats agrees
  with the exact one.
\<close>

definition within_margin :: "int \<Rightarrow> nat \<Rightarrow> bool" where
  "within_margin expected actual \<longleftrightarrow> \<not> (expected > 0 \<and> 10 * \<bar>expected - int actual\<bar> > expected)"

text \<open>The counts of the object after the check, and whether the check passes.\<close>

definition check_counts :: "nat \<Rightarrow> task \<Rightarrow> task \<times> bool" where
  "check_counts found t =
     (let total = (case total_entities t of Some (Suc n) \<Rightarrow> Suc n | _ \<Rightarrow> found);
          t = t\<lparr>total_entities := Some total\<rparr>
      in if within_margin (expected_total t) total then (t, True)
         else if excluded_entities t = [] then (t, False)
         else let t = t\<lparr>expected_total := expected_total t - int (length (excluded_entities t))\<rparr>
              in (t, within_margin (expected_total t) total))"

definition process_task :: "sink_env \<Rightarrow> session \<Rightarrow> session \<times> label_call list \<times> unit run_end" where
  "process_task env s =
     (case collect_entity_ids env s of
        (s, Raised e) \<Rightarrow> (s, [], Raised e)
      | (s, Died) \<Rightarrow> (s, [], Died)
      | (s, Done entity_ids) \<Rightarrow>
          let (t, fits) = check_counts (length entity_ids) (mem s); s = s\<lparr>mem := t\<rparr> in
          if \<not> fits then (s, [], Raised UnretryableTaskException)
          else case map_of (entity_types env) (task_dimension t) of
            None \<Rightarrow> (s, [], Raised (TaskError KeyError))
          | Some ty \<Rightarrow>
              (case label_indices env ty (sort entity_ids) [entities_labeled t..<the (total_entities t)] (clock env AtLabelling) s of
                 (s, calls, Done _) \<Rightarrow> (s, calls, case analytics env of None \<Rightarrow> Done () | Some e \<Rightarrow> Raised (TaskError e))
               | other \<Rightarrow> other))"

text \<open>\<open>BulkLabelSink.run\<close> on one claimed task: the row it leaves and the calls that took effect.\<close>

definition run_task :: "sink_env \<Rightarrow> task \<Rightarrow> task \<times> label_call list" where
  "run_task env t =
     (if attempts t \<ge> MAX_ATTEMPTS \<and> task_status t \<in> set non_final_statuses
      then (row (release_task (clock env AtRelease) FAILED (commit t)), [])
      else case process_task env (commit t) of
        (s, calls, Done _) \<Rightarrow> (row s, calls)
      | (s, calls, Died) \<Rightarrow> (row s, calls)
      | (s, calls, Raised e) \<Rightarrow>
          (row (release_task (clock env AtRelease)
             (if e = UnretryableTaskException \<or> attempts (mem s) \<ge> MAX_ATTEMPTS then FAILED else RETRYING) s), calls))"

text \<open>
  \<open>rollback_task_effects\<close> on one row of the repeated query: an entity is rolled back only when the task
  is the only reason for the label.
\<close>

datatype rollback_outcome = Skipped | Excluded | RolledBack EntityLabelMutation

definition rollback_mutation :: "datetime \<Rightarrow> task \<Rightarrow> EntityLabelMutation" where
  "rollback_mutation expiry t = \<lparr>label_name = task_label t, reason_name = ''_BulkLabelRollback'', mut_status = MANUALLY_REMOVED,
     mut_pending = JBool False,
     mut_description = JStr ''Bulk label rollback of (id={BulkLabelTaskId}) (initial reason: {Reason}, initially initiated by: {AdminEmail})'',
     mut_features = mut_features (bulk_mutation t), mut_expires_at = Some expiry\<rparr>"

definition reason_task :: "LabelReason \<Rightarrow> json option" where
  "reason_task r = (case features r of JObj d \<Rightarrow> map_of d ''BulkLabelTaskId'' | _ \<Rightarrow> None)"

definition rollback_row :: "datetime \<Rightarrow> task \<Rightarrow> string list option \<Rightarrow> (string \<Rightarrow> EntityLabels) \<Rightarrow> string option \<Rightarrow> rollback_outcome" where
  "rollback_row expiry t include_ids labels value =
     (case value of
        None \<Rightarrow> Skipped
      | Some v \<Rightarrow>
          if v = [] then Skipped
          else if v \<in> set (excluded_entities t) then Excluded
          else if (case include_ids of None \<Rightarrow> False | Some is \<Rightarrow> v \<notin> set is) then Excluded
          else case map_of (labels v) (task_label t) of
            None \<Rightarrow> Skipped
          | Some st \<Rightarrow>
              (case map_of (reasons st) ''_ManuallyBulkLabeled'' of
                 None \<Rightarrow> Skipped
               | Some r \<Rightarrow>
                   if length (reasons st) > 1 then Skipped
                   else if reason_task r \<noteq> Some (JStr (nat_digits (nat (task_id t)))) then Skipped
                   else RolledBack (rollback_mutation expiry t)))"

definition rollback_task_effects :: "(string \<Rightarrow> datetime) \<Rightarrow> task \<Rightarrow> string list option \<Rightarrow> (string \<Rightarrow> EntityLabels) \<Rightarrow> string option list \<Rightarrow> (string \<times> EntityLabelMutation) list result" where
  "rollback_task_effects expiry t include_ids labels rows =
     (if task_label_status t \<noteq> MANUALLY_ADDED then Inl (AssertionError ''Can only rollback tasks that MANUALLY_ADD for now.'')
      else Inr (concat (map (\<lambda>value. case value of None \<Rightarrow> []
        | Some v \<Rightarrow> (case rollback_row (expiry v) t include_ids labels (Some v) of RolledBack m \<Rightarrow> [(v, m)] | _ \<Rightarrow> [])) rows)))"

section \<open>What a run keeps\<close>

text \<open>The columns that only the caller of \<open>enqueue\<close> sets.\<close>

definition job :: "task \<Rightarrow> task" where
  "job t = t\<lparr>expected_total := 0, task_status := QUEUED, entities_collected := 0, entities_labeled := 0, total_entities := None,
     claim_until := 0, attempts := 0, updated_at := 0\<rparr>"

lemma job_simps [simp]:
  "job (t\<lparr>expected_total := x\<rparr>) = job t" "job (t\<lparr>task_status := st\<rparr>) = job t" "job (t\<lparr>entities_collected := n\<rparr>) = job t"
  "job (t\<lparr>entities_labeled := n\<rparr>) = job t" "job (t\<lparr>total_entities := tot\<rparr>) = job t" "job (t\<lparr>claim_until := x\<rparr>) = job t"
  "job (t\<lparr>attempts := n\<rparr>) = job t" "job (t\<lparr>updated_at := x\<rparr>) = job t"
  by (simp_all add: job_def)

lemma job_fields: "job t = job t' \<Longrightarrow> bulk_mutation t = bulk_mutation t' \<and> excluded_entities t = excluded_entities t'"
  by (cases t; cases t') (simp add: job_def bulk_mutation_def)

text \<open>
  The counts of a task agree with the ids \<open>L\<close> that were labelled: the first \<open>entities_labeled\<close> of
  the sorted entities were, and all of them when the task is complete.
\<close>

definition good :: "string set \<Rightarrow> task \<Rightarrow> nat \<Rightarrow> string set \<Rightarrow> task \<Rightarrow> bool" where
  "good E t0 a L t \<longleftrightarrow> job t = job t0 \<and> attempts t = a \<and> entities_labeled t \<le> card E \<and>
     (case total_entities t of None \<Rightarrow> entities_labeled t = 0 | Some n \<Rightarrow> n = card E) \<and>
     (\<forall>i < entities_labeled t. sorted_list_of_set E ! i \<in> L) \<and>
     (task_status t = COMPLETE \<longrightarrow> total_entities t \<noteq> None \<and> entities_labeled t = card E)"

definition good_session :: "string set \<Rightarrow> task \<Rightarrow> nat \<Rightarrow> string set \<Rightarrow> session \<Rightarrow> bool" where
  "good_session E t0 a L s \<longleftrightarrow> good E t0 a L (mem s) \<and> good E t0 a L (row s)"

lemma good_mono: "good E t0 a L t \<Longrightarrow> L \<subseteq> L' \<Longrightarrow> good E t0 a L' t"
  by (auto simp: good_def)

lemma good_session_mono: "good_session E t0 a L s \<Longrightarrow> L \<subseteq> L' \<Longrightarrow> good_session E t0 a L' s"
  by (auto simp: good_session_def intro: good_mono)

lemma good_commit: "good_session E t0 a L (commit t) \<longleftrightarrow> good E t0 a L t"
  by (simp add: good_session_def commit_def)

lemma good_fields:
  assumes "good_session E t0 a L s"
  shows "bulk_mutation (mem s) = bulk_mutation t0 \<and> excluded_entities (mem s) = excluded_entities t0"
  by (rule job_fields) (use assms in \<open>simp add: good_session_def good_def\<close>)

lemma collecting_keeps: "good_session E t0 a L s \<Longrightarrow> good_session E t0 a L (heartbeat now COLLECTING n secs s)"
  by (auto simp: heartbeat_def commit_def good_session_def good_def Let_def split: option.splits)

lemma labelling_keeps:
  assumes "good_session E t0 a L s" and "n \<le> card E" and "\<forall>i < n. sorted_list_of_set E ! i \<in> L"
    and "total_entities (mem s) = None \<Longrightarrow> n = 0"
  shows "good_session E t0 a L (heartbeat now LABELLING n secs s)"
  using assms by (auto simp: heartbeat_def commit_def good_session_def good_def Let_def split: option.splits)

lemma labelling_total: "total_entities (mem (heartbeat now st n secs s)) = total_entities (mem s)"
  by (simp add: heartbeat_def commit_def Let_def)

lemma release_keeps:
  assumes "good_session E t0 a L s"
    and "st = COMPLETE \<Longrightarrow> total_entities (mem s) \<noteq> None \<and> entities_labeled (mem s) = card E"
  shows "good_session E t0 a L (release_task now st s)"
  using assms by (auto simp: release_task_def commit_def good_session_def good_def split: option.splits)

lemma top_n_query_keeps:
  "good_session E t0 a L s \<Longrightarrow> good_session E t0 a L (fst (top_n_query env i q n k r s))"
proof (induction r arbitrary: k s)
  case 0
  then show ?case by (simp add: top_n_query.simps split: query_answer.splits)
next
  case (Suc r)
  then show ?case using collecting_keeps [OF Suc.prems]
    by (subst top_n_query.simps) (simp split: query_answer.splits)
qed

lemma add_entities_ok:
  assumes "distinct ids" and "[] \<notin> set ids" and "set ids \<inter> set excluded = {}"
  shows "distinct (add_entities excluded rows ids) \<and> [] \<notin> set (add_entities excluded rows ids) \<and>
    set (add_entities excluded rows ids) \<inter> set excluded = {}"
  using assms by (induction excluded rows ids rule: add_entities.induct) (auto split: option.splits)

lemma collect_queries_ok:
  assumes "good_session E t0 a L s" and "distinct ids" and "[] \<notin> set ids" and "set ids \<inter> set (excluded_entities t0) = {}"
    and "collect_queries env i qs ids s = (s', e)"
  shows "good_session E t0 a L s' \<and> (\<forall>ids'. e = Done ids' \<longrightarrow>
    distinct ids' \<and> [] \<notin> set ids' \<and> set ids' \<inter> set (excluded_entities t0) = {})"
  using assms
proof (induction qs arbitrary: i ids s)
  case (Cons q qs)
  obtain s1 e1 where q: "top_n_query env i q (length ids) 0 (MAX_ATTEMPTS - 1) s = (s1, e1)" by fastforce
  have s1: "good_session E t0 a L s1" using top_n_query_keeps [OF Cons.prems(1), of env i q "length ids" 0 "MAX_ATTEMPTS - 1"] q by simp
  show ?case
  proof (cases e1)
    case (Done rows)
    have "excluded_entities (mem s1) = excluded_entities t0" using good_fields [OF s1] by simp
    then have ids1: "distinct ids1" "[] \<notin> set ids1" "set ids1 \<inter> set (excluded_entities t0) = {}"
      if "ids1 = add_entities (excluded_entities (mem s1)) rows ids" for ids1
      using add_entities_ok [OF Cons.prems(2-4), of rows] that by simp_all
    define s2 where "s2 = (if qs = [] then s1 else heartbeat (clock env (AfterQuery i)) COLLECTING
      (length (add_entities (excluded_entities (mem s1)) rows ids)) BASE_DELAY_SECONDS s1)"
    have "good_session E t0 a L s2" using s1 collecting_keeps [OF s1] by (simp add: s2_def)
    moreover have "collect_queries env (Suc i) qs (add_entities (excluded_entities (mem s1)) rows ids) s2 = (s', e)"
      using Cons.prems(5) unfolding collect_queries.simps q Done s2_def by (simp add: Let_def)
    ultimately show ?thesis using Cons.IH ids1 [OF refl] by blast
  qed (use Cons.prems(5) q s1 in auto)
qed auto

lemma collect_ok:
  assumes "good_session E t0 a L s" and "collect_entity_ids env s = (s', e)"
  shows "good_session E t0 a L s' \<and> (\<forall>ids. e = Done ids \<longrightarrow>
    distinct ids \<and> [] \<notin> set ids \<and> set ids \<inter> set (excluded_entities t0) = {})"
  using collect_queries_ok [OF collecting_keeps [OF assms(1)], where ids = "[]"] assms(2)
  by (simp add: collect_entity_ids_def build_top_n_queries_def Let_def)

text \<open>The calls on one entity, and that a call that ends well took effect.\<close>

lemma apply_mutations_ok:
  assumes "good_session E t0 a L s" and "apply_label_mutations env i entity k r s = (s', calls, e)"
  shows "good_session E t0 a L s'" and "total_entities (mem s') = total_entities (mem s)"
    and "set calls \<subseteq> {(entity, bulk_mutation t0)}" and "e = Done () \<Longrightarrow> calls \<noteq> []"
  using assms
proof (atomize (full), induction r arbitrary: k s s' calls e)
  case 0
  have "bulk_mutation (mem s) = bulk_mutation t0" using good_fields [OF 0(1)] by simp
  with 0 show ?case by (auto simp: apply_label_mutations.simps effect_of_def split: mutation_answer.splits if_splits)
next
  case (Suc r)
  have m: "bulk_mutation (mem s) = bulk_mutation t0" using good_fields [OF Suc.prems(1)] by simp
  define s1 where "s1 = heartbeat (clock env (LabelRetry i k)) LABELLING (entities_labeled (mem s)) BASE_DELAY_SECONDS s"
  have s1: "good_session E t0 a L s1" unfolding s1_def
    by (rule labelling_keeps [OF Suc.prems(1)]) (use Suc.prems(1) in \<open>auto simp: good_session_def good_def split: option.splits\<close>)
  obtain s2 calls2 e2 where r: "apply_label_mutations env i entity (Suc k) r s1 = (s2, calls2, e2)" by (metis surj_pair)
  note IH = Suc.IH [OF s1 r]
  have t: "total_entities (mem s1) = total_entities (mem s)" by (simp add: s1_def labelling_total)
  from Suc.prems(2) show ?case using Suc.prems(1) IH t m r
    by (subst (asm) apply_label_mutations.simps)
      (auto simp: effect_of_def simp flip: s1_def split: mutation_answer.splits if_splits)
qed

text \<open>The loop over the entities from index \<open>m\<close> on.\<close>

lemma label_indices_ok:
  assumes "good_session E t0 a L s" and "finite E" and "total_entities (mem s) = Some (card E)"
    and "\<forall>i < m. sorted_list_of_set E ! i \<in> L" and "m \<le> card E"
    and "label_indices env ty (sorted_list_of_set E) [m..<card E] last_beat s = (s', calls, e)"
  shows "good_session E t0 a (L \<union> (snd \<circ> fst) ` set calls) s'"
    and "set calls \<subseteq> (\<lambda>x. ((ty, x), bulk_mutation t0)) ` E"
  using assms
proof (atomize (full), induction "card E - m" arbitrary: m L s last_beat s' calls e)
  case 0
  then have m: "m = card E" by simp
  define s1 where "s1 = heartbeat (clock env AtEnd) LABELLING (card E) BASE_DELAY_SECONDS s"
  have s1: "good_session E t0 a L s1" unfolding s1_def
    by (rule labelling_keeps [OF 0(2)]) (use 0(4,5) m in auto)
  have s': "s' = release_task (clock env AtEnd) COMPLETE s1" "calls = []" using 0(7) m 0(4) by (auto simp: s1_def)
  have "total_entities (mem s1) \<noteq> None \<and> entities_labeled (mem s1) = card E"
    using 0(4) by (simp add: s1_def heartbeat_def commit_def Let_def)
  with release_keeps [OF s1] s' show ?case by simp
next
  case (Suc n)
  then have m: "m < card E" and upt: "[m..<card E] = m # [Suc m..<card E]" by (simp_all add: upt_conv_Cons)
  define x where "x = sorted_list_of_set E ! m"
  have x: "x \<in> E" using nth_mem [of m "sorted_list_of_set E"] m Suc.prems(2) by (simp add: x_def)
  obtain s1 c1 e1 where c1: "apply_label_mutations env m (ty, x) 0 (MAX_LABEL_SERVICE_RETRIES - 1) s = (s1, c1, e1)" by (metis surj_pair)
  note ok = apply_mutations_ok [OF Suc.prems(1) c1]
  have calls1: "set c1 \<subseteq> (\<lambda>x. ((ty, x), bulk_mutation t0)) ` E" using ok(3) x by auto
  have s1: "good_session E t0 a (L \<union> (snd \<circ> fst) ` set c1) s1" using ok(1) good_session_mono by blast
  have len: "\<not> m \<ge> length (sorted_list_of_set E)" using m by simp
  show ?case
  proof (cases e1)
    case (Done u)
    define L1 where "L1 = L \<union> (snd \<circ> fst) ` set c1"
    have "x \<in> L1" using ok(3) ok(4) Done by (cases c1) (auto simp: L1_def)
    then have covered: "\<forall>i < Suc m. sorted_list_of_set E ! i \<in> L1" using Suc.prems(4) by (auto simp: L1_def x_def less_Suc_eq)
    define now beat where "now = clock env (AfterLabel m)" and "beat = (now - last_beat > HEARTBEAT_INTERVAL)"
    define s2 where "s2 = (if beat then heartbeat now LABELLING (m + 1) BASE_DELAY_SECONDS s1 else s1)"
    have t2: "total_entities (mem s2) = Some (card E)" using ok(2) Suc.prems(3) by (simp add: s2_def labelling_total)
    have s2: "good_session E t0 a L1 s2"
      using labelling_keeps [OF s1 [folded L1_def], of "m + 1"] covered m ok(2) Suc.prems(3) s1 by (simp add: s2_def L1_def)
    obtain c3 where c3: "label_indices env ty (sorted_list_of_set E) [Suc m..<card E] (if beat then now else last_beat) s2 = (s', c3, e)"
      "calls = c1 @ c3"
      using Suc.prems(6) len unfolding upt label_indices.simps c1 [unfolded x_def] Done
      by (auto simp: Let_def simp flip: now_def beat_def s2_def split: prod.splits)
    have "n = card E - Suc m" using Suc.hyps(2) m by simp
    from Suc.hyps(1) [OF this s2 Suc.prems(2) t2 covered _ c3(1)] m c3(2) calls1 show ?thesis by (auto simp: L1_def image_Un Un_assoc)
  next
    case (Raised ex)
    have "(s', calls, e) = (s1, c1, e1)" using Suc.prems(6) len unfolding upt label_indices.simps c1 [unfolded x_def] Raised by simp
    with s1 calls1 show ?thesis by simp
  next
    case Died
    have "(s', calls, e) = (s1, c1, e1)" using Suc.prems(6) len unfolding upt label_indices.simps c1 [unfolded x_def] Died by simp
    with s1 calls1 show ?thesis by simp
  qed
qed

lemma check_counts_ok:
  assumes "good E t0 a L t" and "check_counts (card E) t = (t', fits)"
  shows "good E t0 a L t' \<and> total_entities t' = Some (card E)"
proof -
  define total where "total = (case total_entities t of Some (Suc n) \<Rightarrow> Suc n | _ \<Rightarrow> card E)"
  have "total = card E" using assms(1) by (auto simp: total_def good_def split: option.splits nat.splits)
  moreover have "t' = t\<lparr>total_entities := Some total\<rparr> \<or>
      t' = t\<lparr>total_entities := Some total, expected_total := expected_total t - int (length (excluded_entities t))\<rparr>"
    using assms(2) by (auto simp: check_counts_def Let_def simp flip: total_def split: if_splits)
  ultimately show ?thesis using assms(1) by (auto simp: good_def)
qed

lemma process_task_ok:
  assumes "good_session E t0 a L s" and "finite E"
    and "\<forall>s1 ids. collect_entity_ids env s = (s1, Done ids) \<longrightarrow> set ids = E"
    and "process_task env s = (s', calls, e)"
  shows "good_session E t0 a (L \<union> (snd \<circ> fst) ` set calls) s'"
    and "set calls \<subseteq> {((ty, x), bulk_mutation t0) |ty x. x \<in> E}"
    and "calls \<noteq> [] \<Longrightarrow> [] \<notin> E \<and> E \<inter> set (excluded_entities t0) = {}"
proof (atomize (full), goal_cases)
  case 1
  obtain s1 e1 where c: "collect_entity_ids env s = (s1, e1)" by (metis surj_pair)
  note col = collect_ok [OF assms(1) c]
  show ?case
  proof (cases e1)
    case (Done ids)
    then have E: "set ids = E" using assms(3) c by blast
    have d: "distinct ids" using col Done by blast
    have len: "length ids = card E" using distinct_card [OF d] E by simp
    have srt: "sort ids = sorted_list_of_set E" using E d by (metis distinct_remdups_id sorted_list_of_set_sort_remdups)
    obtain t fits where t: "check_counts (card E) (mem s1) = (t, fits)" by fastforce
    have gt: "good E t0 a L t" "total_entities t = Some (card E)" using check_counts_ok [OF _ t] col by (auto simp: good_session_def)
    define s2 where "s2 = s1\<lparr>mem := t\<rparr>"
    have s2: "good_session E t0 a L s2" using gt(1) col by (simp add: s2_def good_session_def)
    consider "s' = s2" "calls = []" | ty e2 where
      "label_indices env ty (sorted_list_of_set E) [entities_labeled t..<card E] (clock env AtLabelling) s2 = (s', calls, e2)"
      using assms(4) unfolding process_task_def c Done
      by (auto simp: len t srt gt(2) simp flip: s2_def split: if_splits option.splits prod.splits run_end.splits)
    then show ?thesis
    proof cases
      case 1
      then show ?thesis using s2 by simp
    next
      case 2
      have "\<forall>i < entities_labeled t. sorted_list_of_set E ! i \<in> L" "entities_labeled t \<le> card E" using gt(1) by (auto simp: good_def)
      from label_indices_ok [OF s2 assms(2) _ this 2] gt(2) have
        "good_session E t0 a (L \<union> (snd \<circ> fst) ` set calls) s'" "set calls \<subseteq> (\<lambda>x. ((ty, x), bulk_mutation t0)) ` E"
        by (simp_all add: s2_def)
      moreover have "[] \<notin> E" "E \<inter> set (excluded_entities t0) = {}" using col Done E by auto
      ultimately show ?thesis by auto
    qed
  next
    case (Raised ex)
    then have "s' = s1" "calls = []" using assms(4) c by (auto simp: process_task_def)
    then show ?thesis using col by simp
  next
    case Died
    then have "s' = s1" "calls = []" using assms(4) c by (auto simp: process_task_def)
    then show ?thesis using col by simp
  qed
qed

lemma run_task_ok:
  assumes "good E t0 a L t" and "finite E"
    and "\<forall>s ids. collect_entity_ids env (commit t) = (s, Done ids) \<longrightarrow> set ids = E"
    and "run_task env t = (t', calls)"
  shows "good E t0 a (L \<union> (snd \<circ> fst) ` set calls) t'"
    and "set calls \<subseteq> {((ty, x), bulk_mutation t0) |ty x. x \<in> E}"
    and "calls \<noteq> [] \<Longrightarrow> [] \<notin> E \<and> E \<inter> set (excluded_entities t0) = {}"
proof (atomize (full), cases "attempts t \<ge> MAX_ATTEMPTS \<and> task_status t \<in> set non_final_statuses")
  case True
  then have "t' = row (release_task (clock env AtRelease) FAILED (commit t))" "calls = []" using assms(4) by (auto simp: run_task_def)
  then show "good E t0 a (L \<union> (snd \<circ> fst) ` set calls) t' \<and> set calls \<subseteq> {((ty, x), bulk_mutation t0) |ty x. x \<in> E} \<and>
      (calls \<noteq> [] \<longrightarrow> [] \<notin> E \<and> E \<inter> set (excluded_entities t0) = {})"
    using release_keeps [of E t0 a L "commit t" FAILED] assms(1) by (simp add: good_commit) (simp add: good_session_def)
next
  case False
  obtain s c e where p: "process_task env (commit t) = (s, c, e)" by (metis surj_pair)
  have gs: "good_session E t0 a L (commit t)" using assms(1) by (simp add: good_commit)
  note ok = process_task_ok [OF gs assms(2,3) p]
  have "calls = c" using assms(4) False p by (auto simp: run_task_def split: run_end.splits)
  moreover have "good E t0 a (L \<union> (snd \<circ> fst) ` set c) t'"
  proof (cases e)
    case (Raised ex)
    define st where "st = (if ex = UnretryableTaskException \<or> attempts (mem s) \<ge> MAX_ATTEMPTS then FAILED else RETRYING)"
    have "t' = row (release_task (clock env AtRelease) st s)" using assms(4) False p Raised by (auto simp: run_task_def st_def)
    moreover have "st \<noteq> COMPLETE" by (simp add: st_def)
    ultimately show ?thesis using release_keeps [OF ok(1), of st] by (simp add: good_session_def)
  qed (use assms(4) False p ok(1) in \<open>auto simp: run_task_def good_session_def\<close>)
  ultimately show "good E t0 a (L \<union> (snd \<circ> fst) ` set calls) t' \<and> set calls \<subseteq> {((ty, x), bulk_mutation t0) |ty x. x \<in> E} \<and>
      (calls \<noteq> [] \<longrightarrow> [] \<notin> E \<and> E \<inter> set (excluded_entities t0) = {})" using ok by blast
qed

section \<open>The life of a task\<close>

text \<open>
  The states of a task whose entities are \<open>E\<close>, whenever a run gets to collect them: it waits in the
  queue, a worker claims it and dies, or a worker claims it and works on it. The last two arguments are
  the calls that took effect and the number of runs that began to work.
\<close>

inductive bulk_run :: "string set \<Rightarrow> task \<Rightarrow> task \<Rightarrow> label_call list \<Rightarrow> nat \<Rightarrow> bool" for E t0 where
  queued: "bulk_run E t0 t0 [] 0"
| abandoned: "bulk_run E t0 t calls n \<Longrightarrow> claimable now jitter t \<Longrightarrow> bulk_run E t0 (claim_row now jitter' t) calls n"
| worked: "bulk_run E t0 t calls n \<Longrightarrow> claimable now jitter t \<Longrightarrow> run_task env (claim_row now jitter' t) = (t', calls') \<Longrightarrow>
    \<forall>s ids. collect_entity_ids env (commit (claim_row now jitter' t)) = (s, Done ids) \<longrightarrow> set ids = E \<Longrightarrow>
    bulk_run E t0 t' (calls @ calls') (if attempts t + 1 < MAX_ATTEMPTS then Suc n else n)"

lemma good_claim: "good E t0 a L t \<Longrightarrow> good E t0 (Suc a) L (claim_row now jitter t)"
  by (auto simp: good_def claim_row_def split: option.splits)

lemma bulk_run_good:
  assumes "bulk_run E t0 t calls n" and "t0 = enqueue now0 u" and "finite E"
  shows "good E t0 (attempts t) ((snd \<circ> fst) ` set calls) t \<and> attempts t \<le> MAX_ATTEMPTS + 1 \<and> n \<le> min (attempts t) (MAX_ATTEMPTS - 1) \<and>
    set calls \<subseteq> {((ty, x), bulk_mutation t0) |ty x. x \<in> E \<and> x \<noteq> [] \<and> x \<notin> set (excluded_entities t0)}"
  using assms
proof (induction rule: bulk_run.induct)
  case queued
  then show ?case by (simp add: good_def enqueue_def)
next
  case (abandoned t calls n now jitter jitter')
  then show ?case using good_claim [of E t0 "attempts t"] by (auto simp: claim_row_def claimable_def)
next
  case (worked t calls n now jitter env jitter' t' calls')
  define c where "c = claim_row now jitter' t"
  have IH: "good E t0 (attempts t) ((snd \<circ> fst) ` set calls) t" "n \<le> min (attempts t) (MAX_ATTEMPTS - 1)" 
    "set calls \<subseteq> {((ty, x), bulk_mutation t0) |ty x. x \<in> E \<and> x \<noteq> [] \<and> x \<notin> set (excluded_entities t0)}"
    using worked.IH worked.prems by blast+
  have c: "good E t0 (Suc (attempts t)) ((snd \<circ> fst) ` set calls) c" unfolding c_def by (rule good_claim [OF IH(1)])
  have run: "run_task env c = (t', calls')" and col: "\<forall>s ids. collect_entity_ids env (commit c) = (s, Done ids) \<longrightarrow> set ids = E"
    using worked.hyps(3,4) by (auto simp: c_def)
  note ok = run_task_ok [OF c worked.prems(2) col run]
  have t': "attempts t' = Suc (attempts t)" using ok(1) by (simp add: good_def)
  have "set calls' \<subseteq> {((ty, x), bulk_mutation t0) |ty x. x \<in> E \<and> x \<noteq> [] \<and> x \<notin> set (excluded_entities t0)}"
    using ok(2,3) by (cases "calls' = []") (simp, blast)
  moreover have "attempts t \<le> MAX_ATTEMPTS" using worked.hyps(2) by (simp add: claimable_def)
  ultimately show ?case using ok(1) IH(2,3) t' by (auto simp: image_Un)
qed


section \<open>Claims\<close>

lemma oldest_least: "oldest ts = Some t \<Longrightarrow> t \<in> set ts \<and> (\<forall>u \<in> set ts. claim_until t \<le> claim_until u)"
proof (induction ts arbitrary: t)
  case (Cons a ts)
  show ?case
  proof (cases "oldest ts")
    case None
    then have "ts = []" by (cases ts) (auto split: option.splits)
    with Cons.prems show ?thesis by simp
  next
    case (Some u)
    with Cons.IH [OF Some] Cons.prems show ?thesis by (auto split: if_splits)
  qed
qed simp

lemma oldest_None: "oldest ts = None \<longleftrightarrow> ts = []"
  by (cases ts) (auto split: option.splits)

text \<open>
  A claim takes the claimable task that has waited longest, if there is one, and changes no other
  row; while the claim lasts no worker can claim the task again.
\<close>

theorem claim_exclusive:
  assumes "distinct (map task_id table)" and "claim now jitter jitter' table = (c, table')"
  shows "(c = None \<longleftrightarrow> (\<forall>u \<in> set table. \<not> claimable now jitter u)) \<and>
    (\<forall>t. c = Some t \<longrightarrow> (\<exists>u \<in> set table. claimable now jitter u \<and> t = claim_row now jitter' u \<and>
       (\<forall>v \<in> set table. claimable now jitter v \<longrightarrow> claim_until u \<le> claim_until v) \<and>
       table' = map (\<lambda>v. if v = u then t else v) table \<and>
       (\<forall>later k. later \<le> claim_until t \<longrightarrow> \<not> claimable later k t)))"
proof (cases "oldest (filter (claimable now jitter) table)")
  case None
  then have "c = None" using assms(2) by (simp add: claim_def)
  moreover have "filter (claimable now jitter) table = []" using None oldest_None by blast
  ultimately show ?thesis by (simp add: filter_empty_conv)
next
  case (Some u)
  have u: "u \<in> set table" "claimable now jitter u" "\<forall>v \<in> set table. claimable now jitter v \<longrightarrow> claim_until u \<le> claim_until v"
    using oldest_least [OF Some] by auto
  have c: "c = Some (claim_row now jitter' u)" "table' = map (\<lambda>v. if task_id v = task_id u then claim_row now jitter' v else v) table"
    using assms(2) Some by (auto simp: claim_def)
  have "task_id v = task_id u \<longleftrightarrow> v = u" if "v \<in> set table" for v
    using assms(1) that u(1) by (metis distinct_map inj_onD)
  then have "table' = map (\<lambda>v. if v = u then claim_row now jitter' u else v) table" using c(2) by auto
  moreover have "\<not> claimable later k (claim_row now jitter' u)" if "later \<le> claim_until (claim_row now jitter' u)" for later k
    using that by (simp add: claimable_def)
  ultimately show ?thesis using u c(1) by auto
qed

section \<open>Windows\<close>

lemma range_step_set: "0 < d \<Longrightarrow> i \<in> set (range_step a b d) \<longleftrightarrow> a \<le> i \<and> i < b \<and> (i - a) mod d = 0"
proof (induction a b d rule: range_step.induct)
  case (1 a b d)
  show ?case
  proof (cases "a < b")
    case True
    have "(i - (a + d)) mod d = (i - a) mod d" using minus_mod_self2 [of "i - a" d] by (simp add: algebra_simps)
    moreover have "i \<ge> a + d" if "a \<le> i" "i \<noteq> a" "(i - a) mod d = 0"
    proof -
      from that(3) have "d dvd i - a" by presburger
      then show ?thesis using that(1,2) zdvd_imp_le [of d "i - a"] by simp
    qed
    ultimately show ?thesis using 1 True by (subst range_step.simps) auto
  next
    case False
    then show ?thesis by (subst range_step.simps) auto
  qed
qed


text \<open>An interval with a fraction of a second at its end can lose that fraction.\<close>

lemma fraction_lost:
  "\<not> (\<exists>w \<in> set (top_n_windows True 0 (2 * 21600 * 1000000 + 500000)). fst w \<le> 2 * 21600 * 1000000 \<and> 2 * 21600 * 1000000 < snd w)"
  by code_simp

section \<open>Rollback\<close>

text \<open>A rollback removes the label only where this task is the one reason for it.\<close>

lemma rollback_own_labels:
  assumes "rollback_task_effects expiry t include_ids labels rows = Inr rolled" and "(v, m) \<in> set rolled"
  shows "v \<noteq> []" and "v \<notin> set (excluded_entities t)"
    and "\<exists>st r. map_of (labels v) (task_label t) = Some st \<and> reasons st = [(''_ManuallyBulkLabeled'', r)] \<and>
      reason_task r = Some (JStr (nat_digits (nat (task_id t))))"
proof -
  from assms have r: "rollback_row (expiry v) t include_ids labels (Some v) = RolledBack m"
    by (auto simp: rollback_task_effects_def split: if_splits option.splits rollback_outcome.splits)
  then show "v \<noteq> []" "v \<notin> set (excluded_entities t)" by (auto simp: rollback_row_def split: if_splits)
  from r obtain st r' where st: "map_of (labels v) (task_label t) = Some st" "map_of (reasons st) ''_ManuallyBulkLabeled'' = Some r'"
    "\<not> length (reasons st) > 1" "reason_task r' = Some (JStr (nat_digits (nat (task_id t))))"
    unfolding rollback_row_def by (fastforce split: if_splits option.splits)
  from st(2,3) have "reasons st = [(''_ManuallyBulkLabeled'', r')]" by (cases "reasons st") (auto split: if_splits)
  with st show "\<exists>st r. map_of (labels v) (task_label t) = Some st \<and> reasons st = [(''_ManuallyBulkLabeled'', r)] \<and>
      reason_task r = Some (JStr (nat_digits (nat (task_id t))))" by blast
qed

section \<open>Witnesses\<close>

definition demo_task :: task where
  "demo_task = \<lparr>task_id = 7, initiated_by = ''a@b'', query_start = 0, query_end = 1000000, task_dimension = ''UserId'',
     excluded_entities = [''9''], expected_total = 0, no_limit = False, task_label = ''spam'', task_label_status = MANUALLY_ADDED,
     task_reason = ''raid'', task_expiry = None, task_status = QUEUED, entities_collected = 0, entities_labeled = 0,
     total_entities = None, claim_until = 0, attempts = 0, updated_at = 0\<rparr>"

text \<open>The label service rejects the second entity in the first run.\<close>

definition demo_sink :: "bool \<Rightarrow> sink_env" where
  "demo_sink fails = \<lparr>clock = (\<lambda>_. 10), answer = (\<lambda>_ _ _. Rows [Some ''4'', None, Some ''9'', Some ''3'']),
     mutation_result = (\<lambda>i _. if fails \<and> i = 1 then Rejected False KeyError else Accepted), retry_wait = (\<lambda>_. 60),
     entity_types = [(''UserId'', ''User'')], analytics = None\<rparr>"

definition demo_first :: "task \<times> label_call list" where
  "demo_first = run_task (demo_sink True) (claim_row 1 1000000 (enqueue 0 demo_task))"

definition demo_second :: "task \<times> label_call list" where
  "demo_second = run_task (demo_sink False) (claim_row 1000000000 1000000 (fst demo_first))"

lemma demo_bulk_run: "bulk_run {''3'', ''4''} (enqueue 0 demo_task) (fst demo_second) (snd demo_first @ snd demo_second) 2"
proof -
  have claims: "claimable 1 1000000 (enqueue 0 demo_task)" "claimable 1000000000 1000000 (fst demo_first)" by code_simp+
  have collects: "\<forall>s ids. collect_entity_ids env S = (s, Done ids) \<longrightarrow> set ids = E"
    if "case snd (collect_entity_ids env S) of Done ids \<Rightarrow> set ids = E | _ \<Rightarrow> True" for env S E
    using that by (auto split: run_end.splits)
  have c1: "case snd (collect_entity_ids (demo_sink True) (commit (claim_row 1 1000000 (enqueue 0 demo_task)))) of
      Done ids \<Rightarrow> set ids = {''3'', ''4''} | _ \<Rightarrow> True"
    and c2: "case snd (collect_entity_ids (demo_sink False) (commit (claim_row 1000000000 1000000 (fst demo_first)))) of
      Done ids \<Rightarrow> set ids = {''3'', ''4''} | _ \<Rightarrow> True" by code_simp+
  have a: "attempts (enqueue 0 demo_task) + 1 < MAX_ATTEMPTS" "attempts (fst demo_first) + 1 < MAX_ATTEMPTS" by code_simp+
  have runs: "run_task (demo_sink True) (claim_row 1 1000000 (enqueue 0 demo_task)) = (fst demo_first, snd demo_first)"
    "run_task (demo_sink False) (claim_row 1000000000 1000000 (fst demo_first)) = (fst demo_second, snd demo_second)"
    by (simp_all add: demo_first_def demo_second_def)
  note r1 = bulk_run.worked [OF bulk_run.queued claims(1) runs(1) collects [OF c1], unfolded if_P [OF a(1)]]
  show ?thesis using bulk_run.worked [OF r1 claims(2) runs(2) collects [OF c2]] a(2) by (simp add: numeral_2_eq_2)
qed


theorem claim_exclusive_witness:
  "\<exists>t table'. claim 5 1000000 1000000 [enqueue 0 demo_task] = (Some t, table') \<and> \<not> claimable 6 1000000 t"
proof -
  obtain c table' where c: "claim 5 1000000 1000000 [enqueue 0 demo_task] = (c, table')" by (metis surj_pair)
  have "claimable 5 1000000 (enqueue 0 demo_task)" by code_simp
  moreover have "distinct (map task_id [enqueue 0 demo_task])" by simp
  moreover note ex = claim_exclusive [OF this c]
  ultimately obtain t where t: "c = Some t" by auto
  with ex obtain u where u: "u \<in> set [enqueue 0 demo_task]" "t = claim_row 5 1000000 u"
    "\<forall>later k. later \<le> claim_until t \<longrightarrow> \<not> claimable later k t" by blast
  moreover have "6 \<le> claim_until (claim_row 5 1000000 (enqueue 0 demo_task))" by code_simp
  ultimately have "\<not> claimable 6 1000000 t" by simp
  with t c show ?thesis by blast
qed


end
