(* ===== verification/Event_Queries.thy ===== *)
theory Event_Queries
  imports Datetime Experiments "HOL-Library.Multiset"
begin

text \<open>
  Queries of events (\<open>ui_api/osprey/lib/druid.py\<close>) and the keys of stored results
  (\<open>worker/lib/snowflake.py\<close>, \<open>worker/lib/storage/stored_execution_result.py\<close>): the pages of a scan with
  their tokens, the comparison of two periods, and the row key of an action. Times are milliseconds
  since the epoch. What the event database returns for a scan is a parameter with its documented
  behaviour.
\<close>

section \<open>Base64\<close>

text \<open>The part of Python's \<open>base64\<close> that the tokens need: bytes as characters, padding included.\<close>

definition b64_alphabet :: string where
  "b64_alphabet = ''ABCDEFGHIJKLMNOPQRSTUVWXYZabcdefghijklmnopqrstuvwxyz0123456789+/''"

definition b64_char :: "nat \<Rightarrow> char" where
  "b64_char i = b64_alphabet ! i"

definition b64_value :: "char \<Rightarrow> nat option" where
  "b64_value c = (let i = length (takeWhile (\<lambda>d. d \<noteq> c) b64_alphabet) in if i < 64 then Some i else None)"

fun b64_bytes :: "nat list \<Rightarrow> string" where
  "b64_bytes [] = []"
| "b64_bytes [a] = [b64_char (a div 4), b64_char (a mod 4 * 16), CHR ''='', CHR ''='']"
| "b64_bytes [a, b] = [b64_char (a div 4), b64_char (a mod 4 * 16 + b div 16), b64_char (b mod 16 * 4), CHR ''='']"
| "b64_bytes (a # b # c # bs) =
     b64_char (a div 4) # b64_char (a mod 4 * 16 + b div 16) # b64_char (b mod 16 * 4 + c div 64) # b64_char (c mod 64) # b64_bytes bs"

definition b64encode :: "string \<Rightarrow> string" where
  "b64encode s = b64_bytes (map of_char s)"

fun b64_read :: "string \<Rightarrow> nat list option" where
  "b64_read [] = Some []"
| "b64_read (p # q # r # s # cs) =
     (case (b64_value p, b64_value q) of
        (Some w, Some x) \<Rightarrow>
          if r = CHR ''='' \<and> s = CHR ''='' \<and> cs = [] then Some [w * 4 + x div 16]
          else (case b64_value r of
                  None \<Rightarrow> None
                | Some y \<Rightarrow>
                    if s = CHR ''='' \<and> cs = [] then Some [w * 4 + x div 16, x mod 16 * 16 + y div 4]
                    else (case (b64_value s, b64_read cs) of
                            (Some z, Some bs) \<Rightarrow> Some ((w * 4 + x div 16) # (x mod 16 * 16 + y div 4) # (y mod 4 * 64 + z) # bs)
                          | _ \<Rightarrow> None))
      | _ \<Rightarrow> None)"
| "b64_read _ = None"

text \<open>Characters outside the alphabet are skipped.\<close>

definition b64decode :: "string \<Rightarrow> string option" where
  "b64decode s = map_option (map char_of) (b64_read (filter (\<lambda>c. c = CHR ''='' \<or> b64_value c \<noteq> None) s))"

lemma b64_value_char: "i < 64 \<Longrightarrow> b64_value (b64_char i) = Some i"
proof -
  have "list_all (\<lambda>i. b64_value (b64_char i) = Some i) [0..<64]" by code_simp
  then show "i < 64 \<Longrightarrow> b64_value (b64_char i) = Some i" by (simp add: list_all_iff)
qed

lemma b64_char_pad: "i < 64 \<Longrightarrow> b64_char i \<noteq> CHR ''=''"
proof -
  have "list_all (\<lambda>i. b64_char i \<noteq> CHR ''='') [0..<64]" by code_simp
  then show "i < 64 \<Longrightarrow> b64_char i \<noteq> CHR ''=''" by (simp add: list_all_iff)
qed

lemma b64_read_bytes: "\<forall>b \<in> set bs. b < 256 \<Longrightarrow> b64_read (b64_bytes bs) = Some bs"
proof (induction bs rule: b64_bytes.induct)
  case (2 a)
  then have "a div 4 < 64" "a mod 4 * 16 < 64" by simp_all
  then show ?case by (simp add: b64_value_char)
next
  case (3 a b)
  then have "a < 256" "b < 256" by simp_all
  then have "a div 4 < 64" "a mod 4 * 16 + b div 16 < 64" "b mod 16 * 4 < 64" "b div 16 < 16" by auto
  then show ?case by (simp add: b64_value_char b64_char_pad)
next
  case (4 a b c bs)
  have "a < 256" "b < 256" "c < 256" using 4(2) by simp_all
  then have "a div 4 < 64" "a mod 4 * 16 + b div 16 < 64" "b mod 16 * 4 + c div 64 < 64" "c mod 64 < 64" "b div 16 < 16" "c div 64 < 4" by auto
  then show ?case using 4 by (simp add: b64_value_char b64_char_pad)
qed simp

lemma b64_bytes_chars: "\<forall>b \<in> set bs. b < 256 \<Longrightarrow> filter (\<lambda>c. c = CHR ''='' \<or> b64_value c \<noteq> None) (b64_bytes bs) = b64_bytes bs"
proof (induction bs rule: b64_bytes.induct)
  case (2 a)
  then have "a div 4 < 64" "a mod 4 * 16 < 64" by simp_all
  then show ?case by (simp add: b64_value_char)
next
  case (3 a b)
  then have "a < 256" "b < 256" by simp_all
  then have "a div 4 < 64" "a mod 4 * 16 + b div 16 < 64" "b mod 16 * 4 < 64" by auto
  then show ?case by (simp add: b64_value_char)
next
  case (4 a b c bs)
  have "a < 256" "b < 256" "c < 256" using 4(2) by simp_all
  then have "a div 4 < 64" "a mod 4 * 16 + b div 16 < 64" "b mod 16 * 4 + c div 64 < 64" "c mod 64 < 64" by auto
  then show ?case using 4 by (simp add: b64_value_char)
qed simp

lemma b64_roundtrip: "b64decode (b64encode s) = Some s"
proof -
  have "\<forall>b \<in> set (map of_char s :: nat list). b < 256" by simp
  from b64_bytes_chars [OF this] b64_read_bytes [OF this] show ?thesis unfolding b64decode_def b64encode_def by (simp only:) (simp add: comp_def)
qed

text \<open>\<open>int(text)\<close> of a decimal number.\<close>

definition read_int :: "string \<Rightarrow> int option" where
  "read_int s = (if s \<noteq> [] \<and> hd s = CHR ''-'' then map_option (\<lambda>n. - int n) (read_digits (tl s)) else map_option int (read_digits s))"

lemma nat_digits_ok:
  "nat_digits n \<noteq> [] \<and> list_all (\<lambda>c. 48 \<le> (of_char c :: nat) \<and> (of_char c :: nat) \<le> 57) (nat_digits n) \<and>
   foldl (\<lambda>acc c. acc * 10 + (of_char c - 48)) 0 (nat_digits n) = n"
proof (induction n rule: nat_digits.induct)
  case (1 n)
  show ?case
  proof (cases "n < 10")
    case True
    then show ?thesis by (subst (1 2 3) nat_digits.simps) simp
  next
    case False
    then show ?thesis using 1 by (subst (1 2 3) nat_digits.simps) simp
  qed
qed

lemma read_nat_digits: "read_digits (nat_digits n) = Some n"
  using nat_digits_ok [of n] by (simp add: read_digits_def)

lemma read_int_text: "read_int (int_text i) = Some i"
proof (cases "i < 0")
  case True
  then show ?thesis by (simp add: read_int_def int_text_def read_nat_digits)
next
  case False
  have "hd (nat_digits (nat i)) \<noteq> CHR ''-''"
  proof
    assume "hd (nat_digits (nat i)) = CHR ''-''"
    with nat_digits_ok [of "nat i"] show False by (cases "nat_digits (nat i)") auto
  qed
  with False show ?thesis by (simp add: read_int_def int_text_def read_nat_digits)
qed

section \<open>Pages of a scan\<close>

datatype Ordering = ASCENDING | DESCENDING

type_synonym scan = "int \<Rightarrow> int \<Rightarrow> Ordering \<Rightarrow> nat \<Rightarrow> (int \<times> int) list"

record scan_request =
  scan_start :: int
  scan_end :: int
  scan_limit :: nat
  next_page :: "string option"
  scan_order :: Ordering

text \<open>The interval of \<open>PaginatedScanDruidQuery.execute\<close>: the token moves its start or its end.\<close>

definition page_interval :: "scan_request \<Rightarrow> (int \<times> int) result" where
  "page_interval req =
     (case next_page req of
        None \<Rightarrow> Inr (scan_start req, scan_end req)
      | Some token \<Rightarrow>
          if token = [] then Inr (scan_start req, scan_end req)
          else case b64decode token of
            None \<Rightarrow> Inl (OtherException ''binascii.Error'')
          | Some t \<Rightarrow>
              (case read_int t of
                 None \<Rightarrow> Inl (ValueError ''invalid literal for int()'')
               | Some ms \<Rightarrow>
                   (case scan_order req of
                      ASCENDING \<Rightarrow> Inr (ms div 1000 * 1000, scan_end req)
                    | DESCENDING \<Rightarrow> Inr (scan_start req, ms div 1000 * 1000))))"

definition page_token :: "int \<Rightarrow> string" where
  "page_token t = b64encode (int_text t)"

definition scan_page :: "scan \<Rightarrow> scan_request \<Rightarrow> (int list \<times> string option) result" where
  "scan_page scan req =
     bindR (page_interval req) (\<lambda>(s, e).
       if s > e then Inl (ValueError ''Start date must be before end date'')
       else let events = scan s e (scan_order req) (scan_limit req + 1) in
            Inr (if events = [] then ([], None)
                 else if length events = scan_limit req + 1
                 then (map fst (butlast events), Some (page_token (snd (last events))))
                 else (map fst events, None)))"

text \<open>A client that follows the tokens, for at most \<open>n\<close> pages.\<close>

fun follow_pages :: "scan \<Rightarrow> nat \<Rightarrow> scan_request \<Rightarrow> int list list option" where
  "follow_pages scan 0 req = None"
| "follow_pages scan (Suc n) req =
     (case scan_page scan req of
        Inr (ids, None) \<Rightarrow> Some [ids]
      | Inr (ids, Some token) \<Rightarrow> map_option (Cons ids) (follow_pages scan n (req\<lparr>next_page := Some token\<rparr>))
      | Inl _ \<Rightarrow> None)"

text \<open>
  The documented behaviour of a scan: the first events of the interval, which contains its start and
  not its end, in the order of time; events at the same time come in any order.
\<close>

definition inside :: "int \<Rightarrow> int \<Rightarrow> int \<times> int \<Rightarrow> bool" where
  "inside s e x \<longleftrightarrow> s \<le> snd x \<and> snd x < e"

definition scan_documented :: "(int \<times> int) list \<Rightarrow> scan \<Rightarrow> bool" where
  "scan_documented evs scan \<longleftrightarrow> (\<forall>s e ord n. \<exists>ys. mset ys = mset (filter (inside s e) evs) \<and>
     (case ord of ASCENDING \<Rightarrow> sorted (map snd ys) | DESCENDING \<Rightarrow> sorted (rev (map snd ys))) \<and> scan s e ord n = take n ys)"

lemma token_interval:
  "page_interval (req\<lparr>next_page := Some (page_token t)\<rparr>) =
     (case scan_order req of ASCENDING \<Rightarrow> Inr (t div 1000 * 1000, scan_end req) | DESCENDING \<Rightarrow> Inr (scan_start req, t div 1000 * 1000))"
proof -
  have "int_text t \<noteq> []" using nat_digits_ok by (simp add: int_text_def)
  then have "page_token t \<noteq> []" using b64_roundtrip [of "int_text t"] by (auto simp: page_token_def b64decode_def)
  then show ?thesis by (simp add: page_interval_def b64_roundtrip read_int_text page_token_def split: Ordering.splits)
qed

text \<open>No second holds more events than a page.\<close>

definition sparse :: "nat \<Rightarrow> (int \<times> int) list \<Rightarrow> bool" where
  "sparse limit evs \<longleftrightarrow> (\<forall>k. length (filter (\<lambda>x. snd x div 1000 = k) evs) \<le> limit)"

lemma page_advances:
  assumes ys: "mset ys = mset (filter (inside s e) evs)" "sorted (map snd ys)" and "sparse limit evs" and "limit < length ys"
  shows "s div 1000 < snd (ys ! limit) div 1000"
proof (rule ccontr)
  assume a: "\<not> s div 1000 < snd (ys ! limit) div 1000"
  have same: "snd x div 1000 = s div 1000" if x: "x \<in> set (take (Suc limit) ys)" for x
  proof -
    obtain i where i: "i \<le> limit" "x = ys ! i" using x assms(4) by (auto simp: in_set_conv_nth less_Suc_eq_le)
    have "x \<in># mset ys" using i assms(4) by simp
    then have "x \<in># mset (filter (inside s e) evs)" using ys(1) by simp
    then have "s \<le> snd x" by (auto simp: inside_def)
    moreover have "snd x \<le> snd (ys ! limit)" using sorted_nth_mono [OF ys(2), of i limit] i assms(4) by simp
    ultimately have "s div 1000 \<le> snd x div 1000" "snd x div 1000 \<le> snd (ys ! limit) div 1000" by (auto intro: zdiv_mono1)
    with a show ?thesis by simp
  qed
  define k where "k = s div 1000"
  have "Suc limit = length (take (Suc limit) ys)" using assms(4) by simp
  also have "\<dots> = length (filter (\<lambda>x. snd x div 1000 = k) (take (Suc limit) ys))"
    by (subst filter_True) (use same in \<open>auto simp: k_def\<close>)
  also have "\<dots> \<le> length (filter (\<lambda>x. snd x div 1000 = k) ys)"
    by (metis append_take_drop_id filter_append le_add1 length_append)
  also have "\<dots> = size (filter_mset (\<lambda>x. snd x div 1000 = k) (mset ys))" by (metis mset_filter size_mset)
  also have "\<dots> \<le> size (filter_mset (\<lambda>x. snd x div 1000 = k) (mset evs))"
    unfolding ys(1) mset_filter by (intro size_mset_mono multiset_filter_mono multiset_filter_subset)
  also have "\<dots> = length (filter (\<lambda>x. snd x div 1000 = k) evs)" by (metis mset_filter size_mset)
  also have "\<dots> \<le> limit" using assms(3) by (simp add: sparse_def)
  finally show False by simp
qed

lemma nat_gap: "c \<le> (a :: int) \<Longrightarrow> nat (a - b) < Suc n \<Longrightarrow> b < c \<Longrightarrow> nat (a - c) < n"
  by linarith

text \<open>Following the tokens in ascending order from an interval that starts at \<open>s\<close>.\<close>

lemma ascending_pages:
  assumes "scan_documented evs scan" and "sparse (scan_limit req) evs" and "scan_order req = ASCENDING"
    and "page_interval req = Inr (s, scan_end req)" and "s \<le> scan_end req"
    and "nat (scan_end req div 1000 - s div 1000) < n"
  shows "\<exists>ps. follow_pages scan n req = Some ps \<and> set (concat ps) = fst ` {x \<in> set evs. inside s (scan_end req) x}"
  using assms(2-)
proof (induction n arbitrary: req s)
  case (Suc n)
  define e limit where "e = scan_end req" and "limit = scan_limit req"
  obtain ys where ys: "mset ys = mset (filter (inside s e) evs)" "sorted (map snd ys)"
    "scan s e ASCENDING (limit + 1) = take (limit + 1) ys"
    using assms(1) unfolding scan_documented_def by (metis Ordering.case(1))
  have set_ys: "set ys = {x \<in> set evs. inside s e x}" using mset_eq_setD [OF ys(1)] by auto
  have page: "scan_page scan req =
      Inr (if length ys \<le> limit then (map fst ys, None) else (map fst (take limit ys), Some (page_token (snd (ys ! limit)))))"
  proof -
    have "limit < length ys \<Longrightarrow> butlast (take (Suc limit) ys) = take limit ys \<and> last (take (Suc limit) ys) = ys ! limit"
      by (simp add: take_Suc_conv_app_nth)
    then show ?thesis using Suc.prems(2,3,4) ys(3)
      by (auto simp: scan_page_def Let_def not_le min_def simp flip: e_def limit_def)
  qed
  show ?case
  proof (cases "length ys \<le> limit")
    case True
    then show ?thesis using page set_ys by (auto simp flip: e_def)
  next
    case False
    define t where "t = snd (ys ! limit)"
    define s' where "s' = t div 1000 * 1000"
    define req' where "req' = req\<lparr>next_page := Some (page_token t)\<rparr>"
    have "ys ! limit \<in> set ys" using False by simp
    then have t: "s \<le> t" "t < e" using set_ys by (auto simp: t_def inside_def)
    have adv: "s div 1000 < t div 1000" unfolding t_def
      by (rule page_advances [OF ys(1,2)]) (use Suc.prems(1) False in \<open>simp_all flip: limit_def\<close>)
    have s': "s < s'" "s' \<le> t" "s' div 1000 = t div 1000" using adv by (auto simp: s'_def)
    have "t div 1000 \<le> e div 1000" using t(2) by (simp add: zdiv_mono1)
    then have fuel: "nat (scan_end req' div 1000 - s' div 1000) < n"
      using nat_gap [OF _ _ adv, of "e div 1000" n] Suc.prems(5) s'(3) by (simp add: req'_def flip: e_def)
    have "page_interval req' = Inr (s', scan_end req')" using token_interval [where req = req and t = t] Suc.prems(2) by (simp add: req'_def s'_def)
    from Suc.IH [OF _ _ this _ fuel] obtain ps where ps: "follow_pages scan n req' = Some ps"
      "set (concat ps) = fst ` {x \<in> set evs. inside s' e x}"
      using Suc.prems(1,2) s'(2) t(2) by (auto simp: req'_def simp flip: e_def)
    have early: "x \<in> set (take limit ys)" if x: "x \<in> set ys" "snd x < s'" for x
    proof -
      obtain i where i: "i < length ys" "x = ys ! i" using x(1) by (auto simp: in_set_conv_nth)
      have "i < limit" using sorted_nth_mono [OF ys(2), of limit i] i x(2) s'(2) by (force simp: t_def not_less)
      then show ?thesis using i by (auto simp: in_set_conv_nth)
    qed
    have "fst ` set (take limit ys) \<union> fst ` {x \<in> set evs. inside s' e x} = fst ` {x \<in> set evs. inside s e x}"
    proof -
      have "set (take limit ys) \<subseteq> {x \<in> set evs. inside s e x}" using set_take_subset [of limit ys] set_ys by blast
      moreover have "{x \<in> set evs. inside s' e x} \<subseteq> {x \<in> set evs. inside s e x}" using s'(1) by (auto simp: inside_def)
      moreover have "{x \<in> set evs. inside s e x} \<subseteq> set (take limit ys) \<union> {x \<in> set evs. inside s' e x}"
        using early set_ys by (force simp: inside_def)
      ultimately show ?thesis by blast
    qed
    then have "set (concat (map fst (take limit ys) # ps)) = fst ` {x \<in> set evs. inside s e x}" using ps(2) by simp
    moreover have "follow_pages scan (Suc n) req = Some (map fst (take limit ys) # ps)"
      using page False ps(1) by (simp add: req'_def t_def)
    ultimately show ?thesis unfolding e_def by blast
  qed
qed simp

text \<open>
  (C24) Reading a scan page by page in ascending order reaches every event: when no second of the data
  holds more events than a page, following the tokens ends after at most one page per second of the
  interval and one more, and the actions of the pages are exactly the actions of the interval.
\<close>

theorem ascending_pages_complete:
  assumes "scan_documented evs scan" and "sparse (scan_limit req) evs" and "scan_order req = ASCENDING"
    and "next_page req = None" and "scan_start req \<le> scan_end req"
    and "n = nat (scan_end req div 1000 - scan_start req div 1000) + 1"
  shows "\<exists>ps. follow_pages scan n req = Some ps \<and>
    set (concat ps) = fst ` {x \<in> set evs. scan_start req \<le> snd x \<and> snd x < scan_end req}"
  using ascending_pages [OF assms(1-3), of "scan_start req" n] assms(4-6) by (simp add: page_interval_def inside_def)

text \<open>
  (C28) In descending order every further page loses an event: when a page has a successor, some event
  of the interval is neither on the page nor in the interval of the next page, which ends before it.
\<close>

theorem descending_page_skips:
  assumes "scan_documented evs scan" and "distinct (map fst evs)" and "scan_order req = DESCENDING" and "next_page req = None"
    and "scan_page scan req = Inr (ids, Some token)"
  shows "\<exists>x \<in> set evs. scan_start req \<le> snd x \<and> snd x < scan_end req \<and> fst x \<notin> set ids \<and>
    (\<exists>e. page_interval (req\<lparr>next_page := Some token\<rparr>) = Inr (scan_start req, e) \<and> e \<le> snd x)"
proof -
  define s e limit where "s = scan_start req" and "e = scan_end req" and "limit = scan_limit req"
  obtain ys where ys: "mset ys = mset (filter (inside s e) evs)" "scan s e DESCENDING (limit + 1) = take (limit + 1) ys"
    using assms(1) unfolding scan_documented_def by metis
  have page: "length ys > limit" "ids = map fst (take limit ys)" "token = page_token (snd (ys ! limit))"
  proof -
    have "limit < length ys \<Longrightarrow> butlast (take (Suc limit) ys) = take limit ys \<and> last (take (Suc limit) ys) = ys ! limit"
      by (simp add: take_Suc_conv_app_nth)
    then show "length ys > limit" "ids = map fst (take limit ys)" "token = page_token (snd (ys ! limit))"
      using assms(3-5) ys(2) by (auto simp: scan_page_def page_interval_def Let_def min_def simp flip: s_def e_def limit_def split: if_splits)
  qed
  define x where "x = ys ! limit"
  have "x \<in> set ys" using page(1) by (simp add: x_def)
  then have x: "x \<in> set evs" "inside s e x" using mset_eq_setD [OF ys(1)] by auto
  have "distinct (map fst (filter (inside s e) evs))" using assms(2) by (rule distinct_map_filter)
  then have "distinct (map fst ys)" using ys(1) by (metis mset_eq_imp_distinct_iff mset_map)
  moreover have "map fst ys = map fst (take limit ys) @ fst x # map fst (drop (Suc limit) ys)"
    using arg_cong [OF id_take_nth_drop [OF page(1)], of "map fst"] by (simp add: x_def)
  ultimately have "fst x \<notin> set ids" using page(2) by (auto simp del: map_append)
  moreover have "snd x div 1000 * 1000 \<le> snd x" by simp
  moreover have "page_interval (req\<lparr>next_page := Some token\<rparr>) = Inr (scan_start req, snd x div 1000 * 1000)"
    using token_interval [where req = req and t = "snd x"] assms(3) page(3) by (simp add: x_def)
  ultimately show ?thesis using x by (auto simp: inside_def s_def e_def)
qed

section \<open>Comparing two periods\<close>

text \<open>
  The answer of a top-N query as \<open>TopNDruidQuery._sanitize_results\<close> reads it: an item that does not
  parse is dropped, and so is a period that does not parse or has no item left. An item is the value of
  the dimension and its count.
\<close>

datatype raw_period = BadPeriod | RawPeriod string "(string option \<times> int) option list"

type_synonym period = "string \<times> (string option \<times> int) list"

definition sanitize_results :: "raw_period list \<Rightarrow> period list" where
  "sanitize_results results = concat (map (\<lambda>r. case r of
     BadPeriod \<Rightarrow> []
   | RawPeriod ts items \<Rightarrow>
       let rows = concat (map (case_option [] (\<lambda>x. [x])) items) in if rows = [] then [] else [(ts, rows)]) results)"

record dimension_difference =
  dimension_key :: "string option"
  current_count :: int
  previous_count :: int
  count_difference :: int
  percentage_change :: "pyval option"

record topn_response =
  current_period :: "period list"
  previous_period :: "period list option"
  comparison :: "dimension_difference list list option"

definition period_map :: "(string option \<times> int) list \<Rightarrow> (string option, int) dict" where
  "period_map rows = foldl (\<lambda>d (k, c). AList.update k c d) [] rows"

definition get_count :: "(string option, int) dict \<Rightarrow> string option \<Rightarrow> int" where
  "get_count d k = (case map_of d k of None \<Rightarrow> 0 | Some c \<Rightarrow> c)"

text \<open>The quotient of the percentage is a float, given by \<open>pct\<close>.\<close>

definition dimension_differences :: "(int \<Rightarrow> int \<Rightarrow> pyval) \<Rightarrow> period \<Rightarrow> period \<Rightarrow> dimension_difference list" where
  "dimension_differences pct current previous =
     (let cur = period_map (snd current); prev = period_map (snd previous) in
      map (\<lambda>k. let c = get_count cur k; p = get_count prev k in
             \<lparr>dimension_key = k, current_count = c, previous_count = p, count_difference = c - p,
              percentage_change = (if p = 0 then None else Some (pct (c - p) p))\<rparr>)
        (filter (\<lambda>k. get_count cur k \<noteq> 0) (remdups (keys cur @ keys prev))))"

definition analyze_pop_results :: "(int \<Rightarrow> int \<Rightarrow> pyval) \<Rightarrow> period list \<Rightarrow> period list \<Rightarrow> topn_response" where
  "analyze_pop_results pct current previous =
     (if previous = [] then \<lparr>current_period = current, previous_period = None, comparison = None\<rparr>
      else \<lparr>current_period = current, previous_period = Some previous,
            comparison = Some (map (\<lambda>(c, p). dimension_differences pct c p) (zip current previous))\<rparr>)"

text \<open>\<open>TopNDruidQuery.execute\<close>; \<open>query s e\<close> is the answer for one period, \<open>days\<close> the longest look back.\<close>

definition topn_execute :: "(int \<Rightarrow> int \<Rightarrow> pyval) \<Rightarrow> (int \<Rightarrow> int \<Rightarrow> raw_period list result) \<Rightarrow> int \<Rightarrow> int \<Rightarrow> bool \<Rightarrow> int \<Rightarrow> int \<Rightarrow> topn_response result" where
  "topn_execute pct query now days calculate_previous_period s e =
     bindR (query s e) (\<lambda>current.
       let previous_start = s - (e - s); current = sanitize_results current in
       if previous_start < now - days * 86400000 \<or> \<not> calculate_previous_period
       then Inr \<lparr>current_period = current, previous_period = None, comparison = None\<rparr>
       else bindR (query previous_start s) (\<lambda>previous. Inr (analyze_pop_results pct current (sanitize_results previous))))"

lemma period_map_ok: "distinct (keys (period_map rows)) \<and> set (keys (period_map rows)) = fst ` set rows"
proof -
  have "distinct (keys (foldl (\<lambda>d (k, c). AList.update k c d) d rows)) \<and>
      set (keys (foldl (\<lambda>d (k, c). AList.update k c d) d rows)) = set (keys d) \<union> fst ` set rows"
    if "distinct (keys d)" for d using that
  proof (induction rows arbitrary: d)
    case (Cons r rows)
    then show ?case using distinct_keys_update [of d "fst r" "snd r"] set_keys_update [of "fst r" "snd r" d]
      by (cases r) auto
  qed simp
  from this [of "[]"] show ?thesis by (simp add: period_map_def)
qed

text \<open>Each value that occurs in the current period is compared once; the others are left out.\<close>

lemma differences_exact:
  "distinct (map dimension_key (dimension_differences pct c p)) \<and>
   set (map dimension_key (dimension_differences pct c p)) = {k. get_count (period_map (snd c)) k \<noteq> 0} \<and>
   (\<forall>d \<in> set (dimension_differences pct c p). current_count d = get_count (period_map (snd c)) (dimension_key d) \<and>
      previous_count d = get_count (period_map (snd p)) (dimension_key d) \<and>
      current_count d = previous_count d + count_difference d \<and> (percentage_change d = None \<longleftrightarrow> previous_count d = 0))"
proof -
  have "get_count (period_map (snd c)) k \<noteq> 0 \<Longrightarrow> k \<in> set (keys (period_map (snd c)))" for k
    using map_of_Some_keys [of "period_map (snd c)" k] by (auto simp: get_count_def split: option.splits)
  then show ?thesis by (auto simp: dimension_differences_def Let_def comp_def image_iff)
qed

section \<open>Keys of stored results\<close>

definition to_key_prefix :: "int \<Rightarrow> string" where
  "to_key_prefix i = (let s = int_text (i div 2 ^ 22) in rev (drop (length s - 4) s))"

definition encode_action_id :: "int \<Rightarrow> string" where
  "encode_action_id i = to_key_prefix i @ '':'' @ int_text i"

definition decode_action_id :: "string \<Rightarrow> int option" where
  "decode_action_id k = read_int (drop 1 (dropWhile (\<lambda>c. c \<noteq> CHR '':'') k))"

lemma int_text_no_colon: "CHR '':'' \<notin> set (int_text i)"
proof -
  have "CHR '':'' \<notin> set (nat_digits n)" for n using nat_digits_ok [of n] by (auto simp: list_all_iff)
  then show ?thesis by (simp add: int_text_def)
qed

text \<open>
  The row key of a stored result names its action: decoding the key of an action gives the
  action back, so no two actions share a row.
\<close>

theorem action_key_roundtrip: "decode_action_id (encode_action_id i) = Some i"
proof -
  have "CHR '':'' \<notin> set (to_key_prefix i)"
    using int_text_no_colon set_drop_subset by (fastforce simp: to_key_prefix_def Let_def)
  then have "dropWhile (\<lambda>c. c \<noteq> CHR '':'') (encode_action_id i) = '':'' @ int_text i"
    unfolding encode_action_id_def by (subst dropWhile_append2) auto
  then show ?thesis by (simp add: decode_action_id_def read_int_text)
qed

section \<open>Witnesses\<close>

text \<open>An event database that sorts by time.\<close>

definition sorting_scan :: "(int \<times> int) list \<Rightarrow> scan" where
  "sorting_scan evs s e ord n = take n (sort_key (\<lambda>x. case ord of ASCENDING \<Rightarrow> snd x | DESCENDING \<Rightarrow> - snd x) (filter (inside s e) evs))"

lemma sorting_scan_documented: "scan_documented evs (sorting_scan evs)"
  unfolding scan_documented_def
proof (intro allI exI conjI)
  fix s e ord n
  let ?f = "\<lambda>x :: int \<times> int. case ord of ASCENDING \<Rightarrow> snd x | DESCENDING \<Rightarrow> - snd x"
  let ?ys = "sort_key ?f (filter (inside s e) evs)"
  show "mset ?ys = mset (filter (inside s e) evs)" by simp
  show "sorting_scan evs s e ord n = take n ?ys" by (simp add: sorting_scan_def)
  have "sorted (map ?f ?ys)" by simp
  then show "case ord of ASCENDING \<Rightarrow> sorted (map snd ?ys) | DESCENDING \<Rightarrow> sorted (rev (map snd ?ys))"
    by (cases ord) (simp_all add: sorted_wrt_map sorted_wrt_rev)
qed

definition demo_events :: "(int \<times> int) list" where
  "demo_events = [(1, 1500), (2, 1700), (3, 2100), (4, 3900)]"

definition demo_scan :: "Ordering \<Rightarrow> scan_request" where
  "demo_scan ord = \<lparr>scan_start = 0, scan_end = 5000, scan_limit = 2, next_page = None, scan_order = ord\<rparr>"

theorem ascending_pages_complete_witness:
  "\<exists>ps. follow_pages (sorting_scan demo_events) 6 (demo_scan ASCENDING) = Some ps \<and> set (concat ps) = {1, 2, 3, 4}"
proof -
  have "sparse (scan_limit (demo_scan ASCENDING)) demo_events" by (simp add: sparse_def demo_scan_def demo_events_def)
  from ascending_pages_complete [OF sorting_scan_documented this, of 6] show ?thesis
    by (simp add: demo_scan_def demo_events_def) (auto simp: insert_commute image_def elim!: ex_forward)
qed

theorem descending_page_skips_witness:
  "\<exists>ids token. scan_page (sorting_scan demo_events) (demo_scan DESCENDING) = Inr (ids, Some token) \<and>
     (\<exists>x \<in> set demo_events. fst x \<notin> set ids \<and>
        (\<exists>e. page_interval ((demo_scan DESCENDING)\<lparr>next_page := Some token\<rparr>) = Inr (0, e) \<and> e \<le> snd x))"
proof -
  have "scan_page (sorting_scan demo_events) (demo_scan DESCENDING) = Inr ([4, 3], Some (page_token 1700))" by code_simp
  moreover have "distinct (map fst demo_events)" by (simp add: demo_events_def)
  ultimately show ?thesis
    using descending_page_skips [OF sorting_scan_documented, of demo_events "demo_scan DESCENDING"] by (fastforce simp: demo_scan_def)
qed

end
