(* ===== verification/Spec2Isabelle.thy ===== *)
theory Spec2Isabelle
  imports Py_Ast Label_Codec Validators Query_Language Static_Soundness Static_Termination Label_Functions Abilities Bulk_Label Event_Queries
begin

text \<open>
  A verification development for Osprey, a rules engine for trust and safety
  (\<open>src/osprey_worker/src/osprey\<close>; all paths below are relative to it).

  \<^bold>\<open>The program.\<close> Rules are written in a subset of Python. Sources are parsed
  (\<open>engine/ast\<close>), checked by a set of validators (\<open>engine/ast_validator\<close>, \<open>engine/udf\<close>), compiled to
  dependency chains and executed for each action by an executor with a topological scheduler
  (\<open>engine/executor\<close>). Functions called by rules (UDFs, \<open>engine/stdlib/udfs\<close>) read the action, compute
  features and emit effects; a worker (\<open>worker/sinks\<close>) turns the effects into label mutations and applies
  them through the labels provider (\<open>worker/lib/storage/labels.py\<close>). Results are stored and indexed by an
  event database, Druid. The UI API (\<open>worker/ui_api\<close>) translates queries to Druid filters, enforces
  abilities, censors stored results, and hands bulk label jobs to a sink of their own.

  \<^bold>\<open>Conventions.\<close> \<open>Prelude\<close> has the vocabulary: exceptions are a datatype, a fallible operation returns
  \<open>py_exc + 'a\<close> and is sequenced with \<open>bindR\<close>, \<open>mapR\<close> and \<open>loopR\<close>; a dictionary is an association list in
  insertion order. State is passed explicitly in records that mirror the classes. Python integers are
  \<open>int\<close>; a float is a 64-bit word, and arithmetic on floats is a parameter (\<open>py_env\<close>). Code outside the
  repository (Druid, the mmh3 hash, the edit distance, the JSON path library, the label service, the
  clock) is an argument of the definitions that use it; where a theorem relies on its behaviour, the
  documented behaviour is a named hypothesis (\<open>druid_semantics\<close>, \<open>exact_texts\<close>, \<open>scan_documented\<close>) and a
  witness gives a concrete instance.

  \<^bold>\<open>From text to syntax.\<close>
  \<^item> \<open>Grammar\<close>: \<open>engine/ast/grammar.py\<close> and \<open>ast_utils.py\<close>, the syntax tree, its traversal, constants and
    which features may be extracted.
  \<^item> \<open>Py_Ast\<close>: \<open>engine/ast/py_ast.py\<close>, the transformer from Python's tree, every error with its position. What
    it accepts is well formed and its nodes have identities of their own; parents are set for every node.

  \<^bold>\<open>Validation.\<close>
  \<^item> \<open>Graph\<close>: \<open>engine/utils/graph.py\<close> and the validator of import cycles. The depth-first sort returns an order
    or reports a cycle exactly when there is one.
  \<^item> \<open>Validation\<close>: \<open>validation_context.py\<close>, validators as programs over the context. Validation ends, does not
    depend on the order of the registry, and a result means that every validator ran without an error.
  \<^item> \<open>Validators\<close>: unique and defined names, unused locals, call values and \<open>Import\<close>. Sources that pass compile.
  \<^item> \<open>Py_Types\<close>, \<open>Type_Checkers\<close>, \<open>Static_Types\<close>: \<open>engine/udf/type_evaluator.py\<close>, \<open>type_helpers.py\<close>,
    \<open>rvalue_type_checker.py\<close>, \<open>stdlib/udfs/json_data.py\<close>, \<open>entity.py\<close> and
    \<open>validators/validate_static_types.py\<close>. The locale \<open>class_hierarchy\<close> states what is asked of a table of
    classes and is interpreted with the classes of \<open>language_types\<close>. A run-time checker accepts the values of
    the static type of its annotation, and \<open>JsonData\<close> returns such values only.
  \<^item> \<open>Type_Soundness\<close>, \<open>Typing_Run\<close>, \<open>Static_Soundness\<close>, \<open>Static_Termination\<close>: a typing judgement over the
    evaluation of expressions; an accepted run of the checker establishes it, so accepted expressions
    evaluate to values of their type without type errors. The checker ends on every program.

  \<^bold>\<open>Execution.\<close>
  \<^item> \<open>Scheduler\<close> and \<open>Topo_Sorter\<close>: the locale \<open>scheduler\<close> is what the execution context relies on; it is
    interpreted with \<open>executor/topological_sorter.py\<close>. Nodes are handed out once, after their predecessors,
    also when nodes are added during the run.
  \<^item> \<open>Execution_Graph\<close>: \<open>execution_graph.py\<close>, \<open>dependency_chain.py\<close>; when compilation succeeds and which chains
    it yields.
  \<^item> \<open>Node_Executors\<close>, \<open>Executor\<close>: the node executors, \<open>execution_context.py\<close> and \<open>executor.py\<close>, with every
    interleaving of handing out, executing and storing as a step relation.
  \<^item> \<open>Evaluation\<close>: the abstract specification, a recursive evaluation of chains without a scheduler, and the
    refinement: in every schedule the executor computes exactly it. This theory closes the path from
    validated sources to results.

  \<^bold>\<open>Functions, effects and labels.\<close>
  \<^item> \<open>Experiments\<close>: \<open>stdlib/udfs/experiments.py\<close>; shares of buckets, stability of a rollout, totality.
  \<^item> \<open>Rules\<close> and \<open>Label_Functions\<close>: \<open>Rule\<close>, \<open>WhenRules\<close>, the label functions, and
    \<open>worker/sinks/sink/output_sink.py\<close>. Effects are mutable objects in a store. Pushing a result changes
    exactly the requested labels, and a failed condition suppresses an effect.
  \<^item> \<open>Datetime\<close>, \<open>Date_Arithmetic\<close>: what is used of Python's \<open>datetime\<close>; the locale \<open>iso_codec\<close> is the contract
    of the ISO format.
  \<^item> \<open>Labels\<close>, \<open>Label_Codec\<close>: \<open>worker/lib/osprey_shared/labels.py\<close> and \<open>worker/lib/storage/labels.py\<close>; the
    invariant of labels, resolution of conflicts, every transition of a state, accounting of mutations and
    the JSON round trip.
  \<^item> \<open>Bulk_Label\<close>: \<open>worker/lib/storage/bulk_label_task.py\<close> and \<open>bulk_label_sink.py\<close>. The life of a task is a
    relation over claims, runs and deaths of workers; what is labelled, claims, windows and rollback.

  \<^bold>\<open>Queries and access.\<close>
  \<^item> \<open>Query_Language\<close>: \<open>engine/query_language\<close>, the translation to Druid filters and its correctness.
  \<^item> \<open>Abilities\<close>: \<open>ui_api/osprey/lib/abilities.py\<close>, \<open>users.py\<close>, the views of events and entities and the
    censoring of \<open>stored_execution_result.py\<close>. Which leaves of a stored result a user sees, which events a
    query selects, which labels can be changed by hand.
  \<^item> \<open>Event_Queries\<close>: \<open>ui_api/osprey/lib/druid.py\<close> and the row keys of results; completeness of ascending
    pages, the event that a descending page loses, the comparison of periods.

  \<^bold>\<open>Bounds and fuel.\<close> Definitions are total wherever the code ends for a structural reason or by a measure.
  \<open>validate_source\<close> has fuel \<open>Suc (length srcs)\<close>: a source is marked when it is entered and not entered
  again, so the depth of imports is at most the number of sources. \<open>run_validator\<close> takes a bound on nested
  calls, and any bound above the number of registered validators is enough: a validator on the stack is
  not run again. Both are proved never to run out. The loop of the executor is a partial function into \<open>option\<close>, proved to return on every
  compiled graph with an entry point. \<open>follow_pages\<close> is proved to end within one page per second of the interval and one more.
  Retries have the limits of the code (3 queries, 10 calls of the label service).

  \<^bold>\<open>Not modelled\<close>, because it is input and output, generated, or only forwards to a service: input streams,
  the acking of messages, the storage backends, the views of saved queries and authentication, etcd, service
  discovery and RPC, metrics, logging and plugins, the rendering of errors and graphs, the parsers of YAML
  and Python, the coordinator (Rust), the web UI (TypeScript) and the protocol buffers. Single UDFs such as
  the string functions are values of the UDF parameter of the executor. Of \<open>engine/udf/registry.py\<close> and
  \<open>arguments.py\<close> the reflection over class annotations is left out. Floating-point results, the text of
  floats and the format mini-language are parameters.
\<close>

section \<open>From validated sources to results\<close>

lemma tree_ids_permutation:
  assumes "mset srcs = mset srcs'"
  shows "distinct (tree_ids (ordered_statements srcs)) \<longleftrightarrow> distinct (tree_ids (ordered_statements srcs'))"
proof -
  have "mset (tree_ids (ordered_statements xs)) =
      \<Sum>\<^sub># (image_mset (\<lambda>s. mset (tree_ids (statements_of (snd s)))) (mset xs))" for xs
    by (induction xs) (simp_all add: ordered_statements_def tree_ids_def)
  with assms show ?thesis by (metis mset_eq_imp_distinct_iff)
qed



end
